(* ===== verification/Prelude.thy ===== *)
theory Prelude
  imports Complex_Main "HOL-Library.Word" "HOL-Library.Sublist" "HOL-Library.Char_ord"
    "HOL-Library.List_Lexorder"
begin

text \<open>
  Shared vocabulary of the development: the machine types of the C++ sources, the parts of the
  C and C++ standard library the components use (character classes, decimal printing,
  substring search), and the state-and-exception type in which the submission manager is
  written, with its weakest-precondition calculus.

  A \<open>std::string\<close> is a \<^typ>\<open>string\<close>, one \<^typ>\<open>char\<close> per byte. A parser that walks a string with
  an index \<open>i\<close> is modelled on the suffix that starts at \<open>i\<close>: reading past the end is the empty
  suffix. Byte-wise comparison (\<open>std::string\<close>, SQLite's BINARY collation) is the
  lexicographic order of \<open>List_Lexorder\<close> over \<open>Char_ord\<close>.
\<close>

type_synonym u32 = "32 word"
type_synonym u64 = "64 word"

text \<open>
  An IEEE double that is only carried along (hashes per second) is its 64-bit pattern.
\<close>

type_synonym double = "64 word"

named_theorems char_class \<open>definitions of the C character classes\<close>
named_theorems wp_simps \<open>weakest preconditions of the primitive steps\<close>
named_theorems yield_intros \<open>what the results of a step satisfy\<close>
named_theorems keep_intros \<open>steps that keep a relation between their pre- and post-state\<close>


section \<open>C character classes and decimal text\<close>

definition code :: "char \<Rightarrow> nat" where
  "code c = of_char c"

definition isspace :: "char \<Rightarrow> bool" where
  [char_class]: "isspace c = (let n = code c in n = 32 \<or> (9 \<le> n \<and> n \<le> 13))"

definition isdigit :: "char \<Rightarrow> bool" where
  [char_class]: "isdigit c = (let n = code c in 48 \<le> n \<and> n \<le> 57)"

definition isupper :: "char \<Rightarrow> bool" where
  [char_class]: "isupper c = (let n = code c in 65 \<le> n \<and> n \<le> 90)"

definition islower :: "char \<Rightarrow> bool" where
  [char_class]: "islower c = (let n = code c in 97 \<le> n \<and> n \<le> 122)"

definition isalnum :: "char \<Rightarrow> bool" where
  [char_class]: "isalnum c = (isdigit c \<or> isupper c \<or> islower c)"

definition tolower :: "char \<Rightarrow> char" where
  "tolower c = (if isupper c then char_of (code c + 32) else c)"

definition digit_val :: "char \<Rightarrow> nat" where
  "digit_val c = code c - 48"

definition digit_char :: "nat \<Rightarrow> char" where
  "digit_char d = char_of (48 + d)"

text \<open>\<open>std::to_string\<close> of an unsigned and of a signed integer.\<close>

fun to_dec :: "nat \<Rightarrow> string" where
  "to_dec n = (if n < 10 then [digit_char n] else to_dec (n div 10) @ [digit_char (n mod 10)])"

declare to_dec.simps [simp del]

definition to_dec_int :: "int \<Rightarrow> string" where
  "to_dec_int i = (if i < 0 then CHR ''-'' # to_dec (nat (- i)) else to_dec (nat i))"

text \<open>The value of a run of digits, most significant first.\<close>

definition dec_val :: "string \<Rightarrow> nat" where
  "dec_val s = foldl (\<lambda>v c. v * 10 + digit_val c) 0 s"

text \<open>A C hexadecimal digit, as the nibble lambdas of the sources compute it.\<close>

definition hex_nibble :: "char \<Rightarrow> nat option" where
  "hex_nibble c =
     (let n = code c in
      if 48 \<le> n \<and> n \<le> 57 then Some (n - 48)
      else if 97 \<le> n \<and> n \<le> 102 then Some (n - 97 + 10)
      else if 65 \<le> n \<and> n \<le> 70 then Some (n - 65 + 10)
      else None)"

text \<open>\<open>kHex[n]\<close> of the serializers: lowercase hexadecimal digits.\<close>

definition hex_char :: "nat \<Rightarrow> char" where
  "hex_char n = (if n < 10 then char_of (48 + n) else char_of (87 + n))"

text \<open>\<open>haystack.find(needle) != npos\<close>.\<close>

fun contains :: "string \<Rightarrow> string \<Rightarrow> bool" where
  "contains [] needle = (needle = [])"
| "contains (c # s) needle = (prefix needle (c # s) \<or> contains s needle)"

text \<open>\<open>while (i < s.size() && p(s[i])) ++i\<close>, on the suffix at \<open>i\<close>.\<close>

abbreviation skip_while :: "(char \<Rightarrow> bool) \<Rightarrow> string \<Rightarrow> string" where
  "skip_while \<equiv> dropWhile"


text \<open>The UTF-8 bytes of the dash in the sources' messages.\<close>

definition em_dash :: string where "em_dash = [CHR 0xE2, CHR 0x80, CHR 0x94]"

text \<open>C++ integer division and remainder truncate towards zero.\<close>

definition cdiv :: "int \<Rightarrow> int \<Rightarrow> int" where
  "cdiv a b = sgn a * sgn b * (\<bar>a\<bar> div \<bar>b\<bar>)"

definition crem :: "int \<Rightarrow> int \<Rightarrow> int" where
  "crem a b = a - cdiv a b * b"


section \<open>Facts about characters and decimal text\<close>

lemma code_less [simp]: "code c < 256"
  unfolding code_def by (cases c) simp

lemma code_char_of [simp]: "code (char_of n) = n mod 256"
  by (simp add: code_def)

lemma code_inj [simp]: "code c = code d \<longleftrightarrow> c = d"
  by (simp add: code_def)

lemma char_of_code [simp]: "char_of (code c) = c"
  by (simp add: code_def)

lemma digit_char_code [simp]: "d < 10 \<Longrightarrow> code (digit_char d) = 48 + d"
  by (simp add: digit_char_def)

lemma isdigit_digit_char [simp]: "d < 10 \<Longrightarrow> isdigit (digit_char d)"
  by (simp add: isdigit_def Let_def)

lemma digit_val_digit_char [simp]: "d < 10 \<Longrightarrow> digit_val (digit_char d) = d"
  by (simp add: digit_val_def)

lemma isdigit_bounds: "isdigit c \<Longrightarrow> digit_val c < 10"
  by (auto simp: isdigit_def digit_val_def Let_def)

lemma digit_char_less: "a < 10 \<Longrightarrow> b < 10 \<Longrightarrow> digit_char a < digit_char b \<longleftrightarrow> a < b"
  by (simp add: less_char_def digit_char_def of_char_of)

lemma digit_char_inj: "a < 10 \<Longrightarrow> b < 10 \<Longrightarrow> digit_char a = digit_char b \<longleftrightarrow> a = b"
  by (metis digit_val_digit_char)

lemma to_dec_digits: "c \<in> set (to_dec n) \<Longrightarrow> isdigit c"
proof (induction n rule: to_dec.induct)
  case (1 n)
  then show ?case by (subst (asm) (2) to_dec.simps) (auto split: if_splits)
qed

lemma to_dec_nonempty [simp]: "to_dec n \<noteq> []"
  by (subst to_dec.simps) simp

lemma dec_val_snoc [simp]: "dec_val (s @ [c]) = dec_val s * 10 + digit_val c"
  by (simp add: dec_val_def)

lemma dec_val_Nil [simp]: "dec_val [] = 0"
  by (simp add: dec_val_def)

lemma dec_val_to_dec [simp]: "dec_val (to_dec n) = n"
proof (induction n rule: to_dec.induct)
  case (1 n)
  show ?case
  proof (cases "n < 10")
    case True
    then show ?thesis by (subst to_dec.simps) (simp add: dec_val_def)
  next
    case False
    then show ?thesis using 1 by (subst to_dec.simps) simp
  qed
qed

lemma contains_iff_sublist: "contains h n \<longleftrightarrow> sublist n h"
  by (induction h) (auto simp: sublist_Cons_right)

lemma hex_nibble_less: "hex_nibble c = Some v \<Longrightarrow> v < 16"
  by (auto simp: hex_nibble_def Let_def split: if_splits)

lemma hex_nibble_hex_char [simp]: "n < 16 \<Longrightarrow> hex_nibble (hex_char n) = Some n"
  by (auto simp: hex_nibble_def hex_char_def Let_def)

lemma dropWhile_length: "length (dropWhile p s) \<le> length s"
  by (rule length_dropWhile_le)


lemma cdiv_nonneg [simp]: "0 \<le> a \<Longrightarrow> 0 < b \<Longrightarrow> cdiv a b = a div b"
  by (cases "a = 0") (simp_all add: cdiv_def sgn_if)

lemma crem_nonneg [simp]: "0 \<le> a \<Longrightarrow> 0 < b \<Longrightarrow> crem a b = a mod b"
  by (simp add: crem_def minus_div_mult_eq_mod)

lemma cdiv_neg: "a < 0 \<Longrightarrow> 0 < b \<Longrightarrow> cdiv a b = - (- a div b)"
  by (simp add: cdiv_def sgn_if)

lemma unat_u32_less [simp]: "unat (x :: u32) < 4294967296"
proof -
  have "unat x < 2 ^ LENGTH(32)" by (rule unsigned_less)
  then show ?thesis by simp
qed

lemma unat_u64_less [simp]: "unat (x :: u64) < 18446744073709551616"
proof -
  have "unat x < 2 ^ LENGTH(64)" by (rule unsigned_less)
  then show ?thesis by simp
qed


section \<open>Steps that read and write a state and may throw\<close>

text \<open>
  A C++ member function that may throw runs from a state to either an exception or a value,
  and in both cases to the state at that moment: what was written before a \<open>throw\<close> stays
  written.
\<close>

type_synonym ('s, 'a) step = "'s \<Rightarrow> (string + 'a) \<times> 's"

definition ret :: "'a \<Rightarrow> ('s, 'a) step" where
  "ret a = (\<lambda>s. (Inr a, s))"

definition throw :: "string \<Rightarrow> ('s, 'a) step" where
  "throw e = (\<lambda>s. (Inl e, s))"

definition bind_step :: "('s, 'a) step \<Rightarrow> ('a \<Rightarrow> ('s, 'b) step) \<Rightarrow> ('s, 'b) step" where
  "bind_step m f = (\<lambda>s. case m s of (Inl e, s') \<Rightarrow> (Inl e, s') | (Inr a, s') \<Rightarrow> f a s')"

definition seq_step :: "('s, 'a) step \<Rightarrow> ('s, 'b) step \<Rightarrow> ('s, 'b) step" where
  "seq_step m n = bind_step m (\<lambda>_. n)"

definition gets :: "('s \<Rightarrow> 'a) \<Rightarrow> ('s, 'a) step" where
  "gets f = (\<lambda>s. (Inr (f s), s))"

definition modify :: "('s \<Rightarrow> 's) \<Rightarrow> ('s, unit) step" where
  "modify f = (\<lambda>s. (Inr (), f s))"

definition when_step :: "bool \<Rightarrow> ('s, unit) step \<Rightarrow> ('s, unit) step" where
  "when_step b m = (if b then m else ret ())"

fun for_each :: "('a \<Rightarrow> ('s, unit) step) \<Rightarrow> 'a list \<Rightarrow> ('s, unit) step" where
  "for_each f [] = ret ()"
| "for_each f (x # xs) = seq_step (f x) (for_each f xs)"

text \<open>The weakest precondition of a step, for its normal and for its exceptional exit.\<close>

definition wp :: "('s, 'a) step \<Rightarrow> ('a \<Rightarrow> 's \<Rightarrow> bool) \<Rightarrow> (string \<Rightarrow> 's \<Rightarrow> bool) \<Rightarrow> 's \<Rightarrow> bool" where
  "wp m Q E s = (case m s of (Inl e, s') \<Rightarrow> E e s' | (Inr a, s') \<Rightarrow> Q a s')"

lemma wp_ret [wp_simps]: "wp (ret a) Q E s = Q a s"
  by (simp add: wp_def ret_def)

lemma wp_throw [wp_simps]: "wp (throw e) Q E s = E e s"
  by (simp add: wp_def throw_def)

lemma wp_bind [wp_simps]: "wp (bind_step m f) Q E s = wp m (\<lambda>a. wp (f a) Q E) E s"
  by (simp add: wp_def bind_step_def split: prod.splits sum.splits)

lemma wp_seq [wp_simps]: "wp (seq_step m n) Q E s = wp m (\<lambda>_. wp n Q E) E s"
  by (simp add: seq_step_def wp_bind)

lemma wp_gets [wp_simps]: "wp (gets f) Q E s = Q (f s) s"
  by (simp add: wp_def gets_def)

lemma wp_modify [wp_simps]: "wp (modify f) Q E s = Q () (f s)"
  by (simp add: wp_def modify_def)

lemma wp_when [wp_simps]: "wp (when_step b m) Q E s = (if b then wp m Q E s else Q () s)"
  by (simp add: when_step_def wp_ret)

lemma wp_if [wp_simps]: "wp (if b then m else n) Q E s = (if b then wp m Q E s else wp n Q E s)"
  by simp

lemma wp_conseq:
  assumes "wp m Q E s" and "\<And>a t. Q a t \<Longrightarrow> Q' a t" and "\<And>e t. E e t \<Longrightarrow> E' e t"
  shows "wp m Q' E' s"
  using assms by (auto simp: wp_def split: prod.splits sum.splits)

lemma wp_result: "wp m Q E s \<Longrightarrow> m s = (Inr a, t) \<Longrightarrow> Q a t"
  by (simp add: wp_def)

lemma wp_final: "wp m (\<lambda>_. P) (\<lambda>_. P) s \<longleftrightarrow> P (snd (m s))"
  by (auto simp: wp_def split: prod.splits sum.splits)

text \<open>
  A step keeps a relation when every run of it, normal or exceptional, is related to its
  start. For a preorder this composes along the program text.
\<close>

definition keeps :: "('s \<Rightarrow> 's \<Rightarrow> bool) \<Rightarrow> ('s, 'a) step \<Rightarrow> bool" where
  "keeps R m = (\<forall>s. R s (snd (m s)))"

lemma keepsD: "keeps R m \<Longrightarrow> R s (snd (m s))"
  by (simp add: keeps_def)

lemma keeps_ret [keep_intros]: "reflp R \<Longrightarrow> keeps R (ret a)"
  by (simp add: keeps_def ret_def reflpD)

lemma keeps_throw [keep_intros]: "reflp R \<Longrightarrow> keeps R (throw e)"
  by (simp add: keeps_def throw_def reflpD)

lemma keeps_gets [keep_intros]: "reflp R \<Longrightarrow> keeps R (gets f)"
  by (simp add: keeps_def gets_def reflpD)

lemma keeps_modify [keep_intros]: "(\<And>s. R s (f s)) \<Longrightarrow> keeps R (modify f)"
  by (simp add: keeps_def modify_def)

lemma keeps_bind [keep_intros]:
  assumes "transp R" and "keeps R m" and "\<And>a. keeps R (f a)"
  shows "keeps R (bind_step m f)"
  unfolding keeps_def
proof
  fix s
  obtain r t where m: "m s = (r, t)" by (cases "m s")
  have st: "R s t" using keepsD [OF assms(2), of s] m by simp
  show "R s (snd (bind_step m f s))"
  proof (cases r)
    case (Inl e)
    then show ?thesis using m st by (simp add: bind_step_def)
  next
    case (Inr a)
    then show ?thesis using m transpD [OF assms(1) st keepsD [OF assms(3)]]
      by (simp add: bind_step_def)
  qed
qed

lemma keeps_seq [keep_intros]:
  "transp R \<Longrightarrow> keeps R m \<Longrightarrow> keeps R n \<Longrightarrow> keeps R (seq_step m n)"
  unfolding seq_step_def by (rule keeps_bind)

lemma keeps_when [keep_intros]:
  "reflp R \<Longrightarrow> (b \<Longrightarrow> keeps R m) \<Longrightarrow> keeps R (when_step b m)"
  by (simp add: when_step_def keeps_ret)

lemma keeps_if [keep_intros]:
  "(b \<Longrightarrow> keeps R m) \<Longrightarrow> (\<not> b \<Longrightarrow> keeps R n) \<Longrightarrow> keeps R (if b then m else n)"
  by simp

lemma keeps_option [keep_intros]:
  "keeps R m \<Longrightarrow> (\<And>a. x = Some a \<Longrightarrow> keeps R (f a)) \<Longrightarrow>
   keeps R (case x of None \<Rightarrow> m | Some a \<Rightarrow> f a)"
  by (cases x) auto

lemma keeps_for_each [keep_intros]:
  assumes "reflp R" and "transp R" and "\<And>x. keeps R (f x)"
  shows "keeps R (for_each f xs)"
  by (induction xs) (simp_all add: keeps_ret keeps_seq assms)


text \<open>What every normal result of a step satisfies, read off the program text.\<close>

definition yields :: "('a \<Rightarrow> bool) \<Rightarrow> ('s, 'a) step \<Rightarrow> bool" where
  "yields P m = (\<forall>s a s'. m s = (Inr a, s') \<longrightarrow> P a)"

lemma yieldsD: "yields P m \<Longrightarrow> m s = (Inr a, s') \<Longrightarrow> P a"
  unfolding yields_def by blast

lemma yields_ret [yield_intros]: "P a \<Longrightarrow> yields P (ret a)"
  by (simp add: yields_def ret_def)

lemma yields_bind [yield_intros]: "(\<And>a. yields P (f a)) \<Longrightarrow> yields P (bind_step m f)"
  by (auto simp: yields_def bind_step_def split: prod.splits sum.splits)

lemma yields_seq [yield_intros]: "yields P n \<Longrightarrow> yields P (seq_step m n)"
  by (simp add: seq_step_def yields_bind)

lemma yields_if [yield_intros]:
  "(b \<Longrightarrow> yields P m) \<Longrightarrow> (\<not> b \<Longrightarrow> yields P n) \<Longrightarrow> yields P (if b then m else n)"
  by simp

lemma yields_let [yield_intros]: "yields P (f a) \<Longrightarrow> yields P (let x = a in f x)"
  by simp

lemma wp_keeps_yields:
  assumes "keeps R m" and "yields P m"
  shows "wp m (\<lambda>a s'. R s s' \<and> P a) (\<lambda>_ s'. R s s') s"
  using keepsD [OF assms(1), of s] yieldsD [OF assms(2), of s] by (auto simp: wp_def split: prod.splits sum.splits)

text \<open>Reading a list of rows, any of which may throw.\<close>

fun traverse :: "('a \<Rightarrow> string + 'b) \<Rightarrow> 'a list \<Rightarrow> string + 'b list" where
  "traverse f [] = Inr []"
| "traverse f (x # xs) =
     (case f x of
        Inl e \<Rightarrow> Inl e
      | Inr y \<Rightarrow> (case traverse f xs of Inl e \<Rightarrow> Inl e | Inr ys \<Rightarrow> Inr (y # ys)))"

lemma traverse_total: "(\<And>x. x \<in> set xs \<Longrightarrow> f x = Inr (g x)) \<Longrightarrow> traverse f xs = Inr (map g xs)"
  by (induction xs) auto


section \<open>Machines with an invariant\<close>

text \<open>
  The contract every stateful component of the miner offers its client: operations (as events)
  that keep an invariant as long as the client's events are admissible. What follows for whole
  runs is proved once.
\<close>

locale machine =
  fixes apply_event :: "'e \<Rightarrow> 's \<Rightarrow> 's"
    and inv :: "'s \<Rightarrow> bool"
    and ok :: "'e \<Rightarrow> bool"
  assumes event_inv: "inv s \<Longrightarrow> ok e \<Longrightarrow> inv (apply_event e s)"
begin

lemma run_inv: "inv s \<Longrightarrow> (\<And>e. e \<in> set es \<Longrightarrow> ok e) \<Longrightarrow> inv (fold apply_event es s)"
  by (induction es arbitrary: s) (auto intro: event_inv)

end

text \<open>
  A machine whose events also keep a preorder between states: what a run did is related to where
  it began.
\<close>

locale monotone_machine = machine +
  fixes le :: "'b \<Rightarrow> 'b \<Rightarrow> bool"
  assumes le_refl: "le s s"
    and le_trans: "le s t \<Longrightarrow> le t u \<Longrightarrow> le s u"
    and event_le: "inv s \<Longrightarrow> ok e \<Longrightarrow> le s (apply_event e s)"
begin

lemma run_le: "inv s \<Longrightarrow> (\<And>e. e \<in> set es \<Longrightarrow> ok e) \<Longrightarrow> le s (fold apply_event es s)"
proof (induction es arbitrary: s)
  case Nil
  then show ?case by (simp add: le_refl)
next
  case (Cons e es)
  have "le s (apply_event e s)" using Cons.prems by (intro event_le) auto
  moreover have "le (apply_event e s) (fold apply_event es (apply_event e s))"
    using Cons by (simp add: event_inv)
  ultimately show ?case by (simp add: le_trans)
qed

end

end
