(* ===== verification/Find_Types.thy ===== *)
theory Find_Types
  imports Prelude
begin

text \<open>
  \<open>src/treeminer/Types.h\<close> and \<open>Types.cpp\<close>: the data shared by the journal and the submitter.
  A find is captured once (\<open>FoundPayload\<close>) and then moves through the nine states of
  \<open>FindStatus\<close> inside a \<open>FindRecord\<close>.
\<close>

datatype FindKind = XEN11 | XUNI

datatype FindStatus =
    Pending | Submitting | AcceptedUnconfirmed | Acked | ParkedDifficulty | ParkedXuniWindow
  | Quarantined | Dead | PermanentlyInvalid

record FoundPayload =
  key :: string
  hash_to_verify :: string
  account :: string
  kind :: FindKind
  memory_cost :: u32
  worker :: string
  attempts :: u64
  hashes_per_second :: double
  found_at_utc :: string

record FindRecord =
  id :: int
  payload :: FoundPayload
  status :: FindStatus
  status_reason :: string
  attempt_count :: int
  next_attempt_at :: "string option"
  last_attempt_at :: "string option"
  last_http_status :: "int option"
  last_response :: string
  confirmed_at :: "string option"
  xuni_windows_tried :: int

record Classification =
  next_status :: FindStatus
  server_difficulty_hint :: "u32 option"
  needs_lookup_confirmation :: bool
  reason :: string

fun status_to_string :: "FindStatus \<Rightarrow> string" where
  "status_to_string Pending = ''Pending''"
| "status_to_string Submitting = ''Submitting''"
| "status_to_string AcceptedUnconfirmed = ''AcceptedUnconfirmed''"
| "status_to_string Acked = ''Acked''"
| "status_to_string ParkedDifficulty = ''ParkedDifficulty''"
| "status_to_string ParkedXuniWindow = ''ParkedXuniWindow''"
| "status_to_string Quarantined = ''Quarantined''"
| "status_to_string Dead = ''Dead''"
| "status_to_string PermanentlyInvalid = ''PermanentlyInvalid''"

fun kind_to_string :: "FindKind \<Rightarrow> string" where
  "kind_to_string XEN11 = ''XEN11''"
| "kind_to_string XUNI = ''XUNI''"

text \<open>The states nothing leaves (comment on \<open>FindStatus\<close>).\<close>

definition terminal :: "FindStatus \<Rightarrow> bool" where
  "terminal st = (st = Acked \<or> st = Dead \<or> st = PermanentlyInvalid)"

lemma status_to_string_inj [simp]: "status_to_string a = status_to_string b \<longleftrightarrow> a = b"
  by (cases a; cases b) simp_all

lemma kind_to_string_inj [simp]: "kind_to_string a = kind_to_string b \<longleftrightarrow> a = b"
  by (cases a; cases b) simp_all

end
