(* ===== verification/Find_Journal.thy ===== *)
theory Find_Journal
  imports Find_Types
begin

text \<open>
  \<open>src/journal/FindJournal.cpp\<close>: the durable find journal behind \<open>IFindJournal\<close>. The database
  is its three tables; every SQL statement of the source is a function on them. The table
  \<open>finds\<close> holds columns, not records: text, integers and NULLs, read back through
  \<open>rowToRecord\<close>, which may throw.

  SQLite itself is not modelled. Each operation takes the fault its calls into SQLite may
  report: \<^term>\<open>Some msg\<close> makes the operation throw \<open>JournalError\<close> with the database as before,
  which is what a rolled-back transaction and an atomic statement leave.
\<close>

type_synonym sqlite_fault = "string option"

record find_row =
  col_id :: int
  col_key :: string
  col_hash_to_verify :: string
  col_account :: string
  col_kind :: string
  col_m :: int
  col_worker :: "string option"
  col_attempts :: int
  col_hashes_per_second :: "double option"
  col_found_at :: string
  col_status :: string
  col_status_reason :: "string option"
  col_attempt_count :: int
  col_next_attempt_at :: "string option"
  col_last_attempt_at :: "string option"
  col_last_http_status :: "int option"
  col_last_response :: "string option"
  col_confirmed_at :: "string option"
  col_xuni_windows_tried :: int

record db =
  finds :: "find_row list"
  difficulty_seen :: "(string \<times> int) list"
  schema_version :: "int list"

definition kMaxHashToVerifyLength :: nat where "kMaxHashToVerifyLength = 150"
definition kSupportedSchemaVersion :: int where "kSupportedSchemaVersion = 1"

definition statusFromString :: "string \<Rightarrow> string + FindStatus" where
  "statusFromString s =
     (if s = ''Pending'' then Inr Pending
      else if s = ''Submitting'' then Inr Submitting
      else if s = ''AcceptedUnconfirmed'' then Inr AcceptedUnconfirmed
      else if s = ''Acked'' then Inr Acked
      else if s = ''ParkedDifficulty'' then Inr ParkedDifficulty
      else if s = ''ParkedXuniWindow'' then Inr ParkedXuniWindow
      else if s = ''Quarantined'' then Inr Quarantined
      else if s = ''Dead'' then Inr Dead
      else if s = ''PermanentlyInvalid'' then Inr PermanentlyInvalid
      else Inl (''journal: unknown status string in database: '' @ [CHR 0x27] @ s @ [CHR 0x27]))"

definition kindFromString :: "string \<Rightarrow> string + FindKind" where
  "kindFromString s =
     (if s = ''XEN11'' then Inr XEN11
      else if s = ''XUNI'' then Inr XUNI
      else Inl (''journal: unknown kind string in database: '' @ [CHR 0x27] @ s @ [CHR 0x27]))"

text \<open>
  \<open>Statement\<close>: binding and reading columns. An empty text bound with \<open>bindTextOrNull\<close> is NULL;
  SQLite stores a NaN as NULL and reads NULL as 0.0; \<open>columnText\<close> stops at the first NUL byte.
\<close>

definition bindTextOrNull :: "string \<Rightarrow> string option" where
  "bindTextOrNull v = (if v = [] then None else Some v)"

definition is_nan :: "double \<Rightarrow> bool" where
  "is_nan d = (let n = unat d mod 9223372036854775808 in 9218868437227405312 < n)"

definition bindDouble :: "double \<Rightarrow> double option" where
  "bindDouble d = (if is_nan d then None else Some d)"

definition columnText :: "string option \<Rightarrow> string" where
  "columnText v = (case v of None \<Rightarrow> [] | Some t \<Rightarrow> takeWhile (\<lambda>c. c \<noteq> CHR 0x00) t)"

definition columnOptionalText :: "string option \<Rightarrow> string option" where
  "columnOptionalText v = (case v of None \<Rightarrow> None | Some t \<Rightarrow> Some (columnText (Some t)))"

definition columnDouble :: "double option \<Rightarrow> double" where
  "columnDouble v = (case v of None \<Rightarrow> 0 | Some d \<Rightarrow> d)"

text \<open>\<open>static_cast<std::int32_t>\<close> of a 64-bit column.\<close>

definition to_int32 :: "int \<Rightarrow> int" where
  "to_int32 i = sint (word_of_int i :: 32 word)"

definition rowToRecord :: "find_row \<Rightarrow> string + FindRecord" where
  "rowToRecord row =
     (case kindFromString (columnText (Some (col_kind row))) of
        Inl e \<Rightarrow> Inl e
      | Inr k \<Rightarrow>
     (case statusFromString (columnText (Some (col_status row))) of
        Inl e \<Rightarrow> Inl e
      | Inr st \<Rightarrow>
        Inr \<lparr>id = col_id row,
             payload = \<lparr>key = columnText (Some (col_key row)),
                        hash_to_verify = columnText (Some (col_hash_to_verify row)),
                        account = columnText (Some (col_account row)),
                        kind = k,
                        memory_cost = word_of_int (col_m row),
                        worker = columnText (col_worker row),
                        attempts = word_of_int (col_attempts row),
                        hashes_per_second = columnDouble (col_hashes_per_second row),
                        found_at_utc = columnText (Some (col_found_at row))\<rparr>,
             status = st,
             status_reason = columnText (col_status_reason row),
             attempt_count = to_int32 (col_attempt_count row),
             next_attempt_at = columnOptionalText (col_next_attempt_at row),
             last_attempt_at = columnOptionalText (col_last_attempt_at row),
             last_http_status = map_option to_int32 (col_last_http_status row),
             last_response = columnText (col_last_response row),
             confirmed_at = columnOptionalText (col_confirmed_at row),
             xuni_windows_tried = to_int32 (col_xuni_windows_tried row)\<rparr>))"


section \<open>Operations\<close>

text \<open>A statement that SQLite refuses throws; otherwise the operation goes on.\<close>

definition sqlite :: "sqlite_fault \<Rightarrow> (db, 'a) step \<Rightarrow> (db, 'a) step" where
  "sqlite fault m = (case fault of Some e \<Rightarrow> throw e | None \<Rightarrow> m)"

text \<open>
  \<open>ensureSchema\<close> on the tables already in the file (a new file has none of them). The tables are
  created if missing, then the version row is written or checked.
\<close>

definition empty_db :: db where
  "empty_db = \<lparr>finds = [], difficulty_seen = [], schema_version = []\<rparr>"

definition ensureSchema :: "sqlite_fault \<Rightarrow> (db, unit) step" where
  "ensureSchema fault = sqlite fault
     (\<lambda>d. if schema_version d = [] then (Inr (), d\<lparr>schema_version := [kSupportedSchemaVersion]\<rparr>)
          else let v = Max (set (schema_version d)) in
            if v \<noteq> kSupportedSchemaVersion
            then (Inl (''journal: unsupported schema_version '' @ to_dec_int v @
                       '' (supported: '' @ to_dec_int kSupportedSchemaVersion @ '')''), d)
            else (Inr (), d))"

text \<open>SQLite's automatic rowid: one more than the largest in the table.\<close>

definition next_rowid :: "find_row list \<Rightarrow> int" where
  "next_rowid rows = foldr (\<lambda>r m. max (col_id r) m) rows 0 + 1"

definition append_status :: "FoundPayload \<Rightarrow> FindStatus \<times> string" where
  "append_status p =
     (if kMaxHashToVerifyLength < length (hash_to_verify p) then
        (PermanentlyInvalid,
         ''hash_to_verify length '' @ to_dec (length (hash_to_verify p)) @
         '' exceeds server limit of '' @ to_dec kMaxHashToVerifyLength)
      else if account p = [] then (PermanentlyInvalid, ''account is empty'')
      else (Pending, []))"

definition insert_row :: "int \<Rightarrow> FoundPayload \<Rightarrow> find_row" where
  "insert_row i p =
     \<lparr>col_id = i, col_key = key p, col_hash_to_verify = hash_to_verify p, col_account = account p,
      col_kind = kind_to_string (kind p), col_m = uint (memory_cost p),
      col_worker = bindTextOrNull (worker p), col_attempts = sint (attempts p),
      col_hashes_per_second = bindDouble (hashes_per_second p), col_found_at = found_at_utc p,
      col_status = status_to_string (fst (append_status p)),
      col_status_reason = bindTextOrNull (snd (append_status p)),
      col_attempt_count = 0, col_next_attempt_at = None, col_last_attempt_at = None,
      col_last_http_status = None, col_last_response = None, col_confirmed_at = None,
      col_xuni_windows_tried = 0\<rparr>"

definition append_find :: "sqlite_fault \<Rightarrow> FoundPayload \<Rightarrow> (db, int) step" where
  "append_find fault p = sqlite fault
     (\<lambda>d. if \<exists>r \<in> set (finds d). col_key r = key p
          then (case find (\<lambda>r. col_key r = key p) (finds d) of
                  None \<Rightarrow> (Inl ''journal: append hit UNIQUE conflict but key not found'', d)
                | Some r \<Rightarrow> (Inr (col_id r), d))
          else let i = next_rowid (finds d)
               in (Inr i, d\<lparr>finds := finds d @ [insert_row i p]\<rparr>))"

text \<open>
  The \<open>SELECT\<close> of \<open>fetchByStatusLocked\<close>: status, optional kind, due date by text comparison,
  \<open>ORDER BY id ASC LIMIT\<close>.
\<close>

definition due_row :: "string \<Rightarrow> find_row \<Rightarrow> bool" where
  "due_row now_utc r = (case col_next_attempt_at r of None \<Rightarrow> True | Some t \<Rightarrow> t \<le> now_utc)"

definition select_due :: "string \<Rightarrow> string option \<Rightarrow> string \<Rightarrow> find_row \<Rightarrow> bool" where
  "select_due statusLiteral kindLiteral now_utc r =
     (col_status r = statusLiteral \<and>
      (case kindLiteral of None \<Rightarrow> True | Some k \<Rightarrow> col_kind r = k) \<and> due_row now_utc r)"

definition fetchByStatusLocked ::
  "sqlite_fault \<Rightarrow> string \<Rightarrow> string \<Rightarrow> nat \<Rightarrow> string option \<Rightarrow> (db, FindRecord list) step" where
  "fetchByStatusLocked fault statusLiteral now_utc limit kindLiteral = sqlite fault
     (\<lambda>d. (traverse rowToRecord
             (take limit (filter (select_due statusLiteral kindLiteral now_utc)
                (sort_key col_id (finds d)))), d))"

definition fetchEligible :: "sqlite_fault \<Rightarrow> string \<Rightarrow> nat \<Rightarrow> (db, FindRecord list) step" where
  "fetchEligible fault now_utc limit = fetchByStatusLocked fault ''Pending'' now_utc limit None"

definition fetchEligibleOfKind ::
  "sqlite_fault \<Rightarrow> FindKind \<Rightarrow> string \<Rightarrow> nat \<Rightarrow> (db, FindRecord list) step" where
  "fetchEligibleOfKind fault k now_utc limit =
     fetchByStatusLocked fault ''Pending'' now_utc limit (Some (kind_to_string k))"

definition fetchAwaitingConfirmation ::
  "sqlite_fault \<Rightarrow> string \<Rightarrow> nat \<Rightarrow> (db, FindRecord list) step" where
  "fetchAwaitingConfirmation fault now_utc limit =
     fetchByStatusLocked fault ''AcceptedUnconfirmed'' now_utc limit None"

definition getById :: "sqlite_fault \<Rightarrow> int \<Rightarrow> (db, FindRecord option) step" where
  "getById fault i = sqlite fault
     (\<lambda>d. case find (\<lambda>r. col_id r = i) (finds d) of
            None \<Rightarrow> (Inr None, d)
          | Some r \<Rightarrow> (case rowToRecord r of Inl e \<Rightarrow> (Inl e, d) | Inr rec \<Rightarrow> (Inr (Some rec), d)))"

text \<open>\<open>UPDATE finds SET f WHERE p\<close> and \<open>sqlite3_changes\<close>.\<close>

definition update_where :: "(find_row \<Rightarrow> bool) \<Rightarrow> (find_row \<Rightarrow> find_row) \<Rightarrow> db \<Rightarrow> nat \<times> db" where
  "update_where p f d =
     (length (filter p (finds d)), d\<lparr>finds := map (\<lambda>r. if p r then f r else r) (finds d)\<rparr>)"

definition attempt_row ::
  "Classification \<Rightarrow> int option \<Rightarrow> string \<Rightarrow> string option \<Rightarrow> string \<Rightarrow> find_row \<Rightarrow> find_row" where
  "attempt_row c http_status response_body next now_utc r =
     r\<lparr>col_status := status_to_string (next_status c),
       col_status_reason := bindTextOrNull (reason c),
       col_attempt_count := col_attempt_count r + 1,
       col_last_attempt_at := Some now_utc,
       col_last_http_status := http_status,
       col_last_response := Some response_body,
       col_next_attempt_at := next,
       col_confirmed_at :=
         (if status_to_string (next_status c) = ''Acked''
          then (case col_confirmed_at r of None \<Rightarrow> Some now_utc | Some t \<Rightarrow> Some t)
          else col_confirmed_at r)\<rparr>"

definition recordAttempt ::
  "sqlite_fault \<Rightarrow> int \<Rightarrow> Classification \<Rightarrow> int option \<Rightarrow> string \<Rightarrow> string option \<Rightarrow> string
   \<Rightarrow> (db, unit) step" where
  "recordAttempt fault i c http_status response_body next now_utc =
     (if next_status c = Submitting
      then throw (''journal: recordAttempt with status Submitting '' @ em_dash @
                  '' that state is in-process only and must never be persisted'')
      else sqlite fault
        (\<lambda>d. case update_where (\<lambda>r. col_id r = i)
                    (attempt_row c http_status response_body next now_utc) d of
               (changes, d') \<Rightarrow>
                 if changes = 0
                 then (Inl (''journal: recordAttempt for unknown find id '' @ to_dec_int i), d')
                 else (Inr (), d')))"

definition unparkForDifficulty :: "sqlite_fault \<Rightarrow> u32 \<Rightarrow> (db, nat) step" where
  "unparkForDifficulty fault current_difficulty = sqlite fault
     (\<lambda>d. case update_where
                 (\<lambda>r. col_status r = ''ParkedDifficulty'' \<and> uint current_difficulty \<le> col_m r)
                 (\<lambda>r. r\<lparr>col_status := ''Pending'', col_next_attempt_at := None\<rparr>) d of
            (changes, d') \<Rightarrow> (Inr changes, d'))"

definition unparkXuniForWindow :: "sqlite_fault \<Rightarrow> int \<Rightarrow> (db, nat) step" where
  "unparkXuniForWindow fault max_windows = sqlite fault
     (\<lambda>d. case update_where
                 (\<lambda>r. col_status r = ''ParkedXuniWindow'' \<and> max_windows \<le> col_xuni_windows_tried r)
                 (\<lambda>r. r\<lparr>col_status := ''Dead'',
                        col_status_reason := Some ''xuni window budget exhausted'',
                        col_next_attempt_at := None\<rparr>) d of
            (_, d1) \<Rightarrow>
          (case update_where (\<lambda>r. col_status r = ''ParkedXuniWindow'')
                 (\<lambda>r. r\<lparr>col_status := ''Pending'',
                        col_xuni_windows_tried := col_xuni_windows_tried r + 1,
                        col_next_attempt_at := None\<rparr>) d1 of
            (changes, d2) \<Rightarrow> (Inr changes, d2)))"

record RecoveryStats =
  rec_pending :: nat
  rec_accepted_unconfirmed :: nat
  rec_parked_difficulty :: nat
  rec_parked_xuni :: nat
  rec_quarantined :: nat
  rec_acked :: nat
  rec_dead :: nat
  rec_invalid :: nat

definition no_recovery_stats :: RecoveryStats where
  "no_recovery_stats = \<lparr>rec_pending = 0, rec_accepted_unconfirmed = 0, rec_parked_difficulty = 0,
     rec_parked_xuni = 0, rec_quarantined = 0, rec_acked = 0, rec_dead = 0, rec_invalid = 0\<rparr>"

fun recovery_case :: "nat \<Rightarrow> RecoveryStats \<Rightarrow> FindStatus \<Rightarrow> RecoveryStats" where
  "recovery_case n s Pending = s\<lparr>rec_pending := rec_pending s + n\<rparr>"
| "recovery_case n s AcceptedUnconfirmed =
     s\<lparr>rec_accepted_unconfirmed := rec_accepted_unconfirmed s + n\<rparr>"
| "recovery_case n s ParkedDifficulty = s\<lparr>rec_parked_difficulty := rec_parked_difficulty s + n\<rparr>"
| "recovery_case n s ParkedXuniWindow = s\<lparr>rec_parked_xuni := rec_parked_xuni s + n\<rparr>"
| "recovery_case n s Quarantined = s\<lparr>rec_quarantined := rec_quarantined s + n\<rparr>"
| "recovery_case n s Acked = s\<lparr>rec_acked := rec_acked s + n\<rparr>"
| "recovery_case n s Dead = s\<lparr>rec_dead := rec_dead s + n\<rparr>"
| "recovery_case n s PermanentlyInvalid = s\<lparr>rec_invalid := rec_invalid s + n\<rparr>"
| "recovery_case n s Submitting = s"

text \<open>\<open>SELECT g, COUNT( * ) ... GROUP BY g\<close>: one entry per value of \<open>g\<close>.\<close>

definition group_count :: "(find_row \<Rightarrow> 'a) \<Rightarrow> find_row list \<Rightarrow> ('a \<times> nat) list" where
  "group_count g rows = map (\<lambda>v. (v, count_list (map g rows) v)) (remdups (map g rows))"

fun sum_groups :: "('a \<Rightarrow> string + 'b) \<Rightarrow> (nat \<Rightarrow> 's \<Rightarrow> 'b \<Rightarrow> 's) \<Rightarrow> ('a \<times> nat) list \<Rightarrow> 's \<Rightarrow> string + 's" where
  "sum_groups parse add [] s = Inr s"
| "sum_groups parse add ((v, n) # gs) s =
     (case parse v of Inl e \<Rightarrow> Inl e | Inr b \<Rightarrow> sum_groups parse add gs (add n s b))"

definition recoverOnStartup :: "sqlite_fault \<Rightarrow> (db, RecoveryStats) step" where
  "recoverOnStartup fault = sqlite fault
     (\<lambda>d. case update_where (\<lambda>r. col_status r = ''Submitting'')
                 (\<lambda>r. r\<lparr>col_status := ''Pending''\<rparr>) d of
            (_, d1) \<Rightarrow>
          (case sum_groups (\<lambda>s. statusFromString (columnText (Some s))) recovery_case
                  (group_count col_status (finds d1)) no_recovery_stats of
             Inl e \<Rightarrow> (Inl e, d)
           | Inr stats \<Rightarrow> (Inr stats, d1)))"

definition recordDifficulty :: "sqlite_fault \<Rightarrow> u32 \<Rightarrow> string \<Rightarrow> (db, unit) step" where
  "recordDifficulty fault difficulty at_utc = sqlite fault
     (\<lambda>d. (Inr (), d\<lparr>difficulty_seen := difficulty_seen d @ [(at_utc, uint difficulty)]\<rparr>))"

definition lastKnownDifficulty :: "sqlite_fault \<Rightarrow> (db, u32 option) step" where
  "lastKnownDifficulty fault = sqlite fault
     (\<lambda>d. (Inr (if difficulty_seen d = [] then None
                else Some (word_of_int (snd (last (difficulty_seen d))))), d))"

record Counts =
  cnt_pending :: nat
  cnt_parked :: nat
  cnt_parked_difficulty :: nat
  cnt_parked_xuni :: nat
  cnt_quarantined :: nat
  cnt_acked_total :: nat
  cnt_dead_total :: nat
  cnt_accepted_unconfirmed :: nat
  cnt_permanently_invalid :: nat
  cnt_queued_xen11 :: nat
  cnt_queued_xuni :: nat

definition no_counts :: Counts where
  "no_counts = \<lparr>cnt_pending = 0, cnt_parked = 0, cnt_parked_difficulty = 0, cnt_parked_xuni = 0,
     cnt_quarantined = 0, cnt_acked_total = 0, cnt_dead_total = 0, cnt_accepted_unconfirmed = 0,
     cnt_permanently_invalid = 0, cnt_queued_xen11 = 0, cnt_queued_xuni = 0\<rparr>"

fun counts_status :: "nat \<Rightarrow> Counts \<Rightarrow> FindStatus \<Rightarrow> Counts" where
  "counts_status n s Pending = s\<lparr>cnt_pending := cnt_pending s + n\<rparr>"
| "counts_status n s ParkedDifficulty =
     s\<lparr>cnt_parked := cnt_parked s + n, cnt_parked_difficulty := cnt_parked_difficulty s + n\<rparr>"
| "counts_status n s ParkedXuniWindow =
     s\<lparr>cnt_parked := cnt_parked s + n, cnt_parked_xuni := cnt_parked_xuni s + n\<rparr>"
| "counts_status n s Quarantined = s\<lparr>cnt_quarantined := cnt_quarantined s + n\<rparr>"
| "counts_status n s Acked = s\<lparr>cnt_acked_total := cnt_acked_total s + n\<rparr>"
| "counts_status n s Dead = s\<lparr>cnt_dead_total := cnt_dead_total s + n\<rparr>"
| "counts_status n s AcceptedUnconfirmed =
     s\<lparr>cnt_accepted_unconfirmed := cnt_accepted_unconfirmed s + n\<rparr>"
| "counts_status n s PermanentlyInvalid =
     s\<lparr>cnt_permanently_invalid := cnt_permanently_invalid s + n\<rparr>"
| "counts_status n s Submitting = s"

definition counts_case :: "nat \<Rightarrow> Counts \<Rightarrow> FindStatus \<times> FindKind \<Rightarrow> Counts" where
  "counts_case n s0 = (\<lambda>(st, k).
     let s = counts_status n s0 st in
     if st = Pending \<or> st = AcceptedUnconfirmed
     then (if k = XEN11 then s\<lparr>cnt_queued_xen11 := cnt_queued_xen11 s + n\<rparr>
           else s\<lparr>cnt_queued_xuni := cnt_queued_xuni s + n\<rparr>)
     else s)"

definition parse_group :: "string \<times> string \<Rightarrow> string + (FindStatus \<times> FindKind)" where
  "parse_group = (\<lambda>(s, k).
     case statusFromString (columnText (Some s)) of
       Inl e \<Rightarrow> Inl e
     | Inr st \<Rightarrow> (case kindFromString (columnText (Some k)) of Inl e \<Rightarrow> Inl e | Inr kd \<Rightarrow> Inr (st, kd)))"

definition counts :: "sqlite_fault \<Rightarrow> (db, Counts) step" where
  "counts fault = sqlite fault
     (\<lambda>d. (sum_groups parse_group counts_case
             (group_count (\<lambda>r. (col_status r, col_kind r)) (finds d)) no_counts, d))"


section \<open>What a row means\<close>

definition stored_status :: "find_row \<Rightarrow> FindStatus \<Rightarrow> bool" where
  "stored_status r st = (col_status r = status_to_string st)"

definition statuses :: "FindStatus list" where
  "statuses = [Pending, AcceptedUnconfirmed, Acked, ParkedDifficulty, ParkedXuniWindow,
               Quarantined, Dead, PermanentlyInvalid]"

definition row_ok :: "find_row \<Rightarrow> bool" where
  "row_ok r = (1 \<le> col_id r \<and> col_status r \<in> set (map status_to_string statuses) \<and>
     col_kind r \<in> {''XEN11'', ''XUNI''} \<and> 0 \<le> col_m r \<and> col_m r < 2 ^ 32 \<and>
     0 \<le> col_attempt_count r \<and> 0 \<le> col_xuni_windows_tried r)"

definition journal_inv :: "db \<Rightarrow> bool" where
  "journal_inv d = (list_all row_ok (finds d) \<and> sorted_wrt (<) (map col_id (finds d)) \<and>
     distinct (map col_key (finds d)))"

text \<open>The record a well-formed row reads as.\<close>

definition record_of :: "find_row \<Rightarrow> FindRecord" where
  "record_of r = projr (rowToRecord r)"

lemma statusFromString_inverse [simp]: "statusFromString (status_to_string st) = Inr st"
  by (cases st) (simp_all add: statusFromString_def)

lemma kindFromString_inverse [simp]: "kindFromString (kind_to_string k) = Inr k"
  by (cases k) (simp_all add: kindFromString_def)

lemma columnText_status [simp]: "columnText (Some (status_to_string st)) = status_to_string st"
  by (cases st) (simp_all add: columnText_def)

lemma columnText_kind [simp]: "columnText (Some (kind_to_string k)) = kind_to_string k"
  by (cases k) (simp_all add: columnText_def)

lemma set_statuses: "st \<in> set statuses \<longleftrightarrow> st \<noteq> Submitting"
  by (cases st) (simp_all add: statuses_def)

lemma row_okE:
  assumes "row_ok r"
  obtains st k where "col_status r = status_to_string st" "st \<noteq> Submitting"
    "col_kind r = kind_to_string k" "1 \<le> col_id r" "0 \<le> col_m r" "col_m r < 2 ^ 32"
    "0 \<le> col_attempt_count r" "0 \<le> col_xuni_windows_tried r"
proof -
  obtain st where "col_status r = status_to_string st" "st \<noteq> Submitting"
    using assms set_statuses by (auto simp: row_ok_def)
  moreover obtain k where "col_kind r = kind_to_string k"
    using assms kind_to_string.simps by (metis row_ok_def insertE singletonD)
  ultimately show ?thesis using that assms by (simp add: row_ok_def)
qed

lemma status_to_string_ok [simp]:
  "status_to_string st \<in> status_to_string ` set statuses \<longleftrightarrow> st \<noteq> Submitting"
  by (simp add: image_iff set_statuses)

lemma kind_to_string_ok [simp]: "kind_to_string k = ''XEN11'' \<or> kind_to_string k = ''XUNI''"
  by (cases k) simp_all

lemma rowToRecord_ok: "row_ok r \<Longrightarrow> rowToRecord r = Inr (record_of r)"
  by (erule row_okE) (simp add: rowToRecord_def record_of_def)

lemma record_of_simps:
  assumes "row_ok r"
  shows "id (record_of r) = col_id r"
    "status_to_string (status (record_of r)) = col_status r"
    "kind_to_string (kind (payload (record_of r))) = col_kind r"
    "memory_cost (payload (record_of r)) = word_of_int (col_m r)"
    "next_attempt_at (record_of r) = columnOptionalText (col_next_attempt_at r)"
    "key (payload (record_of r)) = columnText (Some (col_key r))"
  using assms by (auto elim!: row_okE simp: rowToRecord_def record_of_def)

lemma journal_invD:
  assumes "journal_inv d"
  shows "r \<in> set (finds d) \<Longrightarrow> row_ok r" "sorted_wrt (<) (map col_id (finds d))"
    "distinct (map col_key (finds d))"
  using assms by (auto simp: journal_inv_def list_all_iff)

lemma sorted_rows: "sorted_wrt (<) (map col_id rows) \<Longrightarrow> sort_key col_id rows = rows"
  by (rule sorted_sort_id [THEN subst, of "map col_id rows"])
    (auto simp: sort_key_id_if_sorted strict_sorted_imp_sorted intro: sort_key_id_if_sorted)

lemma next_rowid_greater: "r \<in> set rows \<Longrightarrow> col_id r < next_rowid rows"
proof -
  have "r \<in> set rows \<Longrightarrow> col_id r \<le> foldr (\<lambda>r m. max (col_id r) m) rows 0"
    by (induction rows) auto
  then show "r \<in> set rows \<Longrightarrow> col_id r < next_rowid rows" by (simp add: next_rowid_def)
qed

lemma next_rowid_pos: "1 \<le> next_rowid rows"
proof -
  have "0 \<le> foldr (\<lambda>r m. max (col_id r) m) rows 0" by (induction rows) auto
  then show ?thesis by (simp add: next_rowid_def)
qed

lemma insert_row_ok: "1 \<le> i \<Longrightarrow> row_ok (insert_row i p)"
proof -
  assume i: "1 \<le> i"
  have "fst (append_status p) \<noteq> Submitting" by (simp add: append_status_def)
  then show ?thesis
    using i unsigned_less [of "memory_cost p", where 'a = int] by (simp add: row_ok_def insert_row_def)
qed


section \<open>The journal as a machine\<close>

text \<open>A find that was captured stays the same find: its id, its payload and its history only grow.\<close>

definition same_find :: "find_row \<Rightarrow> find_row \<Rightarrow> bool" where
  "same_find r r' =
     (col_id r' = col_id r \<and> col_key r' = col_key r \<and>
      col_hash_to_verify r' = col_hash_to_verify r \<and> col_account r' = col_account r \<and>
      col_kind r' = col_kind r \<and> col_m r' = col_m r \<and> col_worker r' = col_worker r \<and>
      col_attempts r' = col_attempts r \<and> col_hashes_per_second r' = col_hashes_per_second r \<and>
      col_found_at r' = col_found_at r \<and>
      col_attempt_count r \<le> col_attempt_count r' \<and>
      col_xuni_windows_tried r \<le> col_xuni_windows_tried r' \<and>
      (col_confirmed_at r \<noteq> None \<longrightarrow> col_confirmed_at r' = col_confirmed_at r))"

definition journal_le :: "db \<Rightarrow> db \<Rightarrow> bool" where
  "journal_le d d' =
     (length (finds d) \<le> length (finds d') \<and>
      (\<forall>i < length (finds d). same_find (finds d ! i) (finds d' ! i)) \<and>
      prefix (difficulty_seen d) (difficulty_seen d'))"

lemma same_find_refl [simp]: "same_find r r"
  by (simp add: same_find_def)

lemma same_find_trans: "same_find a b \<Longrightarrow> same_find b c \<Longrightarrow> same_find a c"
  by (auto simp: same_find_def)

lemma journal_le_refl [simp]: "journal_le d d"
  by (simp add: journal_le_def)

lemma journal_le_trans: "journal_le a b \<Longrightarrow> journal_le b c \<Longrightarrow> journal_le a c"
  unfolding journal_le_def by (metis (no_types, lifting) less_le_trans le_trans prefix_order.trans same_find_trans)

text \<open>An \<open>UPDATE\<close> that keeps rows well-formed and the same finds keeps both.\<close>

lemma update_where_keeps:
  assumes "journal_inv d" and "\<And>r. row_ok r \<Longrightarrow> p r \<Longrightarrow> row_ok (f r) \<and> same_find r (f r)"
  shows "journal_inv (snd (update_where p f d)) \<and> journal_le d (snd (update_where p f d))"
proof -
  let ?g = "\<lambda>r. if p r then f r else r"
  have g: "row_ok (?g r) \<and> same_find r (?g r)" if "r \<in> set (finds d)" for r
    using assms(2) [of r] journal_invD(1) [OF assms(1) that] by simp
  then have "map col_id (map ?g (finds d)) = map col_id (finds d)"
    "map col_key (map ?g (finds d)) = map col_key (finds d)"
    unfolding map_map by (auto simp: same_find_def)
  then show ?thesis
    using assms(1) unfolding update_where_def journal_inv_def journal_le_def list_all_iff
    by (auto simp del: map_map simp: g dest: g)
qed

datatype journal_event =
    JAppend FoundPayload
  | JRecordAttempt int Classification "int option" string "string option" string
  | JUnparkForDifficulty u32
  | JUnparkXuniForWindow int
  | JRecoverOnStartup
  | JRecordDifficulty u32 string

fun journal_apply :: "sqlite_fault \<times> journal_event \<Rightarrow> db \<Rightarrow> db" where
  "journal_apply (f, JAppend p) d = snd (append_find f p d)"
| "journal_apply (f, JRecordAttempt i c http body next now) d =
     snd (recordAttempt f i c http body next now d)"
| "journal_apply (f, JUnparkForDifficulty m) d = snd (unparkForDifficulty f m d)"
| "journal_apply (f, JUnparkXuniForWindow n) d = snd (unparkXuniForWindow f n d)"
| "journal_apply (f, JRecoverOnStartup) d = snd (recoverOnStartup f d)"
| "journal_apply (f, JRecordDifficulty m t) d = snd (recordDifficulty f m t d)"


definition journal_keeps :: "(db, 'a) step \<Rightarrow> bool" where
  "journal_keeps m = (\<forall>d. journal_inv d \<longrightarrow> journal_inv (snd (m d)) \<and> journal_le d (snd (m d)))"

lemma journal_keepsD:
  "journal_keeps m \<Longrightarrow> journal_inv d \<Longrightarrow> journal_inv (snd (m d)) \<and> journal_le d (snd (m d))"
  by (simp add: journal_keeps_def)

lemma sqlite_keeps [keep_intros]: "journal_keeps m \<Longrightarrow> journal_keeps (sqlite fault m)"
  by (cases fault) (simp_all add: sqlite_def journal_keeps_def throw_def)

lemma sqlite_None [simp]: "sqlite None m = m"
  by (simp add: sqlite_def)

lemma sqlite_Some [simp]: "sqlite (Some e) m d = (Inl e, d)"
  by (simp add: sqlite_def throw_def)

lemma read_keeps: "(\<And>d. snd (m d) = d) \<Longrightarrow> journal_keeps m"
  by (simp add: journal_keeps_def)

lemma key_fresh_find: "\<exists>r \<in> set rows. q r \<Longrightarrow> \<exists>r. find q rows = Some r \<and> r \<in> set rows \<and> q r"
  by (induction rows) auto

lemma append_find_keeps: "journal_keeps (append_find fault p)"
  unfolding append_find_def
proof (rule sqlite_keeps, unfold journal_keeps_def, intro allI impI)
  fix d
  assume inv: "journal_inv d"
  let ?m = "\<lambda>d. if \<exists>r \<in> set (finds d). col_key r = key p
          then (case find (\<lambda>r. col_key r = key p) (finds d) of
                  None \<Rightarrow> (Inl ''journal: append hit UNIQUE conflict but key not found'', d)
                | Some r \<Rightarrow> (Inr (col_id r), d))
          else let i = next_rowid (finds d)
               in (Inr i, d\<lparr>finds := finds d @ [insert_row i p]\<rparr>)"
  show "journal_inv (snd (?m d)) \<and> journal_le d (snd (?m d))"
  proof (cases "\<exists>r \<in> set (finds d). col_key r = key p")
    case True
    then have "snd (?m d) = d" by (simp split: option.splits)
    then show ?thesis using inv by simp
  next
    case False
    let ?i = "next_rowid (finds d)"
    have "snd (?m d) = d\<lparr>finds := finds d @ [insert_row ?i p]\<rparr>" using False by (simp add: Let_def)
    moreover have "col_id (insert_row ?i p) = ?i" "col_key (insert_row ?i p) = key p"
      by (simp_all add: insert_row_def)
    ultimately show ?thesis
      using inv False next_rowid_greater [of _ "finds d"] insert_row_ok [OF next_rowid_pos [of "finds d"]]
      by (auto simp: journal_inv_def journal_le_def sorted_wrt_append nth_append)
  qed
qed

lemma attempt_row_keeps:
  "next_status c \<noteq> Submitting \<Longrightarrow> row_ok r \<Longrightarrow>
   row_ok (attempt_row c http body next now r) \<and> same_find r (attempt_row c http body next now r)"
  by (auto simp: row_ok_def same_find_def attempt_row_def split: option.splits)

lemma update_step_keeps:
  assumes "\<And>d. snd (m d) = snd (update_where p f d)"
    and "\<And>r. row_ok r \<Longrightarrow> p r \<Longrightarrow> row_ok (f r) \<and> same_find r (f r)"
  shows "journal_keeps m"
  unfolding journal_keeps_def assms(1) using update_where_keeps assms(2) by blast

lemma snd_update_case [simp]:
  "snd (case update_where p f d of (n, d') \<Rightarrow> (g n, d')) = snd (update_where p f d)"
  by (simp split: prod.splits)

lemma recordAttempt_keeps: "journal_keeps (recordAttempt fault i c http body next now)"
proof (cases "next_status c = Submitting")
  case True
  then show ?thesis by (simp add: recordAttempt_def journal_keeps_def throw_def)
next
  case False
  show ?thesis
    unfolding recordAttempt_def using False
    by (simp only: if_False)
      (rule sqlite_keeps, rule update_step_keeps [where p = "\<lambda>r. col_id r = i" and
        f = "attempt_row c http body next now"], simp add: case_prod_beta,
        rule attempt_row_keeps [OF False])
qed

lemma unparkForDifficulty_keeps: "journal_keeps (unparkForDifficulty fault m)"
  unfolding unparkForDifficulty_def
  by (rule sqlite_keeps, rule update_step_keeps, rule snd_update_case)
    (auto simp: row_ok_def same_find_def statuses_def)

lemma unparkXuniForWindow_keeps: "journal_keeps (unparkXuniForWindow fault n)"
  unfolding unparkXuniForWindow_def
proof (rule sqlite_keeps, unfold journal_keeps_def, intro allI impI)
  fix d
  assume inv: "journal_inv d"
  let ?p = "\<lambda>r. col_status r = ''ParkedXuniWindow'' \<and> n \<le> col_xuni_windows_tried r"
  let ?f = "\<lambda>r. r\<lparr>col_status := ''Dead'', col_status_reason := Some ''xuni window budget exhausted'',
      col_next_attempt_at := None\<rparr>"
  let ?q = "\<lambda>r. col_status r = ''ParkedXuniWindow''"
  let ?g = "\<lambda>r. r\<lparr>col_status := ''Pending'', col_xuni_windows_tried := col_xuni_windows_tried r + 1,
      col_next_attempt_at := None\<rparr>"
  let ?d1 = "snd (update_where ?p ?f d)"
  have 1: "journal_inv ?d1 \<and> journal_le d ?d1"
    using inv by (rule update_where_keeps) (auto simp: row_ok_def same_find_def statuses_def)
  then have 2: "journal_inv (snd (update_where ?q ?g ?d1)) \<and> journal_le ?d1 (snd (update_where ?q ?g ?d1))"
    by (intro update_where_keeps) (auto simp: row_ok_def same_find_def statuses_def)
  from 1 2 show "journal_inv (snd (case update_where ?p ?f d of (_, d1) \<Rightarrow>
        (case update_where ?q ?g d1 of (changes, d2) \<Rightarrow> (Inr changes, d2)))) \<and>
      journal_le d (snd (case update_where ?p ?f d of (_, d1) \<Rightarrow>
        (case update_where ?q ?g d1 of (changes, d2) \<Rightarrow> (Inr changes, d2))))"
    by (auto simp: case_prod_beta intro: journal_le_trans)
qed

lemma recoverOnStartup_keeps: "journal_keeps (recoverOnStartup fault)"
  unfolding recoverOnStartup_def
proof (rule sqlite_keeps, unfold journal_keeps_def, intro allI impI)
  fix d
  let ?d1 = "snd (update_where (\<lambda>r. col_status r = ''Submitting'') (\<lambda>r. r\<lparr>col_status := ''Pending''\<rparr>) d)"
  let ?m = "\<lambda>d. case update_where (\<lambda>r. col_status r = ''Submitting'')
                 (\<lambda>r. r\<lparr>col_status := ''Pending''\<rparr>) d of
            (_, d1) \<Rightarrow>
          (case sum_groups (\<lambda>s. statusFromString (columnText (Some s))) recovery_case
                  (group_count col_status (finds d1)) no_recovery_stats of
             Inl e \<Rightarrow> (Inl e, d)
           | Inr stats \<Rightarrow> (Inr stats, d1))"
  assume inv: "journal_inv d"
  then have "journal_inv ?d1 \<and> journal_le d ?d1"
    by (rule update_where_keeps) (auto simp: row_ok_def same_find_def statuses_def)
  then show "journal_inv (snd (?m d)) \<and> journal_le d (snd (?m d))"
    using inv by (auto simp: case_prod_beta split: sum.split)
qed

lemma recordDifficulty_keeps: "journal_keeps (recordDifficulty fault m t)"
  unfolding recordDifficulty_def
  by (rule sqlite_keeps) (simp add: journal_keeps_def journal_inv_def journal_le_def)

lemma journal_event_keeps:
  "journal_inv d \<Longrightarrow> journal_inv (journal_apply e d) \<and> journal_le d (journal_apply e d)"
  using append_find_keeps recordAttempt_keeps unparkForDifficulty_keeps unparkXuniForWindow_keeps
    recoverOnStartup_keeps recordDifficulty_keeps
  by (cases "(e, d)" rule: journal_apply.cases) (auto simp: journal_keeps_def)

interpretation jrn: monotone_machine journal_apply journal_inv "\<lambda>_. True" journal_le
  by unfold_locales (use journal_event_keeps journal_le_trans in auto)

lemmas journal_ops_keep = append_find_keeps recordAttempt_keeps unparkForDifficulty_keeps
  unparkXuniForWindow_keeps recoverOnStartup_keeps recordDifficulty_keeps


section \<open>What the operations return\<close>

text \<open>Payloads whose texts hold no NUL byte and whose rate is a number survive storage unchanged.\<close>

definition storable :: "FoundPayload \<Rightarrow> bool" where
  "storable p = (list_all (\<lambda>t. CHR 0x00 \<notin> set t)
     [key p, hash_to_verify p, account p, worker p, found_at_utc p] \<and> \<not> is_nan (hashes_per_second p))"

lemma columnText_clean: "CHR 0x00 \<notin> set t \<Longrightarrow> columnText (Some t) = t"
  by (simp add: columnText_def takeWhile_eq_all_conv)
    (metis takeWhile_eq_all_conv)

lemma columnText_bind: "CHR 0x00 \<notin> set t \<Longrightarrow> columnText (bindTextOrNull t) = t"
  by (cases "t = []") (simp_all add: bindTextOrNull_def columnText_clean, simp add: columnText_def)

lemma insert_row_payload: "storable p \<Longrightarrow> payload (record_of (insert_row i p)) = p"
  by (simp add: record_of_def rowToRecord_def insert_row_def storable_def columnText_clean
    columnText_bind bindDouble_def columnDouble_def)

lemma insert_row_record:
  "id (record_of (insert_row i p)) = i"
  "status (record_of (insert_row i p)) = fst (append_status p)"
  "attempt_count (record_of (insert_row i p)) = 0"
  "next_attempt_at (record_of (insert_row i p)) = None"
  "confirmed_at (record_of (insert_row i p)) = None"
  by (simp_all add: record_of_def rowToRecord_def insert_row_def to_int32_def columnOptionalText_def)

lemma find_by_id:
  assumes "sorted_wrt (<) (map col_id rows)" and "r \<in> set rows"
  shows "find (\<lambda>x. col_id x = col_id r) rows = Some r"
proof -
  have "distinct (map col_id rows)" using assms(1) strict_sorted_iff by blast
  then show ?thesis using assms(2) by (induction rows) auto
qed

lemma getById_row:
  assumes "journal_inv d" and "r \<in> set (finds d)"
  shows "getById None (col_id r) d = (Inr (Some (record_of r)), d)"
  using find_by_id [OF journal_invD(2) [OF assms(1)] assms(2)]
    rowToRecord_ok [OF journal_invD(1) [OF assms]]
  by (simp add: getById_def)

lemma fetch_rows:
  assumes "journal_inv d"
  shows "fetchByStatusLocked None st now limit k d =
    (Inr (map record_of (take limit (filter (select_due st k now) (finds d)))), d)"
proof -
  have "sort_key col_id (finds d) = finds d" by (rule sorted_rows [OF journal_invD(2) [OF assms]])
  moreover have "traverse rowToRecord (take limit (filter (select_due st k now) (finds d))) =
      Inr (map record_of (take limit (filter (select_due st k now) (finds d))))"
    by (rule traverse_total) (meson assms filter_is_subset in_set_takeD journal_invD(1) rowToRecord_ok subsetD)
  ultimately show ?thesis by (simp add: fetchByStatusLocked_def)
qed

text \<open>A total over groups is the total over rows.\<close>

lemma sum_groups_total:
  assumes "\<And>v n. (v, n) \<in> set gs \<Longrightarrow> parse v = Inr (h v)"
    and "\<And>n s b. \<mu> (add n s b) = \<mu> s + n * w b"
  shows "\<exists>s'. sum_groups parse add gs s = Inr s' \<and>
    \<mu> s' = \<mu> s + sum_list (map (\<lambda>(v, n). n * w (h v)) gs)"
  using assms(1)
proof (induction gs arbitrary: s)
  case (Cons g gs)
  obtain v n where g: "g = (v, n)" by (cases g)
  have "parse v = Inr (h v)" using Cons.prems [of v n] g by simp
  moreover have "\<exists>s'. sum_groups parse add gs (add n s (h v)) = Inr s' \<and>
      \<mu> s' = \<mu> (add n s (h v)) + sum_list (map (\<lambda>(v, n). n * w (h v)) gs)"
    by (rule Cons.IH) (use Cons.prems in auto)
  ultimately show ?case by (simp add: g assms(2) add.assoc)
qed simp

lemma sum_group_count:
  "sum_list (map (\<lambda>(v, n). n * w v) (group_count g rows)) = sum_list (map (\<lambda>r. w (g r)) rows)"
proof -
  have "sum_list (map (\<lambda>(v, n). n * w v) (group_count g rows)) =
      sum_list (map (\<lambda>v. count_list (map g rows) v * w v) (remdups (map g rows)))"
    by (simp add: group_count_def comp_def)
  also have "\<dots> = (\<Sum>v\<in>set (map g rows). count_list (map g rows) v * w v)"
    by (simp add: sum_list_distinct_conv_sum_set)
  also have "\<dots> = sum_list (map w (map g rows))" by (rule sum_list_map_eq_sum_count [symmetric])
  finally show ?thesis by (simp add: comp_def)
qed

lemma group_count_mem: "(v, n) \<in> set (group_count g rows) \<Longrightarrow> v \<in> g ` set rows"
  by (auto simp: group_count_def)

lemma length_filter_sum: "length (filter q rows) = sum_list (map (\<lambda>r. if q r then 1 else 0) rows)"
  by (induction rows) auto

text \<open>One counter of \<open>counts\<close>, as a weight on statuses and kinds, counts the rows of that weight.\<close>

definition row_group :: "find_row \<Rightarrow> FindStatus \<times> FindKind" where
  "row_group r = (status (record_of r), kind (payload (record_of r)))"

lemma parse_group_row: "row_ok r \<Longrightarrow> parse_group (col_status r, col_kind r) = Inr (row_group r)"
  by (erule row_okE) (simp add: parse_group_def row_group_def record_of_def rowToRecord_def)

lemma counts_counter:
  assumes "journal_inv d" and "\<And>n s b. \<mu> (counts_case n s b) = \<mu> s + n * w b"
  shows "\<exists>c. counts None d = (Inr c, d) \<and>
    \<mu> c = \<mu> no_counts + sum_list (map (\<lambda>r. w (row_group r)) (finds d))"
proof -
  let ?g = "\<lambda>r. (col_status r, col_kind r)"
  let ?h = "\<lambda>v. projr (parse_group v)"
  have h: "parse_group (?g r) = Inr (row_group r)" if "r \<in> set (finds d)" for r
    using parse_group_row [OF journal_invD(1) [OF assms(1) that]] .
  have "\<And>v n. (v, n) \<in> set (group_count ?g (finds d)) \<Longrightarrow> parse_group v = Inr (?h v)"
    using h by (auto dest!: group_count_mem)
  then obtain c where c: "sum_groups parse_group counts_case (group_count ?g (finds d)) no_counts = Inr c"
    "\<mu> c = \<mu> no_counts + sum_list (map (\<lambda>(v, n). n * w (?h v)) (group_count ?g (finds d)))"
    using sum_groups_total [of "group_count ?g (finds d)" parse_group ?h \<mu> counts_case w no_counts,
      OF _ assms(2)] by blast
  have "map (\<lambda>r. w (?h (?g r))) (finds d) = map (\<lambda>r. w (row_group r)) (finds d)"
    using h by (intro map_cong) auto
  then have "\<mu> c = \<mu> no_counts + sum_list (map (\<lambda>r. w (row_group r)) (finds d))"
    using c(2) unfolding sum_group_count [of "\<lambda>v. w (?h v)"] by (simp only:)
  then show ?thesis using c(1) by (simp add: counts_def)
qed


text \<open>What opening a XUNI window does to a row.\<close>

definition window_row :: "int \<Rightarrow> find_row \<Rightarrow> find_row" where
  "window_row n r =
     (if col_status r \<noteq> ''ParkedXuniWindow'' then r
      else if col_xuni_windows_tried r < n
      then r\<lparr>col_status := ''Pending'', col_xuni_windows_tried := col_xuni_windows_tried r + 1,
             col_next_attempt_at := None\<rparr>
      else r\<lparr>col_status := ''Dead'', col_status_reason := Some ''xuni window budget exhausted'',
             col_next_attempt_at := None\<rparr>)"

lemma unparkXuni_rows:
  "unparkXuniForWindow None n d =
     (Inr (length (filter (\<lambda>r. col_status r = ''ParkedXuniWindow'' \<and> col_xuni_windows_tried r < n) (finds d))),
      d\<lparr>finds := map (window_row n) (finds d)\<rparr>)"
proof -
  let ?kill = "\<lambda>r. if col_status r = ''ParkedXuniWindow'' \<and> n \<le> col_xuni_windows_tried r
    then r\<lparr>col_status := ''Dead'', col_status_reason := Some ''xuni window budget exhausted'',
           col_next_attempt_at := None\<rparr> else r"
  let ?q = "\<lambda>r. col_status r = ''ParkedXuniWindow''"
  have "length (filter ?q (map ?kill rows)) =
      length (filter (\<lambda>r. ?q r \<and> col_xuni_windows_tried r < n) rows)" for rows
    by (induction rows) auto
  moreover have "map (\<lambda>r. if ?q r then r\<lparr>col_status := ''Pending'',
        col_xuni_windows_tried := col_xuni_windows_tried r + 1, col_next_attempt_at := None\<rparr> else r)
      (map ?kill rows) = map (window_row n) rows" for rows
    by (simp add: window_row_def)
  ultimately show ?thesis
    by (simp add: unparkXuniForWindow_def update_where_def del: map_map)
qed

text \<open>Rows of a status, and the weights of the counters.\<close>

definition rows_with :: "FindStatus \<Rightarrow> db \<Rightarrow> nat" where
  "rows_with st d = length (filter (\<lambda>r. col_status r = status_to_string st) (finds d))"

lemma counts_case_counters:
  "cnt_pending (counts_case n s b) = cnt_pending s + n * (if fst b = Pending then 1 else 0)"
  "cnt_acked_total (counts_case n s b) = cnt_acked_total s + n * (if fst b = Acked then 1 else 0)"
  "cnt_accepted_unconfirmed (counts_case n s b) =
     cnt_accepted_unconfirmed s + n * (if fst b = AcceptedUnconfirmed then 1 else 0)"
  "cnt_parked (counts_case n s b) = cnt_parked s +
     n * (if fst b = ParkedDifficulty \<or> fst b = ParkedXuniWindow then 1 else 0)"
  "cnt_queued_xen11 (counts_case n s b) + cnt_queued_xuni (counts_case n s b) =
     cnt_queued_xen11 s + cnt_queued_xuni s +
     n * (if fst b = Pending \<or> fst b = AcceptedUnconfirmed then 1 else 0)"
  "cnt_pending (counts_case n s b) + cnt_parked (counts_case n s b) +
     cnt_quarantined (counts_case n s b) + cnt_acked_total (counts_case n s b) +
     cnt_dead_total (counts_case n s b) + cnt_accepted_unconfirmed (counts_case n s b) +
     cnt_permanently_invalid (counts_case n s b) =
   cnt_pending s + cnt_parked s + cnt_quarantined s + cnt_acked_total s + cnt_dead_total s +
     cnt_accepted_unconfirmed s + cnt_permanently_invalid s + n * (if fst b = Submitting then 0 else 1)"
  by (cases b; cases "fst b"; simp add: counts_case_def Let_def)+

lemma rows_with_sum:
  assumes "journal_inv d"
  shows "rows_with st d = sum_list (map (\<lambda>r. if fst (row_group r) = st then 1 else 0) (finds d))"
proof -
  have "\<And>r. r \<in> set (finds d) \<Longrightarrow> col_status r = status_to_string st \<longleftrightarrow> fst (row_group r) = st"
    using journal_invD(1) [OF assms] record_of_simps(2) by (metis fst_conv row_group_def status_to_string_inj)
  then show ?thesis unfolding rows_with_def length_filter_sum by (intro arg_cong [of _ _ sum_list] map_cong) auto
qed


section \<open>Properties\<close>

text \<open>
  C10 (no find is lost): start a new journal and run any operations on it, with any SQLite
  failures in between. Every state on the way is well-formed (ids strictly increasing from 1,
  one row per key, a known status that is never \<open>Submitting\<close>), and whatever runs afterwards,
  each row is still there at its place with the same id and payload, its attempt and window
  counters not smaller and its confirmation time, once set, unchanged.
\<close>

theorem journal_never_loses_finds:
  "let d1 = fold journal_apply es (snd (ensureSchema None empty_db));
       d2 = fold journal_apply fs d1
   in journal_inv d1 \<and> journal_inv d2 \<and> journal_le d1 d2"
proof -
  have "journal_inv (snd (ensureSchema None empty_db))" by code_simp
  then show ?thesis using jrn.run_inv jrn.run_le by (simp add: Let_def)
qed

text \<open>
  C27 (durable, idempotent capture): \<open>append\<close> of a find whose key is new returns a fresh id and the
  record reads back as captured, \<open>Pending\<close> with no attempt, or \<open>PermanentlyInvalid\<close> exactly when
  the hash is longer than 150 characters or the account is empty; nothing else changes. A key
  that is already there returns the id of its row and changes nothing, and so does a failure.
\<close>

theorem append_find_correct:
  assumes "journal_inv d" and "storable p"
  shows "(case append_find None p d of
            (Inl e, d') \<Rightarrow> False
          | (Inr i, d') \<Rightarrow>
              (if key p \<in> col_key ` set (finds d)
               then d' = d \<and> (\<exists>r \<in> set (finds d). col_key r = key p \<and> col_id r = i)
               else i \<notin> col_id ` set (finds d) \<and>
                 (\<exists>r. finds d' = finds d @ [r] \<and> getById None i d' = (Inr (Some (record_of r)), d') \<and>
                    payload (record_of r) = p \<and> attempt_count (record_of r) = 0 \<and>
                    status (record_of r) =
                      (if 150 < length (hash_to_verify p) \<or> account p = [] then PermanentlyInvalid
                       else Pending)))) \<and>
         append_find (Some e) p d = (Inl e, d)"
proof (cases "key p \<in> col_key ` set (finds d)")
  case True
  then have "\<exists>r \<in> set (finds d). col_key r = key p" by auto
  then obtain r where "find (\<lambda>r. col_key r = key p) (finds d) = Some r" "r \<in> set (finds d)" "col_key r = key p"
    using key_fresh_find [of "finds d" "\<lambda>r. col_key r = key p"] by auto
  then show ?thesis using True by (auto simp: append_find_def)
next
  case False
  let ?i = "next_rowid (finds d)"
  let ?r = "insert_row ?i p" and ?d = "d\<lparr>finds := finds d @ [insert_row (next_rowid (finds d)) p]\<rparr>"
  have app: "append_find None p d = (Inr ?i, ?d)"
    using False by (simp add: append_find_def Let_def image_iff) (metis (no_types))
  have "journal_inv ?d" using journal_keepsD [OF append_find_keeps assms(1), of None p] app by simp
  then have "getById None (col_id ?r) ?d = (Inr (Some (record_of ?r)), ?d)" by (rule getById_row) simp
  moreover have "col_id ?r = ?i" by (simp add: insert_row_def)
  moreover have "?i \<notin> col_id ` set (finds d)" using next_rowid_greater [of _ "finds d"] by force
  ultimately show ?thesis
    using False app insert_row_payload [OF assms(2)]
    by (simp add: insert_row_record append_status_def kMaxHashToVerifyLength_def append_find_def)
qed


definition sample_payload :: "string \<Rightarrow> FoundPayload" where
  "sample_payload k = \<lparr>key = k, hash_to_verify = ''$argon2id$'', account = ''0xabc'', kind = XUNI,
     memory_cost = 8, worker = ''w1'', attempts = 5, hashes_per_second = 0,
     found_at_utc = ''2026-01-01T00:00:00Z''\<rparr>"

definition sample_db :: db where
  "sample_db = fold journal_apply [(None, JAppend (sample_payload ''k1'')), (None, JAppend (sample_payload ''k2''))]
     (snd (ensureSchema None empty_db))"

lemma sample_db_inv: "journal_inv sample_db"
proof -
  have "journal_inv (snd (ensureSchema None empty_db))"
    by (simp add: ensureSchema_def empty_db_def journal_inv_def)
  then show ?thesis unfolding sample_db_def by (intro jrn.run_inv) auto
qed

lemma sample_rows:
  "finds sample_db = [insert_row 1 (sample_payload ''k1''), insert_row 2 (sample_payload ''k2'')]"
proof -
  have "finds (snd (ensureSchema None empty_db)) = []" by (simp add: ensureSchema_def empty_db_def)
  then show ?thesis
    by (simp add: sample_db_def append_find_def next_rowid_def Let_def insert_row_def sample_payload_def)
qed

lemma sample_row_cols:
  "col_key (insert_row i (sample_payload k)) = k" "col_id (insert_row i (sample_payload k)) = i"
  "col_status (insert_row i (sample_payload k)) = ''Pending''"
  "col_kind (insert_row i (sample_payload k)) = ''XUNI''"
  "col_next_attempt_at (insert_row i (sample_payload k)) = None"
  by (simp_all add: insert_row_def sample_payload_def append_status_def kMaxHashToVerifyLength_def)

theorem append_find_correct_witness:
  "append_find None (sample_payload ''k1'') sample_db = (Inr 1, sample_db) \<and>
   (\<exists>i d'. append_find None (sample_payload ''k3'') sample_db = (Inr i, d') \<and> length (finds d') = 3)"
proof -
  have s: "storable (sample_payload k)" if "CHR 0x00 \<notin> set k" for k
    using that by (simp add: storable_def sample_payload_def is_nan_def Let_def)
  have k: "col_key ` set (finds sample_db) = {''k1'', ''k2''}" "length (finds sample_db) = 2"
    "\<forall>r \<in> set (finds sample_db). col_key r = ''k1'' \<longrightarrow> col_id r = 1"
    by (simp_all add: sample_rows sample_row_cols)
  have s1: "storable (sample_payload ''k1'')" and s3: "storable (sample_payload ''k3'')"
    by (rule s, simp)+
  have key_sample: "key (sample_payload x) = x" for x by (simp add: sample_payload_def)
  show ?thesis
  proof
    obtain i d' where i: "append_find None (sample_payload ''k1'') sample_db = (Inr i, d')"
      "d' = sample_db \<and> (\<exists>r \<in> set (finds sample_db). col_key r = ''k1'' \<and> col_id r = i)"
      using append_find_correct [OF sample_db_inv s1, of "''x''"] k(1)
      by (simp add: key_sample split: prod.splits sum.splits)
    then show "append_find None (sample_payload ''k1'') sample_db = (Inr 1, sample_db)"
      using k(3) by auto
    obtain j e where j: "append_find None (sample_payload ''k3'') sample_db = (Inr j, e)"
      "\<exists>r. finds e = finds sample_db @ [r]"
      using append_find_correct [OF sample_db_inv s3, of "''x''"] k(1)
      by (simp add: key_sample split: prod.splits sum.splits) blast
    then show "\<exists>i d'. append_find None (sample_payload ''k3'') sample_db = (Inr i, d') \<and>
        length (finds d') = 3"
      using k(2) by auto
  qed
qed

text \<open>
  Eligible work: on a well-formed journal \<open>fetchEligibleOfKind\<close> changes nothing and returns
  the oldest \<open>limit\<close> rows that are \<open>Pending\<close>, of that kind and due, in strictly increasing id
  order. So it returns work of a kind whenever there is any, however many rows of the other
  kind wait in front.
\<close>

theorem fetchEligibleOfKind_correct:
  assumes "journal_inv d"
  shows "\<exists>recs. fetchEligibleOfKind None k now limit d = (Inr recs, d) \<and>
    recs = map record_of (take limit (filter (\<lambda>r. col_status r = ''Pending'' \<and>
      col_kind r = kind_to_string k \<and> due_row now r) (finds d))) \<and>
    sorted_wrt (<) (map id recs) \<and>
    (\<forall>rec \<in> set recs. status rec = Pending \<and> kind (payload rec) = k) \<and>
    (recs = [] \<longleftrightarrow> limit = 0 \<or> (\<forall>r \<in> set (finds d). \<not> (col_status r = ''Pending'' \<and>
      col_kind r = kind_to_string k \<and> due_row now r)))"
proof -
  let ?P = "\<lambda>r. col_status r = ''Pending'' \<and> col_kind r = kind_to_string k \<and> due_row now r"
  let ?rows = "take limit (filter ?P (finds d))"
  have sel: "select_due ''Pending'' (Some (kind_to_string k)) now = ?P"
    by (auto simp: select_due_def fun_eq_iff)
  have ok: "row_ok r \<and> ?P r" if "r \<in> set ?rows" for r
  proof -
    have "r \<in> set (filter ?P (finds d))" using that by (rule in_set_takeD)
    then have "r \<in> set (finds d)" "?P r" by simp_all
    then show ?thesis using journal_invD(1) [OF assms] by blast
  qed
  have "map id (map record_of ?rows) = map col_id ?rows"
    unfolding map_map comp_def using ok record_of_simps(1) by (intro map_cong) blast+
  moreover have "sorted_wrt (<) (map col_id ?rows)"
    using journal_invD(2) [OF assms] by (simp add: sorted_wrt_map sorted_wrt_take sorted_wrt_filter)
  ultimately have "sorted_wrt (<) (map id (map record_of ?rows))" by (simp only:)
  moreover have "status (record_of r) = Pending \<and> kind (payload (record_of r)) = k"
    if "r \<in> set ?rows" for r
    using ok [OF that] record_of_simps(2,3) [of r] by (metis kind_to_string_inj status_to_string.simps(1) status_to_string_inj)
  ultimately show ?thesis
    using fetch_rows [OF assms, of "''Pending''" now limit "Some (kind_to_string k)"]
    unfolding fetchEligibleOfKind_def sel by (auto simp: filter_empty_conv simp del: map_map)
qed

theorem fetchEligibleOfKind_correct_witness:
  "\<exists>recs. fetchEligibleOfKind None XUNI ''2026-01-01T00:00:00Z'' 1 sample_db = (Inr recs, sample_db) \<and>
     map id recs = [1]"
proof -
  let ?f = "filter (\<lambda>r. col_status r = ''Pending'' \<and> col_kind r = kind_to_string XUNI \<and>
      due_row ''2026-01-01T00:00:00Z'' r) (finds sample_db)"
  have "map (\<lambda>r. id (record_of r)) (take 1 ?f) = [1]"
    by (simp add: sample_rows sample_row_cols due_row_def insert_row_record)
  then show ?thesis
    using fetchEligibleOfKind_correct [OF sample_db_inv, of XUNI "''2026-01-01T00:00:00Z''" 1]
    by (auto simp: comp_def)
qed


text \<open>
  XUNI window budget: opening a window touches exactly the rows parked for one. Such a row
  becomes \<open>Pending\<close> with one more window on its count if it had fewer than \<open>max_windows\<close>, and
  \<open>Dead\<close> otherwise, so no row is ever released more than \<open>max_windows\<close> times; the result is the
  number of rows released.
\<close>

theorem unparkXuniForWindow_budget:
  "unparkXuniForWindow None n d =
     (Inr (length (filter (\<lambda>r. col_status r = ''ParkedXuniWindow'' \<and> col_xuni_windows_tried r < n) (finds d))),
      d\<lparr>finds := map (window_row n) (finds d)\<rparr>) \<and>
   (\<forall>r. col_xuni_windows_tried r \<le> n \<longrightarrow> col_xuni_windows_tried (window_row n r) \<le> n)"
  using unparkXuni_rows by (simp add: window_row_def)

theorem unparkXuniForWindow_budget_witness:
  "col_xuni_windows_tried (window_row 6 ((insert_row 1 (sample_payload ''k1''))
     \<lparr>col_status := ''ParkedXuniWindow'', col_xuni_windows_tried := 5\<rparr>)) \<le> 6"
  using unparkXuniForWindow_budget [of 6 sample_db] by simp

text \<open>
  The counters add up: on a well-formed journal \<open>counts\<close> succeeds; its status counters
  partition the rows, its pending, acknowledged and unconfirmed counters are the numbers of rows
  in those states, and the two queue counters together are the rows that are \<open>Pending\<close> or
  \<open>AcceptedUnconfirmed\<close>.
\<close>

theorem counts_correct:
  assumes "journal_inv d"
  shows "\<exists>c. counts None d = (Inr c, d) \<and>
    cnt_pending c = rows_with Pending d \<and> cnt_acked_total c = rows_with Acked d \<and>
    cnt_accepted_unconfirmed c = rows_with AcceptedUnconfirmed d \<and>
    cnt_parked c = rows_with ParkedDifficulty d + rows_with ParkedXuniWindow d \<and>
    cnt_queued_xen11 c + cnt_queued_xuni c = rows_with Pending d + rows_with AcceptedUnconfirmed d \<and>
    cnt_pending c + cnt_parked c + cnt_quarantined c + cnt_acked_total c + cnt_dead_total c +
      cnt_accepted_unconfirmed c + cnt_permanently_invalid c = length (finds d)"
proof -
  have two: "sum_list (map (\<lambda>r. if fst (row_group r) = a \<or> fst (row_group r) = b then 1 else 0) (finds d)) =
      rows_with a d + rows_with b d" if "a \<noteq> b" for a b
    unfolding rows_with_sum [OF assms] sum_list_addf [symmetric]
    by (intro arg_cong [of _ _ sum_list] map_cong) (use that in auto)
  have "fst (row_group r) \<noteq> Submitting" if "r \<in> set (finds d)" for r
    using journal_invD(1) [OF assms that] by (auto elim!: row_okE simp: row_group_def record_of_def rowToRecord_def)
  then have "map (\<lambda>r. if fst (row_group r) = Submitting then 0 else 1) (finds d) = map (\<lambda>_. 1 :: nat) (finds d)"
    by (intro map_cong) auto
  then have all: "sum_list (map (\<lambda>r. if fst (row_group r) = Submitting then 0 else 1) (finds d)) =
      length (finds d)"
    by (simp only: sum_list_triv) simp
  obtain c where c: "counts None d = (Inr c, d)" "cnt_pending c = rows_with Pending d"
    using counts_counter [OF assms counts_case_counters(1)]
    by (auto simp: rows_with_sum [OF assms] no_counts_def)
  show ?thesis
    using c counts_counter [OF assms counts_case_counters(2)] counts_counter [OF assms counts_case_counters(3)]
      counts_counter [OF assms counts_case_counters(4)]
      counts_counter [of d "\<lambda>c. cnt_queued_xen11 c + cnt_queued_xuni c", OF assms counts_case_counters(5)]
      counts_counter [of d "\<lambda>c. cnt_pending c + cnt_parked c + cnt_quarantined c + cnt_acked_total c +
        cnt_dead_total c + cnt_accepted_unconfirmed c + cnt_permanently_invalid c",
        OF assms counts_case_counters(6)]
    by (auto simp: all two rows_with_sum [OF assms, symmetric] no_counts_def)
qed


theorem counts_correct_witness:
  "\<exists>c. counts None sample_db = (Inr c, sample_db) \<and> cnt_pending c = 2 \<and>
     cnt_queued_xen11 c + cnt_queued_xuni c = 2"
proof -
  have "rows_with Pending sample_db = 2" "rows_with AcceptedUnconfirmed sample_db = 0"
    by (simp_all add: rows_with_def sample_rows sample_row_cols)
  then show ?thesis using counts_correct [OF sample_db_inv] by fastforce
qed

end
