(* ===== verification/Response_Classifier.thy ===== *)
theory Response_Classifier
  imports Find_Types
begin

text \<open>
  \<open>src/submit/ResponseClassifier.cpp\<close>: the hand-written JSON field scanner and the truth table
  that turns one \<open>/verify\<close> response into the next state of a find. The scanner functions take
  the suffix of the body at their index and return the suffix after what they consumed.
\<close>

definition quote :: char where "quote = CHR 0x22"
definition backslash :: char where "backslash = CHR 0x5C"

lemmas json_chars = quote_def backslash_def


section \<open>The JSON scanner\<close>

definition isBlank :: "string \<Rightarrow> bool" where
  "isBlank s = list_all isspace s"

definition skipWs :: "string \<Rightarrow> string" where
  "skipWs s = skip_while isspace s"

text \<open>The one-character escapes of \<open>parseJsonString\<close>.\<close>

definition simple_escape :: "char \<Rightarrow> char option" where
  "simple_escape e =
     (if e = quote then Some quote
      else if e = backslash then Some backslash
      else if e = CHR ''/'' then Some (CHR ''/'')
      else if e = CHR ''b'' then Some (CHR 0x08)
      else if e = CHR ''f'' then Some (CHR 0x0C)
      else if e = CHR ''n'' then Some (CHR 0x0A)
      else if e = CHR ''r'' then Some (CHR 0x0D)
      else if e = CHR ''t'' then Some (CHR 0x09)
      else None)"

text \<open>The four digits of a \<open>\uXXXX\<close> escape: \<open>code = code << 4 | nibble\<close>.\<close>

definition hex4 :: "char \<Rightarrow> char \<Rightarrow> char \<Rightarrow> char \<Rightarrow> nat option" where
  "hex4 a b c d =
     (case (hex_nibble a, hex_nibble b, hex_nibble c, hex_nibble d) of
        (Some w, Some x, Some y, Some z) \<Rightarrow> Some (((w * 16 + x) * 16 + y) * 16 + z)
      | _ \<Rightarrow> None)"

text \<open>
  The \<open>switch (e)\<close> on the character after a backslash: the decoded character and the suffix
  after the escape. A code point outside ASCII becomes a question mark.
\<close>

definition decode_escape :: "char \<Rightarrow> string \<Rightarrow> (char \<times> string) option" where
  "decode_escape e s =
     (if e = CHR ''u'' then
        (case s of
           h1 # h2 # h3 # h4 # r \<Rightarrow>
             map_option (\<lambda>cd. (if cd < 128 then char_of cd else CHR 0x3F, r)) (hex4 h1 h2 h3 h4)
         | _ \<Rightarrow> None)
      else map_option (\<lambda>ch. (ch, s)) (simple_escape e))"

lemma decode_escape_length: "decode_escape e s = Some (ch, r) \<Longrightarrow> length r \<le> length s"
  by (auto simp: decode_escape_def split: if_splits list.splits)

text \<open>The loop of \<open>parseJsonString\<close> after the opening quote; \<open>out\<close> is the decoded text so far.\<close>

function parse_chars :: "string \<Rightarrow> string \<Rightarrow> (string \<times> string) option" where
  "parse_chars out [] = None"
| "parse_chars out (c # s) =
     (if c = quote then Some (out, s)
      else if c = backslash then
        (case s of
           [] \<Rightarrow> None
         | e # s' \<Rightarrow>
             (case decode_escape e s' of
                None \<Rightarrow> None
              | Some (ch, r) \<Rightarrow> parse_chars (out @ [ch]) r))
      else parse_chars (out @ [c]) s)"
  by pat_completeness auto
termination
  by (relation "measure (\<lambda>(_, s). length s)") (auto dest: decode_escape_length)

definition parseJsonString :: "string \<Rightarrow> (string \<times> string) option" where
  "parseJsonString s =
     (case s of [] \<Rightarrow> None | c # s' \<Rightarrow> if c = quote then parse_chars [] s' else None)"

lemma parse_chars_length: "parse_chars out s = Some (v, r) \<Longrightarrow> length r < length s"
proof (induction out s rule: parse_chars.induct)
  case (2 out c s)
  show ?case
  proof (cases "c = quote \<or> c \<noteq> backslash")
    case True
    then show ?thesis using 2 by (auto split: if_splits)
  next
    case False
    then obtain e s' ch q where s: "s = e # s'" "decode_escape e s' = Some (ch, q)"
      "parse_chars (out @ [ch]) q = Some (v, r)"
      using 2(3) by (auto split: list.splits option.splits)
    then have "length r < length q" using 2(1) False by auto
    then show ?thesis using s decode_escape_length [OF s(2)] by simp
  qed
qed simp

lemma parseJsonString_length: "parseJsonString s = Some (v, r) \<Longrightarrow> length r < length s"
  by (auto simp: parseJsonString_def split: list.splits if_splits dest: parse_chars_length)

text \<open>
  The bracket-counting loop of \<open>skipJsonValue\<close>: only brackets of the opening kind are counted,
  and strings are skipped whole.
\<close>

function skip_nested :: "char \<Rightarrow> char \<Rightarrow> int \<Rightarrow> string \<Rightarrow> string option" where
  "skip_nested opn cls depth [] = None"
| "skip_nested opn cls depth (d # s) =
     (if d = quote then
        (case parseJsonString (d # s) of
           None \<Rightarrow> None
         | Some (_, s') \<Rightarrow> skip_nested opn cls depth s')
      else
        (let depth1 = (if d = opn then depth + 1 else depth) in
         if d = cls then
           (if depth1 - 1 = 0 then Some s else skip_nested opn cls (depth1 - 1) s)
         else skip_nested opn cls depth1 s))"
  by pat_completeness auto
termination
  by (relation "measure (\<lambda>(_, _, _, s). length s)") (auto dest: parseJsonString_length)

definition bare_stop :: "char \<Rightarrow> bool" where
  "bare_stop c = (c = CHR '','' \<or> c = CHR ''}'' \<or> c = CHR '']'' \<or> isspace c)"

definition skipJsonValue :: "string \<Rightarrow> string option" where
  "skipJsonValue s0 =
     (case skipWs s0 of
        [] \<Rightarrow> None
      | c # s \<Rightarrow>
          if c = quote then map_option snd (parseJsonString (c # s))
          else if c = CHR ''{'' \<or> c = CHR ''['' then
            skip_nested c (if c = CHR ''{'' then CHR ''}'' else CHR '']'') 0 (c # s)
          else Some (skip_while (\<lambda>x. \<not> bare_stop x) (c # s)))"

definition captureScalar :: "string \<Rightarrow> string option" where
  "captureScalar s0 =
     (case skipWs s0 of
        [] \<Rightarrow> None
      | c # s \<Rightarrow>
          if c = quote then map_option fst (parseJsonString (c # s))
          else if c = CHR ''{'' \<or> c = CHR ''['' then None
          else Some (takeWhile (\<lambda>x. \<not> bare_stop x) (c # s)))"

lemma skipWs_length: "length (skipWs s) \<le> length s"
  by (simp add: skipWs_def length_dropWhile_le)

lemma skip_nested_length: "skip_nested opn cls depth s = Some r \<Longrightarrow> length r < length s"
proof (induction opn cls depth s rule: skip_nested.induct)
  case (2 opn cls depth d s)
  then show ?case
    by (auto simp: Let_def split: if_splits option.splits dest: parseJsonString_length)
       (metis parseJsonString_length length_Cons less_SucI less_trans_Suc not_less_eq Suc_lessD)+
qed simp

lemma skipJsonValue_length: "skipJsonValue s = Some r \<Longrightarrow> length r \<le> length s"
proof -
  assume a: "skipJsonValue s = Some r"
  obtain c t where w: "skipWs s = c # t" using a by (cases "skipWs s") (auto simp: skipJsonValue_def)
  have "length r \<le> length (c # t)"
    using a w length_dropWhile_le [of "\<lambda>x. \<not> bare_stop x" "c # t"]
    unfolding skipJsonValue_def w list.case
    by (auto split: if_splits dest!: parseJsonString_length skip_nested_length
        simp del: dropWhile.simps)
  then show ?thesis using w skipWs_length [of s] by simp
qed

text \<open>The member loop of \<open>extractJsonField\<close>.\<close>

function extract_members :: "string \<Rightarrow> string \<Rightarrow> string option" where
  "extract_members ky s =
     (if s = [] then None
      else case parseJsonString (skipWs s) of
        None \<Rightarrow> None
      | Some (k, s1) \<Rightarrow>
          (case skipWs s1 of
             [] \<Rightarrow> None
           | c # s2 \<Rightarrow>
               if c \<noteq> CHR '':'' then None
               else if k = ky then captureScalar s2
               else
                 (case skipJsonValue s2 of
                    None \<Rightarrow> None
                  | Some s3 \<Rightarrow>
                      (case skipWs s3 of
                         [] \<Rightarrow> None
                       | d # s4 \<Rightarrow> if d = CHR '','' then extract_members ky s4 else None))))"
  by pat_completeness auto
termination
proof (relation "measure (\<lambda>(_, s). length s)", goal_cases)
  case 1
  then show ?case by simp
next
  case (2 ky s p k s1 c s2 s3 d s4)
  have "length s1 < length (skipWs s)"
    using 2(2,3) by (auto dest: parseJsonString_length)
  moreover have "length (skipWs s1) = Suc (length s2)" "length (skipWs s3) = Suc (length s4)"
    using 2 by simp_all
  moreover have "length s3 \<le> length s2"
    using 2 by (auto dest: skipJsonValue_length)
  ultimately show ?case
    using skipWs_length [of s] skipWs_length [of s1] skipWs_length [of s3] by simp
qed

declare extract_members.simps [simp del]

definition extractJsonField :: "string \<Rightarrow> string \<Rightarrow> string option" where
  "extractJsonField body ky =
     (case skipWs body of
        [] \<Rightarrow> None
      | c # s \<Rightarrow>
          if c \<noteq> CHR ''{'' then None
          else
            (case skipWs s of
               [] \<Rightarrow> None
             | d # s' \<Rightarrow> if d = CHR ''}'' then None else extract_members ky (d # s')))"

definition extractJsonMessage :: "string \<Rightarrow> string option" where
  "extractJsonMessage body =
     (case extractJsonField body ''message'' of
        Some m \<Rightarrow> Some m
      | None \<Rightarrow> extractJsonField body ''error'')"


section \<open>Numbers in messages and headers\<close>

text \<open>
  The digit loop of \<open>parseDifficultyHint\<close>. The C++ accumulator is a \<open>uint64_t\<close>; it is compared
  with \<open>0xFFFFFFFF\<close> after every digit, so it never exceeds ten times that bound and the natural
  number below is the accumulator itself.
\<close>

fun hint_digits :: "nat \<Rightarrow> string \<Rightarrow> nat option" where
  "hint_digits v [] = Some v"
| "hint_digits v (c # s) =
     (if isdigit c then
        (let v' = v * 10 + digit_val c in if v' > 0xFFFFFFFF then None else hint_digits v' s)
      else Some v)"

fun parseDifficultyHint :: "string \<Rightarrow> u32 option" where
  "parseDifficultyHint [] = None"
| "parseDifficultyHint (c # s) =
     (case s of
        e # d # s' \<Rightarrow>
          if c = CHR ''m'' \<and> e = CHR ''='' \<and> isdigit d
          then map_option of_nat (hint_digits 0 (d # s'))
          else parseDifficultyHint s
      | _ \<Rightarrow> parseDifficultyHint s)"

fun retry_digits :: "nat \<Rightarrow> string \<Rightarrow> (nat \<times> string) option" where
  "retry_digits v [] = Some (v, [])"
| "retry_digits v (c # s) =
     (if isdigit c then
        (if v > 100000000 then None else retry_digits (v * 10 + digit_val c) s)
      else Some (v, c # s))"

definition parseRetryAfterSeconds :: "string \<Rightarrow> nat option" where
  "parseRetryAfterSeconds hv =
     (case skipWs hv of
        [] \<Rightarrow> None
      | c # s \<Rightarrow>
          if \<not> isdigit c then None
          else (case retry_digits 0 (c # s) of
                  None \<Rightarrow> None
                | Some (v, r) \<Rightarrow> if skipWs r = [] then Some v else None))"


section \<open>The truth table\<close>

definition kTransportError :: int where "kTransportError = 0"

definition pending :: "string \<Rightarrow> Classification" where
  "pending r = \<lparr>next_status = Pending, server_difficulty_hint = None,
                needs_lookup_confirmation = False, reason = r\<rparr>"

definition quarantined :: "string \<Rightarrow> Classification" where
  "quarantined r = \<lparr>next_status = Quarantined, server_difficulty_hint = None,
                    needs_lookup_confirmation = False, reason = r\<rparr>"

definition classify_400 :: "string \<Rightarrow> Classification" where
  "classify_400 message =
     (if contains message ''already exists'' then
        \<lparr>next_status = AcceptedUnconfirmed, server_difficulty_hint = None,
         needs_lookup_confirmation = True,
         reason = ''duplicate key (already exists); confirming via /get_block''\<rparr>
      else quarantined (''unrecognized 400: '' @ message))"

definition classify_401 :: "string \<Rightarrow> FindKind \<Rightarrow> Classification" where
  "classify_401 message knd =
     (if contains message ''Hash verification failed'' then
        \<lparr>next_status = PermanentlyInvalid, server_difficulty_hint = None,
         needs_lookup_confirmation = False,
         reason = ''server rejected: hash verification failed''\<rparr>
      else if contains message ''outside of proper time frame'' \<or>
              contains message ''outside of time window'' then
        (if knd = XUNI then
           \<lparr>next_status = ParkedXuniWindow, server_difficulty_hint = None,
            needs_lookup_confirmation = False,
            reason = ''XUNI outside server time window; parked for a later window''\<rparr>
         else quarantined
           (''IMPOSSIBLE: XUNI-window rejection for a XEN11 record '' @ em_dash @
            '' server semantics changed, investigate: '' @ message))
      else
        (case parseDifficultyHint message of
           Some hint \<Rightarrow>
             \<lparr>next_status = ParkedDifficulty, server_difficulty_hint = Some hint,
              needs_lookup_confirmation = False,
              reason = ''difficulty too low (server currently at m='' @ to_dec (unat hint) @
                       ''); parked until difficulty falls''\<rparr>
         | None \<Rightarrow> quarantined (''unrecognized 401: '' @ message)))"

text \<open>\<open>extractJsonMessage(body).value_or(body)\<close>.\<close>

definition response_message :: "string \<Rightarrow> string" where
  "response_message body = (case extractJsonMessage body of Some m \<Rightarrow> m | None \<Rightarrow> body)"

definition classify :: "int \<Rightarrow> string \<Rightarrow> FindKind \<Rightarrow> string option \<Rightarrow> Classification" where
  "classify http_status body knd retry_after =
     (if http_status \<le> 0 then pending ''transport failure; will retry with backoff''
      else if body = [] \<or> isBlank body then
        pending (''empty response body (http '' @ to_dec_int http_status @
                 ''); will retry with backoff'')
      else
        (let message = response_message body in
         if http_status = 200 then
           \<lparr>next_status = AcceptedUnconfirmed, server_difficulty_hint = None,
            needs_lookup_confirmation = True,
            reason = ''http 200; awaiting /get_block confirmation''\<rparr>
         else if http_status = 429 then
           (let c = pending ''rate limited (429)'' in
            case retry_after of
              None \<Rightarrow> c
            | Some ra \<Rightarrow>
                (case parseRetryAfterSeconds ra of
                   None \<Rightarrow> c
                 | Some secs \<Rightarrow> c\<lparr>reason := reason c @ ''; retry_after_s='' @ to_dec secs\<rparr>))
         else if http_status = 408 \<or> http_status = 425 \<or> http_status \<ge> 500 then
           pending (''server unhealthy (http '' @ to_dec_int http_status @
                    ''); will retry with backoff'')
         else if http_status = 400 then classify_400 message
         else if http_status = 401 then classify_401 message knd
         else quarantined (''unrecognized response (http '' @ to_dec_int http_status @
                           ''): '' @ message)))"

lemmas classify_defs = classify_def classify_400_def classify_401_def pending_def quarantined_def


section \<open>What the scanner and the table promise\<close>

lemma isBlank_Nil [simp]: "isBlank []"
  by (simp add: isBlank_def)

lemma foldl_dec_ge: "v \<le> foldl (\<lambda>v c. v * 10 + digit_val c) v s"
proof (induction s arbitrary: v)
  case (Cons c s)
  have "v \<le> v * 10 + digit_val c" by simp
  then show ?case using Cons [of "v * 10 + digit_val c"] by simp
qed simp

lemma hint_digits_run:
  assumes "\<And>c. c \<in> set ds \<Longrightarrow> isdigit c" and "post = [] \<or> \<not> isdigit (hd post)"
    and "v \<le> 0xFFFFFFFF"
  shows "hint_digits v (ds @ post) =
    (let n = foldl (\<lambda>v c. v * 10 + digit_val c) v ds in if n \<le> 0xFFFFFFFF then Some n else None)"
  using assms(1,3)
proof (induction ds arbitrary: v)
  case Nil
  then show ?case using assms(2) by (cases post) auto
next
  case (Cons c ds)
  let ?v = "v * 10 + digit_val c"
  have ge: "?v \<le> foldl (\<lambda>v c. v * 10 + digit_val c) ?v ds"
    by (rule foldl_dec_ge)
  have "isdigit c" using Cons.prems by simp
  then show ?case
    using Cons.IH [of ?v] Cons.prems ge by (cases "?v \<le> 0xFFFFFFFF") (auto simp: Let_def)
qed

lemma hint_digits_to_dec:
  assumes "post = [] \<or> \<not> isdigit (hd post)"
  shows "hint_digits 0 (to_dec n @ post) = (if n \<le> 0xFFFFFFFF then Some n else None)"
  using hint_digits_run [of "to_dec n" post 0, OF to_dec_digits assms] dec_val_to_dec [of n]
  by (simp add: dec_val_def)

lemma parseDifficultyHint_skip:
  "e \<noteq> CHR ''='' \<Longrightarrow> parseDifficultyHint (c # e # d # s) = parseDifficultyHint (e # d # s)"
  by simp

lemma parseDifficultyHint_found:
  assumes "CHR ''='' \<notin> set pre" and "post = [] \<or> \<not> isdigit (hd post)"
  shows "parseDifficultyHint (pre @ ''m='' @ to_dec n @ post) =
    (if n \<le> 0xFFFFFFFF then Some (of_nat n) else None)"
  using assms(1)
proof (induction pre)
  case Nil
  obtain d ds where d: "to_dec n = d # ds" by (cases "to_dec n") auto
  have "isdigit d" using to_dec_digits [of d n] d by simp
  moreover have "hint_digits 0 (d # ds @ post) = (if n \<le> 0xFFFFFFFF then Some n else None)"
    using hint_digits_to_dec [OF assms(2), of n] d by simp
  ultimately show ?case unfolding d by (simp del: hint_digits.simps)
next
  case (Cons c pre)
  obtain e d r where r: "pre @ ''m='' @ to_dec n @ post = e # d # r" and "e \<noteq> CHR ''=''"
  proof (cases pre)
    case Nil
    then show ?thesis using that [of "CHR ''m''" "CHR ''=''" "to_dec n @ post"] by simp
  next
    case (Cons e pre')
    then show ?thesis
      using that [of e "hd (pre' @ ''m='')" "tl (pre' @ ''m='') @ to_dec n @ post"] Cons.prems
        \<open>CHR ''='' \<notin> set (c # pre)\<close>
      by (cases pre') auto
  qed
  then have "parseDifficultyHint ((c # pre) @ ''m='' @ to_dec n @ post) =
      parseDifficultyHint (pre @ ''m='' @ to_dec n @ post)"
    using parseDifficultyHint_skip by (simp only: append_Cons r)
  moreover have "CHR ''='' \<notin> set pre" using Cons.prems by simp
  ultimately show ?case using Cons.IH by metis
qed

lemma retry_digits_bound:
  "retry_digits v s = Some (n, r) \<Longrightarrow> v \<le> 1000000009 \<Longrightarrow> n \<le> 1000000009"
proof (induction v s rule: retry_digits.induct)
  case (2 v c s)
  then show ?case using isdigit_bounds [of c] by (auto split: if_splits)
qed simp

lemma parseRetryAfterSeconds_bound:
  "parseRetryAfterSeconds hv = Some n \<Longrightarrow> n \<le> 1000000009"
  by (auto simp: parseRetryAfterSeconds_def simp del: retry_digits.simps
      split: list.splits if_splits option.splits dest: retry_digits_bound)

text \<open>
  C30 (lookup): exactly the non-blank 200 answers and the non-blank 400 answers whose message
  says \<open>already exists\<close> are taken as accepted, and those are exactly the answers that ask for a
  \<open>/get_block\<close> confirmation.
\<close>

theorem classify_accepts_iff:
  "(next_status (classify h body knd ra) = AcceptedUnconfirmed) =
     (0 < h \<and> \<not> isBlank body \<and>
      (h = 200 \<or> h = 400 \<and> contains (response_message body) ''already exists''))
   \<and> (needs_lookup_confirmation (classify h body knd ra) =
      (next_status (classify h body knd ra) = AcceptedUnconfirmed))"
  by (auto simp: classify_defs Let_def split: option.splits)

text \<open>
  Never dropped: whatever the server answers, the classification is one of six states: it
  never acknowledges a find by itself, never kills it and never leaves it in the in-process state
  \<open>Submitting\<close>. A difficulty hint is surfaced exactly when the find is parked for difficulty, and
  a XEN11 find is never parked for a XUNI window.
\<close>

theorem classify_total:
  "next_status (classify h body knd ra) \<in>
     {Pending, AcceptedUnconfirmed, ParkedDifficulty, ParkedXuniWindow, Quarantined,
      PermanentlyInvalid}
   \<and> ((server_difficulty_hint (classify h body knd ra) \<noteq> None) =
      (next_status (classify h body knd ra) = ParkedDifficulty))
   \<and> next_status (classify h body XEN11 ra) \<noteq> ParkedXuniWindow"
  by (auto simp: classify_defs Let_def split: option.splits)

text \<open>
  Retry: transport failures, blank bodies, 408, 425, 429 and every 5xx keep the find
  \<open>Pending\<close> for another attempt; conversely only those do.
\<close>

theorem classify_pending_iff:
  "(next_status (classify h body knd ra) = Pending) =
     (h \<le> 0 \<or> isBlank body \<or> h = 408 \<or> h = 425 \<or> h = 429 \<or> 500 \<le> h)"
  by (auto simp: classify_defs Let_def split: option.splits)

text \<open>
  Hint: for the server's 401 message (any text without an equals sign, then \<open>m=\<close>, the decimal
  difficulty, then a non-digit) the parsed hint is the number itself when it fits 32 bits and is
  absent when it does not.
\<close>

theorem parseDifficultyHint_roundtrip:
  assumes "CHR ''='' \<notin> set pre" and "post = [] \<or> \<not> isdigit (hd post)"
  shows "map_option unat (parseDifficultyHint (pre @ ''m='' @ to_dec n @ post)) =
    (if n < 2 ^ 32 then Some n else None)"
proof (cases "n < 2 ^ 32")
  case True
  then have "unat (of_nat n :: u32) = n" by (simp add: unat_of_nat)
  then show ?thesis using parseDifficultyHint_found [OF assms, of n] True by simp
next
  case False
  then show ?thesis using parseDifficultyHint_found [OF assms, of n] by simp
qed

theorem parseDifficultyHint_roundtrip_witness:
  "map_option unat (parseDifficultyHint (''Hash does not contain '' @ ''m='' @ to_dec 42069 @ '' now''))
   = Some 42069"
proof -
  have a: "CHR ''='' \<notin> set ''Hash does not contain ''" by simp
  have b: "'' now'' = [] \<or> \<not> isdigit (hd '' now'')" by code_simp
  have "(42069 :: nat) < 2 ^ 32" by simp
  then show ?thesis
    using parseDifficultyHint_roundtrip [OF a b, of 42069] by (simp only: if_P)
qed

end
