(* ===== verification/Circuit_Breaker.thy ===== *)
theory Circuit_Breaker
  imports Prelude
begin

text \<open>
  \<open>src/submit/CircuitBreaker.{h,cpp}\<close>. The injected monotonic clock and the jitter source are
  arguments of the operations that read them: \<open>now\<close> is the value \<open>clock_()\<close> returns, \<open>jit\<close> the
  value \<open>jitter_()\<close> returns. Millisecond times are \<^typ>\<open>int\<close>; the double arithmetic of
  the jitter term is real arithmetic followed by the truncation of the cast.
\<close>

datatype State = Closed | Open | HalfOpen

record breaker_config =
  failure_threshold :: int
  probe_base_ms :: int
  probe_cap_ms :: int
  probe_cap_xuni_ms :: int
  jitter_fraction :: real

definition default_breaker_config :: breaker_config where
  "default_breaker_config =
     \<lparr>failure_threshold = 3, probe_base_ms = 5000, probe_cap_ms = 60000,
      probe_cap_xuni_ms = 5000, jitter_fraction = 1 / 5\<rparr>"

record breaker =
  cfg :: breaker_config
  state :: State
  consecutive_failures :: int
  probe_interval_ms :: int
  next_probe_at_ms :: int
  admission_available :: bool
  xuni_pressure :: bool

definition CircuitBreaker :: "breaker_config \<Rightarrow> breaker" where
  "CircuitBreaker c =
     \<lparr>cfg = c, state = Closed, consecutive_failures = 0, probe_interval_ms = 0,
      next_probe_at_ms = 0, admission_available = False, xuni_pressure = False\<rparr>"

text \<open>\<open>static_cast<std::int64_t>\<close> of a double: truncation towards zero.\<close>

definition trunc :: "real \<Rightarrow> int" where
  "trunc x = (if x < 0 then \<lceil>x\<rceil> else \<lfloor>x\<rfloor>)"

definition activeCapMs :: "breaker \<Rightarrow> int" where
  "activeCapMs b =
     (if xuni_pressure b then min (probe_cap_ms (cfg b)) (probe_cap_xuni_ms (cfg b))
      else probe_cap_ms (cfg b))"

definition probe_delay :: "real \<Rightarrow> breaker \<Rightarrow> int" where
  "probe_delay jit b =
     (let cap = activeCapMs b;
          base = min (probe_interval_ms b) cap;
          delay = base + trunc (jit * jitter_fraction (cfg b) * of_int base)
      in if xuni_pressure b then min delay cap else delay)"

definition scheduleProbe :: "int \<Rightarrow> real \<Rightarrow> breaker \<Rightarrow> breaker" where
  "scheduleProbe now jit b = b\<lparr>next_probe_at_ms := now + probe_delay jit b\<rparr>"

definition open_breaker :: "int \<Rightarrow> real \<Rightarrow> breaker \<Rightarrow> breaker" where
  "open_breaker now jit b = scheduleProbe now jit (b\<lparr>state := Open, admission_available := False\<rparr>)"

definition probeDue :: "int \<Rightarrow> breaker \<Rightarrow> bool" where
  "probeDue now b = (state b = Open \<and> next_probe_at_ms b \<le> now)"

definition onProbeSuccess :: "breaker \<Rightarrow> breaker" where
  "onProbeSuccess b =
     (if state b \<noteq> Open then b else b\<lparr>state := HalfOpen, admission_available := True\<rparr>)"

definition onProbeFailure :: "int \<Rightarrow> real \<Rightarrow> breaker \<Rightarrow> breaker" where
  "onProbeFailure now jit b =
     (if state b \<noteq> Open then b
      else scheduleProbe now jit
        (b\<lparr>probe_interval_ms := min (probe_interval_ms b * 2) (probe_cap_ms (cfg b))\<rparr>))"

definition tryAdmit :: "breaker \<Rightarrow> bool \<times> breaker" where
  "tryAdmit b =
     (case state b of
        Closed \<Rightarrow> (True, b)
      | HalfOpen \<Rightarrow>
          if admission_available b then (True, b\<lparr>admission_available := False\<rparr>) else (False, b)
      | Open \<Rightarrow> (False, b))"

definition onVerifySuccess :: "breaker \<Rightarrow> breaker" where
  "onVerifySuccess b =
     b\<lparr>state := Closed, consecutive_failures := 0, probe_interval_ms := probe_base_ms (cfg b),
       admission_available := False\<rparr>"

definition onVerifyTransportFailure :: "int \<Rightarrow> real \<Rightarrow> breaker \<Rightarrow> breaker" where
  "onVerifyTransportFailure now jit b =
     (case state b of
        HalfOpen \<Rightarrow>
          open_breaker now jit
            (b\<lparr>probe_interval_ms :=
                 min (max (probe_interval_ms b) (probe_base_ms (cfg b)) * 2)
                     (probe_cap_ms (cfg b))\<rparr>)
      | Closed \<Rightarrow>
          (let b' = b\<lparr>consecutive_failures := consecutive_failures b + 1\<rparr> in
           if failure_threshold (cfg b) \<le> consecutive_failures b' then
             open_breaker now jit (b'\<lparr>probe_interval_ms := probe_base_ms (cfg b)\<rparr>)
           else b')
      | Open \<Rightarrow> b)"

definition onVerifyInconclusive :: "breaker \<Rightarrow> breaker" where
  "onVerifyInconclusive b =
     (let b' = b\<lparr>consecutive_failures := 0\<rparr> in
      if state b' = HalfOpen then b'\<lparr>admission_available := True\<rparr> else b')"

definition setXuniPressure :: "int \<Rightarrow> bool \<Rightarrow> breaker \<Rightarrow> breaker" where
  "setXuniPressure now eligible b =
     (let b' = b\<lparr>xuni_pressure := eligible\<rparr> in
      if \<not> xuni_pressure b \<and> eligible \<and> state b' = Open
      then b'\<lparr>next_probe_at_ms := min (next_probe_at_ms b') (now + activeCapMs b')\<rparr>
      else b')"

lemmas breaker_defs =
  activeCapMs_def probe_delay_def scheduleProbe_def open_breaker_def probeDue_def
  onProbeSuccess_def onProbeFailure_def tryAdmit_def onVerifySuccess_def
  onVerifyTransportFailure_def onVerifyInconclusive_def setXuniPressure_def CircuitBreaker_def


section \<open>The breaker as a state machine\<close>

text \<open>
  The calls a client can make, as events. An admission request is an event too; its answer is
  \<open>fst (tryAdmit b)\<close>.
\<close>

datatype breaker_event =
    ProbeSuccess
  | ProbeFailure int real
  | Admit
  | VerifySuccess
  | VerifyTransportFailure int real
  | VerifyInconclusive
  | XuniPressure int bool

fun breaker_apply :: "breaker_event \<Rightarrow> breaker \<Rightarrow> breaker" where
  "breaker_apply ProbeSuccess b = onProbeSuccess b"
| "breaker_apply (ProbeFailure now jit) b = onProbeFailure now jit b"
| "breaker_apply Admit b = snd (tryAdmit b)"
| "breaker_apply VerifySuccess b = onVerifySuccess b"
| "breaker_apply (VerifyTransportFailure now jit) b = onVerifyTransportFailure now jit b"
| "breaker_apply VerifyInconclusive b = onVerifyInconclusive b"
| "breaker_apply (XuniPressure now p) b = setXuniPressure now p b"

definition breaker_run :: "breaker_event list \<Rightarrow> breaker \<Rightarrow> breaker" where
  "breaker_run es b = fold breaker_apply es b"

text \<open>Runs of transport failures and of failed probes, each with its clock and jitter reading.\<close>

definition failures :: "(int \<times> real) list \<Rightarrow> breaker_event list" where
  "failures ps = map (\<lambda>(n, j). VerifyTransportFailure n j) ps"

definition failed_probes :: "(int \<times> real) list \<Rightarrow> breaker_event list" where
  "failed_probes ps = map (\<lambda>(n, j). ProbeFailure n j) ps"

text \<open>A configuration a client may pass: a positive threshold and ordered probe bounds.\<close>

definition wf_breaker_config :: "breaker_config \<Rightarrow> bool" where
  "wf_breaker_config c =
     (0 < failure_threshold c \<and> 0 < probe_base_ms c \<and> probe_base_ms c \<le> probe_cap_ms c \<and>
      0 < probe_cap_xuni_ms c \<and> 0 \<le> jitter_fraction c)"

definition breaker_inv :: "breaker \<Rightarrow> bool" where
  "breaker_inv b =
     (wf_breaker_config (cfg b) \<and>
      (admission_available b \<longrightarrow> state b = HalfOpen) \<and>
      (state b = Closed \<longrightarrow> 0 \<le> consecutive_failures b \<and>
         consecutive_failures b < failure_threshold (cfg b)) \<and>
      (state b \<noteq> Closed \<longrightarrow> probe_base_ms (cfg b) \<le> probe_interval_ms b \<and>
         probe_interval_ms b \<le> probe_cap_ms (cfg b)))"

lemma breaker_inv_init: "wf_breaker_config c \<Longrightarrow> breaker_inv (CircuitBreaker c)"
  by (simp add: breaker_inv_def CircuitBreaker_def wf_breaker_config_def)

lemma cfg_apply [simp]: "cfg (breaker_apply e b) = cfg b"
  by (cases e; cases "state b") (auto simp: breaker_defs Let_def)

lemma breaker_inv_apply: "breaker_inv b \<Longrightarrow> breaker_inv (breaker_apply e b)"
  by (cases e; cases "state b")
     (auto simp: breaker_inv_def breaker_defs wf_breaker_config_def Let_def)

interpretation brk: machine breaker_apply breaker_inv "\<lambda>_. True"
  by unfold_locales (rule breaker_inv_apply)

lemma cfg_run [simp]: "cfg (breaker_run es b) = cfg b"
  by (induction es arbitrary: b) (simp_all add: breaker_run_def)

lemma breaker_inv_run: "wf_breaker_config c \<Longrightarrow> breaker_inv (breaker_run es (CircuitBreaker c))"
  using brk.run_inv [OF breaker_inv_init] by (simp add: breaker_run_def)

lemma trunc_nonneg: "0 \<le> x \<Longrightarrow> 0 \<le> trunc x"
  by (simp add: trunc_def)

lemma trunc_le: "0 \<le> x \<Longrightarrow> of_int (trunc x) \<le> x"
  by (simp add: trunc_def)

text \<open>
  The delay chosen for the next probe is positive and at most the active cap, plus the jitter
  fraction of it when no XUNI is at stake.
\<close>

lemma probe_delay_bounds:
  assumes "breaker_inv b" and "state b \<noteq> Closed" and "0 \<le> jit" and "jit \<le> 1"
  shows "0 < probe_delay jit b"
    and "of_int (probe_delay jit b) \<le>
      (if xuni_pressure b then of_int (activeCapMs b)
       else of_int (activeCapMs b) * (1 + jitter_fraction (cfg b)))"
proof -
  let ?cap = "activeCapMs b"
  let ?base = "min (probe_interval_ms b) ?cap"
  let ?x = "jit * jitter_fraction (cfg b) * of_int ?base"
  have cap: "0 < ?cap" and base: "0 < ?base"
    using assms by (auto simp: breaker_inv_def wf_breaker_config_def activeCapMs_def)
  have f: "0 \<le> jitter_fraction (cfg b)"
    using assms by (simp add: breaker_inv_def wf_breaker_config_def)
  have x: "0 \<le> ?x" using base f assms(3) by simp
  have "?x \<le> 1 * jitter_fraction (cfg b) * of_int ?cap"
    using base f assms(3,4) by (intro mult_mono) auto
  then have t: "of_int (trunc ?x) \<le> jitter_fraction (cfg b) * of_int ?cap"
    using trunc_le [OF x] by simp
  show "0 < probe_delay jit b"
    using cap base trunc_nonneg [OF x] by (simp add: probe_delay_def Let_def)
  have "of_int (?base + trunc ?x) \<le> of_int ?cap * (1 + jitter_fraction (cfg b))"
    using t by (simp add: distrib_left mult.commute)
  then show "of_int (probe_delay jit b) \<le>
      (if xuni_pressure b then of_int (activeCapMs b)
       else of_int (activeCapMs b) * (1 + jitter_fraction (cfg b)))"
    by (simp add: probe_delay_def Let_def)
qed

lemma interval_probe_failures:
  assumes "state b = Open" and "0 \<le> probe_interval_ms b"
    and "probe_interval_ms b \<le> probe_cap_ms (cfg b)"
  shows "state (breaker_run (failed_probes ps) b) = Open \<and>
    probe_interval_ms (breaker_run (failed_probes ps) b) =
      min (probe_interval_ms b * 2 ^ length ps) (probe_cap_ms (cfg b))"
  using assms
proof (induction ps arbitrary: b)
  case Nil
  then show ?case by (simp add: breaker_run_def failed_probes_def failures_def)
next
  case (Cons p ps)
  obtain n j where p: "p = (n, j)" by (cases p)
  let ?b = "onProbeFailure n j b"
  have b: "state ?b = Open" "cfg ?b = cfg b"
    "probe_interval_ms ?b = min (probe_interval_ms b * 2) (probe_cap_ms (cfg b))"
    using Cons.prems by (simp_all add: onProbeFailure_def scheduleProbe_def)
  have mul: "min (min (probe_interval_ms b * 2) c * 2 ^ length ps) c =
      min (probe_interval_ms b * 2 ^ Suc (length ps)) c" if "0 \<le> c" for c :: int
  proof (cases "probe_interval_ms b * 2 \<le> c")
    case True
    then show ?thesis by (simp add: mult.assoc)
  next
    case False
    have one: "(1 :: int) \<le> 2 ^ length ps" by simp
    have a: "c * 1 \<le> c * 2 ^ length ps" using that one by (intro mult_left_mono) auto
    have "c * 2 ^ length ps \<le> probe_interval_ms b * 2 * 2 ^ length ps"
      using False one by (intro mult_right_mono) auto
    from order_trans [OF a this] a
    have "c \<le> c * 2 ^ length ps" "c \<le> probe_interval_ms b * 2 ^ Suc (length ps)"
      by (simp_all only: mult_1_right power_Suc mult.assoc)
    then show ?thesis using False by (simp add: min_absorb2 del: power_Suc)
  qed
  show ?case
    using Cons.IH [of ?b] Cons.prems b mul [of "probe_cap_ms (cfg b)"] p
    by (simp add: breaker_run_def failed_probes_def)
qed

lemma failures_run:
  assumes "state b = Closed" and "consecutive_failures b + int (length ps) < failure_threshold (cfg b)"
  shows "state (breaker_run (failures ps) b) = Closed \<and>
    consecutive_failures (breaker_run (failures ps) b) =
      consecutive_failures b + int (length ps)"
  using assms
proof (induction ps arbitrary: b)
  case Nil
  then show ?case by (simp add: breaker_run_def failed_probes_def failures_def)
next
  case (Cons p ps)
  obtain n j where p: "p = (n, j)" by (cases p)
  let ?b = "onVerifyTransportFailure n j b"
  have "state ?b = Closed" "consecutive_failures ?b = consecutive_failures b + 1" "cfg ?b = cfg b"
    using Cons.prems by (auto simp: onVerifyTransportFailure_def Let_def)
  then show ?case using Cons.IH [of ?b] Cons.prems p by (simp add: breaker_run_def failures_def)
qed

lemma halfopen_drained:
  assumes "state b = HalfOpen" and "\<not> admission_available b"
    and "\<forall>e \<in> set es. e = Admit \<or> (\<exists>now p. e = XuniPressure now p)"
  shows "state (breaker_run es b) = HalfOpen \<and> \<not> admission_available (breaker_run es b)"
  using assms
proof (induction es arbitrary: b)
  case Nil
  then show ?case by (simp add: breaker_run_def failed_probes_def failures_def)
next
  case (Cons e es)
  have "state (breaker_apply e b) = HalfOpen \<and> \<not> admission_available (breaker_apply e b)"
    using Cons.prems by (auto simp: tryAdmit_def setXuniPressure_def Let_def)
  then show ?case using Cons.IH [of "breaker_apply e b"] Cons.prems by (simp add: breaker_run_def)
qed


section \<open>Properties\<close>

text \<open>
  C26 (breaker invariant): in every state the breaker can reach, an unused half-open admission exists only in
  \<open>HalfOpen\<close>; while \<open>Closed\<close> the failure streak is below the threshold; and outside \<open>Closed\<close> the
  probe interval lies between the base and the cap.
\<close>

theorem breaker_reachable_inv:
  assumes "wf_breaker_config c"
  shows "breaker_inv (breaker_run es (CircuitBreaker c))"
  using assms by (rule breaker_inv_run)

theorem breaker_reachable_inv_witness:
  "wf_breaker_config default_breaker_config \<and>
   breaker_inv (breaker_run [VerifyTransportFailure 10 0, VerifyTransportFailure 20 0,
     VerifyTransportFailure 30 0, ProbeFailure 5030 0, ProbeSuccess, Admit]
     (CircuitBreaker default_breaker_config))"
proof -
  have w: "wf_breaker_config default_breaker_config"
    by (simp add: wf_breaker_config_def default_breaker_config_def)
  then show ?thesis using breaker_reachable_inv [OF w] by blast
qed

text \<open>
  Who moves the breaker: no event but a verification success ever brings a breaker back to \<open>Closed\<close>; only a
  probe success leaves \<open>Open\<close> for \<open>HalfOpen\<close>; only a transport failure opens it; and while it is
  \<open>Open\<close> no admission is granted.
\<close>

theorem breaker_transitions:
  "(state b \<noteq> Closed \<and> state (breaker_apply e b) = Closed) = (state b \<noteq> Closed \<and> e = VerifySuccess)
   \<and> (state b \<noteq> HalfOpen \<and> state (breaker_apply e b) = HalfOpen) =
     (state b = Open \<and> e = ProbeSuccess)
   \<and> (state b \<noteq> Open \<and> state (breaker_apply e b) = Open) =
     (\<exists>now jit. e = VerifyTransportFailure now jit \<and>
       (state b = HalfOpen \<or> state b = Closed \<and>
        failure_threshold (cfg b) \<le> consecutive_failures b + 1))
   \<and> fst (tryAdmit b) = (state b = Closed \<or> state b = HalfOpen \<and> admission_available b)"
  by (cases e; cases "state b") (auto simp: breaker_defs Let_def)

text \<open>
  Single admission: a half-open breaker that has granted its admission grants no further one, whatever admission
  requests and XUNI-pressure updates follow, until an outcome is reported.
\<close>

theorem breaker_single_admission:
  assumes "state b = HalfOpen" and "fst (tryAdmit b)"
    and "\<forall>e \<in> set es. e = Admit \<or> (\<exists>now p. e = XuniPressure now p)"
  shows "\<not> fst (tryAdmit (breaker_run es (snd (tryAdmit b))))"
proof -
  have "state (snd (tryAdmit b)) = HalfOpen \<and> \<not> admission_available (snd (tryAdmit b))"
    using assms(1,2) by (auto simp: tryAdmit_def split: if_splits)
  then show ?thesis
    using halfopen_drained [OF _ _ assms(3)] by (simp add: tryAdmit_def)
qed

theorem breaker_single_admission_witness:
  "\<not> fst (tryAdmit (breaker_run [Admit, XuniPressure 7 True, Admit]
      (snd (tryAdmit ((CircuitBreaker default_breaker_config)
        \<lparr>state := HalfOpen, admission_available := True\<rparr>)))))"
  by (rule breaker_single_admission) (auto simp: tryAdmit_def CircuitBreaker_def)

text \<open>
  Opening: starting from a fresh breaker, any sequence of consecutive transport failures
  shorter than the threshold leaves it closed and the failure that completes the threshold opens
  it; \<open>k\<close> failed probes later the probe interval is the base doubled \<open>k\<close> times, capped.
\<close>

theorem breaker_opens_and_backs_off:
  assumes "wf_breaker_config c" and "int (length ps) = failure_threshold c - 1"
  shows "state (breaker_run (failures ps) (CircuitBreaker c)) = Closed
    \<and> state (breaker_run (failures (ps @ [q])) (CircuitBreaker c)) = Open
    \<and> probe_interval_ms (breaker_run (failed_probes qs)
        (breaker_run (failures (ps @ [q])) (CircuitBreaker c))) =
      min (probe_base_ms c * 2 ^ length qs) (probe_cap_ms c)"
proof -
  let ?b = "breaker_run (failures ps) (CircuitBreaker c)"
  obtain now jit where q: "q = (now, jit)" by (cases q)
  have b: "state ?b = Closed" "consecutive_failures ?b = failure_threshold c - 1" "cfg ?b = c"
    using failures_run [of "CircuitBreaker c" ps] assms(2) by (simp_all add: CircuitBreaker_def)
  let ?o = "onVerifyTransportFailure now jit ?b"
  have o: "state ?o = Open" "probe_interval_ms ?o = probe_base_ms c" "cfg ?o = c"
    using b by (simp_all add: onVerifyTransportFailure_def open_breaker_def scheduleProbe_def Let_def)
  have run: "breaker_run (failures (ps @ [q])) (CircuitBreaker c) = ?o"
    by (simp add: breaker_run_def failures_def q)
  have "0 \<le> probe_interval_ms ?o" "probe_interval_ms ?o \<le> probe_cap_ms (cfg ?o)"
    using assms(1) o by (simp_all add: wf_breaker_config_def)
  then show ?thesis
    using interval_probe_failures [of ?o qs] o b(1) unfolding run by simp
qed

theorem breaker_opens_and_backs_off_witness:
  "state (breaker_run (failures ([(1, 0), (2, 0)] @ [(3, 0)]))
     (CircuitBreaker default_breaker_config)) = Open
   \<and> probe_interval_ms (breaker_run (failed_probes [(9, 0), (10, 0)])
       (breaker_run (failures ([(1, 0), (2, 0)] @ [(3, 0)])) (CircuitBreaker default_breaker_config)))
     = 20000"
proof -
  have w: "wf_breaker_config default_breaker_config"
    and l: "int (length [(1 :: int, 0 :: real), (2, 0)]) = failure_threshold default_breaker_config - 1"
    by (simp_all add: wf_breaker_config_def default_breaker_config_def)
  have "min (probe_base_ms default_breaker_config * 2 ^ length [(9 :: int, 0 :: real), (10, 0)])
      (probe_cap_ms default_breaker_config) = 20000"
    by (simp add: default_breaker_config_def)
  then show ?thesis
    using breaker_opens_and_backs_off [OF w l, of "(3, 0)" "[(9, 0), (10, 0)]"] by argo
qed

text \<open>
  Probe bounds: outside \<open>Closed\<close>, whenever a probe is scheduled it lies strictly in the future and no
  further away than the cap plus its jitter fraction; while an eligible XUNI exists, no further
  than the XUNI cap.
\<close>

theorem breaker_probe_bounded:
  assumes "wf_breaker_config c" and "b = breaker_run es (CircuitBreaker c)" and "state b \<noteq> Closed"
    and "0 \<le> jit" and "jit \<le> 1"
  shows "now < next_probe_at_ms (scheduleProbe now jit b)
    \<and> of_int (next_probe_at_ms (scheduleProbe now jit b) - now) \<le>
      (if xuni_pressure b then of_int (min (probe_cap_ms c) (probe_cap_xuni_ms c))
       else of_int (probe_cap_ms c) * (1 + jitter_fraction c))"
proof
  have inv: "breaker_inv b" and c: "cfg b = c"
    using breaker_inv_run [OF assms(1)] assms(2) by (simp_all add: CircuitBreaker_def)
  show "now < next_probe_at_ms (scheduleProbe now jit b)"
    using probe_delay_bounds(1) [OF inv assms(3-5)] by (simp add: scheduleProbe_def)
  show "of_int (next_probe_at_ms (scheduleProbe now jit b) - now) \<le>
      (if xuni_pressure b then of_int (min (probe_cap_ms c) (probe_cap_xuni_ms c))
       else of_int (probe_cap_ms c) * (1 + jitter_fraction c))"
    using probe_delay_bounds(2) [OF inv assms(3-5)] c
    by (simp add: scheduleProbe_def activeCapMs_def split: if_splits)
qed

theorem breaker_probe_bounded_witness:
  "20000 < next_probe_at_ms (scheduleProbe 20000 (1 / 2)
     (breaker_run (failures [(1, 0), (2, 0), (3, 0)]) (CircuitBreaker default_breaker_config)))"
proof -
  let ?b = "breaker_run (failures [(1, 0), (2, 0), (3, 0)]) (CircuitBreaker default_breaker_config)"
  have "wf_breaker_config default_breaker_config"
    by (simp add: wf_breaker_config_def default_breaker_config_def)
  moreover have "state ?b \<noteq> Closed"
    by (simp add: failures_def breaker_run_def breaker_defs default_breaker_config_def Let_def)
  ultimately show ?thesis
    using breaker_probe_bounded [of default_breaker_config ?b _ "1 / 2" 20000] by fastforce
qed

end
