(* ===== verification/Drain_Scheduler.thy ===== *)
theory Drain_Scheduler
  imports Find_Types Circuit_Breaker
begin

text \<open>
  \<open>src/submit/DrainScheduler.{h,cpp}\<close>: which eligible record is submitted next, and the adaptive
  drain rate. A pointer into the eligible slice is the record it points to; \<open>nullptr\<close> is
  \<^const>\<open>None\<close>. The rate is a double that is only doubled, halved and clamped; it is modelled as
  a real.
\<close>

datatype DifficultyTrend = Unknown | Flat | Rising | Falling

record XuniWindowState =
  window_open :: bool
  ms_until_close :: int

record drain_config =
  start_rate_per_s :: real
  max_rate_per_s :: real
  min_rate_per_s :: real
  xuni_preempt_window_ms :: int

definition default_drain_config :: drain_config where
  "default_drain_config =
     \<lparr>start_rate_per_s = 1, max_rate_per_s = 4, min_rate_per_s = 1 / 4,
      xuni_preempt_window_ms = 120000\<rparr>"

record scheduler =
  drain_cfg :: drain_config
  rate_per_s :: real

definition DrainScheduler :: "drain_config \<Rightarrow> scheduler" where
  "DrainScheduler c =
     \<lparr>drain_cfg = c, rate_per_s = (if start_rate_per_s c \<le> 0 then 1 else start_rate_per_s c)\<rparr>"

text \<open>One iteration of the loop of \<open>selectNext\<close> over (\<open>oldest_xuni\<close>, \<open>best_xen11\<close>).\<close>

fun select_scan ::
  "DifficultyTrend \<Rightarrow> XuniWindowState \<Rightarrow> FindRecord option \<times> FindRecord option \<Rightarrow> FindRecord \<Rightarrow>
   FindRecord option \<times> FindRecord option" where
  "select_scan trend window (oldest_xuni, best_xen11) r =
     (if kind (payload r) = XUNI then
        (if window_open window \<and> oldest_xuni = None then (Some r, best_xen11)
         else (oldest_xuni, best_xen11))
      else
        (case best_xen11 of
           None \<Rightarrow> (oldest_xuni, Some r)
         | Some b \<Rightarrow>
             if trend = Rising \<and> memory_cost (payload r) < memory_cost (payload b)
             then (oldest_xuni, Some r) else (oldest_xuni, Some b)))"

definition selectNext ::
  "scheduler \<Rightarrow> FindRecord list \<Rightarrow> DifficultyTrend \<Rightarrow> XuniWindowState \<Rightarrow> FindRecord option" where
  "selectNext sc eligible trend window =
     (case foldl (select_scan trend window) (None, None) eligible of
        (oldest_xuni, best_xen11) \<Rightarrow>
          if oldest_xuni \<noteq> None \<and>
             ms_until_close window \<le> xuni_preempt_window_ms (drain_cfg sc) then oldest_xuni
          else if best_xen11 \<noteq> None then best_xen11
          else oldest_xuni)"

definition onBreakerClose :: "scheduler \<Rightarrow> scheduler" where
  "onBreakerClose sc = sc\<lparr>rate_per_s := start_rate_per_s (drain_cfg sc)\<rparr>"

definition onHealthyRoundTrip :: "scheduler \<Rightarrow> scheduler" where
  "onHealthyRoundTrip sc =
     sc\<lparr>rate_per_s := min (rate_per_s sc * 2) (max_rate_per_s (drain_cfg sc))\<rparr>"

definition onThrottle :: "scheduler \<Rightarrow> scheduler" where
  "onThrottle sc =
     sc\<lparr>rate_per_s := max (rate_per_s sc / 2) (min_rate_per_s (drain_cfg sc))\<rparr>"

definition submitIntervalMs :: "scheduler \<Rightarrow> int" where
  "submitIntervalMs sc = trunc (1000 / rate_per_s sc)"

datatype pacing_event = BreakerClose | HealthyRoundTrip | Throttle

fun pacing_apply :: "pacing_event \<Rightarrow> scheduler \<Rightarrow> scheduler" where
  "pacing_apply BreakerClose sc = onBreakerClose sc"
| "pacing_apply HealthyRoundTrip sc = onHealthyRoundTrip sc"
| "pacing_apply Throttle sc = onThrottle sc"

definition wf_drain_config :: "drain_config \<Rightarrow> bool" where
  "wf_drain_config c =
     (0 < min_rate_per_s c \<and> min_rate_per_s c \<le> start_rate_per_s c \<and>
      start_rate_per_s c \<le> max_rate_per_s c)"

definition scheduler_inv :: "scheduler \<Rightarrow> bool" where
  "scheduler_inv sc =
     (wf_drain_config (drain_cfg sc) \<and> min_rate_per_s (drain_cfg sc) \<le> rate_per_s sc \<and>
      rate_per_s sc \<le> max_rate_per_s (drain_cfg sc))"

lemmas scheduler_defs = onBreakerClose_def onHealthyRoundTrip_def onThrottle_def

lemma pacing_inv: "scheduler_inv sc \<Longrightarrow> scheduler_inv (pacing_apply e sc)"
  by (cases e) (auto simp: scheduler_inv_def wf_drain_config_def scheduler_defs)

interpretation pace: machine pacing_apply scheduler_inv "\<lambda>_. True"
  by unfold_locales (rule pacing_inv)

lemma scheduler_inv_init: "wf_drain_config c \<Longrightarrow> scheduler_inv (DrainScheduler c)"
  by (auto simp: scheduler_inv_def wf_drain_config_def DrainScheduler_def)

lemma drain_cfg_run [simp]: "drain_cfg (fold pacing_apply es sc) = drain_cfg sc"
proof (induction es arbitrary: sc)
  case (Cons e es)
  then show ?case by (cases e) (simp_all add: scheduler_defs)
qed simp

lemma scheduler_inv_run:
  "wf_drain_config c \<Longrightarrow> scheduler_inv (fold pacing_apply es (DrainScheduler c))"
  using pace.run_inv [OF scheduler_inv_init] by simp


section \<open>Ordering: the loop against its specification\<close>

definition xunis :: "FindRecord list \<Rightarrow> FindRecord list" where
  "xunis rs = filter (\<lambda>r. kind (payload r) = XUNI) rs"

definition xen11s :: "FindRecord list \<Rightarrow> FindRecord list" where
  "xen11s rs = filter (\<lambda>r. kind (payload r) = XEN11) rs"

text \<open>The earliest record of least memory cost.\<close>

definition lowest_margin :: "FindRecord list \<Rightarrow> FindRecord" where
  "lowest_margin rs = arg_min_list (\<lambda>r. memory_cost (payload r)) rs"

text \<open>The drain order of the header comment, as a function of the two kinds.\<close>

definition drain_order ::
  "int \<Rightarrow> FindRecord list \<Rightarrow> DifficultyTrend \<Rightarrow> XuniWindowState \<Rightarrow> FindRecord option" where
  "drain_order preempt_ms rs trend window =
     (if window_open window \<and> xunis rs \<noteq> [] \<and> ms_until_close window \<le> preempt_ms
      then Some (hd (xunis rs))
      else if xen11s rs \<noteq> [] then
        Some (if trend = Rising then lowest_margin (xen11s rs) else hd (xen11s rs))
      else if window_open window \<and> xunis rs \<noteq> [] then Some (hd (xunis rs))
      else None)"

definition best_of :: "DifficultyTrend \<Rightarrow> FindRecord list \<Rightarrow> FindRecord option" where
  "best_of trend rs =
     (if rs = [] then None else Some (if trend = Rising then lowest_margin rs else hd rs))"

text \<open>The scan keeps the first minimum: it agrees with \<open>arg_min_list\<close> from the left.\<close>

lemma arg_min_list_snoc:
  "xs \<noteq> [] \<Longrightarrow>
   arg_min_list f (xs @ [y]) =
     (if f y < f (arg_min_list f xs) then y else arg_min_list f (xs :: 'a list))"
  for f :: "'a \<Rightarrow> 'b :: linorder"
proof (induction xs rule: induct_list012)
  case (3 x y' zs)
  then show ?case by (auto simp: Let_def)
qed auto

lemma best_of_snoc:
  "best_of trend (rs @ [r]) =
     (case best_of trend rs of
        None \<Rightarrow> Some r
      | Some b \<Rightarrow> if trend = Rising \<and> memory_cost (payload r) < memory_cost (payload b)
                  then Some r else Some b)"
  by (auto simp: best_of_def lowest_margin_def arg_min_list_snoc)

lemma select_scan_run:
  "foldl (select_scan trend window) (None, None) rs =
     (if window_open window \<and> xunis rs \<noteq> [] then Some (hd (xunis rs)) else None,
      best_of trend (xen11s rs))"
proof (induction rs rule: rev_induct)
  case Nil
  then show ?case by (simp add: xunis_def xen11s_def best_of_def)
next
  case (snoc r rs)
  show ?case
  proof (cases "kind (payload r)")
    case XUNI
    then show ?thesis using snoc by (auto simp: xunis_def xen11s_def)
  next
    case XEN11
    then show ?thesis
      using snoc best_of_snoc [of trend "xen11s rs" r]
      by (auto simp: xunis_def xen11s_def split: option.splits)
  qed
qed

lemma selectNext_drain_order:
  "selectNext sc rs trend window =
     drain_order (xuni_preempt_window_ms (drain_cfg sc)) rs trend window"
  unfolding selectNext_def select_scan_run drain_order_def best_of_def by auto

lemma arg_min_list_least: "x \<in> set xs \<Longrightarrow> f (arg_min_list f xs) \<le> f x"
  for f :: "'a \<Rightarrow> 'b :: linorder"
  using f_arg_min_list_f [of xs f] by (cases "xs = []") auto

lemma drain_order_mem: "drain_order p rs trend window = Some r \<Longrightarrow> r \<in> set rs"
  using hd_in_set [of "xunis rs"] hd_in_set [of "xen11s rs"]
    arg_min_list_in [of "xen11s rs" "\<lambda>r. memory_cost (payload r)"]
  by (auto simp: drain_order_def xunis_def xen11s_def lowest_margin_def split: if_splits)

lemma selectNext_mem: "selectNext sc rs trend window = Some r \<Longrightarrow> r \<in> set rs"
  unfolding selectNext_drain_order by (rule drain_order_mem)


section \<open>Properties\<close>

text \<open>
  C33 (drain order): the single-pass pointer scan of \<open>selectNext\<close> computes the documented drain order on every
  slice: a XUNI whose open window is about to close first, else the oldest XEN11 (under rising
  difficulty the earliest of least memory cost), else a XUNI whose window is open, else nothing.
\<close>

theorem selectNext_refines_drain_order:
  "selectNext sc rs trend window =
     drain_order (xuni_preempt_window_ms (drain_cfg sc)) rs trend window"
  by (rule selectNext_drain_order)

text \<open>
  No closed-window XUNI, no starvation: a selected record comes from the slice; a XUNI is never selected while its window is closed; and
  the scheduler idles exactly when there is no XEN11 and no XUNI with an open window.
\<close>

theorem selectNext_sound:
  "(selectNext sc rs trend window = None) =
     (xen11s rs = [] \<and> (xunis rs = [] \<or> \<not> window_open window))
   \<and> (\<forall>r. selectNext sc rs trend window = Some r \<longrightarrow>
        r \<in> set rs \<and> (kind (payload r) = XUNI \<longrightarrow> window_open window) \<and>
        (kind (payload r) = XEN11 \<and> trend = Rising \<longrightarrow>
           (\<forall>q \<in> set rs. kind (payload q) = XEN11 \<longrightarrow>
              memory_cost (payload r) \<le> memory_cost (payload q))))"
proof (intro conjI allI impI)
  show "(selectNext sc rs trend window = None) =
     (xen11s rs = [] \<and> (xunis rs = [] \<or> \<not> window_open window))"
    by (auto simp: selectNext_drain_order drain_order_def)
  fix r assume r: "selectNext sc rs trend window = Some r"
  show "r \<in> set rs" using r by (rule selectNext_mem)
  have x: "\<And>q. q \<in> set (xen11s rs) \<Longrightarrow> kind (payload q) = XEN11" by (auto simp: xen11s_def)
  have u: "\<And>q. q \<in> set (xunis rs) \<Longrightarrow> kind (payload q) = XUNI" by (auto simp: xunis_def)
  have m: "xen11s rs \<noteq> [] \<Longrightarrow> lowest_margin (xen11s rs) \<in> set (xen11s rs)"
    by (simp add: lowest_margin_def arg_min_list_in)
  show "window_open window" if "kind (payload r) = XUNI"
    using r that x hd_in_set [of "xen11s rs"] m
    by (fastforce simp: selectNext_drain_order drain_order_def split: if_splits)
  show "\<forall>q \<in> set rs. kind (payload q) = XEN11 \<longrightarrow> memory_cost (payload r) \<le> memory_cost (payload q)"
    if k: "kind (payload r) = XEN11 \<and> trend = Rising"
  proof -
    have "r = lowest_margin (xen11s rs)"
      using r k u hd_in_set [of "xunis rs"]
      by (auto simp: selectNext_drain_order drain_order_def split: if_splits)
    then show ?thesis
      using arg_min_list_least [of _ "xen11s rs" "\<lambda>r. memory_cost (payload r)"]
      by (auto simp: lowest_margin_def xen11s_def)
  qed
qed

theorem selectNext_sound_witness:
  "let p = \<lparr>key = ''k'', hash_to_verify = ''h'', account = ''0x1'', kind = XEN11, memory_cost = 900,
            worker = ''w'', attempts = 1, hashes_per_second = 0, found_at_utc = ''t''\<rparr>;
       r = \<lparr>id = 1, payload = p, status = Pending, status_reason = [], attempt_count = 0,
            next_attempt_at = None, last_attempt_at = None, last_http_status = None,
            last_response = [], confirmed_at = None, xuni_windows_tried = 0\<rparr>;
       q = r\<lparr>id := 2, payload := p\<lparr>memory_cost := 800\<rparr>\<rparr>
   in selectNext (DrainScheduler default_drain_config) [r, q] Rising
        \<lparr>window_open = False, ms_until_close = 0\<rparr> = Some q \<and> q \<in> set [r, q]"
proof -
  define p where "p = \<lparr>key = ''k'', hash_to_verify = ''h'', account = ''0x1'', kind = XEN11,
    memory_cost = 900, worker = ''w'', attempts = 1, hashes_per_second = 0, found_at_utc = ''t''\<rparr>"
  define r where "r = \<lparr>id = 1, payload = p, status = Pending, status_reason = [],
    attempt_count = 0, next_attempt_at = None, last_attempt_at = None, last_http_status = None,
    last_response = [], confirmed_at = None, xuni_windows_tried = 0\<rparr>"
  define q where "q = r\<lparr>id := 2, payload := p\<lparr>memory_cost := 800\<rparr>\<rparr>"
  have s: "selectNext (DrainScheduler default_drain_config) [r, q] Rising
      \<lparr>window_open = False, ms_until_close = 0\<rparr> = Some q"
    by (simp add: selectNext_def q_def r_def p_def)
  then have "q \<in> set [r, q]"
    using selectNext_sound [of "DrainScheduler default_drain_config" "[r, q]" Rising
      "\<lparr>window_open = False, ms_until_close = 0\<rparr>"] by blast
  with s show ?thesis unfolding q_def r_def p_def Let_def by simp
qed

text \<open>
  Pacing: after any sequence of breaker closings, healthy round trips and throttles the drain
  rate stays between the configured floor and ceiling, so the pause before the next submission
  lies between \<open>1000 / max\<close> and \<open>1000 / min\<close> milliseconds and is never negative.
\<close>

theorem drain_rate_bounded:
  assumes "wf_drain_config c" and "sc = fold pacing_apply es (DrainScheduler c)"
  shows "min_rate_per_s c \<le> rate_per_s sc \<and> rate_per_s sc \<le> max_rate_per_s c
    \<and> \<lfloor>1000 / max_rate_per_s c\<rfloor> \<le> submitIntervalMs sc
    \<and> submitIntervalMs sc \<le> \<lfloor>1000 / min_rate_per_s c\<rfloor> \<and> 0 \<le> submitIntervalMs sc"
proof -
  have inv: "scheduler_inv sc" and c: "drain_cfg sc = c"
    using scheduler_inv_run [OF assms(1)] assms(2) by (simp_all add: DrainScheduler_def)
  then have r: "min_rate_per_s c \<le> rate_per_s sc" "rate_per_s sc \<le> max_rate_per_s c"
    "0 < min_rate_per_s c"
    by (simp_all add: scheduler_inv_def wf_drain_config_def)
  have "1000 / max_rate_per_s c \<le> 1000 / rate_per_s sc"
    "1000 / rate_per_s sc \<le> 1000 / min_rate_per_s c" "0 \<le> 1000 / rate_per_s sc"
    using r by (auto intro!: divide_left_mono)
  then show ?thesis
    using r by (auto simp: submitIntervalMs_def trunc_def intro: floor_mono)
qed

theorem drain_rate_bounded_witness:
  "let sc = fold pacing_apply [Throttle, HealthyRoundTrip, HealthyRoundTrip, HealthyRoundTrip]
              (DrainScheduler default_drain_config)
   in rate_per_s sc \<le> 4 \<and> 250 \<le> submitIntervalMs sc"
proof -
  have w: "wf_drain_config default_drain_config"
    by (simp add: wf_drain_config_def default_drain_config_def)
  then show ?thesis
    using drain_rate_bounded [OF w refl,
      of "[Throttle, HealthyRoundTrip, HealthyRoundTrip, HealthyRoundTrip]"]
    by (simp add: default_drain_config_def Let_def)
qed

end
