(* ===== verification/Margin_Policy.thy ===== *)
theory Margin_Policy
  imports Prelude
begin

text \<open>
  \<open>src/treeminer/MarginPolicy.h\<close> and \<open>src/submit/MarginPolicy.cpp\<close>: the memory-cost headroom baked
  into new hashes. The multiplication is on \<open>uint64_t\<close> and wraps; \<open>outage_ms\<close> and
  \<open>adjust_period_ms\<close> are \<open>int64_t\<close> and are divided only when both are positive.
\<close>

datatype MarginMode = Off | Fixed | Auto

record MarginConfig =
  mode :: MarginMode
  margin_kib :: u32
  max_kib :: u32
  adjust_period_ms :: int

definition default_margin_config :: MarginConfig where
  "default_margin_config =
     \<lparr>mode = Off, margin_kib = 1000, max_kib = 5000, adjust_period_ms = 300000\<rparr>"

record MarginInputs =
  breaker_open :: bool
  outage_ms :: int
  backlog :: nat

definition margin_steps :: "MarginConfig \<Rightarrow> MarginInputs \<Rightarrow> u64" where
  "margin_steps c i =
     (if breaker_open i \<and> 0 < adjust_period_ms c \<and> 0 < outage_ms i
      then 1 + of_int (outage_ms i div adjust_period_ms c) else 1)"

definition computeMargin :: "MarginConfig \<Rightarrow> MarginInputs \<Rightarrow> u32" where
  "computeMargin c i =
     (case mode c of
        Off \<Rightarrow> 0
      | Fixed \<Rightarrow> margin_kib c
      | Auto \<Rightarrow>
          if \<not> breaker_open i \<and> backlog i = 0 then 0
          else
            (let margin = (ucast (margin_kib c) :: u64) * margin_steps c i
             in ucast (min margin (ucast (max_kib c)))))"

definition lowered :: "string \<Rightarrow> string" where
  "lowered s = map tolower s"

definition parseMarginMode :: "string \<Rightarrow> MarginMode option" where
  "parseMarginMode text =
     (let t = lowered text in
      if t = ''off'' \<or> t = ''none'' \<or> t = ''disabled'' then Some Off
      else if t = ''fixed'' \<or> t = ''static'' \<or> t = ''constant'' then Some Fixed
      else if t = ''auto'' \<or> t = ''adaptive'' then Some Auto
      else None)"

fun margin_mode_to_string :: "MarginMode \<Rightarrow> string" where
  "margin_mode_to_string Off = ''off''"
| "margin_mode_to_string Fixed = ''fixed''"
| "margin_mode_to_string Auto = ''auto''"

text \<open>The ramp in whole numbers: one step at once, one more per completed adjustment period.\<close>

definition ramp :: "MarginConfig \<Rightarrow> MarginInputs \<Rightarrow> nat" where
  "ramp c i =
     unat (margin_kib c) *
     (if breaker_open i \<and> 0 < adjust_period_ms c \<and> 0 < outage_ms i
      then 1 + nat (outage_ms i div adjust_period_ms c) else 1)"

lemma unat_ucast_u32 [simp]: "unat (ucast (x :: u32) :: u64) = unat x"
proof -
  have "unat x < 2 ^ 64" by (rule less_trans [OF unat_u32_less]) simp
  then show ?thesis by (simp add: unsigned_ucast_eq take_bit_nat_eq_self)
qed

lemma ucast_min_u32: "unat (ucast (min m (ucast (x :: u32))) :: u32) = min (unat (m :: u64)) (unat x)"
proof -
  have "unat (min m (ucast x)) = min (unat m) (unat x)"
    by (simp add: min_def word_le_nat_alt)
  moreover have "min (unat m) (unat x) < 2 ^ 32"
    using unat_u32_less [of x] by (simp add: min_less_iff_disj)
  ultimately show ?thesis by (simp add: unsigned_ucast_eq take_bit_nat_eq_self)
qed

lemma margin_product:
  assumes "ramp c i < 2 ^ 64"
  shows "unat ((ucast (margin_kib c) :: u64) * margin_steps c i) = ramp c i"
proof -
  let ?k = "if breaker_open i \<and> 0 < adjust_period_ms c \<and> 0 < outage_ms i
      then 1 + nat (outage_ms i div adjust_period_ms c) else 1"
  have u: "(ucast (margin_kib c) :: u64) = of_nat (unat (margin_kib c))"
    by simp
  have s: "margin_steps c i = of_nat ?k"
    by (auto simp: margin_steps_def of_nat_nat [symmetric] pos_imp_zdiv_nonneg_iff
        simp del: of_nat_nat)
  have "(ucast (margin_kib c) :: u64) * margin_steps c i = of_nat (ramp c i)"
    unfolding s ramp_def using u by (metis of_nat_mult)
  then show ?thesis using assms by (simp add: unat_of_nat)
qed

text \<open>
  Margin: in \<open>Auto\<close> mode the headroom is zero exactly when the miner is healthy and drained (for a
  positive step), never exceeds \<open>max_kib\<close>, and, as long as the 64-bit product does not wrap, is
  the step times one plus the completed adjustment periods of outage, capped.
\<close>

theorem computeMargin_auto:
  assumes "mode c = Auto"
  shows "unat (computeMargin c i) \<le> unat (max_kib c)
    \<and> (\<not> breaker_open i \<and> backlog i = 0 \<longrightarrow> computeMargin c i = 0)
    \<and> ((breaker_open i \<or> backlog i \<noteq> 0) \<and> ramp c i < 2 ^ 64 \<longrightarrow>
         unat (computeMargin c i) = min (ramp c i) (unat (max_kib c)))"
proof (cases "\<not> breaker_open i \<and> backlog i = 0")
  case True
  then show ?thesis using assms by (simp add: computeMargin_def)
next
  case False
  then have e: "unat (computeMargin c i) =
      min (unat ((ucast (margin_kib c) :: u64) * margin_steps c i)) (unat (max_kib c))"
    using assms by (auto simp: computeMargin_def Let_def ucast_min_u32)
  show ?thesis using False margin_product [of c i] by (auto simp: e)
qed

theorem computeMargin_auto_witness:
  "unat (computeMargin (default_margin_config\<lparr>mode := Auto\<rparr>)
     \<lparr>breaker_open = True, outage_ms = 650000, backlog = 0\<rparr>) = 3000"
proof -
  let ?c = "default_margin_config\<lparr>mode := Auto\<rparr>"
  let ?i = "\<lparr>breaker_open = True, outage_ms = 650000, backlog = 0\<rparr>"
  have m: "mode ?c = Auto" by simp
  have r: "ramp ?c ?i = 3000"
    by (simp add: ramp_def default_margin_config_def)
  then show ?thesis
    using computeMargin_auto [OF m, of ?i] by (simp add: default_margin_config_def)
qed

text \<open>
  Mode names: a margin mode prints to a name that parses back to it, parsing ignores case, and a name it
  does not know is reported instead of changing the mode.
\<close>

theorem parseMarginMode_roundtrip:
  "parseMarginMode (margin_mode_to_string m) = Some m
   \<and> parseMarginMode (lowered t) = parseMarginMode t
   \<and> parseMarginMode ''atuo'' = None"
proof (intro conjI)
  show "parseMarginMode (margin_mode_to_string m) = Some m"
  proof (cases m)
    case Off
    show ?thesis unfolding Off by code_simp
  next
    case Fixed
    show ?thesis unfolding Fixed by code_simp
  next
    case Auto
    show ?thesis unfolding Auto by code_simp
  qed
  have "tolower (tolower c) = tolower c" for c
    by (auto simp: tolower_def isupper_def Let_def)
  then show "parseMarginMode (lowered t) = parseMarginMode t"
    by (simp add: parseMarginMode_def lowered_def comp_def)
  show "parseMarginMode ''atuo'' = None" by code_simp
qed

end
