(* ===== verification/Civil_Time.thy ===== *)
theory Civil_Time
  imports Drain_Scheduler
begin

text \<open>
  The pure time helpers of \<open>src/submit/SubmissionManager.cpp\<close>: civil-date conversion, ISO-8601
  timestamps (which the journal compares as text), the HTTP \<open>Date\<close> header and the XUNI window.
  Epoch milliseconds are \<^typ>\<open>int\<close>; the \<open>unsigned\<close> intermediates of the date algorithms stay
  in range, so they are \<^typ>\<open>int\<close> too.
\<close>

definition kMsPerHour :: int where "kMsPerHour = 3600 * 1000"
definition kXuniOpenBeforeHourMs :: int where "kXuniOpenBeforeHourMs = 5 * 60 * 1000"
definition kXuniOpenAfterHourMs :: int where "kXuniOpenAfterHourMs = 5 * 60 * 1000"

definition daysFromCivil :: "int \<Rightarrow> int \<Rightarrow> int \<Rightarrow> int" where
  "daysFromCivil y0 m d =
     (let y = (if m \<le> 2 then y0 - 1 else y0);
          era = cdiv (if 0 \<le> y then y else y - 399) 400;
          yoe = y - era * 400;
          doy = (153 * (m + (if 2 < m then - 3 else 9)) + 2) div 5 + d - 1;
          doe = yoe * 365 + yoe div 4 - yoe div 100 + doy
      in era * 146097 + doe - 719468)"

definition civilFromDays :: "int \<Rightarrow> int \<times> int \<times> int" where
  "civilFromDays z0 =
     (let z = z0 + 719468;
          era = cdiv (if 0 \<le> z then z else z - 146096) 146097;
          doe = z - era * 146097;
          yoe = (doe - doe div 1460 + doe div 36524 - doe div 146096) div 365;
          y = yoe + era * 400;
          doy = doe - (365 * yoe + yoe div 4 - yoe div 100);
          mp = (5 * doy + 2) div 153;
          d = doy - (153 * mp + 2) div 5 + 1;
          m = mp + (if mp < 10 then 3 else - 9)
      in (if m \<le> 2 then y + 1 else y, m, d))"

definition floorDiv :: "int \<Rightarrow> int \<Rightarrow> int" where
  "floorDiv a b =
     (let q = cdiv a b in if crem a b \<noteq> 0 \<and> ((a < 0) \<noteq> (b < 0)) then q - 1 else q)"

definition month_names :: "string list" where
  "month_names = [''Jan'', ''Feb'', ''Mar'', ''Apr'', ''May'', ''Jun'',
                  ''Jul'', ''Aug'', ''Sep'', ''Oct'', ''Nov'', ''Dec'']"

fun index_from :: "int \<Rightarrow> string list \<Rightarrow> string \<Rightarrow> int" where
  "index_from i [] mon = 0"
| "index_from i (n # ns) mon = (if mon = n then i else index_from (i + 1) ns mon)"

definition monthFromName :: "string \<Rightarrow> int" where
  "monthFromName mon = index_from 1 month_names mon"

text \<open>\<open>printf\<close>'s \<open>%0<w>d\<close>.\<close>

definition pad :: "nat \<Rightarrow> string \<Rightarrow> string" where
  "pad w s = replicate (w - length s) (CHR ''0'') @ s"

definition pad_int :: "nat \<Rightarrow> int \<Rightarrow> string" where
  "pad_int w i =
     (if i < 0 then CHR ''-'' # pad (w - 1) (to_dec (nat (- i))) else pad w (to_dec (nat i)))"

definition isoUtc :: "int \<Rightarrow> string" where
  "isoUtc epoch_ms =
     (let days = floorDiv epoch_ms 86400000;
          rm = epoch_ms - days * 86400000;
          (y, mo, da) = civilFromDays days;
          h = cdiv rm 3600000;
          rm1 = crem rm 3600000;
          mi = cdiv rm1 60000;
          rm2 = crem rm1 60000;
          s = cdiv rm2 1000
      in pad_int 4 y @ ''-'' @ pad_int 2 mo @ ''-'' @ pad_int 2 da @ ''T'' @
         pad_int 2 h @ '':'' @ pad_int 2 mi @ '':'' @ pad_int 2 s @ ''Z'')"

text \<open>
  \<open>std::istream\<close> extraction: \<open>>> int\<close> skips white space, takes an optional sign and decimal
  digits, and fails on no digit or on a value outside \<open>int\<close>; \<open>>> std::string\<close> takes a
  non-empty run of non-white characters.
\<close>

definition read_int :: "string \<Rightarrow> (int \<times> string) option" where
  "read_int s0 =
     (let s = skip_while isspace s0;
          (neg, ds) = (case s of c # t \<Rightarrow> if c = CHR ''-'' then (True, t)
                                          else if c = CHR ''+'' then (False, t) else (False, s)
                        | [] \<Rightarrow> (False, []));
          digits = takeWhile isdigit ds;
          v = (if neg then - int (dec_val digits) else int (dec_val digits))
      in if digits = [] \<or> v < - 2147483648 \<or> 2147483647 < v then None
         else Some (v, dropWhile isdigit ds))"

definition read_token :: "string \<Rightarrow> (string \<times> string) option" where
  "read_token s0 =
     (let s = skip_while isspace s0; t = takeWhile (\<lambda>c. \<not> isspace c) s
      in if t = [] then None else Some (t, dropWhile (\<lambda>c. \<not> isspace c) s))"

definition after_comma :: "string \<Rightarrow> string" where
  "after_comma s = (if CHR '','' \<in> set s then tl (dropWhile (\<lambda>c. c \<noteq> CHR '','') s) else s)"

text \<open>The \<open>hh:mm:ss\<close> token: eight characters, digits and colons in place.\<close>

definition parse_hms :: "string \<Rightarrow> (int \<times> int \<times> int) option" where
  "parse_hms hms =
     (case hms of
        [a, b, c1, c, d, c2, e, f] \<Rightarrow>
          if c1 = CHR '':'' \<and> c2 = CHR '':'' \<and> isdigit a \<and> isdigit b \<and> isdigit c \<and> isdigit d \<and>
             isdigit e \<and> isdigit f
          then Some (int (digit_val a) * 10 + int (digit_val b),
                     int (digit_val c) * 10 + int (digit_val d),
                     int (digit_val e) * 10 + int (digit_val f))
          else None
      | _ \<Rightarrow> None)"

definition parseHttpDateMs :: "string \<Rightarrow> int option" where
  "parseHttpDateMs date_header =
     (case read_int (after_comma date_header) of
        None \<Rightarrow> None
      | Some (day, r1) \<Rightarrow>
      (case read_token r1 of
        None \<Rightarrow> None
      | Some (mon, r2) \<Rightarrow>
      (case read_int r2 of
        None \<Rightarrow> None
      | Some (year, r3) \<Rightarrow>
      (case read_token r3 of
        None \<Rightarrow> None
      | Some (hms, r4) \<Rightarrow>
      (case read_token r4 of
        None \<Rightarrow> None
      | Some (tz, _) \<Rightarrow>
          if tz \<noteq> ''GMT'' \<and> tz \<noteq> ''UTC'' then None
          else
            (let month = monthFromName mon in
             if month = 0 \<or> day < 1 \<or> day > 31 \<or> year < 1970 then None
             else
               (case parse_hms hms of
                  None \<Rightarrow> None
                | Some (h, mi, s) \<Rightarrow>
                    if h > 23 \<or> mi > 59 \<or> s > 60 then None
                    else Some (daysFromCivil year month day * 86400000 +
                               (h * 3600 + mi * 60 + s) * 1000))))))))"

definition xuniWindowAt :: "int \<Rightarrow> XuniWindowState" where
  "xuniWindowAt server_epoch_ms =
     (let into_hour = server_epoch_ms - floorDiv server_epoch_ms kMsPerHour * kMsPerHour in
      if kMsPerHour - kXuniOpenBeforeHourMs \<le> into_hour then
        \<lparr>window_open = True, ms_until_close = (kMsPerHour - into_hour) + kXuniOpenAfterHourMs\<rparr>
      else if into_hour < kXuniOpenAfterHourMs then
        \<lparr>window_open = True, ms_until_close = kXuniOpenAfterHourMs - into_hour\<rparr>
      else \<lparr>window_open = False, ms_until_close = 0\<rparr>)"

lemmas xuni_consts = kMsPerHour_def kXuniOpenBeforeHourMs_def kXuniOpenAfterHourMs_def


section \<open>Floor division and the civil calendar\<close>

lemma floorDiv_pos: "0 < b \<Longrightarrow> floorDiv a b = a div b"
proof (cases "0 \<le> a")
  case True
  then show "0 < b \<Longrightarrow> floorDiv a b = a div b" by (simp add: floorDiv_def)
next
  case False
  assume b: "0 < b"
  have c: "cdiv a b = - (- a div b)" using False b by (simp add: cdiv_neg)
  have "crem a b = - ((- a) mod b)"
    unfolding crem_def c by (simp add: minus_div_mult_eq_mod [symmetric] algebra_simps)
  moreover have "b \<noteq> a mod b" by (metis b less_irrefl pos_mod_bound)
  ultimately show ?thesis
    using False b c
    by (auto simp: floorDiv_def Let_def zdiv_zminus1_eq_if zmod_zminus1_eq_if split: if_splits)
qed

lemma era_div: "0 < n \<Longrightarrow> cdiv (if 0 \<le> y then y else y - (n - 1)) n = y div n"
proof (cases "0 \<le> y")
  case False
  assume n: "0 < n"
  let ?k = "n - 1 - y"
  have c: "cdiv (y - (n - 1)) n = - (?k div n)" using False n by (simp add: cdiv_neg)
  have "y = n * (- (?k div n)) + (n - 1 - ?k mod n)"
    using mult_div_mod_eq [of n ?k] by (simp add: algebra_simps)
  moreover have "0 \<le> n - 1 - ?k mod n" "n - 1 - ?k mod n < n"
    using n pos_mod_bound [OF n, of ?k] pos_mod_sign [OF n, of ?k] by linarith+
  ultimately have "y div n = - (?k div n)" by (rule int_div_pos_eq)
  with c False show ?thesis by simp
qed simp

text \<open>
  A day of a 400-year era is a century, a 4-year cycle, a year of the cycle and a day of the year;
  only the last day of a cycle, and of the era, is a 366th day.
\<close>

text \<open>The first day of a March-based year, counted from the epoch of the eras.\<close>

definition year_start :: "int \<Rightarrow> int" where
  "year_start y = 365 * y + y div 4 - y div 100 + y div 400"

lemma day_of_era:
  fixes doe :: int
  assumes "0 \<le> doe" and "doe < 146097"
  obtains c q r d :: int where
    "doe = 36524 * c + 1461 * q + 365 * r + d" "0 \<le> c" "c \<le> 3" "0 \<le> q" "q \<le> 24"
    "0 \<le> r" "r \<le> 3" "0 \<le> d" "d \<le> 365" "d = 365 \<Longrightarrow> r = 3 \<and> (q < 24 \<or> c = 3)"
proof -
  obtain c t :: int where t: "doe = 36524 * c + t" "0 \<le> c" "c \<le> 3" "0 \<le> t"
    "t < 36524 \<or> c = 3 \<and> t = 36524"
  proof (cases "doe = 146096")
    case True
    then show ?thesis using that [of 3 36524] by simp
  next
    case False
    then show ?thesis using that [of "doe div 36524" "doe mod 36524"] assms by simp
  qed
  define q where "q = t div 1461"
  define u where "u = t mod 1461"
  have q: "t = 1461 * q + u" "0 \<le> q" "q \<le> 24" "0 \<le> u" "u \<le> 1460"
    using t by (auto simp: q_def u_def)
  have last: "u = 1460 \<Longrightarrow> q < 24 \<or> c = 3" using q t by linarith
  show ?thesis
  proof (cases "u = 1460")
    case True
    then show ?thesis using that [of c q 3 365] t q last by simp
  next
    case False
    then have "0 \<le> u div 365" "u div 365 \<le> 3" "u mod 365 \<noteq> 365" using q by auto
    then show ?thesis
      using that [of c q "u div 365" "u mod 365"] t q pos_mod_bound [of 365 u] by simp
  qed
qed

lemma yoe_of_day:
  fixes doe :: int
  assumes "0 \<le> doe" and "doe < 146097"
    and "yoe = (doe - doe div 1460 + doe div 36524 - doe div 146096) div 365"
    and "doy = doe - (365 * yoe + yoe div 4 - yoe div 100)"
  shows "0 \<le> yoe \<and> yoe \<le> 399 \<and> 0 \<le> doy \<and> doy \<le> 365 \<and> doe < year_start (yoe + 1)"
proof -
  obtain c q r d :: int where e: "doe = 36524 * c + 1461 * q + 365 * r + d"
    and b: "0 \<le> c" "c \<le> 3" "0 \<le> q" "q \<le> 24" "0 \<le> r" "r \<le> 3" "0 \<le> d" "d \<le> 365"
    and l: "d = 365 \<Longrightarrow> r = 3 \<and> (q < 24 \<or> c = 3)"
    using day_of_era [OF assms(1,2)] by metis
  define j :: int where "j = (if 1460 \<le> 24 * c + q + 365 * r + d then 1 else 0)"
  define k :: int where "k = (if doe = 146096 then 1 else 0)"
  have d1: "doe div 1460 = 25 * c + q + j"
    by (rule int_div_pos_eq [where r = "24 * c + q + 365 * r + d - 1460 * j"])
       (use b l in \<open>auto simp: e j_def\<close>)
  have rest: "1461 * q + 365 * r + d \<le> 36524"
    using b l by linarith
  have sp: "1461 * q + 365 * r + d = 36524 \<Longrightarrow> doe = 146096"
    using b l e by linarith
  have big: "doe = 146096 \<Longrightarrow> c = 3 \<and> 1461 * q + 365 * r + d = 36524"
    using b rest e by linarith
  have d2: "doe div 36524 = c + k"
    by (rule int_div_pos_eq [where r = "1461 * q + 365 * r + d - 36524 * k"])
       (use b rest sp big e in \<open>auto simp: k_def less_le\<close>)
  have d3: "doe div 146096 = k"
    using assms(1,2) by (auto simp: k_def)
  have num: "doe - doe div 1460 + doe div 36524 - doe div 146096 =
      365 * (100 * c + 4 * q + r) + (d - j)"
    unfolding d1 d2 d3 using e by simp
  have "0 \<le> d - j" "d - j < 365" using b l by (cases "d = 365"; auto simp: j_def)+
  then have y: "yoe = 100 * c + 4 * q + r"
    unfolding assms(3) num by (intro int_div_pos_eq [where r = "d - j"]) auto
  have y4: "yoe div 4 = 25 * c + q" and y100: "yoe div 100 = c"
    using b by (auto simp: y intro!: int_div_pos_eq [where r = r] int_div_pos_eq [where r = "4 * q + r"])
  then have doy: "doy = d" using assms(4) e y by simp
  have "doe < year_start (yoe + 1)"
  proof (cases "r = 3")
    case False
    have "(yoe + 1) div 4 = 25 * c + q" "(yoe + 1) div 100 = c"
      using b False
      by (auto simp: y intro!: int_div_pos_eq [where r = "r + 1"] int_div_pos_eq [where r = "4 * q + r + 1"])
    moreover have "0 \<le> (yoe + 1) div 400" using b y by simp
    moreover have "d \<le> 364" using l b False by (cases "d = 365") auto
    ultimately show ?thesis using e y by (simp add: year_start_def)
  next
    case r3: True
    have q4: "(yoe + 1) div 4 = 25 * c + q + 1" using y r3 by simp
    show ?thesis
    proof (cases "q = 24")
      case False
      have "(yoe + 1) div 100 = c"
        using b False r3 by (auto simp: y intro!: int_div_pos_eq [where r = "4 * q + 4"])
      moreover have "0 \<le> (yoe + 1) div 400" using b y by simp
      ultimately show ?thesis using e y q4 r3 b by (simp add: year_start_def)
    next
      case True
      have "(yoe + 1) div 100 = c + 1" using y r3 True by simp
      moreover have "(yoe + 1) div 400 = (if c = 3 then 1 else 0)"
        using y r3 True b by auto
      moreover have "c = 3 \<or> d \<le> 364" using l b True by (cases "d = 365") auto
      ultimately show ?thesis using e y q4 r3 b True by (auto simp: year_start_def)
    qed
  qed
  then show ?thesis using y b doy by simp
qed

lemma month_of_day:
  fixes doy :: int
  assumes "0 \<le> doy" and "doy \<le> 365" and "mp = (5 * doy + 2) div 153"
    and "d = doy - (153 * mp + 2) div 5 + 1"
  shows "0 \<le> mp \<and> mp \<le> 11 \<and> 1 \<le> d \<and> d \<le> 31"
proof -
  have "153 * mp \<le> 5 * doy + 2" "5 * doy + 2 < 153 * mp + 153"
    unfolding assms(3) using mult_div_mod_eq [of 153 "5 * doy + 2"]
      pos_mod_bound [of 153 "5 * doy + 2"] pos_mod_sign [of 153 "5 * doy + 2"] by linarith+
  moreover define v where "v = (153 * mp + 2) div 5"
  have "5 * v \<le> 153 * mp + 2" "153 * mp + 2 < 5 * v + 5"
    unfolding v_def using mult_div_mod_eq [of 5 "153 * mp + 2"]
      pos_mod_bound [of 5 "153 * mp + 2"] pos_mod_sign [of 5 "153 * mp + 2"] by linarith+
  ultimately show ?thesis using assms(1,2) unfolding assms(4) v_def [symmetric] by linarith
qed

lemma era_shift:
  fixes k e :: int
  shows "(k + e * 400) div 4 = k div 4 + e * 100" "(k + e * 400) div 100 = k div 100 + e * 4"
    "(k + e * 400) div 400 = k div 400 + e"
  using div_mult_self1 [of 4 k "e * 100"] div_mult_self1 [of 100 k "e * 4"]
    div_mult_self1 [of 400 k e] by (simp_all add: mult.assoc)

text \<open>
  Everything a caller needs of \<open>civilFromDays\<close>, in terms of the March-based year \<open>y\<close>, month \<open>mp\<close>
  and day of year \<open>doy\<close> it computes.
\<close>

lemma civilFromDays_parts:
  obtains y mp doy d where
    "civilFromDays z = (if mp < 10 then y else y + 1, if mp < 10 then mp + 3 else mp - 9, d)"
    "z + 719468 = year_start y + doy" "z + 719468 < year_start (y + 1)"
    "0 \<le> doy" "doy \<le> 365" "mp = (5 * doy + 2) div 153" "d = doy - (153 * mp + 2) div 5 + 1"
    "0 \<le> mp" "mp \<le> 11" "1 \<le> d" "d \<le> 31"
proof -
  define zz where "zz = z + 719468"
  define era where "era = zz div 146097"
  define doe where "doe = zz - era * 146097"
  define yoe where "yoe = (doe - doe div 1460 + doe div 36524 - doe div 146096) div 365"
  define doy where "doy = doe - (365 * yoe + yoe div 4 - yoe div 100)"
  define mp where "mp = (5 * doy + 2) div 153"
  define d where "d = doy - (153 * mp + 2) div 5 + 1"
  have "doe = zz mod 146097" by (simp add: doe_def era_def minus_div_mult_eq_mod)
  then have doe: "0 \<le> doe" "doe < 146097" by simp_all
  have y: "0 \<le> yoe" "yoe \<le> 399" "0 \<le> doy" "doy \<le> 365" "doe < year_start (yoe + 1)"
    using yoe_of_day [OF doe yoe_def doy_def] by auto
  have m: "0 \<le> mp" "mp \<le> 11" "1 \<le> d" "d \<le> 31"
    using month_of_day [OF y(3,4) mp_def d_def] by auto
  have era: "cdiv (if 0 \<le> zz then zz else zz - 146096) 146097 = era"
    using era_div [of 146097 zz] by (simp add: era_def split: if_splits)
  have shift: "year_start (k + era * 400) = year_start k + era * 146097" for k
    by (simp add: year_start_def era_shift)
  have civ: "civilFromDays z =
      (if mp < 10 then yoe + era * 400 else yoe + era * 400 + 1,
       if mp < 10 then mp + 3 else mp - 9, d)"
    using m unfolding civilFromDays_def zz_def [symmetric] Let_def era doe_def [symmetric]
      yoe_def [symmetric] doy_def [symmetric] mp_def [symmetric] d_def [symmetric]
    by auto
  show ?thesis
  proof (rule that [OF civ _ _ y(3,4) mp_def d_def m])
    have "yoe div 400 = 0" using y by simp
    then have "year_start yoe = 365 * yoe + yoe div 4 - yoe div 100" by (simp add: year_start_def)
    then have "zz = year_start (yoe + era * 400) + doy"
      using shift [of yoe] unfolding doy_def doe_def by linarith
    then show "z + 719468 = year_start (yoe + era * 400) + doy" unfolding zz_def .
    show "z + 719468 < year_start (yoe + era * 400 + 1)"
      using y(5) shift [of "yoe + 1"] by (simp add: zz_def [symmetric] doe_def algebra_simps)
  qed
qed

lemma year_start_mono: "x \<le> y \<Longrightarrow> year_start x \<le> year_start y"
proof -
  assume xy: "x \<le> y"
  have "x div 4 \<le> y div 4" "x div 400 \<le> y div 400" "y div 100 - x div 100 \<le> y - x"
    using xy zdiv_mono1 [of x y] by auto
  then show ?thesis using xy by (simp add: year_start_def)
qed

lemma daysFromCivil_march:
  assumes "0 \<le> mp" and "mp \<le> 11"
  shows "daysFromCivil (if mp < 10 then y else y + 1) (if mp < 10 then mp + 3 else mp - 9) d =
    year_start y + (153 * mp + 2) div 5 + d - 1 - 719468"
proof -
  have era: "cdiv (if 0 \<le> y then y else y - 399) 400 = y div 400"
    using era_div [of 400 y] by (simp split: if_splits)
  have "y div 4 = y mod 400 div 4 + y div 400 * 100"
    "y div 100 = y mod 400 div 100 + y div 400 * 4"
    using era_shift(1,2) [of "y mod 400" "y div 400"] by (simp_all only: mod_div_mult_eq)
  then have yoe: "(y - y div 400 * 400) div 4 = y div 4 - y div 400 * 100"
    "(y - y div 400 * 400) div 100 = y div 100 - y div 400 * 4"
    by (simp_all only: minus_div_mult_eq_mod)
  have sum: "e * 146097 + ((y - e * 400) * 365 + (q - e * 100) - (c - e * 4) + (p + d - 1)) - 719468 =
      365 * y + q - c + e + p + d - 1 - 719468" for e q c p :: int
    by simp
  have *: "daysFromCivil Y m d = year_start y + (153 * mp + 2) div 5 + d - 1 - 719468"
    if "(if m \<le> 2 then Y - 1 else Y) = y" "m + (if 2 < m then - 3 else 9) = mp" for Y m
    unfolding daysFromCivil_def Let_def that era yoe year_start_def by (rule sum)
  show ?thesis using assms by (intro *) auto
qed

lemma civil_inverse:
  assumes "civilFromDays z = (y, m, d)"
  shows "daysFromCivil y m d = z \<and> 1 \<le> m \<and> m \<le> 12 \<and> 1 \<le> d \<and> d \<le> 31"
proof -
  obtain Y mp doy dd where p:
    "civilFromDays z = (if mp < 10 then Y else Y + 1, if mp < 10 then mp + 3 else mp - 9, dd)"
    "z + 719468 = year_start Y + doy" "dd = doy - (153 * mp + 2) div 5 + 1"
    "0 \<le> mp" "mp \<le> 11" "1 \<le> dd" "dd \<le> 31"
    by (rule civilFromDays_parts [of z]) blast
  then show ?thesis
    using assms daysFromCivil_march [OF p(4,5), of Y dd] by (auto split: if_splits)
qed

text \<open>A date as one number that orders dates of valid months and days like the calendar.\<close>

definition date_key :: "int \<times> int \<times> int \<Rightarrow> int" where
  "date_key = (\<lambda>(y, m, d). (12 * y + m) * 32 + d)"

lemma date_key_strict: "z < z' \<Longrightarrow> date_key (civilFromDays z) < date_key (civilFromDays z')"
proof -
  assume zz: "z < z'"
  obtain y mp doy d where p:
    "civilFromDays z = (if mp < 10 then y else y + 1, if mp < 10 then mp + 3 else mp - 9, d)"
    "z + 719468 = year_start y + doy" "z + 719468 < year_start (y + 1)" "0 \<le> doy"
    "mp = (5 * doy + 2) div 153" "d = doy - (153 * mp + 2) div 5 + 1" "mp \<le> 11" "d \<le> 31"
    by (rule civilFromDays_parts [of z]) blast
  obtain y' mp' doy' d' where q:
    "civilFromDays z' = (if mp' < 10 then y' else y' + 1, if mp' < 10 then mp' + 3 else mp' - 9, d')"
    "z' + 719468 = year_start y' + doy'" "z' + 719468 < year_start (y' + 1)"
    "mp' = (5 * doy' + 2) div 153" "d' = doy' - (153 * mp' + 2) div 5 + 1" "0 \<le> mp'" "1 \<le> d'"
    by (rule civilFromDays_parts [of z']) blast
  have k: "date_key (civilFromDays z) = (12 * y + mp + 3) * 32 + d"
    "date_key (civilFromDays z') = (12 * y' + mp' + 3) * 32 + d'"
    unfolding p(1) q(1) by (simp_all add: date_key_def)
  have "y \<le> y'"
    using year_start_mono [of "y' + 1" y] p(2,4) q(3) zz by linarith
  then consider "y < y'" | "y = y'" by linarith
  then show ?thesis
  proof cases
    case 1
    then show ?thesis using p(7,8) q(6,7) by (simp add: k)
  next
    case 2
    then have "doy < doy'" using p(2) q(2) zz by simp
    then have "mp \<le> mp'" unfolding p(5) q(4) by (intro zdiv_mono1) auto
    then show ?thesis
      using 2 \<open>doy < doy'\<close> p(6,8) q(5,7) by (cases "mp = mp'") (auto simp: k)
  qed
qed


section \<open>Timestamps as text\<close>

lemma append_less_append:
  fixes a a' :: string
  assumes "length a = length a'"
  shows "a @ b < a' @ b' \<longleftrightarrow> a < a' \<or> a = a' \<and> b < b'"
  using assms by (induction a a' rule: list_induct2) auto

text \<open>A number in exactly \<open>w\<close> decimal digits.\<close>

fun fixed :: "nat \<Rightarrow> nat \<Rightarrow> string" where
  "fixed 0 n = []"
| "fixed (Suc w) n = fixed w (n div 10) @ [digit_char (n mod 10)]"

lemma length_fixed [simp]: "length (fixed w n) = w"
  by (induction w arbitrary: n) auto

lemma fixed_zero: "fixed w 0 = replicate w (CHR ''0'')"
proof (induction w)
  case (Suc w)
  have "digit_char 0 = CHR ''0''" by code_simp
  then show ?case using Suc by (simp add: replicate_append_same [symmetric])
qed simp

lemma pad_fixed: "n < 10 ^ w \<Longrightarrow> 0 < w \<Longrightarrow> pad w (to_dec n) = fixed w n"
proof (induction w arbitrary: n)
  case (Suc w)
  show ?case
  proof (cases "n < 10")
    case True
    then show ?thesis by (subst to_dec.simps) (simp add: pad_def fixed_zero)
  next
    case False
    have w: "0 < w" using Suc.prems False by (cases w) auto
    have "pad w (to_dec (n div 10)) = fixed w (n div 10)"
      using Suc.prems w by (intro Suc.IH) (auto simp: less_mult_imp_div_less mult.commute)
    then show ?thesis using False by (subst to_dec.simps) (simp add: pad_def)
  qed
qed simp

lemma div_mod_lex:
  "a div 10 < b div 10 \<or> a div 10 = b div 10 \<and> a mod 10 < b mod 10 \<longleftrightarrow> a < b" for a b :: nat
proof -
  have "a = 10 * (a div 10) + a mod 10" "b = 10 * (b div 10) + b mod 10" by simp_all
  moreover have "a mod 10 < 10" "b mod 10 < 10" by simp_all
  ultimately show ?thesis by linarith
qed

lemma div_mod_eq: "a div 10 = b div 10 \<and> a mod 10 = b mod 10 \<longleftrightarrow> a = b" for a b :: nat
  by (metis mult_div_mod_eq)

lemma fixed_less: "a < 10 ^ w \<Longrightarrow> b < 10 ^ w \<Longrightarrow> fixed w a < fixed w b \<longleftrightarrow> a < b"
  and fixed_eq: "a < 10 ^ w \<Longrightarrow> b < 10 ^ w \<Longrightarrow> fixed w a = fixed w b \<longleftrightarrow> a = b"
proof (induction w arbitrary: a b)
  case (Suc w)
  { case 1
    have d: "a div 10 < 10 ^ w" "b div 10 < 10 ^ w" using 1
      by (simp_all add: less_mult_imp_div_less mult.commute)
    have "fixed (Suc w) a < fixed (Suc w) b \<longleftrightarrow>
        a div 10 < b div 10 \<or> a div 10 = b div 10 \<and> a mod 10 < b mod 10"
      using Suc(1) [OF d] Suc(2) [OF d] by (simp add: append_less_append digit_char_less)
    also have "\<dots> \<longleftrightarrow> a < b" by (rule div_mod_lex)
    finally show ?case . }
  { case 2
    have d: "a div 10 < 10 ^ w" "b div 10 < 10 ^ w" using 2
      by (simp_all add: less_mult_imp_div_less mult.commute)
    have "fixed (Suc w) a = fixed (Suc w) b \<longleftrightarrow> a div 10 = b div 10 \<and> a mod 10 = b mod 10"
      using Suc(2) [OF d] by (simp add: digit_char_inj)
    also have "\<dots> \<longleftrightarrow> a = b" by (rule div_mod_eq)
    finally show ?case . }
qed auto

definition date_text :: "int \<times> int \<times> int \<Rightarrow> string" where
  "date_text = (\<lambda>(y, m, d). fixed 4 (nat y) @ ''-'' @ fixed 2 (nat m) @ ''-'' @ fixed 2 (nat d))"

definition clock_text :: "int \<Rightarrow> string" where
  "clock_text s =
     fixed 2 (nat (s div 3600)) @ '':'' @ fixed 2 (nat (s mod 3600 div 60)) @ '':'' @
     fixed 2 (nat (s mod 60)) @ ''Z''"

lemma length_date_text [simp]: "length (date_text p) = 10"
  by (simp add: date_text_def split: prod.splits)

lemma pad_int_fixed: "0 \<le> i \<Longrightarrow> i < 10 ^ w \<Longrightarrow> 0 < w \<Longrightarrow> pad_int w i = fixed w (nat i)"
  by (simp add: pad_int_def pad_fixed nat_less_iff)

lemma pad2: "0 \<le> i \<Longrightarrow> i < 100 \<Longrightarrow> pad_int 2 i = fixed 2 (nat i)"
  and pad4: "0 \<le> i \<Longrightarrow> i < 10000 \<Longrightarrow> pad_int 4 i = fixed 4 (nat i)"
  by (simp_all add: pad_int_fixed)

definition y10k :: int where "y10k = 253402300800000"

lemma civil_range:
  assumes "0 \<le> t" and "t < y10k" and "civilFromDays (t div 86400000) = (y, m, d)"
  shows "1970 \<le> y \<and> y \<le> 9999 \<and> 1 \<le> m \<and> m \<le> 12 \<and> 1 \<le> d \<and> d \<le> 31"
proof -
  have v: "1 \<le> m" "m \<le> 12" "1 \<le> d" "d \<le> 31" using civil_inverse [OF assms(3)] by auto
  have lo: "civilFromDays 0 = (1970, 1, 1)" by code_simp
  have hi: "civilFromDays 2932896 = (9999, 12, 31)" by code_simp
  let ?z = "t div 86400000"
  have z: "0 \<le> ?z" "?z \<le> 2932896" using assms(1,2) by (simp_all add: y10k_def)
  have "date_key (1970, 1, 1) \<le> date_key (y, m, d)"
    using date_key_strict [of 0 ?z] lo assms(3) z by (cases "?z = 0") auto
  moreover have "date_key (y, m, d) \<le> date_key (9999, 12, 31)"
    using date_key_strict [of ?z 2932896] hi assms(3) z by (cases "?z = 2932896") auto
  ultimately show ?thesis using v by (simp add: date_key_def)
qed

lemma isoUtc_text:
  assumes "0 \<le> t" and "t < y10k"
  shows "isoUtc t = date_text (civilFromDays (t div 86400000)) @ ''T'' @
    clock_text (t div 1000 mod 86400)"
proof -
  obtain y m d where c: "civilFromDays (t div 86400000) = (y, m, d)" by (metis prod_cases3)
  have r: "1970 \<le> y" "y \<le> 9999" "1 \<le> m" "m \<le> 12" "1 \<le> d" "d \<le> 31"
    using civil_range [OF assms c] by auto
  define S where "S = t div 1000 mod 86400"
  define k where "k = t mod 1000"
  have k: "0 \<le> k" "k < 1000" by (simp_all add: k_def)
  have S: "0 \<le> S" "S < 86400" by (simp_all add: S_def)
  have rm: "t - t div 86400000 * 86400000 = 1000 * S + k"
    using zmod_zmult2_eq [of 86400 t 1000] by (simp add: minus_div_mult_eq_mod S_def k_def)
  have h: "(1000 * S + k) div 3600000 = S div 3600"
    using zdiv_zmult2_eq [of 3600 "1000 * S + k" 1000] k by simp
  have r1: "(1000 * S + k) mod 3600000 = 1000 * (S mod 3600) + k"
    using zmod_zmult2_eq [of 3600 "1000 * S + k" 1000] k by simp
  have mi: "(1000 * (S mod 3600) + k) div 60000 = S mod 3600 div 60"
    using zdiv_zmult2_eq [of 60 "1000 * (S mod 3600) + k" 1000] k by simp
  have r2: "(1000 * (S mod 3600) + k) mod 60000 = 1000 * (S mod 60) + k"
    using zmod_zmult2_eq [of 60 "1000 * (S mod 3600) + k" 1000] k by (simp add: mod_mod_cancel)
  have se: "(1000 * (S mod 60) + k) div 1000 = S mod 60"
    using k by simp
  have f: "floorDiv t 86400000 = t div 86400000" by (simp add: floorDiv_pos)
  have nn: "0 \<le> 1000 * S + k" "0 \<le> 1000 * (S mod 3600) + k" "0 \<le> 1000 * (S mod 60) + k"
    using k S by simp_all
  have bounds: "S div 3600 < 100" "S mod 3600 div 60 < 100" "S mod 60 < 100"
    "0 \<le> S div 3600" "0 \<le> S mod 3600 div 60" "0 \<le> S mod 60"
    using S pos_mod_bound [of 3600 S] pos_mod_bound [of 60 S] by auto
  have e: "cdiv (1000 * S + k) 3600000 = S div 3600"
    "crem (1000 * S + k) 3600000 = 1000 * (S mod 3600) + k"
    "cdiv (1000 * (S mod 3600) + k) 60000 = S mod 3600 div 60"
    "crem (1000 * (S mod 3600) + k) 60000 = 1000 * (S mod 60) + k"
    "cdiv (1000 * (S mod 60) + k) 1000 = S mod 60"
    using cdiv_nonneg [OF nn(1), of 3600000] crem_nonneg [OF nn(1), of 3600000]
      cdiv_nonneg [OF nn(2), of 60000] crem_nonneg [OF nn(2), of 60000] cdiv_nonneg [OF nn(3), of 1000]
    by (simp_all only: h r1 mi r2 se zero_less_numeral simp_thms)
  have p: "pad_int 4 y = fixed 4 (nat y)" "pad_int 2 m = fixed 2 (nat m)" "pad_int 2 d = fixed 2 (nat d)"
    "pad_int 2 (S div 3600) = fixed 2 (nat (S div 3600))"
    "pad_int 2 (S mod 3600 div 60) = fixed 2 (nat (S mod 3600 div 60))"
    "pad_int 2 (S mod 60) = fixed 2 (nat (S mod 60))"
  proof -
    show "pad_int 4 y = fixed 4 (nat y)" "pad_int 2 m = fixed 2 (nat m)" "pad_int 2 d = fixed 2 (nat d)"
      by (rule pad4; use r in linarith) (rule pad2; use r in linarith)+
  qed (rule pad2 [OF bounds(4,1)] pad2 [OF bounds(5,2)] pad2 [OF bounds(6,3)])+
  show ?thesis
    unfolding isoUtc_def f c Let_def prod.case rm S_def [symmetric] e p date_text_def clock_text_def
    by simp
qed

lemma date_text_less:
  assumes "date_key (y, m, d) < date_key (y', m', d')"
    and "0 \<le> y" "y \<le> 9999" "0 \<le> y'" "y' \<le> 9999" "1 \<le> m" "m \<le> 12" "1 \<le> m'" "m' \<le> 12"
      "1 \<le> d" "d \<le> 31" "1 \<le> d'" "d' \<le> 31"
  shows "date_text (y, m, d) < date_text (y', m', d')"
proof -
  have "y < y' \<or> y = y' \<and> (m < m' \<or> m = m' \<and> d < d')"
    using assms by (simp add: date_key_def) linarith
  moreover have "nat y < 10 ^ 4" "nat y' < 10 ^ 4" "nat m < 10 ^ 2" "nat m' < 10 ^ 2"
    "nat d < 10 ^ 2" "nat d' < 10 ^ 2"
    using assms by (simp_all add: nat_less_iff)
  ultimately show ?thesis
    using assms fixed_less [of "nat y" 4 "nat y'"] fixed_less [of "nat m" 2 "nat m'"]
      fixed_less [of "nat d" 2 "nat d'"]
    by (auto simp: date_text_def append_less_append nat_less_eq_zless)
qed

lemma clock_split:
  fixes x :: int
  shows "x = 3600 * (x div 3600) + 60 * (x mod 3600 div 60) + x mod 60"
    "0 \<le> x mod 3600 div 60 \<and> x mod 3600 div 60 < 60 \<and> 0 \<le> x mod 60 \<and> x mod 60 < 60"
proof -
  have "60 * (x mod 3600 div 60) + x mod 60 = x mod 3600"
    using mult_div_mod_eq [of 60 "x mod 3600"] by (simp add: mod_mod_cancel)
  then show "x = 3600 * (x div 3600) + 60 * (x mod 3600 div 60) + x mod 60"
    using mult_div_mod_eq [of 3600 x] by linarith
  show "0 \<le> x mod 3600 div 60 \<and> x mod 3600 div 60 < 60 \<and> 0 \<le> x mod 60 \<and> x mod 60 < 60"
    using pos_mod_bound [of 3600 x] by auto
qed

lemma clock_lex:
  fixes h :: int
  assumes "3600 * h + 60 * m + c < 3600 * h' + 60 * m' + c'"
    and "0 \<le> m \<and> m < 60 \<and> 0 \<le> c \<and> c < 60" and "0 \<le> m' \<and> m' < 60 \<and> 0 \<le> c' \<and> c' < 60"
  shows "h < h' \<or> h = h' \<and> (m < m' \<or> m = m' \<and> c < c')"
proof -
  have "h \<le> h'" using assms by linarith
  moreover have "m \<le> m'" if "h = h'" using that assms by linarith
  moreover have "c < c'" if "h = h'" "m = m'" using that assms(1) by simp
  ultimately show ?thesis by fastforce
qed

lemma clock_digits_less:
  fixes h :: int
  assumes "h < h' \<or> h = h' \<and> (m < m' \<or> m = m' \<and> c < c')"
    and "0 \<le> h" "h < 100" "0 \<le> h'" "h' < 100" "0 \<le> m" "m < 100" "0 \<le> m'" "m' < 100"
      "0 \<le> c" "c < 100" "0 \<le> c'" "c' < 100"
  shows "fixed 2 (nat h) @ '':'' @ fixed 2 (nat m) @ '':'' @ fixed 2 (nat c) @ ''Z'' <
    fixed 2 (nat h') @ '':'' @ fixed 2 (nat m') @ '':'' @ fixed 2 (nat c') @ ''Z''"
proof -
  have "nat h < 10 ^ 2" "nat h' < 10 ^ 2" "nat m < 10 ^ 2" "nat m' < 10 ^ 2"
    "nat c < 10 ^ 2" "nat c' < 10 ^ 2"
    using assms by (simp_all add: nat_less_iff)
  then show ?thesis
    using assms fixed_less [of "nat h" 2 "nat h'"] fixed_less [of "nat m" 2 "nat m'"]
      fixed_less [of "nat c" 2 "nat c'"]
    by (auto simp: append_less_append nat_less_eq_zless)
qed

lemma clock_text_less:
  assumes "0 \<le> s" "s < s'" "s' < 86400"
  shows "clock_text s < clock_text s'"
  unfolding clock_text_def
proof (rule clock_digits_less)
  show "s div 3600 < s' div 3600 \<or> s div 3600 = s' div 3600 \<and>
      (s mod 3600 div 60 < s' mod 3600 div 60 \<or>
       s mod 3600 div 60 = s' mod 3600 div 60 \<and> s mod 60 < s' mod 60)"
    by (rule clock_lex [OF _ clock_split(2) clock_split(2)])
      (simp only: clock_split(1) [symmetric] assms(2))
  show "0 \<le> s div 3600" "s div 3600 < 100" "0 \<le> s' div 3600" "s' div 3600 < 100"
    using assms by simp_all
qed (use clock_split(2) [of s] clock_split(2) [of s'] in linarith)+

lemma isoUtc_strict:
  assumes "0 \<le> a" and "b < y10k" and "a div 1000 < b div 1000"
  shows "isoUtc a < isoUtc b"
proof -
  have r: "0 \<le> a" "a < y10k" "0 \<le> b" "b < y10k" using assms by linarith+
  have days: "t div 86400000 = t div 1000 div 86400" for t :: int
    using zdiv_zmult2_eq [of 86400 t 1000] by simp
  obtain y m d where c: "civilFromDays (a div 86400000) = (y, m, d)" by (metis prod_cases3)
  obtain y' m' d' where c': "civilFromDays (b div 86400000) = (y', m', d')" by (metis prod_cases3)
  note v = civil_range [OF r(1,2) c] civil_range [OF r(3,4) c']
  have le: "a div 86400000 \<le> b div 86400000" using assms(3) unfolding days by (intro zdiv_mono1) auto
  show ?thesis
  proof (cases "a div 86400000 = b div 86400000")
    case True
    have "a div 1000 mod 86400 < b div 1000 mod 86400"
      using assms(3) True mult_div_mod_eq [of 86400 "a div 1000"]
        mult_div_mod_eq [of 86400 "b div 1000"] unfolding days by linarith
    then have "clock_text (a div 1000 mod 86400) < clock_text (b div 1000 mod 86400)"
      by (intro clock_text_less) auto
    then show ?thesis using True isoUtc_text [OF r(1,2)] isoUtc_text [OF r(3,4)]
      by (simp add: append_less_append)
  next
    case False
    have "date_key (y, m, d) < date_key (y', m', d')"
      using date_key_strict [of "a div 86400000" "b div 86400000"] False le c c' by simp
    then have "date_text (y, m, d) < date_text (y', m', d')" by (intro date_text_less) (use v in auto)
    then show ?thesis using c c' isoUtc_text [OF r(1,2)] isoUtc_text [OF r(3,4)]
      by (simp add: append_less_append)
  qed
qed

lemma isoUtc_order:
  assumes "0 \<le> a" and "a < y10k" and "0 \<le> b" and "b < y10k"
  shows "isoUtc a \<le> isoUtc b \<longleftrightarrow> a div 1000 \<le> b div 1000"
proof -
  have days: "t div 86400000 = t div 1000 div 86400" for t :: int
    using zdiv_zmult2_eq [of 86400 t 1000] by simp
  have eq: "a div 1000 = b div 1000 \<Longrightarrow> isoUtc a = isoUtc b"
    using isoUtc_text [OF assms(1,2)] isoUtc_text [OF assms(3,4)] by (simp add: days)
  show ?thesis
    using isoUtc_strict [OF assms(1,4)] isoUtc_strict [OF assms(3,2)] eq
    by (metis linorder_cases not_less order.strict_implies_order order_refl)
qed


section \<open>HTTP dates\<close>

text \<open>The IMF-fixdate a server sends (RFC 9110, 5.6.7), as the reference for the parser.\<close>

definition imf_fixdate :: "string \<Rightarrow> int \<Rightarrow> string" where
  "imf_fixdate weekday t =
     (case civilFromDays (t div 86400000) of (y, m, d) \<Rightarrow>
        let sec = t div 1000 mod 86400 in
        weekday @ '', '' @ fixed 2 (nat d) @ '' '' @ month_names ! nat (m - 1) @ '' '' @
        fixed 4 (nat y) @ '' '' @
        fixed 2 (nat (sec div 3600)) @ '':'' @ fixed 2 (nat (sec mod 3600 div 60)) @ '':'' @
        fixed 2 (nat (sec mod 60)) @ '' GMT'')"

lemma fixed_digits: "c \<in> set (fixed w n) \<Longrightarrow> isdigit c"
  by (induction w arbitrary: n) auto

lemma dec_val_fixed: "n < 10 ^ w \<Longrightarrow> dec_val (fixed w n) = n"
proof (induction w arbitrary: n)
  case (Suc w)
  then have "n div 10 < 10 ^ w" by (simp add: less_mult_imp_div_less mult.commute)
  then show ?case using Suc.IH by simp
qed simp

lemma not_digit_space: "\<not> isdigit (CHR '' '')" "isspace (CHR '' '')" "\<not> isdigit (CHR '':'')"
  "\<not> isspace (CHR '':'')"
  by code_simp+

lemma digit_not_special:
  "isdigit c \<Longrightarrow> \<not> isspace c \<and> c \<noteq> CHR ''-'' \<and> c \<noteq> CHR ''+'' \<and> c \<noteq> CHR '':''"
  by (auto simp: isdigit_def isspace_def Let_def code_def)

lemma read_int_fixed:
  assumes "n < 10 ^ w" and "10 ^ w \<le> (2147483647 :: nat)" and "0 < w"
  shows "read_int (CHR '' '' # fixed w n @ CHR '' '' # r) = Some (int n, CHR '' '' # r)"
proof -
  obtain c t where ct: "fixed w n = c # t" using assms(3) by (cases "fixed w n") (auto dest: arg_cong [of _ _ length])
  then have c: "isdigit c" using fixed_digits [of c w n] by simp
  have dig: "takeWhile isdigit (fixed w n @ CHR '' '' # r) = fixed w n"
    "dropWhile isdigit (fixed w n @ CHR '' '' # r) = CHR '' '' # r"
    using fixed_digits [of _ w n] by (simp_all add: not_digit_space)
  have skip: "dropWhile isspace (CHR '' '' # fixed w n @ CHR '' '' # r) = fixed w n @ CHR '' '' # r"
    using c digit_not_special [of c] by (simp add: ct not_digit_space)
  have sign: "(case fixed w n @ CHR '' '' # r of x # y \<Rightarrow> if x = CHR ''-'' then (True, y)
      else if x = CHR ''+'' then (False, y) else (False, fixed w n @ CHR '' '' # r)
      | [] \<Rightarrow> (False, [])) = (False, fixed w n @ CHR '' '' # r)"
    using c digit_not_special [of c] by (simp add: ct)
  have "int n \<le> 2147483647" using assms(1,2) by linarith
  then show ?thesis
    unfolding read_int_def Let_def skip sign using assms(1) by (simp add: dig dec_val_fixed ct [symmetric]) (simp add: ct)
qed

lemma read_token_word:
  assumes "t \<noteq> []" and "\<And>c. c \<in> set t \<Longrightarrow> \<not> isspace c"
  shows "read_token (CHR '' '' # t @ CHR '' '' # r) = Some (t, CHR '' '' # r)"
    "read_token (CHR '' '' # t) = Some (t, [])"
proof -
  obtain c u where ct: "t = c # u" using assms(1) by (cases t) auto
  have "\<not> isspace c" using assms(2) by (simp add: ct)
  moreover have "takeWhile (\<lambda>c. \<not> isspace c) (t @ CHR '' '' # r) = t"
    "dropWhile (\<lambda>c. \<not> isspace c) (t @ CHR '' '' # r) = CHR '' '' # r"
    "takeWhile (\<lambda>c. \<not> isspace c) t = t" "dropWhile (\<lambda>c. \<not> isspace c) t = []"
    using assms(2) by (simp_all add: not_digit_space)
  ultimately show "read_token (CHR '' '' # t @ CHR '' '' # r) = Some (t, CHR '' '' # r)"
    "read_token (CHR '' '' # t) = Some (t, [])"
    by (simp_all add: read_token_def not_digit_space ct Let_def)
qed

lemma monthFromName_nth:
  assumes "1 \<le> m" and "m \<le> 12"
  shows "monthFromName (month_names ! nat (m - 1)) = m \<and> month_names ! nat (m - 1) \<noteq> [] \<and>
    list_all (\<lambda>c. \<not> isspace c) (month_names ! nat (m - 1))"
proof -
  have "list_all (\<lambda>k. monthFromName (month_names ! k) = int k + 1 \<and> month_names ! k \<noteq> [] \<and>
      list_all (\<lambda>c. \<not> isspace c) (month_names ! k)) [0..<12]"
    by code_simp
  then have "k < 12 \<Longrightarrow> monthFromName (month_names ! k) = int k + 1 \<and> month_names ! k \<noteq> [] \<and>
      list_all (\<lambda>c. \<not> isspace c) (month_names ! k)" for k
    by (auto simp: list_all_iff)
  from this [of "nat (m - 1)"] show ?thesis using assms by auto
qed

lemma two_digits: "n < 100 \<Longrightarrow> fixed 2 n = [digit_char (n div 10), digit_char (n mod 10)]"
  by (simp add: numeral_2_eq_2)

lemma parse_hms_fixed:
  assumes "h < 100" and "m < 100" and "s < 100"
  shows "parse_hms (fixed 2 h @ CHR '':'' # fixed 2 m @ CHR '':'' # fixed 2 s) = Some (int h, int m, int s)"
proof -
  have "x div 10 < 10" if "x < 100" for x :: nat using that by simp
  moreover have "int (x div 10) * 10 + int (x mod 10) = int x" for x :: nat
    by (metis div_mult_mod_eq of_nat_add of_nat_mult of_nat_numeral)
  ultimately show ?thesis using assms by (simp add: two_digits parse_hms_def)
qed

lemma read_int_two: "n < 100 \<Longrightarrow> read_int (CHR '' '' # fixed 2 n @ CHR '' '' # r) = Some (int n, CHR '' '' # r)"
  by (rule read_int_fixed) simp_all

lemma read_int_four:
  "n < 10000 \<Longrightarrow> read_int (CHR '' '' # fixed 4 n @ CHR '' '' # r) = Some (int n, CHR '' '' # r)"
  by (rule read_int_fixed) simp_all

lemma after_comma_weekday: "CHR '','' \<notin> set w \<Longrightarrow> after_comma (w @ CHR '','' # r) = r"
  by (induction w) (auto simp: after_comma_def)

lemma http_date_inverse:
  assumes "0 \<le> t" and "t < y10k" and "CHR '','' \<notin> set weekday"
  shows "parseHttpDateMs (imf_fixdate weekday t) = Some (t div 1000 * 1000)"
proof -
  obtain y m d where c: "civilFromDays (t div 86400000) = (y, m, d)" by (metis prod_cases3)
  have r: "1970 \<le> y" "y \<le> 9999" "1 \<le> m" "m \<le> 12" "1 \<le> d" "d \<le> 31"
    using civil_range [OF assms(1,2) c] by auto
  define S where "S = t div 1000 mod 86400"
  define hh mm ss where "hh = nat (S div 3600)" and "mm = nat (S mod 3600 div 60)" and "ss = nat (S mod 60)"
  have S: "0 \<le> S" "S < 86400" by (simp_all add: S_def)
  have i: "int hh = S div 3600" "int mm = S mod 3600 div 60" "int ss = S mod 60"
    using S clock_split(2) [of S] by (simp_all add: hh_def mm_def ss_def pos_imp_zdiv_nonneg_iff)
  have b: "int hh \<le> 23" "int mm \<le> 59" "int ss \<le> 59"
    using S clock_split(2) [of S] unfolding i by linarith+
  then have bn: "hh < 100" "mm < 100" "ss < 100" by linarith+
  have e: "int hh * 3600 + int mm * 60 + int ss = S"
    unfolding i using clock_split(1) [of S] by linarith
  define hms where "hms = fixed 2 hh @ CHR '':'' # fixed 2 mm @ CHR '':'' # fixed 2 ss"
  have hms_tok: "hms \<noteq> []" "\<And>c. c \<in> set hms \<Longrightarrow> \<not> isspace c"
    using fixed_digits digit_not_special by (fastforce simp: hms_def not_digit_space)+
  have mon: "monthFromName (month_names ! nat (m - 1)) = m" "month_names ! nat (m - 1) \<noteq> []"
      "\<And>c. c \<in> set (month_names ! nat (m - 1)) \<Longrightarrow> \<not> isspace c"
    using monthFromName_nth [OF r(3,4)] by (auto simp: list_all_iff)
  have gmt: "read_token '' GMT'' = Some (''GMT'', [])" by code_simp
  have layout: "imf_fixdate weekday t = weekday @ CHR '','' # CHR '' '' # fixed 2 (nat d) @
      CHR '' '' # month_names ! nat (m - 1) @ CHR '' '' # fixed 4 (nat y) @ CHR '' '' # hms @ '' GMT''"
    by (simp add: imf_fixdate_def c Let_def hms_def hh_def mm_def ss_def S_def)
  have "daysFromCivil y m d = t div 86400000" using civil_inverse [OF c] by simp
  moreover have "t div 1000 = t div 86400000 * 86400 + S"
    using zdiv_zmult2_eq [of 86400 t 1000] mult_div_mod_eq [of 86400 "t div 1000"] by (simp add: S_def)
  ultimately have sum: "daysFromCivil y m d * 86400000 + (int hh * 3600 + int mm * 60 + int ss) * 1000 =
      t div 1000 * 1000"
    unfolding e by simp
  have "nat d < 100" "nat y < 10000" using r by simp_all
  note rd = read_int_two [OF this(1)] read_int_four [OF this(2)]
  have "read_token (CHR '' '' # hms @ '' GMT'') = Some (hms, '' GMT'')"
    using read_token_word(1) [OF hms_tok, of "''GMT''"] by simp
  then show ?thesis
    unfolding layout parseHttpDateMs_def using r b mon sum
    by (simp add: after_comma_weekday [OF assms(3)] rd read_token_word [OF mon(2,3)] gmt
      parse_hms_fixed [OF bn, folded hms_def] Let_def)
qed


section \<open>The XUNI window\<close>

lemma xuniWindowAt_hour:
  "xuniWindowAt t =
     (let x = t mod 3600000 in
      \<lparr>window_open = (3300000 \<le> x \<or> x < 300000),
       ms_until_close = (if 3300000 \<le> x then 3900000 - x else if x < 300000 then 300000 - x else 0)\<rparr>)"
  by (simp add: xuniWindowAt_def xuni_consts floorDiv_pos minus_div_mult_eq_mod Let_def)

lemma minute_of_hour:
  fixes t :: int
  shows "t div 60000 mod 60 \<ge> 55 \<longleftrightarrow> 3300000 \<le> t mod 3600000"
    "t div 60000 mod 60 < 5 \<longleftrightarrow> t mod 3600000 < 300000"
  using zmod_zmult2_eq [of 60 t 60000] pos_mod_bound [of 60000 t] pos_mod_sign [of 60000 t]
  by simp_all linarith+

lemma hour_add:
  fixes t d :: int
  assumes "0 \<le> d" and "d \<le> 3600000"
  shows "(t + d) mod 3600000 =
    (if t mod 3600000 + d < 3600000 then t mod 3600000 + d else t mod 3600000 + d - 3600000)"
proof -
  define x q where "x = t mod 3600000" and "q = t div 3600000"
  have x: "0 \<le> x" "x < 3600000" and t: "t = 3600000 * q + x" by (simp_all add: x_def q_def)
  show ?thesis
  proof (cases "x + d < 3600000")
    case True
    have "(t + d) mod 3600000 = x + d"
      by (rule int_mod_pos_eq [of _ _ q]) (use t x True assms in linarith)+
    then show ?thesis using True by (simp add: x_def)
  next
    case False
    have "(t + d) mod 3600000 = x + d - 3600000"
      by (rule int_mod_pos_eq [of _ _ "q + 1"]) (use x False assms in \<open>simp_all add: t\<close>)
    then show ?thesis using False by (simp add: x_def)
  qed
qed

lemma window_runs_down:
  assumes "window_open (xuniWindowAt t)" and "0 \<le> d" and "d \<le> ms_until_close (xuniWindowAt t)"
  shows "window_open (xuniWindowAt (t + d)) = (d < ms_until_close (xuniWindowAt t)) \<and>
    ms_until_close (xuniWindowAt (t + d)) = ms_until_close (xuniWindowAt t) - d"
proof -
  define x where "x = t mod 3600000"
  have x: "0 \<le> x" "x < 3600000" by (simp_all add: x_def)
  have "d \<le> 3600000" using assms x by (simp add: xuniWindowAt_hour Let_def x_def split: if_splits)
  then have y: "(t + d) mod 3600000 = (if x + d < 3600000 then x + d else x + d - 3600000)"
    unfolding x_def using hour_add assms(2) by blast
  show ?thesis
    using assms x unfolding xuniWindowAt_hour Let_def y x_def [symmetric] by (auto split: if_splits)
qed


section \<open>Properties\<close>

text \<open>
  Civil dates: every day number prints as a date with a month in 1..12 and a day in 1..31,
  and \<open>daysFromCivil\<close> takes that date back to the day number, before and after 1970.
\<close>

theorem civil_roundtrip:
  "case civilFromDays z of (y, m, d) \<Rightarrow>
     daysFromCivil y m d = z \<and> 1 \<le> m \<and> m \<le> 12 \<and> 1 \<le> d \<and> d \<le> 31"
  using civil_inverse [of z] by (auto split: prod.splits)

text \<open>
  Timestamps order as text: between 1970 and the year 10000 two timestamps printed by
  \<open>isoUtc\<close> compare as strings exactly as their times compare at one-second resolution. This is
  what makes the journal's SQL test \<open>next_attempt_at <= ?\<close> a test on time.
\<close>

theorem isoUtc_orders_time:
  assumes "0 \<le> a" and "a < y10k" and "0 \<le> b" and "b < y10k"
  shows "isoUtc a \<le> isoUtc b \<longleftrightarrow> a div 1000 \<le> b div 1000"
  using assms by (rule isoUtc_order)

theorem isoUtc_orders_time_witness:
  "isoUtc 1709164799000 \<le> isoUtc 1709164800000 \<and> \<not> isoUtc 1709164800000 \<le> isoUtc 1709164799999"
  using isoUtc_orders_time [of 1709164799000 1709164800000]
    isoUtc_orders_time [of 1709164800000 1709164799999]
  by (simp add: y10k_def)

text \<open>
  Server clock: the parser of the HTTP \<open>Date\<close> header reads back, to the second, every
  IMF-fixdate between 1970 and the year 10000, whatever the weekday field says.
\<close>

theorem parseHttpDateMs_roundtrip:
  assumes "0 \<le> t" and "t < y10k" and "CHR '','' \<notin> set weekday"
  shows "parseHttpDateMs (imf_fixdate weekday t) = Some (t div 1000 * 1000)"
  using assms by (rule http_date_inverse)

theorem parseHttpDateMs_roundtrip_witness:
  "parseHttpDateMs (imf_fixdate ''Thu'' 1709164800123) = Some 1709164800000"
  using parseHttpDateMs_roundtrip [of 1709164800123 "''Thu''"] by (simp add: y10k_def)

text \<open>
  XUNI window: at server time \<open>t\<close> the window is open exactly in the last and the first five
  minutes of an hour; while it is open, \<open>ms_until_close\<close> is between 1 ms and 10 minutes, the
  window stays open for every millisecond of that span and is closed at its end.
\<close>

theorem xuniWindowAt_correct:
  "window_open (xuniWindowAt t) =
     (t div 60000 mod 60 \<ge> 55 \<or> t div 60000 mod 60 < 5) \<and>
   (if window_open (xuniWindowAt t)
    then 0 < ms_until_close (xuniWindowAt t) \<and> ms_until_close (xuniWindowAt t) \<le> 600000 \<and>
      \<not> window_open (xuniWindowAt (t + ms_until_close (xuniWindowAt t))) \<and>
      (\<forall>d. 0 \<le> d \<and> d < ms_until_close (xuniWindowAt t) \<longrightarrow>
         window_open (xuniWindowAt (t + d)) \<and>
         ms_until_close (xuniWindowAt (t + d)) = ms_until_close (xuniWindowAt t) - d)
    else ms_until_close (xuniWindowAt t) = 0)"
proof (cases "window_open (xuniWindowAt t)")
  case True
  then have c: "0 < ms_until_close (xuniWindowAt t)" "ms_until_close (xuniWindowAt t) \<le> 600000"
    using pos_mod_bound [of 3600000 t] by (auto simp: xuniWindowAt_hour Let_def split: if_splits)
  show ?thesis
    using True c window_runs_down [OF True] by (simp add: minute_of_hour) (simp add: xuniWindowAt_hour Let_def)
next
  case False
  then show ?thesis by (simp add: minute_of_hour) (simp add: xuniWindowAt_hour Let_def)
qed

theorem xuniWindowAt_correct_witness:
  "window_open (xuniWindowAt 3599000) \<and> window_open (xuniWindowAt (3599000 + 300999)) \<and>
   \<not> window_open (xuniWindowAt (3599000 + 301000))"
proof -
  have "xuniWindowAt 3599000 = \<lparr>window_open = True, ms_until_close = 301000\<rparr>" by code_simp
  then have a: "\<forall>d. 0 \<le> d \<and> d < 301000 \<longrightarrow> window_open (xuniWindowAt (3599000 + d))"
    and b: "\<not> window_open (xuniWindowAt (3599000 + 301000))" "window_open (xuniWindowAt 3599000)"
    using xuniWindowAt_correct [of 3599000] by simp_all
  show ?thesis using a [THEN spec, of 300999] b by simp
qed

end
