(* ===== verification/Console_Log.thy ===== *)
theory Console_Log
  imports Main
begin

text \<open>\<open>src/ConsoleLog.h\<close>: the levels of a console line. Writing the line is not modelled.\<close>

datatype Level = Debug | Info | Found | Ok | Retry | Park | Warn | Error

end
