(* ===== verification/Submission_Manager.thy ===== *)
theory Submission_Manager
  imports Find_Journal Response_Classifier Drain_Scheduler Margin_Policy Civil_Time Console_Log
begin

text \<open>
  \<open>src/submit/SubmissionManager.cpp\<close>: the drain loop. Every member function is a step on the
  manager's state that may throw. What the manager reads from outside comes from an
  environment of streams: its two clocks, the transport's answers and the faults of the
  journal's calls; a counter in the state says how far they have been read.
  Everything the manager does outwards (requests, callbacks, console lines) is an event in
  the state's log, in order. Callbacks are events: they are assumed to return.
\<close>

record TransportResult =
  transport_ok :: bool
  http_status :: int
  body :: string
  retry_after :: "string option"
  date_header :: "string option"
  transport_error :: string

datatype mgr_event =
    ESubmit FoundPayload TransportResult
  | EConfirm string TransportResult
  | EDifficulty TransportResult
  | EOutcome FindRecord Classification "int option"
  | ENetworkState State
  | EDifficultyHint u32
  | EMargin u32
  | EFatal string
  | ELog Level string string

datatype StepResult = Idle | Probed | Submitted | BreakerBlocked | ConfirmRetried

datatype ConfirmBodyCheck = Confirmed | Malformed | KeyMismatch | HashMismatch

record Config =
  fetch_limit :: nat
  confirm_fetch_limit :: nat
  backoff_base_ms :: int
  backoff_cap_ms :: int
  xuni_max_windows :: int
  idle_poll_ms :: int
  config_breaker :: breaker_config
  config_drain :: drain_config
  config_margin :: MarginConfig
  margin_eval_interval_ms :: int
  pre_park_below_difficulty :: bool

definition default_config :: Config where
  "default_config =
     \<lparr>fetch_limit = 16, confirm_fetch_limit = 4, backoff_base_ms = 2000, backoff_cap_ms = 300000,
      xuni_max_windows = 3, idle_poll_ms = 250, config_breaker = default_breaker_config,
      config_drain = default_drain_config, config_margin = default_margin_config,
      margin_eval_interval_ms = 5000, pre_park_below_difficulty = False\<rparr>"

record Metrics =
  met_submitted :: u64
  met_resubmitted :: u64
  met_acked :: u64
  met_accepted_unconfirmed :: u64
  met_reconciled_via_get_block :: u64
  met_confirmation_retries :: u64
  met_unconfirmed_200_detected :: u64
  met_parked_difficulty :: u64
  met_parked_xuni :: u64
  met_quarantined :: u64
  met_permanently_invalid :: u64
  met_transport_failures :: u64
  met_probes :: u64
  met_margin_changes :: u64
  met_confirm_body_rejected :: u64
  met_thread_loop_exceptions :: u64

definition no_metrics :: Metrics where
  "no_metrics =
     \<lparr>met_submitted = 0, met_resubmitted = 0, met_acked = 0, met_accepted_unconfirmed = 0,
      met_reconciled_via_get_block = 0, met_confirmation_retries = 0,
      met_unconfirmed_200_detected = 0, met_parked_difficulty = 0, met_parked_xuni = 0,
      met_quarantined = 0, met_permanently_invalid = 0, met_transport_failures = 0,
      met_probes = 0, met_margin_changes = 0, met_confirm_body_rejected = 0,
      met_thread_loop_exceptions = 0\<rparr>"

record mgr =
  journal :: db
  mgr_breaker :: breaker
  mgr_scheduler :: scheduler
  fatal :: bool
  running :: bool
  last_difficulty :: "u32 option"
  trend :: DifficultyTrend
  server_offset_ms :: "int option"
  next_submit_allowed_ms :: int
  last_window_open :: bool
  margin_in_effect :: u32
  outage_started_ms :: int
  last_outage_span_ms :: int
  last_margin_eval_ms :: int
  margin_eval_started :: bool
  metrics :: Metrics
  reads :: nat
  events :: "mgr_event list"

definition SubmissionManager :: "Config \<Rightarrow> db \<Rightarrow> mgr" where
  "SubmissionManager c d =
     \<lparr>journal = d, mgr_breaker = CircuitBreaker (config_breaker c),
      mgr_scheduler = DrainScheduler (config_drain c), fatal = False, running = False,
      last_difficulty = None, trend = Unknown, server_offset_ms = None,
      next_submit_allowed_ms = 0, last_window_open = False, margin_in_effect = 0,
      outage_started_ms = 0, last_outage_span_ms = 0, last_margin_eval_ms = 0,
      margin_eval_started = False, metrics = no_metrics, reads = 0, events = []\<rparr>"


section \<open>Reading the environment\<close>

record env =
  mono_at :: "nat \<Rightarrow> int"
  wall_at :: "nat \<Rightarrow> int"
  response_at :: "nat \<Rightarrow> TransportResult"
  fault_at :: "nat \<Rightarrow> sqlite_fault"

definition read_next :: "(nat \<Rightarrow> 'a) \<Rightarrow> (mgr, 'a) step" where
  "read_next f = (\<lambda>s. (Inr (f (reads s)), s\<lparr>reads := reads s + 1\<rparr>))"

definition mono :: "env \<Rightarrow> (mgr, int) step" where
  "mono e = read_next (mono_at e)"

definition wall :: "env \<Rightarrow> (mgr, int) step" where
  "wall e = read_next (wall_at e)"

definition emit :: "mgr_event \<Rightarrow> (mgr, unit) step" where
  "emit ev = modify (\<lambda>s. s\<lparr>events := events s @ [ev]\<rparr>)"

definition transport :: "env \<Rightarrow> (TransportResult \<Rightarrow> mgr_event) \<Rightarrow> (mgr, TransportResult) step" where
  "transport e request =
     bind_step (read_next (response_at e)) (\<lambda>r. seq_step (emit (request r)) (ret r))"

text \<open>A call into the journal.\<close>

definition call_journal :: "env \<Rightarrow> (sqlite_fault \<Rightarrow> (db, 'a) step) \<Rightarrow> (mgr, 'a) step" where
  "call_journal e oper =
     (\<lambda>s. case oper (fault_at e (reads s)) (journal s) of
            (r, d) \<Rightarrow> (r, s\<lparr>journal := d, reads := reads s + 1\<rparr>))"

definition count_metric :: "(Metrics \<Rightarrow> Metrics) \<Rightarrow> (mgr, unit) step" where
  "count_metric f = modify (\<lambda>s. s\<lparr>metrics := f (metrics s)\<rparr>)"

definition on_breaker :: "(breaker \<Rightarrow> breaker) \<Rightarrow> (mgr, unit) step" where
  "on_breaker f = modify (\<lambda>s. s\<lparr>mgr_breaker := f (mgr_breaker s)\<rparr>)"

definition on_scheduler :: "(scheduler \<Rightarrow> scheduler) \<Rightarrow> (mgr, unit) step" where
  "on_scheduler f = modify (\<lambda>s. s\<lparr>mgr_scheduler := f (mgr_scheduler s)\<rparr>)"

text \<open>
  A breaker operation that reads the breaker's clock. The manager builds its breaker without a
  jitter source, so the jitter is 0.
\<close>

definition on_breaker_timed :: "env \<Rightarrow> (int \<Rightarrow> real \<Rightarrow> breaker \<Rightarrow> breaker) \<Rightarrow> (mgr, unit) step" where
  "on_breaker_timed e f =
     bind_step (mono e) (\<lambda>now. on_breaker (f now 0))"

definition emitNetworkState :: "(mgr, unit) step" where
  "emitNetworkState = bind_step (gets (\<lambda>s. state (mgr_breaker s))) (\<lambda>st. emit (ENetworkState st))"

definition isBlankBody :: "string \<Rightarrow> bool" where
  "isBlankBody s = list_all isspace s"

definition logKind :: "FindKind \<Rightarrow> string" where
  "logKind k = (if k = XEN11 then ''XEN11'' else ''XUNI'')"

definition logStatus :: "FindStatus \<Rightarrow> string" where
  "logStatus st = status_to_string st"


section \<open>Difficulty, margin and the server's clock\<close>

definition trend_text :: "DifficultyTrend \<Rightarrow> string" where
  "trend_text t = (case t of Rising \<Rightarrow> ''rising'' | Falling \<Rightarrow> ''falling'' | Flat \<Rightarrow> ''flat''
                            | Unknown \<Rightarrow> ''unknown'')"

definition difficulty_message :: "u32 option \<Rightarrow> u32 \<Rightarrow> DifficultyTrend \<Rightarrow> nat \<Rightarrow> string" where
  "difficulty_message previous difficulty t unparked =
     ''previous='' @ (case previous of Some p \<Rightarrow> to_dec (unat p) | None \<Rightarrow> ''unknown'') @
     '' -> current='' @ to_dec (unat difficulty) @ '' | trend='' @ trend_text t @
     '' | unparked='' @ to_dec unparked"

definition observeDifficulty :: "env \<Rightarrow> u32 \<Rightarrow> (mgr, unit) step" where
  "observeDifficulty e difficulty =
     bind_step (gets last_difficulty) (\<lambda>previous.
     let decreased = (case previous of Some p \<Rightarrow> difficulty < p | None \<Rightarrow> False);
         first_observation = (previous = None) in
     seq_step (modify (\<lambda>s. s\<lparr>last_difficulty := Some difficulty,
        trend := (case previous of
                    None \<Rightarrow> trend s
                  | Some p \<Rightarrow> if p < difficulty then Rising
                              else if difficulty < p then Falling else Flat)\<rparr>))
     (bind_step (if decreased \<or> first_observation
                 then call_journal e (\<lambda>f. unparkForDifficulty f difficulty) else ret 0) (\<lambda>unparked.
      when_step (previous \<noteq> Some difficulty)
        (bind_step (gets trend) (\<lambda>t.
           emit (ELog (if decreased then Info else Warn) ''DIFFICULTY''
             (difficulty_message previous difficulty t unparked)))))))"

definition outage_clock :: "int \<Rightarrow> bool \<Rightarrow> mgr \<Rightarrow> mgr" where
  "outage_clock now opn s =
     (if opn then (if outage_started_ms s = 0 then s\<lparr>outage_started_ms := now\<rparr> else s)
      else (if outage_started_ms s \<noteq> 0
            then s\<lparr>last_outage_span_ms := max 0 (now - outage_started_ms s)\<rparr> else s)
        \<lparr>outage_started_ms := 0\<rparr>)"

text \<open>Everything journaled that has not reached a terminal state.\<close>

definition backlog_of :: "Counts \<Rightarrow> nat" where
  "backlog_of c = cnt_pending c + cnt_parked c + cnt_accepted_unconfirmed c + cnt_quarantined c"

definition apply_margin :: "u32 \<Rightarrow> (mgr, unit) step" where
  "apply_margin next =
     bind_step (gets margin_in_effect) (\<lambda>m.
     when_step (next \<noteq> m)
       (seq_step (modify (\<lambda>s. s\<lparr>margin_in_effect := next\<rparr>))
       (seq_step (count_metric (\<lambda>k. k\<lparr>met_margin_changes := met_margin_changes k + 1\<rparr>))
         (emit (EMargin next)))))"

definition updateMargin :: "env \<Rightarrow> Config \<Rightarrow> (mgr, unit) step" where
  "updateMargin e c =
     bind_step (mono e) (\<lambda>now.
     bind_step (gets (\<lambda>s. state (mgr_breaker s) = Open)) (\<lambda>opn.
     seq_step (modify (outage_clock now opn))
     (if mode (config_margin c) = Off then ret ()
      else bind_step (gets (\<lambda>s. margin_eval_started s \<and>
               now - last_margin_eval_ms s < margin_eval_interval_ms c)) (\<lambda>recent.
        if recent then ret ()
        else seq_step (modify (\<lambda>s. s\<lparr>last_margin_eval_ms := now, margin_eval_started := True\<rparr>))
          (bind_step (gets outage_started_ms) (\<lambda>started.
           bind_step (if mode (config_margin c) = Auto
                      then bind_step (call_journal e counts) (\<lambda>k. ret (backlog_of k)) else ret 0) (\<lambda>bl.
           apply_margin (computeMargin (config_margin c)
             \<lparr>breaker_open = opn, outage_ms = (if opn then now - started else 0), backlog = bl\<rparr>))))))))"

definition trackServerDate :: "env \<Rightarrow> TransportResult \<Rightarrow> (mgr, unit) step" where
  "trackServerDate e r =
     (if \<not> transport_ok r then ret ()
      else case date_header r of
        None \<Rightarrow> ret ()
      | Some h \<Rightarrow>
          (case parseHttpDateMs h of
             None \<Rightarrow> ret ()
           | Some server_ms \<Rightarrow>
               bind_step (wall e) (\<lambda>w. modify (\<lambda>s. s\<lparr>server_offset_ms := Some (server_ms - w)\<rparr>))))"

text \<open>A difficulty the server named: remember it, log it in the journal, tell the engine.\<close>

definition take_hint :: "env \<Rightarrow> u32 \<Rightarrow> (mgr, unit) step" where
  "take_hint e d =
     seq_step (observeDifficulty e d)
     (bind_step (wall e) (\<lambda>w.
      seq_step (call_journal e (\<lambda>f. recordDifficulty f d (isoUtc w)))
      (emit (EDifficultyHint d))))"

definition handleDifficultyBody :: "env \<Rightarrow> string \<Rightarrow> (mgr, unit) step" where
  "handleDifficultyBody e txt =
     (case extractJsonField txt ''difficulty'' of
        None \<Rightarrow> ret ()
      | Some field \<Rightarrow>
          (case parseDifficultyHint (''m='' @ field) of
             None \<Rightarrow> ret ()
           | Some d \<Rightarrow> take_hint e d))"

fun double_until :: "nat \<Rightarrow> int \<Rightarrow> int \<Rightarrow> int" where
  "double_until 0 cap delay = delay"
| "double_until (Suc n) cap delay = (if delay < cap then double_until n cap (delay * 2) else delay)"

definition backoff_delay :: "Config \<Rightarrow> int \<Rightarrow> nat option \<Rightarrow> int" where
  "backoff_delay c tries retry_after_s =
     min (case retry_after_s of
            Some r \<Rightarrow> int r * 1000
          | None \<Rightarrow> double_until (nat tries) (backoff_cap_ms c) (backoff_base_ms c))
         (backoff_cap_ms c)"

definition backoffTimeIso :: "env \<Rightarrow> Config \<Rightarrow> int \<Rightarrow> nat option \<Rightarrow> (mgr, string) step" where
  "backoffTimeIso e c tries retry_after_s =
     bind_step (wall e) (\<lambda>w. ret (isoUtc (w + backoff_delay c tries retry_after_s)))"


section \<open>Confirmation bodies\<close>

definition confirmationMatches :: "FindRecord \<Rightarrow> string \<Rightarrow> ConfirmBodyCheck" where
  "confirmationMatches rec txt =
     (case extractJsonField txt ''key'' of
        None \<Rightarrow> Malformed
      | Some k \<Rightarrow>
          if k \<noteq> key (payload rec) then KeyMismatch
          else
            (case extractJsonField txt ''hash_to_verify'' of
               None \<Rightarrow> Confirmed
             | Some h \<Rightarrow> if h \<noteq> hash_to_verify (payload rec) then HashMismatch else Confirmed))"

definition confirmRejectReason :: "ConfirmBodyCheck \<Rightarrow> string" where
  "confirmRejectReason check =
     (case check of
        KeyMismatch \<Rightarrow>
          ''/get_block 200 body describes a different key '' @ em_dash @
          '' not a confirmation of this record, remaining unconfirmed''
      | HashMismatch \<Rightarrow>
          ''/get_block 200 has our key but a DIFFERENT hash_to_verify '' @ em_dash @
          '' refusing to ack, remaining unconfirmed''
      | _ \<Rightarrow>
          ''/get_block 200 body malformed or missing key '' @ em_dash @
          '' untrusted, remaining unconfirmed'')"

definition mismatch_message :: "FindRecord \<Rightarrow> string" where
  "mismatch_message rec =
     ''hash_to_verify MISMATCH on /get_block for key='' @ key (payload rec) @ '' '' @ em_dash @
     '' server row differs from our immutable find; NOT acking (possible interception or '' @
     ''server corruption)''"

definition log_mismatch :: "FindRecord \<Rightarrow> ConfirmBodyCheck \<Rightarrow> (mgr, unit) step" where
  "log_mismatch rec check =
     when_step (check = HashMismatch) (emit (ELog Error ''CONFIRM'' (mismatch_message rec)))"

text \<open>
  The confirmation part of \<open>submitStep_\<close>: the classification after the lookup's answer, and the
  next attempt time if one is set.
\<close>

definition lookup_verdict ::
  "env \<Rightarrow> Config \<Rightarrow> FindRecord \<Rightarrow> Classification \<Rightarrow> TransportResult \<Rightarrow>
   (mgr, Classification \<times> string option) step" where
  "lookup_verdict e c rec cls conf =
     (let check = (if transport_ok conf \<and> http_status conf = 200
                   then confirmationMatches rec (body conf) else Malformed) in
      if transport_ok conf \<and> http_status conf = 200 \<and> check = Confirmed then
        seq_step (count_metric (\<lambda>k. k\<lparr>met_reconciled_via_get_block := met_reconciled_via_get_block k + 1\<rparr>))
        (ret (cls\<lparr>next_status := Acked, needs_lookup_confirmation := False,
                  reason := reason cls @ ''; confirmed via /get_block (body matches key)''\<rparr>, None))
      else if transport_ok conf \<and> http_status conf = 200 then
        seq_step (log_mismatch rec check)
        (bind_step (backoffTimeIso e c (attempt_count rec) None) (\<lambda>t.
         seq_step (count_metric (\<lambda>k. k\<lparr>met_confirm_body_rejected := met_confirm_body_rejected k + 1\<rparr>))
         (ret (cls\<lparr>reason := reason cls @ ''; '' @ confirmRejectReason check\<rparr>, Some t))))
      else if transport_ok conf \<and> http_status conf = 404 then
        bind_step (backoffTimeIso e c (attempt_count rec) None) (\<lambda>t.
        seq_step (count_metric (\<lambda>k. k\<lparr>met_unconfirmed_200_detected := met_unconfirmed_200_detected k + 1\<rparr>))
        (ret (cls\<lparr>next_status := Pending, needs_lookup_confirmation := False,
                  reason := reason cls @ ''; /get_block says ABSENT '' @ em_dash @
                            '' server 200 was not durable, resubmitting''\<rparr>, Some t)))
      else
        bind_step (backoffTimeIso e c (attempt_count rec) None) (\<lambda>t.
        ret (cls\<lparr>reason := reason cls @ ''; /get_block unavailable, remaining unconfirmed''\<rparr>, Some t)))"

definition confirm_lookup ::
  "env \<Rightarrow> Config \<Rightarrow> FindRecord \<Rightarrow> Classification \<Rightarrow> (mgr, Classification \<times> string option) step" where
  "confirm_lookup e c rec cls =
     bind_step (transport e (EConfirm (key (payload rec)))) (\<lambda>conf.
     seq_step (trackServerDate e conf) (lookup_verdict e c rec cls conf))"


section \<open>Breaker transitions and probes\<close>

definition human_ms :: "int \<Rightarrow> string" where
  "human_ms ms =
     (let sec = cdiv ms 1000 in
      if 60 \<le> sec then to_dec_int (cdiv sec 60) @ ''m '' @ to_dec_int (crem sec 60) @ ''s''
      else to_dec_int sec @ ''s'')"

definition plural_finds :: "nat \<Rightarrow> string" where
  "plural_finds n = to_dec n @ '' find'' @ (if n = 1 then [] else ''s'')"

definition logBreakerTransition :: "env \<Rightarrow> State \<Rightarrow> State \<Rightarrow> string \<Rightarrow> (mgr, unit) step" where
  "logBreakerTransition e before after cause =
     (if before = after then ret ()
      else
        bind_step (call_journal e counts) (\<lambda>k.
        let bl = backlog_of k in
        (case after of
           Open \<Rightarrow>
             bind_step (mono e) (\<lambda>now.
             bind_step (gets (\<lambda>s. next_probe_at_ms (mgr_breaker s))) (\<lambda>probe_at.
             let retry_ms = max 0 (probe_at - now) in
             emit (ELog Warn ''NETWORK''
               (''submissions paused ('' @ cause @ '') '' @ em_dash @ '' '' @ plural_finds bl @
                '' safe in queue; retry in '' @ to_dec_int (cdiv retry_ms 1000) @ ''s''))))
         | HalfOpen \<Rightarrow>
             emit (ELog Warn ''NETWORK''
               (''submissions probing ('' @ cause @ '') '' @ em_dash @ '' '' @ plural_finds bl @
                '' still queued; one test submit next''))
         | Closed \<Rightarrow>
             bind_step (gets last_outage_span_ms) (\<lambda>span.
             emit (ELog Ok ''NETWORK''
               (''submissions restored after '' @ human_ms span @ '' '' @ em_dash @ '' '' @
                to_dec bl @ '' queued, draining''))))))"

definition breaker_state :: "mgr \<Rightarrow> State" where
  "breaker_state s = state (mgr_breaker s)"

definition probeStep :: "env \<Rightarrow> (mgr, StepResult) step" where
  "probeStep e =
     bind_step (mono e) (\<lambda>now.
     bind_step (gets (\<lambda>s. probeDue now (mgr_breaker s))) (\<lambda>due.
     if \<not> due then ret Idle
     else
       bind_step (transport e EDifficulty) (\<lambda>r.
       seq_step (trackServerDate e r)
       (seq_step (count_metric (\<lambda>k. k\<lparr>met_probes := met_probes k + 1\<rparr>))
       (seq_step
         (if transport_ok r \<and> http_status r = 200 \<and> \<not> isBlankBody (body r) then
            seq_step (handleDifficultyBody e (body r))
            (bind_step (gets breaker_state) (\<lambda>before.
             seq_step (on_breaker onProbeSuccess)
             (bind_step (gets breaker_state) (\<lambda>after.
              logBreakerTransition e before after ''difficulty probe succeeded''))))
          else on_breaker_timed e onProbeFailure)
       (seq_step emitNetworkState (ret Probed)))))))"


section \<open>One submission\<close>

definition unpark_on_open :: "env \<Rightarrow> Config \<Rightarrow> XuniWindowState \<Rightarrow> (mgr, unit) step" where
  "unpark_on_open e c window =
     seq_step
       (bind_step (gets last_window_open) (\<lambda>was_open.
        if window_open window \<and> \<not> was_open
        then seq_step (call_journal e (\<lambda>f. unparkXuniForWindow f (xuni_max_windows c))) (ret ())
        else ret ()))
       (modify (\<lambda>s. s\<lparr>last_window_open := window_open window\<rparr>))"

text \<open>The two per-kind fetches; the result is the slice and the XUNI pressure.\<close>

definition fetch_work :: "env \<Rightarrow> Config \<Rightarrow> XuniWindowState \<Rightarrow> (mgr, FindRecord list) step" where
  "fetch_work e c window =
     bind_step (wall e) (\<lambda>w.
     let now_iso = isoUtc w in
     bind_step (call_journal e (\<lambda>f. fetchEligibleOfKind f XEN11 now_iso (fetch_limit c))) (\<lambda>xen.
     bind_step (if window_open window
                then call_journal e (\<lambda>f. fetchEligibleOfKind f XUNI now_iso (fetch_limit c))
                else ret []) (\<lambda>xuni.
     bind_step (mono e) (\<lambda>now.
     seq_step (on_breaker (setXuniPressure now (xuni \<noteq> []))) (ret (xen @ xuni))))))"

definition pre_park_reason :: "FindRecord \<Rightarrow> u32 \<Rightarrow> string" where
  "pre_park_reason rec known =
     ''pre-parked locally: m='' @ to_dec (unat (memory_cost (payload rec))) @
     '' < server difficulty '' @ to_dec (unat known) @
     '' (no submit attempt; releases when difficulty falls to m)''"

definition pre_park :: "env \<Rightarrow> FindRecord \<Rightarrow> u32 \<Rightarrow> (mgr, StepResult) step" where
  "pre_park e rec known =
     (let c = \<lparr>next_status = ParkedDifficulty, server_difficulty_hint = None,
               needs_lookup_confirmation = False, reason = pre_park_reason rec known\<rparr> in
      bind_step (wall e) (\<lambda>w.
      seq_step (call_journal e (\<lambda>f. recordAttempt f (id rec) c None [] None (isoUtc w)))
      (seq_step (emit (EOutcome rec c None))
      (seq_step (emit (ELog Park ''SUBMIT''
         (logKind (kind (payload rec)) @ '' #'' @ to_dec_int (id rec) @ '' | '' @ reason c)))
      (seq_step (count_metric (\<lambda>k. k\<lparr>met_parked_difficulty := met_parked_difficulty k + 1\<rparr>))
      (ret Submitted))))))"

definition show_margin :: "int \<Rightarrow> string" where
  "show_margin m = (if m < 0 then to_dec_int m else CHR ''+'' # to_dec_int m)"

definition submission_message ::
  "FindRecord \<Rightarrow> Classification \<Rightarrow> u32 option \<Rightarrow> TransportResult \<Rightarrow> string" where
  "submission_message rec c known res =
     logKind (kind (payload rec)) @ '' #'' @ to_dec_int (id rec) @
     (if next_status c = Acked then '' confirmed''
      else if next_status c = Pending then '' retry '' @ to_dec_int (attempt_count rec + 1)
      else '' '' @ logStatus (next_status c)) @
     '' | m='' @ to_dec (unat (memory_cost (payload rec))) @
     (case (if server_difficulty_hint c \<noteq> None then server_difficulty_hint c else known) of
        None \<Rightarrow> []
      | Some server_m \<Rightarrow> '' vs server '' @ to_dec (unat server_m) @ '' (margin '' @
          show_margin (uint (memory_cost (payload rec)) - uint server_m) @ '')'') @
     '' | '' @
     (if transport_ok res then ''HTTP '' @ to_dec_int (http_status res) else ''network unavailable'') @
     (if next_status c \<noteq> Acked \<and> reason c \<noteq> [] then '' | '' @ reason c else [])"

definition submission_level :: "FindStatus \<Rightarrow> Level" where
  "submission_level st =
     (if st = Acked then Ok
      else if st = ParkedDifficulty \<or> st = ParkedXuniWindow then Park
      else if st = Pending then Retry
      else if st = PermanentlyInvalid \<or> st = Quarantined then Error
      else Info)"

definition transport_failure :: "TransportResult \<Rightarrow> bool" where
  "transport_failure res =
     (\<not> transport_ok res \<or> 500 \<le> http_status res \<or> http_status res = 408 \<or>
      http_status res = 425 \<or> isBlankBody (body res))"

text \<open>Breaker and pacing after the outcome is durable.\<close>

definition settle_breaker :: "env \<Rightarrow> bool \<Rightarrow> Classification \<Rightarrow> TransportResult \<Rightarrow> (mgr, unit) step" where
  "settle_breaker e was_closed c res =
     bind_step (gets breaker_state) (\<lambda>before.
     seq_step
       (if next_status c = Acked \<or> next_status c = AcceptedUnconfirmed then
          seq_step (on_breaker onVerifySuccess)
            (on_scheduler (if was_closed then onHealthyRoundTrip else onBreakerClose))
        else if transport_failure res then
          seq_step (on_breaker_timed e onVerifyTransportFailure) (on_scheduler onThrottle)
        else if http_status res = 429 then
          seq_step (on_breaker onVerifyInconclusive) (on_scheduler onThrottle)
        else
          seq_step (on_breaker onVerifyInconclusive) (on_scheduler onHealthyRoundTrip))
     (bind_step (gets breaker_state) (\<lambda>after.
      seq_step (logBreakerTransition e before after
        (if transport_failure res then ''verification transport failure''
         else ''verification response''))
      emitNetworkState)))"

definition outcome_metrics :: "FindRecord \<Rightarrow> Classification \<Rightarrow> TransportResult \<Rightarrow> Metrics \<Rightarrow> Metrics" where
  "outcome_metrics rec c res k0 =
     (let k1 = k0\<lparr>met_submitted := met_submitted k0 + 1\<rparr>;
          k2 = (if 0 < attempt_count rec then k1\<lparr>met_resubmitted := met_resubmitted k1 + 1\<rparr> else k1);
          k3 = (if \<not> transport_ok res
                then k2\<lparr>met_transport_failures := met_transport_failures k2 + 1\<rparr> else k2)
      in case next_status c of
           Acked \<Rightarrow> k3\<lparr>met_acked := met_acked k3 + 1\<rparr>
         | AcceptedUnconfirmed \<Rightarrow> k3\<lparr>met_accepted_unconfirmed := met_accepted_unconfirmed k3 + 1\<rparr>
         | ParkedDifficulty \<Rightarrow> k3\<lparr>met_parked_difficulty := met_parked_difficulty k3 + 1\<rparr>
         | ParkedXuniWindow \<Rightarrow> k3\<lparr>met_parked_xuni := met_parked_xuni k3 + 1\<rparr>
         | Quarantined \<Rightarrow> k3\<lparr>met_quarantined := met_quarantined k3 + 1\<rparr>
         | PermanentlyInvalid \<Rightarrow> k3\<lparr>met_permanently_invalid := met_permanently_invalid k3 + 1\<rparr>
         | _ \<Rightarrow> k3)"

definition retry_time ::
  "env \<Rightarrow> Config \<Rightarrow> FindRecord \<Rightarrow> Classification \<Rightarrow> int \<Rightarrow> TransportResult \<Rightarrow> string option \<Rightarrow>
   (mgr, string option) step" where
  "retry_time e c rec cls st res next =
     (if next_status cls = Pending \<and> next = None then
        bind_step (backoffTimeIso e c (attempt_count rec)
          (if st = 429 then Option.bind (retry_after res) parseRetryAfterSeconds else None))
          (\<lambda>t. ret (Some t))
      else ret next)"

text \<open>
  Everything after \<open>tryAdmit\<close> succeeds: the exchange with the server up to the outcome and its
  next attempt time, then recording it and settling breaker, pacing and metrics.
\<close>

definition submit_exchange ::
  "env \<Rightarrow> Config \<Rightarrow> FindRecord \<Rightarrow> (mgr, TransportResult \<times> Classification \<times> string option) step" where
  "submit_exchange e c rec =
     bind_step (transport e (ESubmit (payload rec))) (\<lambda>res.
     seq_step (trackServerDate e res)
     (let st = (if transport_ok res then http_status res else kTransportError);
          cls0 = classify st (body res) (kind (payload rec)) (retry_after res) in
     bind_step (gets last_difficulty) (\<lambda>known.
     seq_step (case server_difficulty_hint cls0 of None \<Rightarrow> ret () | Some d \<Rightarrow> take_hint e d)
     (bind_step (if needs_lookup_confirmation cls0 then confirm_lookup e c rec cls0
                 else ret (cls0, None)) (\<lambda>(cls, next0).
      seq_step (emit (ELog (submission_level (next_status cls)) ''SUBMIT''
        (submission_message rec cls known res)))
      (bind_step (retry_time e c rec cls st res next0) (\<lambda>next. ret (res, cls, next))))))))"

definition submit_round :: "env \<Rightarrow> Config \<Rightarrow> FindRecord \<Rightarrow> int \<Rightarrow> (mgr, StepResult) step" where
  "submit_round e c rec now_mono =
     bind_step (gets (\<lambda>s. breaker_state s = Closed)) (\<lambda>was_closed.
     bind_step (submit_exchange e c rec) (\<lambda>(res, cls, next).
     bind_step (wall e) (\<lambda>w.
     let http = (if transport_ok res then Some (http_status res) else None) in
     seq_step (call_journal e (\<lambda>f. recordAttempt f (id rec) cls http (body res) next (isoUtc w)))
     (seq_step (emit (EOutcome rec cls http))
     (seq_step (settle_breaker e was_closed cls res)
     (seq_step (modify (\<lambda>s. s\<lparr>next_submit_allowed_ms := now_mono + submitIntervalMs (mgr_scheduler s)\<rparr>))
     (seq_step (count_metric (outcome_metrics rec cls res)) (ret Submitted))))))))"

text \<open>\<open>tryAdmit\<close>, with its effect on the breaker.\<close>

definition admit :: "(mgr, bool) step" where
  "admit = bind_step (gets (\<lambda>s. fst (tryAdmit (mgr_breaker s)))) (\<lambda>ok.
           seq_step (on_breaker (\<lambda>b. snd (tryAdmit b))) (ret ok))"

definition submit_selected :: "env \<Rightarrow> Config \<Rightarrow> FindRecord \<Rightarrow> int \<Rightarrow> (mgr, StepResult) step" where
  "submit_selected e c rec now_mono =
     bind_step (gets last_difficulty) (\<lambda>known.
     if pre_park_below_difficulty c \<and>
        (case known of Some d \<Rightarrow> memory_cost (payload rec) < d | None \<Rightarrow> False)
     then pre_park e rec (the known)
     else
       bind_step admit (\<lambda>ok. if \<not> ok then ret BreakerBlocked else submit_round e c rec now_mono))"

definition submitStep :: "env \<Rightarrow> Config \<Rightarrow> (mgr, StepResult) step" where
  "submitStep e c =
     bind_step (mono e) (\<lambda>now_mono.
     bind_step (gets next_submit_allowed_ms) (\<lambda>allowed.
     if now_mono < allowed then ret Idle
     else
       bind_step (gets server_offset_ms) (\<lambda>offset.
       bind_step (wall e) (\<lambda>w.
       let window = xuniWindowAt (w + (case offset of None \<Rightarrow> 0 | Some o' \<Rightarrow> o')) in
       seq_step (unpark_on_open e c window)
       (bind_step (fetch_work e c window) (\<lambda>eligible.
        if eligible = [] then ret Idle
        else
          bind_step (gets (\<lambda>s. selectNext (mgr_scheduler s) eligible (trend s) window)) (\<lambda>choice.
          case choice of None \<Rightarrow> ret Idle | Some rec \<Rightarrow> submit_selected e c rec now_mono)))))))"


section \<open>Confirmation retries and the step\<close>

definition confirmation_message :: "FindRecord \<Rightarrow> Classification \<Rightarrow> TransportResult \<Rightarrow> string" where
  "confirmation_message rec c conf =
     ''id='' @ to_dec_int (id rec) @ '' | attempt='' @ to_dec_int (attempt_count rec + 1) @
     '' | mined_m='' @ to_dec (unat (memory_cost (payload rec))) @ '' | http='' @
     (if transport_ok conf then to_dec_int (http_status conf) else ''transport_error'') @
     '' | '' @ logStatus (next_status c) @ '' | '' @ reason c"

definition plain_class :: "FindStatus \<Rightarrow> string \<Rightarrow> Classification" where
  "plain_class st r = \<lparr>next_status = st, server_difficulty_hint = None,
                       needs_lookup_confirmation = False, reason = r\<rparr>"

text \<open>The verdict on one retried confirmation.\<close>

definition confirm_verdict ::
  "env \<Rightarrow> Config \<Rightarrow> FindRecord \<Rightarrow> TransportResult \<Rightarrow> (mgr, Classification \<times> string option) step" where
  "confirm_verdict e c rec conf =
     (let check = (if transport_ok conf \<and> http_status conf = 200
                   then confirmationMatches rec (body conf) else Malformed) in
      if transport_ok conf \<and> http_status conf = 200 \<and> check = Confirmed then
        seq_step (count_metric (\<lambda>k. k\<lparr>met_acked := met_acked k + 1,
          met_reconciled_via_get_block := met_reconciled_via_get_block k + 1\<rparr>))
        (ret (plain_class Acked ''confirmed via /get_block (retry, body matches key)'', None))
      else if transport_ok conf \<and> http_status conf = 200 then
        seq_step (log_mismatch rec check)
        (bind_step (backoffTimeIso e c (attempt_count rec) None) (\<lambda>t.
         seq_step (count_metric (\<lambda>k. k\<lparr>met_confirm_body_rejected := met_confirm_body_rejected k + 1\<rparr>))
         (ret (plain_class AcceptedUnconfirmed (confirmRejectReason check), Some t))))
      else if transport_ok conf \<and> http_status conf = 404 then
        bind_step (backoffTimeIso e c (attempt_count rec) None) (\<lambda>t.
        seq_step (count_metric (\<lambda>k. k\<lparr>met_unconfirmed_200_detected := met_unconfirmed_200_detected k + 1\<rparr>))
        (ret (plain_class Pending (''/get_block says ABSENT '' @ em_dash @
                '' server 200 was not durable, resubmitting''), Some t)))
      else
        bind_step (backoffTimeIso e c (attempt_count rec) None) (\<lambda>t.
        ret (plain_class AcceptedUnconfirmed
               ''/get_block unavailable, remaining unconfirmed (retry backoff)'', Some t)))"

text \<open>One pass of the loop; the result is \<open>conf.transport_ok\<close>.\<close>

definition confirm_one :: "env \<Rightarrow> Config \<Rightarrow> FindRecord \<Rightarrow> (mgr, bool) step" where
  "confirm_one e c rec =
     bind_step (transport e (EConfirm (key (payload rec)))) (\<lambda>conf.
     seq_step (trackServerDate e conf)
     (bind_step (confirm_verdict e c rec conf) (\<lambda>(cls, next).
      let http = (if transport_ok conf then Some (http_status conf) else None) in
      bind_step (wall e) (\<lambda>w.
      seq_step (call_journal e (\<lambda>f. recordAttempt f (id rec) cls http (body conf) next (isoUtc w)))
      (seq_step (emit (ELog (if next_status cls = Acked then Ok else Retry) ''CONFIRM''
         (confirmation_message rec cls conf)))
      (seq_step (emit (EOutcome rec cls http))
      (seq_step (count_metric (\<lambda>k. k\<lparr>met_confirmation_retries := met_confirmation_retries k + 1\<rparr>))
      (ret (transport_ok conf)))))))))"

fun confirm_batch :: "env \<Rightarrow> Config \<Rightarrow> FindRecord list \<Rightarrow> (mgr, unit) step" where
  "confirm_batch e c [] = ret ()"
| "confirm_batch e c (rec # recs) =
     bind_step (confirm_one e c rec) (\<lambda>ok. if \<not> ok then ret () else confirm_batch e c recs)"

definition confirmStep :: "env \<Rightarrow> Config \<Rightarrow> (mgr, StepResult) step" where
  "confirmStep e c =
     bind_step (gets breaker_state) (\<lambda>st.
     if st = Open then ret Idle
     else
       bind_step (wall e) (\<lambda>w.
       bind_step (call_journal e (\<lambda>f. fetchAwaitingConfirmation f (isoUtc w) (confirm_fetch_limit c))) (\<lambda>batch.
       if batch = [] then ret Idle
       else seq_step (confirm_batch e c batch) (ret ConfirmRetried))))"

definition runStep :: "env \<Rightarrow> Config \<Rightarrow> (mgr, StepResult) step" where
  "runStep e c =
     seq_step (updateMargin e c)
     (bind_step (gets breaker_state) (\<lambda>st.
      if st = Open then probeStep e
      else
        bind_step (submitStep e c) (\<lambda>submit_result.
        bind_step (confirmStep e c) (\<lambda>confirm_result.
        ret (if submit_result = Idle \<and> confirm_result \<noteq> Idle then confirm_result
             else submit_result)))))"

definition fatal_message :: "string \<Rightarrow> string" where
  "fatal_message what =
     ''FATAL | submission loop halted '' @ em_dash @ '' journal or step failure, finds are '' @
     ''still durable on disk but will NOT drain until restart | '' @ what"

definition handleFatal :: "string \<Rightarrow> mgr \<Rightarrow> mgr" where
  "handleFatal what s =
     (if fatal s then s
      else s\<lparr>fatal := True, running := False,
             metrics := (metrics s)\<lparr>met_thread_loop_exceptions := met_thread_loop_exceptions (metrics s) + 1\<rparr>,
             events := events s @ [ELog Error ''SUBMIT'' (fatal_message what), EFatal what]\<rparr>)"

definition runOnce :: "env \<Rightarrow> Config \<Rightarrow> mgr \<Rightarrow> StepResult \<times> mgr" where
  "runOnce e c s =
     (if fatal s then (Idle, s)
      else
        (case runStep e c s of
           (Inr r, s') \<Rightarrow> (r, s')
         | (Inl what, s') \<Rightarrow> (Idle, handleFatal (''submission step: '' @ what) s')))"

text \<open>The thread: \<open>start\<close>, then \<open>runOnce\<close> while \<open>running\<close>, for \<open>n\<close> rounds.\<close>

definition start :: "mgr \<Rightarrow> mgr" where
  "start s = s\<lparr>running := True\<rparr>"

fun threadLoop :: "env \<Rightarrow> Config \<Rightarrow> nat \<Rightarrow> mgr \<Rightarrow> mgr" where
  "threadLoop e c 0 s = s"
| "threadLoop e c (Suc n) s = (if running s then threadLoop e c n (snd (runOnce e c s)) else s)"

end
