(* ===== verification/Drain_Safety.thy ===== *)
theory Drain_Safety
  imports Submission_Manager
begin

text \<open>
  What a round of the drain loop of \<open>Submission_Manager\<close> may do to the finds in the journal. Two
  preorders on manager states carry the proofs: \<open>quiet\<close> (rows change only by unparking) for the
  parts of a step that record no outcome, and \<open>follows\<close> (every change of a row is backed by an
  answer in the event log) for whole rounds.
\<close>


section \<open>Steps that leave submitted finds alone\<close>

text \<open>
  Most of a step does not touch a find that is not parked: rows change only from a parked state
  to \<open>Pending\<close> or, when the window budget is spent, to \<open>Dead\<close>; the event log only grows.
\<close>

definition row_quiet :: "find_row \<Rightarrow> find_row \<Rightarrow> bool" where
  "row_quiet r r' =
     (r' = r \<or> same_find r r' \<and> col_status r \<in> {''ParkedDifficulty'', ''ParkedXuniWindow''} \<and>
        col_status r' \<in> {''Pending'', ''Dead''})"

definition db_quiet :: "db \<Rightarrow> db \<Rightarrow> bool" where
  "db_quiet d d' =
     (journal_inv d' \<and> length (finds d') = length (finds d) \<and>
      (\<forall>i < length (finds d). row_quiet (finds d ! i) (finds d' ! i)))"

definition quiet :: "mgr \<Rightarrow> mgr \<Rightarrow> bool" where
  "quiet s s' = (prefix (events s) (events s') \<and>
     (journal_inv (journal s) \<longrightarrow> db_quiet (journal s) (journal s')))"

lemma row_quiet_refl [simp]: "row_quiet r r"
  by (simp add: row_quiet_def)

lemma row_quiet_trans: "row_quiet a b \<Longrightarrow> row_quiet b c \<Longrightarrow> row_quiet a c"
  by (auto simp: row_quiet_def)

lemma db_quiet_refl: "journal_inv d \<Longrightarrow> db_quiet d d"
  by (simp add: db_quiet_def)

lemma db_quiet_trans: "db_quiet a b \<Longrightarrow> db_quiet b c \<Longrightarrow> db_quiet a c"
  unfolding db_quiet_def by (metis row_quiet_trans)

lemma quiet_reflp: "reflp quiet"
  by (rule reflpI) (simp add: quiet_def db_quiet_refl)

lemma quiet_trans: "quiet a b \<Longrightarrow> quiet b c \<Longrightarrow> quiet a c"
  unfolding quiet_def using db_quiet_trans db_quiet_def prefix_order.trans by metis

lemma quiet_transp: "transp quiet"
  by (rule transpI) (rule quiet_trans)

lemma quiet_same: "journal s' = journal s \<Longrightarrow> prefix (events s) (events s') \<Longrightarrow> quiet s s'"
  by (simp add: quiet_def db_quiet_refl)

lemma keeps_let [keep_intros]: "keeps R (f a) \<Longrightarrow> keeps R (let x = a in f x)"
  by simp

lemma keeps_case_prod [keep_intros]: "(\<And>a b. keeps R (f a b)) \<Longrightarrow> keeps R (case p of (a, b) \<Rightarrow> f a b)"
  by (cases p) simp

lemma keeps_state [keep_intros]:
  "(st = Closed \<Longrightarrow> keeps R a) \<Longrightarrow> (st = Open \<Longrightarrow> keeps R b) \<Longrightarrow> (st = HalfOpen \<Longrightarrow> keeps R c) \<Longrightarrow>
   keeps R (case st of Closed \<Rightarrow> a | Open \<Rightarrow> b | HalfOpen \<Rightarrow> c)"
  by (cases st) simp_all

lemmas quiet_base = keeps_ret [OF quiet_reflp] keeps_throw [OF quiet_reflp] keeps_gets [OF quiet_reflp]
  keeps_bind [OF quiet_transp] keeps_seq [OF quiet_transp] keeps_when [OF quiet_reflp] keeps_if
  keeps_option keeps_let keeps_case_prod keeps_state

lemma quiet_read_next: "keeps quiet (read_next f)"
  by (simp add: keeps_def read_next_def quiet_same)

lemma quiet_modify: "(\<And>s. journal (f s) = journal s \<and> prefix (events s) (events (f s))) \<Longrightarrow> keeps quiet (modify f)"
  by (simp add: keeps_def modify_def quiet_same)

lemma quiet_emit: "keeps quiet (emit ev)"
  by (simp add: emit_def quiet_modify)

lemma quiet_metric: "keeps quiet (count_metric f)"
  by (simp add: count_metric_def quiet_modify)

lemma quiet_on_breaker: "keeps quiet (on_breaker f)"
  by (simp add: on_breaker_def quiet_modify)

lemma quiet_on_scheduler: "keeps quiet (on_scheduler f)"
  by (simp add: on_scheduler_def quiet_modify)

lemma quiet_call:
  assumes "\<And>f d. journal_inv d \<Longrightarrow> db_quiet d (snd (oper f d))"
  shows "keeps quiet (call_journal e oper)"
  using assms by (auto simp: keeps_def call_journal_def quiet_def split: prod.split) (metis snd_conv)

lemma db_quiet_sqlite:
  "journal_inv d \<Longrightarrow> db_quiet d (snd (m d)) \<Longrightarrow> db_quiet d (snd (sqlite f m d))"
  by (cases f) (simp_all add: db_quiet_refl)

lemma db_quiet_update:
  assumes "journal_inv d" and "\<And>r. row_ok r \<Longrightarrow> p r \<Longrightarrow> row_ok (f r) \<and> row_quiet r (f r)"
  shows "db_quiet d (snd (update_where p f d))"
proof -
  have "row_quiet r r' \<Longrightarrow> same_find r r'" for r r' by (auto simp: row_quiet_def)
  then have "journal_inv (snd (update_where p f d))"
    using update_where_keeps [OF assms(1), of p f] assms(2) by blast
  moreover have "row_ok (finds d ! i)" if "i < length (finds d)" for i
    using journal_invD(1) [OF assms(1)] that by simp
  ultimately show ?thesis using assms(2) by (auto simp: db_quiet_def update_where_def)
qed

lemma db_quiet_unpark: "journal_inv d \<Longrightarrow> db_quiet d (snd (unparkForDifficulty f m d))"
  unfolding unparkForDifficulty_def
  by (rule db_quiet_sqlite, assumption, subst snd_update_case, erule db_quiet_update)
    (auto simp: row_ok_def row_quiet_def same_find_def statuses_def)

lemma db_quiet_unpark_xuni: "journal_inv d \<Longrightarrow> db_quiet d (snd (unparkXuniForWindow f n d))"
proof (cases f)
  case None
  assume inv: "journal_inv d"
  have d': "snd (unparkXuniForWindow f n d) = d\<lparr>finds := map (window_row n) (finds d)\<rparr>"
    unfolding None unparkXuni_rows by simp
  moreover have "journal_inv (snd (unparkXuniForWindow f n d))"
    using journal_keepsD [OF unparkXuniForWindow_keeps inv] by blast
  ultimately show ?thesis
    by (auto simp: db_quiet_def row_quiet_def window_row_def same_find_def)
qed (simp add: unparkXuniForWindow_def db_quiet_refl)

lemma snd_sqlite_read: "(\<And>d. snd (m d) = d) \<Longrightarrow> snd (sqlite f m d) = d"
  by (cases f) simp_all

lemma reads_only:
  "snd (counts f d) = d" "snd (fetchEligibleOfKind f k now n d) = d"
  "snd (fetchAwaitingConfirmation f now n d) = d"
  by (simp_all add: counts_def fetchEligibleOfKind_def fetchAwaitingConfirmation_def
    fetchByStatusLocked_def snd_sqlite_read)

lemma db_quiet_difficulty: "journal_inv d \<Longrightarrow> db_quiet d (snd (recordDifficulty f m t d))"
  by (cases f) (simp_all add: recordDifficulty_def db_quiet_def journal_inv_def)

lemma quiet_calls:
  "keeps quiet (call_journal e (\<lambda>f. unparkForDifficulty f m))"
  "keeps quiet (call_journal e (\<lambda>f. unparkXuniForWindow f n))"
  "keeps quiet (call_journal e counts)"
  "keeps quiet (call_journal e (\<lambda>f. fetchEligibleOfKind f k now q))"
  "keeps quiet (call_journal e (\<lambda>f. fetchAwaitingConfirmation f now q))"
  "keeps quiet (call_journal e (\<lambda>f. recordDifficulty f m t))"
  by (rule quiet_call, simp add: db_quiet_unpark db_quiet_unpark_xuni reads_only db_quiet_refl
    db_quiet_difficulty)+

lemmas quiet_intros = quiet_base quiet_read_next quiet_emit quiet_metric quiet_on_breaker
  quiet_on_scheduler quiet_calls

lemma quiet_pieces:
  "keeps quiet (mono e)" "keeps quiet (wall e)" "keeps quiet (transport e q)"
  "keeps quiet (on_breaker_timed e g)" "keeps quiet emitNetworkState"
  unfolding mono_def wall_def transport_def on_breaker_timed_def emitNetworkState_def
  by (intro quiet_intros)+

lemma quiet_observe: "keeps quiet (observeDifficulty e d)"
  unfolding observeDifficulty_def by (intro quiet_intros quiet_modify) auto

lemma quiet_margin: "keeps quiet (updateMargin e c)"
  unfolding updateMargin_def apply_margin_def
  by (intro quiet_intros quiet_pieces quiet_modify) (auto simp: outage_clock_def)

lemma quiet_track: "keeps quiet (trackServerDate e r)"
  unfolding trackServerDate_def by (intro quiet_intros quiet_pieces quiet_modify) auto

lemma quiet_hint: "keeps quiet (take_hint e d)"
  unfolding take_hint_def by (intro quiet_intros quiet_pieces quiet_observe)

lemma quiet_backoff: "keeps quiet (backoffTimeIso e c n ra)"
  unfolding backoffTimeIso_def by (intro quiet_intros quiet_pieces)

lemma quiet_lookup_verdict: "keeps quiet (lookup_verdict e c rec cls conf)"
  unfolding lookup_verdict_def log_mismatch_def by (intro quiet_intros quiet_pieces quiet_track quiet_backoff)

lemma quiet_confirm_lookup: "keeps quiet (confirm_lookup e c rec cls)"
  unfolding confirm_lookup_def by (intro quiet_intros quiet_pieces quiet_track quiet_lookup_verdict)

lemma quiet_confirm_verdict: "keeps quiet (confirm_verdict e c rec conf)"
  unfolding confirm_verdict_def log_mismatch_def by (intro quiet_intros quiet_pieces quiet_track quiet_backoff)

lemma quiet_transition: "keeps quiet (logBreakerTransition e a b t)"
  unfolding logBreakerTransition_def by (intro quiet_intros quiet_pieces)

lemma quiet_probe: "keeps quiet (probeStep e)"
  unfolding probeStep_def handleDifficultyBody_def
  by (intro quiet_intros quiet_pieces quiet_track quiet_hint quiet_transition)

lemma quiet_settle: "keeps quiet (settle_breaker e b cls res)"
  unfolding settle_breaker_def by (intro quiet_intros quiet_pieces quiet_transition)

lemma quiet_retry_time: "keeps quiet (retry_time e c rec cls st res n)"
  unfolding retry_time_def by (intro quiet_intros quiet_backoff)

lemma quiet_unpark_on_open: "keeps quiet (unpark_on_open e c w)"
  unfolding unpark_on_open_def by (intro quiet_intros quiet_modify) auto

lemma quiet_fetch_work: "keeps quiet (fetch_work e c w)"
  unfolding fetch_work_def by (intro quiet_intros quiet_pieces)

lemma quiet_admit: "keeps quiet admit"
  unfolding admit_def by (intro quiet_intros)


section \<open>What a step may do to a find\<close>

text \<open>
  The evidence a state change rests on: an answer to a confirmation request for the row's own
  key, seen in the events of the step.
\<close>

definition row_key :: "find_row \<Rightarrow> string" where
  "row_key r = columnText (Some (col_key r))"

definition confirms_row :: "find_row \<Rightarrow> TransportResult \<Rightarrow> bool" where
  "confirms_row r resp =
     (transport_ok resp \<and> http_status resp = 200 \<and>
      extractJsonField (body resp) ''key'' = Some (row_key r) \<and>
      (case extractJsonField (body resp) ''hash_to_verify'' of
         None \<Rightarrow> True | Some h \<Rightarrow> h = columnText (Some (col_hash_to_verify r))))"

definition absent_row :: "TransportResult \<Rightarrow> bool" where
  "absent_row resp = (transport_ok resp \<and> http_status resp = 404)"

definition frozen :: "find_row \<Rightarrow> bool" where
  "frozen r = (col_status r \<in> {''Acked'', ''Dead'', ''PermanentlyInvalid'', ''Quarantined''})"

definition row_follows :: "mgr_event list \<Rightarrow> find_row \<Rightarrow> find_row \<Rightarrow> bool" where
  "row_follows evs r r' =
     (same_find r r' \<and>
      (frozen r \<longrightarrow> r' = r) \<and>
      (col_status r' = ''Acked'' \<and> col_status r \<noteq> ''Acked'' \<longrightarrow>
         (\<exists>resp. EConfirm (row_key r) resp \<in> set evs \<and> confirms_row r resp)) \<and>
      (col_status r = ''AcceptedUnconfirmed'' \<and> col_status r' \<noteq> ''AcceptedUnconfirmed'' \<longrightarrow>
         (\<exists>resp. EConfirm (row_key r) resp \<in> set evs \<and> (confirms_row r resp \<or> absent_row resp))))"

definition follows :: "mgr \<Rightarrow> mgr \<Rightarrow> bool" where
  "follows s s' =
     (journal_inv (journal s) \<longrightarrow>
       journal_inv (journal s') \<and> length (finds (journal s')) = length (finds (journal s)) \<and>
       (\<exists>evs. events s' = events s @ evs \<and>
          (\<forall>i < length (finds (journal s)).
             row_follows evs (finds (journal s) ! i) (finds (journal s') ! i))))"

lemma row_follows_refl: "row_follows [] r r"
  by (simp add: row_follows_def)

lemma same_find_evidence:
  assumes "same_find r r'"
  shows "row_key r' = row_key r" "confirms_row r' resp = confirms_row r resp"
proof -
  have "col_key r' = col_key r" "col_hash_to_verify r' = col_hash_to_verify r"
    using assms by (simp_all add: same_find_def)
  then show "row_key r' = row_key r" "confirms_row r' resp = confirms_row r resp"
    unfolding row_key_def confirms_row_def by (simp_all only:)
qed

lemma row_follows_trans:
  assumes ab: "row_follows es a b" and bc: "row_follows fs b c"
  shows "row_follows (es @ fs) a c"
proof -
  note k = same_find_evidence [of a b]
  have "same_find a c" using ab bc same_find_trans by (auto simp: row_follows_def)
  moreover have "frozen a \<longrightarrow> c = a" using ab bc by (auto simp: row_follows_def)
  moreover have "col_status c = ''Acked'' \<and> col_status a \<noteq> ''Acked'' \<longrightarrow>
      (\<exists>resp. EConfirm (row_key a) resp \<in> set (es @ fs) \<and> confirms_row a resp)"
    using ab bc k unfolding row_follows_def by (metis UnCI set_append)
  moreover have "col_status a = ''AcceptedUnconfirmed'' \<and> col_status c \<noteq> ''AcceptedUnconfirmed'' \<longrightarrow>
      (\<exists>resp. EConfirm (row_key a) resp \<in> set (es @ fs) \<and> (confirms_row a resp \<or> absent_row resp))"
    using ab bc k unfolding row_follows_def by (metis UnCI set_append)
  ultimately show ?thesis by (simp add: row_follows_def)
qed

lemma follows_refl: "follows s s"
  by (simp add: follows_def row_follows_refl)

lemma follows_trans: "follows a b \<Longrightarrow> follows b c \<Longrightarrow> follows a c"
proof -
  assume ab: "follows a b" and bc: "follows b c"
  show "follows a c"
    unfolding follows_def
  proof
    assume inv: "journal_inv (journal a)"
    then obtain es where b: "journal_inv (journal b)" "length (finds (journal b)) = length (finds (journal a))"
      "events b = events a @ es" "\<forall>i < length (finds (journal a)).
        row_follows es (finds (journal a) ! i) (finds (journal b) ! i)"
      using ab unfolding follows_def by blast
    then obtain fs where c: "journal_inv (journal c)" "length (finds (journal c)) = length (finds (journal b))"
      "events c = events b @ fs" "\<forall>i < length (finds (journal b)).
        row_follows fs (finds (journal b) ! i) (finds (journal c) ! i)"
      using bc unfolding follows_def by blast
    have "events c = events a @ (es @ fs)" using b(3) c(3) by simp
    moreover have "\<forall>i < length (finds (journal a)).
        row_follows (es @ fs) (finds (journal a) ! i) (finds (journal c) ! i)"
      using b(2,4) c(4) row_follows_trans by metis
    ultimately show "journal_inv (journal c) \<and> length (finds (journal c)) = length (finds (journal a)) \<and>
        (\<exists>evs. events c = events a @ evs \<and> (\<forall>i < length (finds (journal a)).
          row_follows evs (finds (journal a) ! i) (finds (journal c) ! i)))"
      using b(2) c(1,2) by auto
  qed
qed

lemma row_quiet_follows: "row_quiet r r' \<Longrightarrow> row_follows evs r r'"
  by (auto simp: row_quiet_def row_follows_def frozen_def)

lemma quiet_follows: "quiet s s' \<Longrightarrow> follows s s'"
  using row_quiet_follows by (auto simp: quiet_def follows_def db_quiet_def prefix_def)

lemma follows_transp: "transp follows"
  by (rule transpI) (rule follows_trans)

lemma follows_reflp: "reflp follows"
  by (rule reflpI) (rule follows_refl)

lemma keeps_quiet_follows: "keeps quiet m \<Longrightarrow> keeps follows m"
  by (simp add: keeps_def quiet_follows)

text \<open>Running a quiet step inside a weakest-precondition proof.\<close>

lemma wp_quiet:
  assumes "keeps quiet m" and "\<And>a s'. quiet s s' \<Longrightarrow> Q a s'" and "\<And>x s'. quiet s s' \<Longrightarrow> E x s'"
  shows "wp m Q E s"
  using keepsD [OF assms(1), of s] assms(2,3) by (auto simp: wp_def split: prod.splits sum.splits)

lemma wp_follows:
  assumes "keeps follows m" and "\<And>a s'. follows s s' \<Longrightarrow> Q a s'" and "\<And>x s'. follows s s' \<Longrightarrow> E x s'"
  shows "wp m Q E s"
  using keepsD [OF assms(1), of s] assms(2,3) by (auto simp: wp_def split: prod.splits sum.splits)


section \<open>A fetched record and its row\<close>

definition held :: "string \<Rightarrow> FindRecord \<Rightarrow> mgr \<Rightarrow> bool" where
  "held st rec s =
     (journal_inv (journal s) \<and> (\<exists>r \<in> set (finds (journal s)). record_of r = rec \<and> col_status r = st))"

lemma held_quiet:
  assumes "held st rec s" and "quiet s s'" and "st \<noteq> ''ParkedDifficulty''" and "st \<noteq> ''ParkedXuniWindow''"
  shows "held st rec s'"
proof -
  obtain i where i: "i < length (finds (journal s))" "record_of (finds (journal s) ! i) = rec"
    "col_status (finds (journal s) ! i) = st"
    using assms(1) by (auto simp: held_def in_set_conv_nth)
  have q: "db_quiet (journal s) (journal s')" using assms(1,2) by (simp add: held_def quiet_def)
  then have "finds (journal s') ! i = finds (journal s) ! i"
    using i assms(3,4) by (auto simp: db_quiet_def row_quiet_def)
  moreover have "finds (journal s') ! i \<in> set (finds (journal s'))" "journal_inv (journal s')"
    using q i(1) by (simp_all add: db_quiet_def)
  ultimately show ?thesis using i unfolding held_def by metis
qed

lemma fetched_held:
  assumes "journal_inv d" and "fetchByStatusLocked f st now q k d = (Inr recs, d')"
  shows "\<forall>rec \<in> set recs. \<exists>r \<in> set (finds d). record_of r = rec \<and> col_status r = st"
    and "distinct (map id recs)"
proof -
  have f: "f = None" using assms(2) by (cases f) (simp_all add: fetchByStatusLocked_def)
  let ?rows = "take q (filter (select_due st k now) (finds d))"
  have recs: "recs = map record_of ?rows" using assms(2) fetch_rows [OF assms(1), of st now q k] f by auto
  have sub: "r \<in> set (finds d) \<and> col_status r = st" if "r \<in> set ?rows" for r
  proof -
    have "r \<in> set (filter (select_due st k now) (finds d))" using that by (rule in_set_takeD)
    then show ?thesis by (simp add: select_due_def)
  qed
  show "\<forall>rec \<in> set recs. \<exists>r \<in> set (finds d). record_of r = rec \<and> col_status r = st"
  proof
    fix rec
    assume "rec \<in> set recs"
    then obtain r where "r \<in> set ?rows" "rec = record_of r" unfolding recs set_map by blast
    then show "\<exists>r \<in> set (finds d). record_of r = rec \<and> col_status r = st" using sub by blast
  qed
  have "distinct (map col_id ?rows)"
  proof -
    have "distinct (map col_id (finds d))" using journal_invD(2) [OF assms(1)] strict_sorted_iff by blast
    then have "distinct (map col_id (filter (select_due st k now) (finds d)))" by (rule distinct_map_filter)
    then show ?thesis unfolding take_map [symmetric] by (rule distinct_take)
  qed
  moreover have "map id recs = map col_id ?rows"
    unfolding recs map_map comp_def
    by (intro map_cong refl) (use sub journal_invD(1) [OF assms(1)] record_of_simps(1) in blast)
  ultimately show "distinct (map id recs)" by simp
qed

text \<open>Recording an attempt changes exactly the row of the record.\<close>

lemma record_row:
  assumes "journal_inv d" and "i < length (finds d)" and "col_id (finds d ! i) = n"
  shows "recordAttempt f n cls http txt next now d = (Inl err, d') \<Longrightarrow> d' = d"
    and "recordAttempt f n cls http txt next now d = (Inr (), d') \<Longrightarrow>
      finds d' = (finds d)[i := attempt_row cls http txt next now (finds d ! i)] \<and> next_status cls \<noteq> Submitting"
proof -
  let ?f = "attempt_row cls http txt next now"
  have dist: "distinct (map col_id (finds d))" using journal_invD(2) [OF assms(1)] strict_sorted_iff by blast
  have others: "col_id (finds d ! j) \<noteq> n" if "j < length (finds d)" "j \<noteq> i" for j
    using dist assms(2,3) that by (metis distinct_conv_nth length_map nth_map)
  have upd: "map (\<lambda>r. if col_id r = n then ?f r else r) (finds d) = (finds d)[i := ?f (finds d ! i)]"
    using others assms(2,3) by (intro nth_equalityI) (auto simp: nth_list_update)
  have ne: "filter (\<lambda>r. col_id r = n) (finds d) \<noteq> []"
    using assms(2,3) nth_mem [of i "finds d"] unfolding filter_empty_conv by metis
  show "recordAttempt f n cls http txt next now d = (Inl err, d') \<Longrightarrow> d' = d"
    using ne by (cases f) (auto simp: recordAttempt_def throw_def update_where_def split: if_splits)
  show "recordAttempt f n cls http txt next now d = (Inr (), d') \<Longrightarrow>
      finds d' = (finds d)[i := ?f (finds d ! i)] \<and> next_status cls \<noteq> Submitting"
    using ne by (cases f) (auto simp: recordAttempt_def throw_def update_where_def upd split: if_splits)
qed


section \<open>Evidence for an outcome\<close>

definition confirmed_in :: "mgr_event list \<Rightarrow> FindRecord \<Rightarrow> bool" where
  "confirmed_in evs rec =
     (\<exists>resp. EConfirm (key (payload rec)) resp \<in> set evs \<and> transport_ok resp \<and>
        http_status resp = 200 \<and> confirmationMatches rec (body resp) = Confirmed)"

definition absent_in :: "mgr_event list \<Rightarrow> FindRecord \<Rightarrow> bool" where
  "absent_in evs rec = (\<exists>resp. EConfirm (key (payload rec)) resp \<in> set evs \<and> absent_row resp)"

lemma evidence_mono:
  "confirmed_in es rec \<Longrightarrow> set es \<subseteq> set fs \<Longrightarrow> confirmed_in fs rec"
  "absent_in es rec \<Longrightarrow> set es \<subseteq> set fs \<Longrightarrow> absent_in fs rec"
  by (auto simp: confirmed_in_def absent_in_def)

lemma record_payload:
  "row_ok r \<Longrightarrow> key (payload (record_of r)) = row_key r"
  "row_ok r \<Longrightarrow> hash_to_verify (payload (record_of r)) = columnText (Some (col_hash_to_verify r))"
  by (auto elim!: row_okE simp: record_of_def rowToRecord_def row_key_def)

lemma confirmed_row:
  assumes "row_ok r" and "confirmed_in evs (record_of r)"
  shows "\<exists>resp. EConfirm (row_key r) resp \<in> set evs \<and> confirms_row r resp"
proof -
  obtain resp where "EConfirm (row_key r) resp \<in> set evs" "transport_ok resp" "http_status resp = 200"
    "confirmationMatches (record_of r) (body resp) = Confirmed"
    using assms by (auto simp: confirmed_in_def record_payload)
  moreover from this have "confirms_row r resp"
    by (auto simp: confirms_row_def confirmationMatches_def record_payload [OF assms(1)]
      split: option.splits if_splits)
  ultimately show ?thesis by blast
qed

lemma absent_evidence:
  "row_ok r \<Longrightarrow> absent_in evs (record_of r) \<Longrightarrow> \<exists>resp. EConfirm (row_key r) resp \<in> set evs \<and> absent_row resp"
  by (simp add: absent_in_def record_payload)

text \<open>
  An outcome is justified for a record in state \<open>st\<close> when the events since \<open>s0\<close> hold the evidence
  it needs.
\<close>

definition justified :: "mgr \<Rightarrow> mgr \<Rightarrow> FindRecord \<Rightarrow> string \<Rightarrow> FindStatus \<Rightarrow> bool" where
  "justified s0 s rec st out =
     (\<exists>evs. events s = events s0 @ evs \<and>
        (out = Acked \<longrightarrow> confirmed_in evs rec) \<and>
        (st = ''AcceptedUnconfirmed'' \<and> out \<noteq> AcceptedUnconfirmed \<longrightarrow>
           confirmed_in evs rec \<or> absent_in evs rec))"

lemma justified_quiet: "justified s0 s rec st out \<Longrightarrow> quiet s s' \<Longrightarrow> justified s0 s' rec st out"
proof -
  assume j: "justified s0 s rec st out" and q: "quiet s s'"
  obtain evs where e: "events s = events s0 @ evs" "out = Acked \<longrightarrow> confirmed_in evs rec"
    "st = ''AcceptedUnconfirmed'' \<and> out \<noteq> AcceptedUnconfirmed \<longrightarrow> confirmed_in evs rec \<or> absent_in evs rec"
    using j by (auto simp: justified_def)
  obtain fs where "events s' = events s @ fs" using q by (auto simp: quiet_def prefix_def)
  then have "events s' = events s0 @ (evs @ fs)" using e(1) by simp
  moreover have "set evs \<subseteq> set (evs @ fs)" by simp
  ultimately show ?thesis unfolding justified_def using e(2,3) evidence_mono by blast
qed

lemma justified_before: "quiet s t \<Longrightarrow> justified t t' rec st out \<Longrightarrow> justified s t' rec st out"
proof -
  assume q: "quiet s t" and j: "justified t t' rec st out"
  obtain es where es: "events t = events s @ es" using q by (auto simp: quiet_def prefix_def)
  obtain fs where fs: "events t' = events t @ fs" "out = Acked \<longrightarrow> confirmed_in fs rec"
    "st = ''AcceptedUnconfirmed'' \<and> out \<noteq> AcceptedUnconfirmed \<longrightarrow> confirmed_in fs rec \<or> absent_in fs rec"
    using j by (auto simp: justified_def)
  have "events t' = events s @ (es @ fs)" using es fs(1) by simp
  moreover have "set fs \<subseteq> set (es @ fs)" by simp
  ultimately show ?thesis unfolding justified_def using fs(2,3) evidence_mono by blast
qed

lemma attempt_row_follows:
  assumes "row_ok r" and "\<not> frozen r" and "out = next_status cls"
    and "out = Acked \<Longrightarrow> confirmed_in evs (record_of r)"
    and "col_status r = ''AcceptedUnconfirmed'' \<Longrightarrow> out \<noteq> AcceptedUnconfirmed \<Longrightarrow>
      confirmed_in evs (record_of r) \<or> absent_in evs (record_of r)"
    and "out \<noteq> Submitting"
  shows "row_follows evs r (attempt_row cls http txt next now r)"
proof -
  let ?r = "attempt_row cls http txt next now r"
  have st: "col_status ?r = status_to_string out" by (simp add: attempt_row_def assms(3))
  have "same_find r ?r" using attempt_row_keeps [OF _ assms(1)] assms(3,6) by blast
  moreover have "out = Acked" if "col_status ?r = ''Acked''"
    using that st by (cases out) simp_all
  moreover have "out \<noteq> AcceptedUnconfirmed" if "col_status ?r \<noteq> ''AcceptedUnconfirmed''"
    using that st by (cases out) simp_all
  ultimately show ?thesis
    unfolding row_follows_def
    using assms(2,4,5) confirmed_row [OF assms(1)] absent_evidence [OF assms(1)] by blast
qed

text \<open>Recording a justified outcome for a held record.\<close>

lemma record_spec:
  assumes q: "quiet s0 s" and h: "held st rec s0" and st: "st = ''Pending'' \<or> st = ''AcceptedUnconfirmed''"
    and j: "justified s0 s rec st (next_status cls)"
  shows "wp (call_journal e (\<lambda>f. recordAttempt f (id rec) cls http txt next now))
    (\<lambda>_ s'. follows s0 s' \<and> (\<forall>rec' st'. id rec' \<noteq> id rec \<longrightarrow> held st' rec' s \<longrightarrow> held st' rec' s'))
    (\<lambda>_ s'. follows s0 s') s"
proof -
  have hs: "held st rec s" using held_quiet [OF h q] st by auto
  then have inv: "journal_inv (journal s)" by (simp add: held_def)
  obtain i where i: "i < length (finds (journal s))" "record_of (finds (journal s) ! i) = rec"
    "col_status (finds (journal s) ! i) = st"
    using hs by (auto simp: held_def in_set_conv_nth)
  let ?r = "finds (journal s) ! i"
  have ok: "row_ok ?r" using journal_invD(1) [OF inv] i(1) by simp
  then have cid: "col_id ?r = id rec" using i(2) record_of_simps(1) by metis
  have nf: "\<not> frozen ?r" using st i(3) by (auto simp: frozen_def)
  obtain evs where e: "events s = events s0 @ evs" "next_status cls = Acked \<longrightarrow> confirmed_in evs rec"
    "st = ''AcceptedUnconfirmed'' \<and> next_status cls \<noteq> AcceptedUnconfirmed \<longrightarrow>
       confirmed_in evs rec \<or> absent_in evs rec"
    using j by (auto simp: justified_def)
  have q0: "db_quiet (journal s0) (journal s)" using q h by (simp add: quiet_def held_def)
  obtain res d' where run: "recordAttempt (fault_at e (reads s)) (id rec) cls http txt next now (journal s) = (res, d')"
    by fastforce
  let ?s' = "s\<lparr>journal := d', reads := reads s + 1\<rparr>"
  have inv': "journal_inv d'" using journal_keepsD [OF recordAttempt_keeps inv] run by (metis snd_conv)
  show ?thesis
  proof (cases res)
    case (Inl err)
    then have "d' = journal s" using record_row(1) [OF inv i(1) cid] run by blast
    then have "quiet s0 ?s'" using q by (simp add: quiet_def)
    then show ?thesis using run Inl by (simp add: wp_def call_journal_def quiet_follows)
  next
    case (Inr u)
    have upd: "finds d' = (finds (journal s))[i := attempt_row cls http txt next now ?r]"
      "next_status cls \<noteq> Submitting"
      using record_row(2) [OF inv i(1) cid] run Inr by auto
    have "row_follows evs ?r (attempt_row cls http txt next now ?r)"
      by (rule attempt_row_follows [OF ok nf refl]) (use e(2,3) i(2,3) upd(2) in auto)
    then have "row_follows evs (finds (journal s) ! k) (finds d' ! k)" if "k < length (finds (journal s))" for k
      using that by (cases "k = i") (auto simp: upd(1) row_follows_def)
    then have "follows s0 ?s'"
      using q0 e(1) inv' upd(1) row_quiet_follows row_follows_trans [of "[]"]
      unfolding follows_def db_quiet_def by fastforce
    moreover have "held st' rec' ?s'" if ne: "id rec' \<noteq> id rec" and hh: "held st' rec' s" for rec' st'
    proof -
      obtain k where k: "k < length (finds (journal s))" "record_of (finds (journal s) ! k) = rec'"
        "col_status (finds (journal s) ! k) = st'"
        using hh by (auto simp: held_def in_set_conv_nth)
      have "k \<noteq> i" using k(2) i(2) ne by auto
      then have "finds d' ! k = finds (journal s) ! k" by (simp add: upd(1))
      moreover have "finds d' ! k \<in> set (finds d')" using k(1) upd(1) by simp
      ultimately have "\<exists>r \<in> set (finds d'). record_of r = rec' \<and> col_status r = st'" using k(2,3) by metis
      then show ?thesis using inv' by (simp add: held_def)
    qed
    ultimately show ?thesis using run Inr by (simp add: wp_def call_journal_def)
  qed
qed


lemma wp_let [wp_simps]: "wp (let x = a in f x) Q E s = wp (f a) Q E s"
  by simp

lemma wp_prod [wp_simps]: "wp (case p of (a, b) \<Rightarrow> f a b) Q E s = wp (f (fst p) (snd p)) Q E s"
  by (simp add: case_prod_beta)

lemma wp_read_next [wp_simps]: "wp (read_next f) Q E s = Q (f (reads s)) (s\<lparr>reads := reads s + 1\<rparr>)"
  by (simp add: wp_def read_next_def)

lemma wp_emit [wp_simps]: "wp (emit ev) Q E s = Q () (s\<lparr>events := events s @ [ev]\<rparr>)"
  by (simp add: emit_def wp_simps)

lemma wp_transport [wp_simps]:
  "wp (transport e q) Q E s =
     Q (response_at e (reads s)) (s\<lparr>reads := reads s + 1, events := events s @ [q (response_at e (reads s))]\<rparr>)"
  by (simp add: transport_def wp_simps)

lemma quiet_self: "quiet s s"
  using quiet_reflp by (simp add: reflp_def)

lemma quiet_event: "quiet s (s\<lparr>reads := n, events := events s @ [ev]\<rparr>)"
  by (simp add: quiet_same)

text \<open>The verdict of a confirmation lookup is the one its answer calls for.\<close>

definition answer_fits :: "FindRecord \<Rightarrow> TransportResult \<Rightarrow> FindStatus \<Rightarrow> bool" where
  "answer_fits rec conf out =
     (if transport_ok conf \<and> http_status conf = 200 \<and> confirmationMatches rec (body conf) = Confirmed
      then out = Acked
      else if absent_row conf then out = Pending
      else out = AcceptedUnconfirmed)"

lemma confirm_verdict_fits:
  "yields (\<lambda>p. answer_fits rec conf (next_status (fst p))) (confirm_verdict e c rec conf)"
  unfolding confirm_verdict_def
  by (intro yield_intros) (auto simp: answer_fits_def plain_class_def absent_row_def)

lemma lookup_verdict_fits:
  "next_status cls = AcceptedUnconfirmed \<Longrightarrow>
   yields (\<lambda>p. answer_fits rec conf (next_status (fst p))) (lookup_verdict e c rec cls conf)"
  unfolding lookup_verdict_def
  by (intro yield_intros) (auto simp: answer_fits_def absent_row_def)

lemma answer_justifies:
  assumes "answer_fits rec resp out" and "EConfirm (key (payload rec)) resp \<in> set evs"
    and "events s' = events s @ evs"
  shows "justified s s' rec st out"
  using assms by (auto simp: justified_def confirmed_in_def absent_in_def answer_fits_def split: if_splits)

lemma confirm_lookup_spec:
  assumes "next_status cls = AcceptedUnconfirmed"
  shows "wp (confirm_lookup e c rec cls)
    (\<lambda>p s'. quiet s s' \<and> justified s s' rec st (next_status (fst p))) (\<lambda>_ s'. quiet s s') s"
proof -
  let ?r = "response_at e (reads s)"
  let ?t = "s\<lparr>reads := reads s + 1, events := events s @ [EConfirm (key (payload rec)) ?r]\<rparr>"
  let ?m = "seq_step (trackServerDate e ?r) (lookup_verdict e c rec cls ?r)"
  have "keeps quiet ?m" by (intro quiet_intros quiet_track quiet_lookup_verdict)
  moreover have "yields (\<lambda>p. answer_fits rec ?r (next_status (fst p))) ?m"
    by (intro yield_intros lookup_verdict_fits assms)
  ultimately have "wp ?m (\<lambda>p s'. quiet ?t s' \<and> answer_fits rec ?r (next_status (fst p))) (\<lambda>_ s'. quiet ?t s') ?t"
    by (rule wp_keeps_yields)
  moreover have "justified s s' rec st out" if "quiet ?t s'" "answer_fits rec ?r out" for s' out
    using answer_justifies [OF that(2), of "[EConfirm (key (payload rec)) ?r]" ?t s st] that(1) justified_quiet
    by simp
  moreover have "quiet s s'" if "quiet ?t s'" for s'
    using quiet_trans [OF quiet_event that] .
  ultimately have "wp ?m (\<lambda>p s'. quiet s s' \<and> justified s s' rec st (next_status (fst p)))
      (\<lambda>_ s'. quiet s s') ?t"
    by (elim wp_conseq) auto
  then show ?thesis unfolding confirm_lookup_def by (simp add: wp_bind wp_transport)
qed

text \<open>
  After \<open>quiet\<close> steps the record is still held and the way on can be judged from the start of the
  round; a step of the round that is itself quiet keeps the round quiet.
\<close>

lemma wp_quiet_trans:
  assumes "keeps quiet m" and "quiet s0 s"
    and "\<And>a s'. quiet s0 s' \<Longrightarrow> Q a s'" and "\<And>x s'. quiet s0 s' \<Longrightarrow> E x s'"
  shows "wp m Q E s"
  using assms by (intro wp_quiet [OF assms(1)]) (blast intro: quiet_trans)+

lemma classify_status:
  "next_status (classify st txt k ra) \<notin> {Acked, Submitting, Dead}"
  "needs_lookup_confirmation (classify st txt k ra) \<Longrightarrow>
   next_status (classify st txt k ra) = AcceptedUnconfirmed"
  by (auto simp: classify_defs Let_def split: option.splits if_splits)


lemma submit_exchange_spec:
  "wp (submit_exchange e c rec)
     (\<lambda>p s'. quiet s s' \<and> justified s s' rec ''Pending'' (next_status (fst (snd p)))) (\<lambda>_ s'. quiet s s') s"
  unfolding submit_exchange_def Let_def wp_bind wp_seq
proof (rule wp_quiet [OF quiet_pieces(3)]; (rule wp_quiet_trans [OF quiet_track], assumption)?)
  fix res :: TransportResult and s1
  assume q: "quiet s s1"
  let ?st = "if transport_ok res then http_status res else kTransportError"
  let ?cls = "classify ?st (body res) (kind (payload rec)) (retry_after res)"
  let ?hint = "case server_difficulty_hint ?cls of None \<Rightarrow> ret () | Some d \<Rightarrow> take_hint e d"
  let ?conf = "if needs_lookup_confirmation ?cls then confirm_lookup e c rec ?cls else ret (?cls, None)"
  have hint: "keeps quiet ?hint" by (intro quiet_intros quiet_hint)
  have conf: "wp ?conf (\<lambda>p s'. quiet t s' \<and> justified t s' rec ''Pending'' (next_status (fst p))) (\<lambda>_ s'. quiet t s') t" for t
  proof (cases "needs_lookup_confirmation ?cls")
    case True
    then show ?thesis by (simp only: if_True) (rule confirm_lookup_spec [OF classify_status(2) [OF True]])
  next
    case False
    have "next_status ?cls \<noteq> Acked" using classify_status(1) by blast
    then show ?thesis by (simp only: False if_False wp_ret) (simp add: quiet_self justified_def)
  qed
  show "wp (gets last_difficulty) (\<lambda>known. wp ?hint (\<lambda>_. wp ?conf (\<lambda>x. wp (case x of (cls, next0) \<Rightarrow>
      seq_step (emit (ELog (submission_level (next_status cls)) ''SUBMIT'' (submission_message rec cls known res)))
        (bind_step (retry_time e c rec cls ?st res next0) (\<lambda>next. ret (res, cls, next))))
      (\<lambda>p s'. quiet s s' \<and> justified s s' rec ''Pending'' (next_status (fst (snd p)))) (\<lambda>_. quiet s))
      (\<lambda>_. quiet s)) (\<lambda>_. quiet s)) (\<lambda>_. quiet s) s1"
    unfolding wp_gets
  proof (rule wp_quiet_trans [OF hint q])
    fix t
    assume t: "quiet s t"
    show "wp ?conf (\<lambda>x. wp (case x of (cls, next0) \<Rightarrow>
      seq_step (emit (ELog (submission_level (next_status cls)) ''SUBMIT'' (submission_message rec cls (last_difficulty s1) res)))
        (bind_step (retry_time e c rec cls ?st res next0) (\<lambda>next. ret (res, cls, next))))
      (\<lambda>p s'. quiet s s' \<and> justified s s' rec ''Pending'' (next_status (fst (snd p)))) (\<lambda>_. quiet s))
      (\<lambda>_. quiet s) t"
    proof (rule wp_conseq [OF conf])
      fix p :: "Classification \<times> string option" and t'
      assume p: "quiet t t' \<and> justified t t' rec ''Pending'' (next_status (fst p))"
      let ?tail = "\<lambda>cls next0. seq_step (emit (ELog (submission_level (next_status cls)) ''SUBMIT''
          (submission_message rec cls (last_difficulty s1) res)))
        (bind_step (retry_time e c rec cls ?st res next0) (\<lambda>next. ret (res, cls, next)))"
      have "keeps quiet (?tail cls n)" for cls n by (intro quiet_intros quiet_retry_time)
      moreover have "yields (\<lambda>r. fst (snd r) = cls) (?tail cls n)" for cls n by (intro yield_intros) simp
      ultimately have "wp (?tail (fst p) (snd p)) (\<lambda>r s'. quiet t' s' \<and> fst (snd r) = fst p) (\<lambda>_ s'. quiet t' s') t'"
        by (rule wp_keeps_yields)
      moreover have "quiet s t'" using quiet_trans t p by blast
      moreover have "justified s t' rec ''Pending'' (next_status (fst p))" using justified_before t p by blast
      ultimately show "wp (case p of (cls, next0) \<Rightarrow> ?tail cls next0)
          (\<lambda>p s'. quiet s s' \<and> justified s s' rec ''Pending'' (next_status (fst (snd p)))) (\<lambda>_. quiet s) t'"
        unfolding case_prod_beta by (elim wp_conseq) (auto intro: quiet_trans justified_quiet)
    qed (use t quiet_trans in blast)
  qed
qed

lemma submit_round_follows:
  assumes "held ''Pending'' rec s"
  shows "wp (submit_round e c rec now) (\<lambda>_. follows s) (\<lambda>_. follows s) s"
proof -
  let ?tail = "\<lambda>was cls res http. seq_step (emit (EOutcome rec cls http))
     (seq_step (settle_breaker e was cls res)
     (seq_step (modify (\<lambda>s. s\<lparr>next_submit_allowed_ms := now + submitIntervalMs (mgr_scheduler s)\<rparr>))
     (seq_step (count_metric (outcome_metrics rec cls res)) (ret Submitted))))"
  have tail: "keeps quiet (?tail was cls res http)" for was cls res http
    by (intro quiet_intros quiet_settle quiet_modify) simp
  have rec: "wp (bind_step (wall e) (\<lambda>w. seq_step
        (call_journal e (\<lambda>f. recordAttempt f (id rec) cls http (body res) nx (isoUtc w)))
        (?tail was cls res http))) (\<lambda>_. follows s) (\<lambda>_. follows s) t"
    if "quiet s t \<and> justified s t rec ''Pending'' (next_status cls)" for t cls http res nx was
    unfolding wp_bind
  proof (rule wp_quiet [OF quiet_pieces(2)])
    fix w t'
    assume tt: "quiet t t'"
    then have "quiet s t'" "justified s t' rec ''Pending'' (next_status cls)"
      using that quiet_trans justified_quiet by blast+
    from record_spec [OF this(1) assms _ this(2)]
    have "wp (call_journal e (\<lambda>f. recordAttempt f (id rec) cls http (body res) nx (isoUtc w)))
        (\<lambda>_. follows s) (\<lambda>_. follows s) t'"
      by (rule wp_conseq) auto
    then show "wp (seq_step (call_journal e (\<lambda>f. recordAttempt f (id rec) cls http (body res) nx (isoUtc w)))
        (?tail was cls res http)) (\<lambda>_. follows s) (\<lambda>_. follows s) t'"
      by (subst wp_seq, elim wp_conseq)
        (auto intro!: wp_quiet [OF tail] intro: follows_trans quiet_follows)
  qed (use that quiet_trans quiet_follows in blast)
  show ?thesis
    unfolding submit_round_def wp_bind [of "gets _"] wp_gets wp_bind [of "submit_exchange e c rec"]
  proof (rule wp_conseq [OF submit_exchange_spec])
    fix p :: "TransportResult \<times> Classification \<times> string option" and t
    assume "quiet s t \<and> justified s t rec ''Pending'' (next_status (fst (snd p)))"
    from rec [OF this] show "wp (case p of (res, cls, next) \<Rightarrow> bind_step (wall e) (\<lambda>w.
        let http = (if transport_ok res then Some (http_status res) else None) in
        seq_step (call_journal e (\<lambda>f. recordAttempt f (id rec) cls http (body res) next (isoUtc w)))
          (?tail (breaker_state s = Closed) cls res http))) (\<lambda>_. follows s) (\<lambda>_. follows s) t"
      unfolding case_prod_beta Let_def by blast
  qed (rule quiet_follows)
qed


text \<open>Confirming one record of a batch leaves the other records of the batch as they were.\<close>

definition others_held :: "FindRecord \<Rightarrow> mgr \<Rightarrow> mgr \<Rightarrow> bool" where
  "others_held rec s s' =
     (\<forall>rec'. id rec' \<noteq> id rec \<longrightarrow> held ''AcceptedUnconfirmed'' rec' s \<longrightarrow> held ''AcceptedUnconfirmed'' rec' s')"

lemma others_held_quiet:
  "quiet s t \<Longrightarrow> others_held rec t u \<Longrightarrow> others_held rec s u"
  "others_held rec s t \<Longrightarrow> quiet t u \<Longrightarrow> others_held rec s u"
  unfolding others_held_def using held_quiet by fastforce+

lemma confirm_one_spec:
  assumes "held ''AcceptedUnconfirmed'' rec s"
  shows "wp (confirm_one e c rec) (\<lambda>_ s'. follows s s' \<and> others_held rec s s') (\<lambda>_. follows s) s"
proof -
  let ?r = "response_at e (reads s)"
  let ?t = "s\<lparr>reads := reads s + 1, events := events s @ [EConfirm (key (payload rec)) ?r]\<rparr>"
  let ?http = "if transport_ok ?r then Some (http_status ?r) else None"
  let ?tail = "\<lambda>cls. seq_step (emit (ELog (if next_status cls = Acked then Ok else Retry) ''CONFIRM''
         (confirmation_message rec cls ?r)))
      (seq_step (emit (EOutcome rec cls ?http))
      (seq_step (count_metric (\<lambda>k. k\<lparr>met_confirmation_retries := met_confirmation_retries k + 1\<rparr>))
      (ret (transport_ok ?r))))"
  let ?rec = "\<lambda>cls nx w. call_journal e (\<lambda>f. recordAttempt f (id rec) cls ?http (body ?r) nx (isoUtc w))"
  have tail: "keeps quiet (?tail cls)" for cls by (intro quiet_intros)
  have rest: "wp (bind_step (wall e) (\<lambda>w. seq_step (?rec cls nx w) (?tail cls)))
      (\<lambda>_ s'. follows s s' \<and> others_held rec s s') (\<lambda>_. follows s) t"
    if t: "quiet s t" and j: "justified s t rec ''AcceptedUnconfirmed'' (next_status cls)" for t cls nx
    unfolding wp_bind
  proof (rule wp_quiet [OF quiet_pieces(2)])
    fix w t'
    assume tt: "quiet t t'"
    have q: "quiet s t'" using t tt quiet_trans by blast
    have jj: "justified s t' rec ''AcceptedUnconfirmed'' (next_status cls)" using j tt justified_quiet by blast
    from record_spec [OF q assms _ jj]
    have "wp (?rec cls nx w) (\<lambda>_ s'. follows s s' \<and> others_held rec t' s') (\<lambda>_. follows s) t'"
      by (rule wp_conseq) (auto simp: others_held_def)
    then have r: "wp (?rec cls nx w) (\<lambda>_ s'. follows s s' \<and> others_held rec s s') (\<lambda>_. follows s) t'"
      by (rule wp_conseq) (auto intro: others_held_quiet(1) [OF q])
    show "wp (seq_step (?rec cls nx w) (?tail cls))
        (\<lambda>_ s'. follows s s' \<and> others_held rec s s') (\<lambda>_. follows s) t'"
    proof (subst wp_seq, rule wp_conseq [OF r])
      fix u v
      assume "follows s v \<and> others_held rec s v"
      then show "wp (?tail cls) (\<lambda>_ s'. follows s s' \<and> others_held rec s s') (\<lambda>_. follows s) v"
        by (intro wp_quiet [OF tail]) (blast intro: follows_trans quiet_follows others_held_quiet(2))+
    qed
  qed (use t quiet_trans quiet_follows in blast)
  let ?m = "seq_step (trackServerDate e ?r) (confirm_verdict e c rec ?r)"
  have "keeps quiet ?m" by (intro quiet_intros quiet_track quiet_confirm_verdict)
  moreover have "yields (\<lambda>p. answer_fits rec ?r (next_status (fst p))) ?m"
    by (intro yield_intros confirm_verdict_fits)
  ultimately have m: "wp ?m (\<lambda>p s'. quiet ?t s' \<and> answer_fits rec ?r (next_status (fst p))) (\<lambda>_ s'. quiet ?t s') ?t"
    by (rule wp_keeps_yields)
  have "wp ?m (\<lambda>p :: Classification \<times> string option. wp (bind_step (wall e) (\<lambda>w. seq_step (?rec (fst p) (snd p) w) (?tail (fst p))))
      (\<lambda>_ s'. follows s s' \<and> others_held rec s s') (\<lambda>_. follows s)) (\<lambda>_. follows s) ?t"
  proof (rule wp_conseq [OF m])
    fix p :: "Classification \<times> string option" and t
    assume p: "quiet ?t t \<and> answer_fits rec ?r (next_status (fst p))"
    have "justified s ?t rec ''AcceptedUnconfirmed'' (next_status (fst p))"
      by (rule answer_justifies [of _ ?r _ "[EConfirm (key (payload rec)) ?r]"]) (use p in auto)
    then have "justified s t rec ''AcceptedUnconfirmed'' (next_status (fst p))" using justified_quiet p by blast
    moreover have "quiet s t" using quiet_trans [OF quiet_event] p by blast
    ultimately show "wp (bind_step (wall e) (\<lambda>w. seq_step (?rec (fst p) (snd p) w) (?tail (fst p))))
      (\<lambda>_ s'. follows s s' \<and> others_held rec s s') (\<lambda>_. follows s) t"
      by (intro rest)
  qed (use quiet_trans [OF quiet_event] quiet_follows in blast)
  then show ?thesis
    unfolding confirm_one_def wp_bind [of "transport _ _"] wp_transport wp_seq [of "trackServerDate _ _"]
      wp_bind [of "confirm_verdict _ _ _ _"] case_prod_beta Let_def .
qed

lemma confirm_batch_follows:
  assumes "\<forall>rec \<in> set recs. held ''AcceptedUnconfirmed'' rec s" and "distinct (map id recs)"
  shows "wp (confirm_batch e c recs) (\<lambda>_. follows s) (\<lambda>_. follows s) s"
  using assms
proof (induction recs arbitrary: s)
  case Nil
  then show ?case by (simp add: wp_ret follows_refl)
next
  case (Cons rec recs)
  have h: "held ''AcceptedUnconfirmed'' rec s" using Cons.prems by simp
  show ?case
    unfolding confirm_batch.simps wp_bind
  proof (rule wp_conseq [OF confirm_one_spec [OF h]])
    fix ok t
    assume t: "follows s t \<and> others_held rec s t"
    have "held ''AcceptedUnconfirmed'' r t" if "r \<in> set recs" for r
    proof -
      have "id r \<noteq> id rec" using Cons.prems(2) that by (metis distinct.simps(2) image_eqI list.simps(9) list.set_map)
      then show ?thesis using t that Cons.prems(1) unfolding others_held_def by simp
    qed
    then have "wp (confirm_batch e c recs) (\<lambda>_. follows t) (\<lambda>_. follows t) t" using Cons by simp
    then have "wp (confirm_batch e c recs) (\<lambda>_. follows s) (\<lambda>_. follows s) t"
      using t by (elim wp_conseq) (blast intro: follows_trans)+
    then show "wp (if \<not> ok then ret () else confirm_batch e c recs) (\<lambda>_. follows s) (\<lambda>_. follows s) t"
      using t by (simp add: wp_ret)
  qed
qed

end
