(* ===== verification/Drain_Loop.thy ===== *)
theory Drain_Loop
  imports Drain_Safety
begin

text \<open>
  The rounds of the drain loop as a whole: every round, and every run of the thread, follows the
  evidence in the event log (\<open>follows\<close>), respects the circuit breaker and the pacing gate, and
  turns any exception into the latched fatal state.
\<close>


section \<open>Fetching, parking and submitting\<close>

lemma fetch_call:
  assumes "journal_inv (journal s)"
  shows "wp (call_journal e (\<lambda>f. fetchByStatusLocked f st now n k))
    (\<lambda>recs s'. quiet s s' \<and> (\<forall>rec \<in> set recs. held st rec s') \<and> distinct (map id recs))
    (\<lambda>_ s'. quiet s s') s"
proof -
  obtain r d where run: "fetchByStatusLocked (fault_at e (reads s)) st now n k (journal s) = (r, d)" by fastforce
  have d: "d = journal s" using run snd_sqlite_read unfolding fetchByStatusLocked_def
    by (metis (no_types, lifting) snd_conv)
  let ?s = "s\<lparr>journal := d, reads := reads s + 1\<rparr>"
  have q: "quiet s ?s" by (rule quiet_same) (simp_all add: d)
  show ?thesis
  proof (cases r)
    case (Inl err)
    then show ?thesis using run q by (simp add: wp_def call_journal_def)
  next
    case (Inr recs)
    note f = fetched_held [OF assms run [unfolded Inr]]
    have "\<forall>rec \<in> set recs. held st rec ?s" using f(1) assms unfolding held_def d by simp
    then show ?thesis using run q f(2) Inr by (simp add: wp_def call_journal_def)
  qed
qed

lemma held_keep: "held st rec s \<Longrightarrow> quiet s s' \<Longrightarrow> st = ''Pending'' \<or> st = ''AcceptedUnconfirmed'' \<Longrightarrow> held st rec s'"
  using held_quiet by fastforce

lemma quiet_inv: "quiet s s' \<Longrightarrow> journal_inv (journal s) \<Longrightarrow> journal_inv (journal s')"
  by (simp add: quiet_def db_quiet_def)

lemma fetch_kind_call:
  assumes "quiet s0 s" and "journal_inv (journal s0)"
  shows "wp (call_journal e (\<lambda>f. fetchEligibleOfKind f k now n))
    (\<lambda>recs s'. quiet s0 s' \<and> quiet s s' \<and> (\<forall>rec \<in> set recs. held ''Pending'' rec s')) (\<lambda>_ s'. quiet s0 s') s"
  unfolding fetchEligibleOfKind_def
  by (rule wp_conseq [OF fetch_call]) (use assms quiet_inv quiet_trans in blast)+

lemma fetch_work_spec:
  assumes inv: "journal_inv (journal s)"
  shows "wp (fetch_work e c w) (\<lambda>recs s'. quiet s s' \<and> (\<forall>rec \<in> set recs. held ''Pending'' rec s'))
    (\<lambda>_ s'. quiet s s') s"
  unfolding fetch_work_def Let_def wp_bind
proof (rule wp_quiet [OF quiet_pieces(2)])
  fix t s1
  assume q1: "quiet s s1"
  let ?fin = "\<lambda>xs ys. bind_step (mono e) (\<lambda>now. seq_step (on_breaker (setXuniPressure now (ys \<noteq> []))) (ret (xs @ ys)))"
  have fin: "wp (?fin xs ys) (\<lambda>recs s'. quiet s s' \<and> (\<forall>rec \<in> set recs. held ''Pending'' rec s')) (\<lambda>_ s'. quiet s s') u"
    if "quiet s u" "\<forall>rec \<in> set (xs @ ys). held ''Pending'' rec u" for xs ys :: "FindRecord list" and u
  proof -
    have "keeps quiet (?fin xs ys)" by (intro quiet_intros quiet_pieces)
    moreover have "yields (\<lambda>r. r = xs @ ys) (?fin xs ys)" by (intro yield_intros) simp
    ultimately have "wp (?fin xs ys) (\<lambda>r s'. quiet u s' \<and> r = xs @ ys) (\<lambda>_ s'. quiet u s') u"
      by (rule wp_keeps_yields)
    then show ?thesis using that by (elim wp_conseq) (auto intro: quiet_trans held_keep)
  qed
  let ?xuni = "if window_open w then call_journal e (\<lambda>f. fetchEligibleOfKind f XUNI (isoUtc t) (fetch_limit c)) else ret []"
  have xuni: "wp ?xuni (\<lambda>ys s'. quiet s s' \<and> quiet u s' \<and> (\<forall>rec \<in> set ys. held ''Pending'' rec s')) (\<lambda>_ s'. quiet s s') u"
    if "quiet s u" for u
    using that fetch_kind_call [OF that inv, of e] by (simp add: wp_ret quiet_self)
  show "wp (call_journal e (\<lambda>f. fetchEligibleOfKind f XEN11 (isoUtc t) (fetch_limit c))) (\<lambda>xs. wp ?xuni
      (\<lambda>ys. wp (mono e) (\<lambda>now. wp (seq_step (on_breaker (setXuniPressure now (ys \<noteq> []))) (ret (xs @ ys)))
         (\<lambda>recs s'. quiet s s' \<and> (\<forall>rec \<in> set recs. held ''Pending'' rec s')) (\<lambda>_. quiet s)) (\<lambda>_. quiet s))
      (\<lambda>_. quiet s)) (\<lambda>_. quiet s) s1"
  proof (rule wp_conseq [OF fetch_kind_call [OF q1 inv]])
    fix xs :: "FindRecord list" and u
    assume u: "quiet s u \<and> quiet s1 u \<and> (\<forall>rec \<in> set xs. held ''Pending'' rec u)"
    then have "quiet s u" by blast
    then show "wp ?xuni (\<lambda>ys. wp (mono e) (\<lambda>now. wp (seq_step (on_breaker (setXuniPressure now (ys \<noteq> []))) (ret (xs @ ys)))
         (\<lambda>recs s'. quiet s s' \<and> (\<forall>rec \<in> set recs. held ''Pending'' rec s')) (\<lambda>_. quiet s)) (\<lambda>_. quiet s))
      (\<lambda>_. quiet s) u"
    proof (rule wp_conseq [OF xuni])
      fix ys :: "FindRecord list" and v
      assume v: "quiet s v \<and> quiet u v \<and> (\<forall>rec \<in> set ys. held ''Pending'' rec v)"
      then have "\<forall>rec \<in> set (xs @ ys). held ''Pending'' rec v" using u held_keep by auto
      then show "wp (mono e) (\<lambda>now. wp (seq_step (on_breaker (setXuniPressure now (ys \<noteq> []))) (ret (xs @ ys)))
         (\<lambda>recs s'. quiet s s' \<and> (\<forall>rec \<in> set recs. held ''Pending'' rec s')) (\<lambda>_. quiet s)) (\<lambda>_. quiet s) v"
        using fin [of v xs ys] v unfolding wp_bind by blast
    qed
  qed
qed

lemma follows_then_quiet:
  assumes "keeps quiet n" and "wp m (\<lambda>_. follows s) (\<lambda>_. follows s) t"
  shows "wp (seq_step m n) (\<lambda>_. follows s) (\<lambda>_. follows s) t"
  unfolding wp_seq
  by (rule wp_conseq [OF assms(2)]) (auto intro!: wp_quiet [OF assms(1)] intro: follows_trans quiet_follows)

lemma pre_park_follows:
  assumes "held ''Pending'' rec s"
  shows "wp (pre_park e rec d) (\<lambda>_. follows s) (\<lambda>_. follows s) s"
  unfolding pre_park_def Let_def wp_bind
proof (rule wp_quiet [OF quiet_pieces(2)])
  fix w t
  let ?c = "\<lparr>next_status = ParkedDifficulty, server_difficulty_hint = None,
               needs_lookup_confirmation = False, reason = pre_park_reason rec d\<rparr>"
  assume q: "quiet s t"
  then have j: "justified s t rec ''Pending'' (next_status ?c)"
    by (auto simp: justified_def quiet_def prefix_def)
  let ?tail = "seq_step (emit (EOutcome rec ?c None)) (seq_step (emit (ELog Park ''SUBMIT''
         (logKind (kind (payload rec)) @ '' #'' @ to_dec_int (id rec) @ '' | '' @ reason ?c)))
      (seq_step (count_metric (\<lambda>k. k\<lparr>met_parked_difficulty := met_parked_difficulty k + 1\<rparr>))
      (ret Submitted)))"
  have tail: "keeps quiet ?tail" by (intro quiet_intros)
  show "wp (seq_step (call_journal e (\<lambda>f. recordAttempt f (id rec) ?c None [] None (isoUtc w))) ?tail)
      (\<lambda>_. follows s) (\<lambda>_. follows s) t"
    by (rule follows_then_quiet [OF tail wp_conseq [OF record_spec [OF q assms _ j]]]) auto
qed (rule quiet_follows)

lemma submit_selected_follows:
  assumes "held ''Pending'' rec s"
  shows "wp (submit_selected e c rec now) (\<lambda>_. follows s) (\<lambda>_. follows s) s"
proof -
  have round: "wp (submit_round e c rec now) (\<lambda>_. follows s) (\<lambda>_. follows s) t" if "quiet s t" for t
    by (rule wp_conseq [OF submit_round_follows])
      (use that assms held_keep quiet_follows follows_trans in blast)+
  have "wp (if \<not> ok then ret BreakerBlocked else submit_round e c rec now) (\<lambda>_. follows s) (\<lambda>_. follows s) t"
    if "quiet s t" for ok t
    using round [OF that] quiet_follows [OF that] by (simp add: wp_ret)
  then have "wp (bind_step admit (\<lambda>ok. if \<not> ok then ret BreakerBlocked else submit_round e c rec now))
      (\<lambda>_. follows s) (\<lambda>_. follows s) s"
    unfolding wp_bind by (intro wp_quiet [OF quiet_admit] quiet_follows)
  then show ?thesis
    unfolding submit_selected_def wp_bind [of "gets _"] wp_gets wp_if
    using pre_park_follows [OF assms] by simp
qed

lemma wp_by_inv:
  assumes "journal_inv (journal s) \<Longrightarrow> wp m (\<lambda>_. follows s) (\<lambda>_. follows s) s"
  shows "wp m (\<lambda>_. follows s) (\<lambda>_. follows s) s"
  using assms by (cases "journal_inv (journal s)") (auto simp: wp_def follows_def split: prod.splits sum.splits)

lemma submitStep_follows: "keeps follows (submitStep e c)"
  unfolding keeps_def
proof
  fix s
  let ?F = "\<lambda>_ :: StepResult. follows s" and ?E = "\<lambda>_ :: string. follows s"
  have "wp (submitStep e c) ?F ?E s"
  proof (rule wp_by_inv)
    assume inv: "journal_inv (journal s)"
    let ?pick = "\<lambda>win now el. if el = [] then ret Idle
        else bind_step (gets (\<lambda>s. selectNext (mgr_scheduler s) el (trend s) win)) (\<lambda>choice.
          case choice of None \<Rightarrow> ret Idle | Some rec \<Rightarrow> submit_selected e c rec now)"
    have pick: "wp (?pick win now el) ?F ?E t" if q: "quiet s t" and h: "\<forall>rec \<in> set el. held ''Pending'' rec t" for win now el t
    proof -
      have sel: "wp (submit_selected e c rec now) ?F ?E t" if "rec \<in> set el" for rec
        by (rule wp_conseq [OF submit_selected_follows]) (use h that q quiet_follows follows_trans in blast)+
      show ?thesis
        using quiet_follows [OF q] selectNext_mem sel by (auto simp: wp_simps split: option.splits)
    qed
    have work: "wp (seq_step (unpark_on_open e c win) (bind_step (fetch_work e c win) (?pick win now))) ?F ?E t"
      if "quiet s t" for win now t
      unfolding wp_seq
    proof (rule wp_quiet_trans [OF quiet_unpark_on_open that])
      fix u
      assume u: "quiet s u"
      show "wp (bind_step (fetch_work e c win) (?pick win now)) ?F ?E u"
        unfolding wp_bind
        by (rule wp_conseq [OF fetch_work_spec])
          (use u inv quiet_inv quiet_trans quiet_follows pick in blast)+
    qed (rule quiet_follows)
    show "wp (submitStep e c) ?F ?E s"
      unfolding submitStep_def wp_bind [of "mono _"]
    proof (rule wp_quiet [OF quiet_pieces(1)])
      fix now t
      assume t: "quiet s t"
      have "wp (wall e) (\<lambda>w. wp (let win = xuniWindowAt (w + (case server_offset_ms t of None \<Rightarrow> 0 | Some o' \<Rightarrow> o')) in
         seq_step (unpark_on_open e c win) (bind_step (fetch_work e c win) (?pick win now))) ?F ?E) ?E t"
        unfolding Let_def by (rule wp_quiet_trans [OF quiet_pieces(2) t]) (rule work quiet_follows; assumption)+
      then show "wp (bind_step (gets next_submit_allowed_ms) (\<lambda>allowed. if now < allowed then ret Idle
          else bind_step (gets server_offset_ms) (\<lambda>offset. bind_step (wall e) (\<lambda>w.
            let win = xuniWindowAt (w + (case offset of None \<Rightarrow> 0 | Some o' \<Rightarrow> o')) in
            seq_step (unpark_on_open e c win) (bind_step (fetch_work e c win) (?pick win now)))))) ?F ?E t"
        using quiet_follows [OF t] unfolding wp_bind wp_gets by (simp add: wp_ret wp_bind wp_gets)
    qed (rule quiet_follows)
  qed
  then show "follows s (snd (submitStep e c s))" by (simp only: wp_final)
qed

lemma confirmStep_follows: "keeps follows (confirmStep e c)"
  unfolding keeps_def
proof
  fix s
  let ?F = "\<lambda>_ :: StepResult. follows s" and ?E = "\<lambda>_ :: string. follows s"
  have "wp (confirmStep e c) ?F ?E s"
  proof (rule wp_by_inv)
    assume inv: "journal_inv (journal s)"
    have batch: "wp (confirm_batch e c recs) (\<lambda>_. follows s) ?E t"
      if "quiet s t" "\<forall>rec \<in> set recs. held ''AcceptedUnconfirmed'' rec t" "distinct (map id recs)" for recs t
      by (rule wp_conseq [OF confirm_batch_follows]) (use that quiet_follows follows_trans in blast)+
    have fetch: "wp (bind_step (call_journal e (\<lambda>f. fetchAwaitingConfirmation f (isoUtc w) (confirm_fetch_limit c))) (\<lambda>batch.
       if batch = [] then ret Idle else seq_step (confirm_batch e c batch) (ret ConfirmRetried))) ?F ?E t"
      if t: "quiet s t" for w t
      unfolding wp_bind fetchAwaitingConfirmation_def
    proof (rule wp_conseq [OF fetch_call])
      fix recs :: "FindRecord list" and u
      assume u: "quiet t u \<and> (\<forall>rec \<in> set recs. held ''AcceptedUnconfirmed'' rec u) \<and> distinct (map id recs)"
      then have q: "quiet s u" using t quiet_trans by blast
      show "wp (if recs = [] then ret Idle else seq_step (confirm_batch e c recs) (ret ConfirmRetried)) ?F ?E u"
      proof (cases "recs = []")
        case False
        have "wp (seq_step (confirm_batch e c recs) (ret ConfirmRetried)) ?F ?E u"
          by (rule follows_then_quiet [OF keeps_ret [OF quiet_reflp] batch [OF q]]) (use u in auto)
        then show ?thesis using False by simp
      qed (simp add: wp_ret quiet_follows [OF q])
    qed (use t inv quiet_inv quiet_trans quiet_follows in blast)+
    show "wp (confirmStep e c) ?F ?E s"
      unfolding confirmStep_def wp_bind [of "gets _"] wp_gets wp_if wp_bind [of "wall _"]
      by (auto simp: wp_ret follows_refl intro!: wp_quiet [OF quiet_pieces(2)] fetch quiet_follows)
  qed
  then show "follows s (snd (confirmStep e c s))" by (simp only: wp_final)
qed

lemmas follows_base = keeps_ret [OF follows_reflp] keeps_gets [OF follows_reflp]
  keeps_bind [OF follows_transp] keeps_seq [OF follows_transp] keeps_if

lemma runStep_follows: "keeps follows (runStep e c)"
  unfolding runStep_def
  by (intro follows_base submitStep_follows confirmStep_follows keeps_quiet_follows
    [OF quiet_margin] keeps_quiet_follows [OF quiet_probe])

lemma handleFatal_quiet: "quiet s (handleFatal what s)"
  by (rule quiet_same) (simp_all add: handleFatal_def)

lemma handleFatal_follows: "follows s t \<Longrightarrow> follows s (handleFatal what t)"
  using handleFatal_quiet quiet_follows follows_trans by blast

lemma runOnce_follows: "follows s (snd (runOnce e c s))"
  using keepsD [OF runStep_follows, of s e c]
  by (auto simp: runOnce_def follows_refl handleFatal_follows split: prod.splits sum.splits)

lemma threadLoop_follows: "follows s (threadLoop e c n s)"
  by (induction n arbitrary: s) (auto simp: follows_refl intro: follows_trans runOnce_follows)


section \<open>Requests and the breaker\<close>

definition is_request :: "mgr_event \<Rightarrow> bool" where
  "is_request ev = (case ev of ESubmit _ _ \<Rightarrow> True | EConfirm _ _ \<Rightarrow> True | EDifficulty _ \<Rightarrow> True | _ \<Rightarrow> False)"

definition is_submit :: "mgr_event \<Rightarrow> bool" where
  "is_submit ev = (case ev of ESubmit _ _ \<Rightarrow> True | _ \<Rightarrow> False)"

text \<open>
  Steps that send nothing: they leave the pacing gate and the life-cycle flags alone and, with
  \<open>B\<close>, also the breaker and the scheduler.
\<close>

definition unsent :: "bool \<Rightarrow> mgr \<Rightarrow> mgr \<Rightarrow> bool" where
  "unsent B s s' =
     ((\<exists>evs. events s' = events s @ evs \<and> filter is_request evs = []) \<and>
      next_submit_allowed_ms s' = next_submit_allowed_ms s \<and> fatal s' = fatal s \<and> running s' = running s \<and>
      (B \<longrightarrow> mgr_breaker s' = mgr_breaker s \<and> mgr_scheduler s' = mgr_scheduler s))"

lemma unsent_reflp: "reflp (unsent B)"
  by (simp add: reflp_def unsent_def)

lemma unsent_trans: "unsent B s t \<Longrightarrow> unsent B t u \<Longrightarrow> unsent B s u"
  by (fastforce simp: unsent_def)

lemma unsent_transp: "transp (unsent B)"
  by (rule transpI) (rule unsent_trans)

lemma unsent_call: "keeps (unsent B) (call_journal e oper)"
  by (simp add: keeps_def call_journal_def unsent_def split: prod.splits)

lemma unsent_emit: "\<not> is_request ev \<Longrightarrow> keeps (unsent B) (emit ev)"
  by (simp add: keeps_def emit_def modify_def unsent_def)

lemma unsent_reads:
  "keeps (unsent B) (mono e)" "keeps (unsent B) (wall e)" "keeps (unsent B) (count_metric g)"
  by (simp_all add: keeps_def mono_def wall_def read_next_def count_metric_def modify_def unsent_def)

lemma unsent_parts:
  "keeps (unsent False) (on_breaker f)" "keeps (unsent False) (on_scheduler h)"
  "keeps (unsent False) (on_breaker_timed e k)"
proof -
  show b: "keeps (unsent False) (on_breaker f)" for f
    by (simp add: keeps_def on_breaker_def modify_def unsent_def)
  show "keeps (unsent False) (on_scheduler h)"
    by (simp add: keeps_def on_scheduler_def modify_def unsent_def)
  show "keeps (unsent False) (on_breaker_timed e k)"
    unfolding on_breaker_timed_def by (intro keeps_bind unsent_transp unsent_reads b)
qed

lemma unsent_modify:
  assumes "\<And>s. unsent B s (f s)"
  shows "keeps (unsent B) (modify f)"
  using assms by (rule keeps_modify)

lemmas unsent_intros = keeps_ret [OF unsent_reflp] keeps_throw [OF unsent_reflp] keeps_gets [OF unsent_reflp]
  keeps_bind [OF unsent_transp] keeps_seq [OF unsent_transp] keeps_when [OF unsent_reflp] keeps_if
  keeps_option keeps_let keeps_case_prod keeps_state unsent_call unsent_emit unsent_reads

lemmas request_cases = is_request_def is_submit_def

lemma unsent_track: "keeps (unsent B) (trackServerDate e r)"
  unfolding trackServerDate_def
  by (intro unsent_intros unsent_modify) (simp_all add: unsent_def)

lemma unsent_observe: "keeps (unsent B) (observeDifficulty e d)"
  unfolding observeDifficulty_def
  by (intro unsent_intros unsent_modify) (simp_all add: unsent_def request_cases)

lemma unsent_hint: "keeps (unsent B) (take_hint e d)"
  unfolding take_hint_def by (intro unsent_intros unsent_observe) (simp add: request_cases)

lemma unsent_body: "keeps (unsent B) (handleDifficultyBody e txt)"
  unfolding handleDifficultyBody_def by (intro unsent_intros unsent_hint)

lemma unsent_transition: "keeps (unsent B) (logBreakerTransition e a b t)"
  unfolding logBreakerTransition_def by (intro unsent_intros) (simp_all add: request_cases)

lemma unsent_network: "keeps (unsent B) emitNetworkState"
  unfolding emitNetworkState_def by (intro unsent_intros) (simp add: request_cases)

lemma unsent_margin: "keeps (unsent B) (updateMargin e c)"
  unfolding updateMargin_def apply_margin_def
  by (intro unsent_intros unsent_modify) (simp_all add: unsent_def outage_clock_def request_cases)

lemma unsent_backoff: "keeps (unsent B) (backoffTimeIso e c n ra)"
  unfolding backoffTimeIso_def by (intro unsent_intros)

lemma unsent_mismatch: "keeps (unsent B) (log_mismatch rec k)"
  unfolding log_mismatch_def by (intro unsent_intros) (simp add: request_cases)

lemma unsent_verdicts:
  "keeps (unsent B) (lookup_verdict e c rec cls conf)" "keeps (unsent B) (confirm_verdict e c rec conf)"
  "keeps (unsent B) (retry_time e c rec cls st res n)"
  unfolding lookup_verdict_def confirm_verdict_def retry_time_def
  by (intro unsent_intros unsent_backoff unsent_mismatch)+

lemma unsent_unpark: "keeps (unsent B) (unpark_on_open e c w)"
  unfolding unpark_on_open_def by (intro unsent_intros unsent_modify) (simp add: unsent_def)

lemma unsent_fetch: "keeps (unsent False) (fetch_work e c w)"
  unfolding fetch_work_def by (intro unsent_intros unsent_parts)

lemma unsent_settle: "keeps (unsent False) (settle_breaker e b cls res)"
  unfolding settle_breaker_def
  by (intro unsent_intros unsent_parts unsent_transition unsent_network)

lemma unsent_pre_park: "keeps (unsent B) (pre_park e rec d)"
  unfolding pre_park_def by (intro unsent_intros) (simp_all add: request_cases)

lemma unsent_admit: "keeps (unsent False) admit"
  unfolding admit_def by (intro unsent_intros unsent_parts)

text \<open>What a piece of a round has sent since \<open>s\<close>.\<close>

definition sent :: "mgr \<Rightarrow> mgr \<Rightarrow> mgr_event list \<Rightarrow> bool" where
  "sent s s' rs = (\<exists>evs. events s' = events s @ evs \<and> filter is_request evs = rs)"

lemma sent_unsent: "sent s t rs \<Longrightarrow> unsent B t u \<Longrightarrow> sent s u rs"
  by (fastforce simp: sent_def unsent_def)

lemma unsent_sent: "unsent B s t \<Longrightarrow> sent t u rs \<Longrightarrow> sent s u rs"
  by (fastforce simp: sent_def unsent_def)

lemma sent_trans: "sent s t rs \<Longrightarrow> sent t u qs \<Longrightarrow> sent s u (rs @ qs)"
  by (fastforce simp: sent_def)

lemma unsent_is_sent: "unsent B s t \<Longrightarrow> sent s t []"
  by (auto simp: sent_def unsent_def)

lemma sent_refl: "sent s s []"
  by (simp add: sent_def)

lemma sent_event: "is_request ev \<Longrightarrow> sent s (s\<lparr>reads := n, events := events s @ [ev]\<rparr>) [ev]"
  by (simp add: sent_def)

lemma wp_unsent:
  assumes "keeps (unsent B) m" and "\<And>a s'. unsent B s s' \<Longrightarrow> Q a s'" and "\<And>x s'. unsent B s s' \<Longrightarrow> E x s'"
  shows "wp m Q E s"
  using keepsD [OF assms(1), of s] assms(2,3) by (auto simp: wp_def split: prod.splits sum.splits)

lemma unsent_fatal: "sent s t rs \<Longrightarrow> sent s (handleFatal what t) rs"
  by (auto simp: sent_def handleFatal_def is_request_def)

lemma wp_ifI: "(b \<Longrightarrow> wp m Q E s) \<Longrightarrow> (\<not> b \<Longrightarrow> wp n Q E s) \<Longrightarrow> wp (if b then m else n) Q E s"
  by simp

text \<open>A request followed by steps that send nothing.\<close>

lemma wp_one_request:
  assumes "\<And>r. is_request (req r)" and "\<And>r. keeps (unsent B) (f r)"
    and "\<And>r t. sent s t [req r] \<Longrightarrow> P t"
  shows "wp (bind_step (transport e req) f) (\<lambda>_. P) (\<lambda>_. P) s"
  unfolding wp_bind wp_transport
  by (rule wp_unsent [OF assms(2)]) (rule assms(3), erule sent_unsent [OF sent_event [OF assms(1)]])+

lemma probeStep_sends:
  assumes none: "\<And>t. sent s t [] \<Longrightarrow> P t"
    and one: "\<And>k r t. probeDue (mono_at e k) (mgr_breaker s) \<Longrightarrow> sent s t [EDifficulty r] \<Longrightarrow> P t"
  shows "wp (probeStep e) (\<lambda>_. P) (\<lambda>_. P) s"
  unfolding probeStep_def mono_def wp_bind [of "read_next _"] wp_read_next wp_bind [of "gets _"] wp_gets
proof (rule wp_ifI)
  let ?s = "s\<lparr>reads := reads s + 1\<rparr>"
  show "wp (ret Idle) (\<lambda>_. P) (\<lambda>_. P) ?s" unfolding wp_ret by (rule none) (simp add: sent_def)
  assume "\<not> \<not> probeDue (mono_at e (reads s)) (mgr_breaker ?s)"
  then have due: "probeDue (mono_at e (reads s)) (mgr_breaker s)" by simp
  let ?tail = "\<lambda>r. seq_step (trackServerDate e r) (seq_step (count_metric (\<lambda>k. k\<lparr>met_probes := met_probes k + 1\<rparr>))
       (seq_step
         (if transport_ok r \<and> http_status r = 200 \<and> \<not> isBlankBody (body r) then
            seq_step (handleDifficultyBody e (body r))
            (bind_step (gets breaker_state) (\<lambda>before. seq_step (on_breaker onProbeSuccess)
             (bind_step (gets breaker_state) (\<lambda>after.
              logBreakerTransition e before after ''difficulty probe succeeded''))))
          else on_breaker_timed e onProbeFailure)
       (seq_step emitNetworkState (ret Probed))))"
  have tail: "keeps (unsent False) (?tail r)" for r
    by (intro unsent_intros unsent_track unsent_body unsent_parts unsent_transition unsent_network)
  show "wp (bind_step (transport e EDifficulty) ?tail) (\<lambda>_. P) (\<lambda>_. P) ?s"
    by (rule wp_one_request [OF _ tail]) (use one [OF due] in \<open>simp_all add: is_request_def sent_def\<close>)
qed

lemma runOnce_cases:
  assumes "P s" and "P (snd (runStep e c s))" and "\<And>what t. P t \<Longrightarrow> P (handleFatal what t)"
  shows "P (snd (runOnce e c s))"
  using assms(1,2) assms(3) [of "snd (runStep e c s)"]
  by (auto simp: runOnce_def split: prod.splits sum.splits)

lemma open_round_sends:
  assumes "breaker_state s = Open"
  shows "sent s (snd (runOnce e c s)) [] \<or>
    (\<exists>k r. probeDue (mono_at e k) (mgr_breaker s) \<and> sent s (snd (runOnce e c s)) [EDifficulty r])"
proof -
  let ?P = "\<lambda>s'. sent s s' [] \<or> (\<exists>k r. probeDue (mono_at e k) (mgr_breaker s) \<and> sent s s' [EDifficulty r])"
  have probe: "wp (probeStep e) (\<lambda>_. ?P) (\<lambda>_. ?P) t" if t: "unsent True s t" for t
  proof -
    have "mgr_breaker t = mgr_breaker s" using t by (simp add: unsent_def)
    then show ?thesis by (intro probeStep_sends) (auto intro: unsent_sent [OF t])
  qed
  have "wp (runStep e c) (\<lambda>_. ?P) (\<lambda>_. ?P) s"
    unfolding runStep_def wp_seq
  proof (rule wp_unsent [OF unsent_margin])
    fix t
    assume t: "unsent True s t"
    then have "breaker_state t = Open" using assms by (simp add: unsent_def breaker_state_def)
    then show "wp (bind_step (gets breaker_state) (\<lambda>st. if st = Open then probeStep e
      else bind_step (submitStep e c) (\<lambda>submit_result. bind_step (confirmStep e c) (\<lambda>confirm_result.
        ret (if submit_result = Idle \<and> confirm_result \<noteq> Idle then confirm_result else submit_result)))))
      (\<lambda>_. ?P) (\<lambda>_. ?P) t"
      using probe [OF t] by (simp add: wp_bind wp_gets)
  qed (blast intro: unsent_is_sent)
  then have "?P (snd (runStep e c s))" by (simp only: wp_final)
  then show ?thesis by (intro runOnce_cases [where P = ?P]) (use sent_refl unsent_fatal in blast)+
qed


section \<open>The pacing gate\<close>

definition submits :: "mgr \<Rightarrow> mgr \<Rightarrow> nat \<Rightarrow> bool" where
  "submits s s' n = (\<exists>evs. events s' = events s @ evs \<and> length (filter is_submit evs) = n)"

definition gate_kept :: "mgr \<Rightarrow> mgr \<Rightarrow> bool" where
  "gate_kept s s' = (submits s s' 0 \<and> next_submit_allowed_ms s' = next_submit_allowed_ms s \<and>
     mgr_scheduler s' = mgr_scheduler s)"

lemma submit_is_request: "is_submit ev \<Longrightarrow> is_request ev"
  by (simp add: is_submit_def is_request_def split: mgr_event.splits)

lemma submits_trans: "submits s t m \<Longrightarrow> submits t u n \<Longrightarrow> submits s u (m + n)"
  by (fastforce simp: submits_def)

lemma unsent_submits: "unsent B s t \<Longrightarrow> submits s t 0"
  using submit_is_request by (fastforce simp: unsent_def submits_def filter_empty_conv)

lemma submits_unsent: "submits s t n \<Longrightarrow> unsent B t u \<Longrightarrow> submits s u n"
  using submits_trans [OF _ unsent_submits] by fastforce

lemma gate_reflp: "reflp gate_kept" and gate_transp: "transp gate_kept"
  by (auto simp: reflp_def gate_kept_def submits_def intro!: transpI)

lemma unsent_gate: "keeps (unsent True) m \<Longrightarrow> keeps gate_kept m"
  unfolding keeps_def gate_kept_def using unsent_submits by (fastforce simp: unsent_def)

lemma gate_confirm: "keeps gate_kept (transport e (EConfirm k))"
  by (simp add: keeps_def transport_def read_next_def emit_def modify_def bind_step_def seq_step_def ret_def
    gate_kept_def submits_def is_submit_def)

lemmas gate_intros = keeps_ret [OF gate_reflp] keeps_gets [OF gate_reflp] keeps_bind [OF gate_transp]
  keeps_seq [OF gate_transp] keeps_if keeps_let keeps_case_prod keeps_option gate_confirm

lemmas gate_parts = unsent_gate [OF unsent_call] unsent_gate [OF unsent_track] unsent_gate [OF unsent_hint]
  unsent_gate [OF unsent_verdicts(1)] unsent_gate [OF unsent_verdicts(2)] unsent_gate [OF unsent_verdicts(3)]
  unsent_gate [OF unsent_reads(2)] unsent_gate [OF unsent_reads(3)]

lemma gate_emit: "\<not> is_request ev \<Longrightarrow> keeps gate_kept (emit ev)"
  by (rule unsent_gate) (rule unsent_emit)

lemma gate_confirm_one: "keeps gate_kept (confirm_one e c rec)"
  unfolding confirm_one_def by (intro gate_intros gate_parts gate_emit) (simp_all add: is_request_def)

lemma gate_confirm_batch: "keeps gate_kept (confirm_batch e c recs)"
  by (induction recs) (auto intro!: gate_intros gate_confirm_one)

lemma gate_confirmStep: "keeps gate_kept (confirmStep e c)"
  unfolding confirmStep_def by (intro gate_intros gate_parts gate_confirm_batch)

lemma gate_confirm_lookup: "keeps gate_kept (confirm_lookup e c rec cls)"
  unfolding confirm_lookup_def by (intro gate_intros gate_parts)

lemma submit_exchange_submits:
  "wp (submit_exchange e c rec) (\<lambda>_ t. submits s t 1) (\<lambda>_ t. submits s t 1) s"
proof -
  let ?f = "\<lambda>res. seq_step (trackServerDate e res)
     (let st = (if transport_ok res then http_status res else kTransportError);
          cls0 = classify st (body res) (kind (payload rec)) (retry_after res) in
     bind_step (gets last_difficulty) (\<lambda>known.
     seq_step (case server_difficulty_hint cls0 of None \<Rightarrow> ret () | Some d \<Rightarrow> take_hint e d)
     (bind_step (if needs_lookup_confirmation cls0 then confirm_lookup e c rec cls0
                 else ret (cls0, None)) (\<lambda>(cls, next0).
      seq_step (emit (ELog (submission_level (next_status cls)) ''SUBMIT''
        (submission_message rec cls known res)))
      (bind_step (retry_time e c rec cls st res next0) (\<lambda>next. ret (res, cls, next)))))))"
  have k: "keeps gate_kept (?f res)" for res
    by (intro gate_intros gate_parts gate_confirm_lookup gate_emit) (simp add: is_request_def)
  let ?t = "\<lambda>r. s\<lparr>reads := reads s + 1, events := events s @ [ESubmit (payload rec) r]\<rparr>"
  have "submits s (?t r) 1" for r by (simp add: submits_def is_submit_def)
  then have "submits s (snd (?f r (?t r))) 1" for r
    using keepsD [OF k, of "?t r" r] submits_trans unfolding gate_kept_def by fastforce
  then show ?thesis
    unfolding submit_exchange_def wp_bind [of "transport _ _"] wp_transport unfolding wp_final .
qed

lemma wp_still_submits:
  assumes "keeps (unsent B) m" and "submits s u n"
  shows "(\<And>a t. submits s t n \<Longrightarrow> wp (f a) Q (\<lambda>_ t. submits s t n) t) \<Longrightarrow>
      wp (bind_step m f) Q (\<lambda>_ t. submits s t n) u"
    and "(\<And>t. submits s t n \<Longrightarrow> wp m' Q (\<lambda>_ t. submits s t n) t) \<Longrightarrow>
      wp (seq_step m m') Q (\<lambda>_ t. submits s t n) u"
  unfolding wp_bind wp_seq
  by (rule wp_unsent [OF assms(1)], blast intro: submits_unsent [OF assms(2)],
      blast intro: submits_unsent [OF assms(2)])+

lemma submit_round_submits:
  "wp (submit_round e c rec now)
     (\<lambda>_ t. submits s t 1 \<and> next_submit_allowed_ms t = now + submitIntervalMs (mgr_scheduler t))
     (\<lambda>_ t. submits s t 1) s"
proof -
  have rest: "wp (bind_step (wall e) (\<lambda>w.
     let http = (if transport_ok res then Some (http_status res) else None) in
     seq_step (call_journal e (\<lambda>f. recordAttempt f (id rec) cls http (body res) nx (isoUtc w)))
     (seq_step (emit (EOutcome rec cls http))
     (seq_step (settle_breaker e was cls res)
     (seq_step (modify (\<lambda>s. s\<lparr>next_submit_allowed_ms := now + submitIntervalMs (mgr_scheduler s)\<rparr>))
     (seq_step (count_metric (outcome_metrics rec cls res)) (ret Submitted)))))))
     (\<lambda>_ t. submits s t 1 \<and> next_submit_allowed_ms t = now + submitIntervalMs (mgr_scheduler t))
     (\<lambda>_ t. submits s t 1) u"
    if "submits s u 1" for u res was nx and cls :: Classification
  proof -
    have o: "\<not> is_request (EOutcome rec cls http)" for http by (simp add: is_request_def)
    have upd: "submits s (t\<lparr>next_submit_allowed_ms := n, metrics := k\<rparr>) 1" if "submits s t 1" for t n k
      using that by (simp add: submits_def)
    have "wp (seq_step (modify (\<lambda>s. s\<lparr>next_submit_allowed_ms := now + submitIntervalMs (mgr_scheduler s)\<rparr>))
        (seq_step (count_metric (outcome_metrics rec cls res)) (ret Submitted)))
        (\<lambda>_ t. submits s t 1 \<and> next_submit_allowed_ms t = now + submitIntervalMs (mgr_scheduler t))
        (\<lambda>_ t. submits s t 1) t" if "submits s t 1" for t
      using upd [OF that] by (simp add: wp_simps count_metric_def)
    then show ?thesis
      unfolding Let_def
      by (intro wp_still_submits [OF unsent_reads(2) [of False] that] wp_still_submits(2) [OF unsent_call [of False]]
        wp_still_submits(2) [OF unsent_emit [OF o, of False]] wp_still_submits(2) [OF unsent_settle])
  qed
  show ?thesis
    unfolding submit_round_def wp_bind [of "gets _"] wp_gets wp_bind [of "submit_exchange _ _ _"] case_prod_beta
    by (rule wp_conseq [OF submit_exchange_submits]) (rule rest | assumption)+
qed

text \<open>
  What a round may have submitted: nothing, or one find that the gate let through, after which the
  gate is set by the pace of the drain.
\<close>

definition paced :: "env \<Rightarrow> mgr \<Rightarrow> mgr \<Rightarrow> bool" where
  "paced e s t = (submits s t 0 \<or> submits s t 1 \<and> (\<exists>k. next_submit_allowed_ms s \<le> mono_at e k \<and>
     next_submit_allowed_ms t = mono_at e k + submitIntervalMs (mgr_scheduler t)))"

definition let_through :: "env \<Rightarrow> mgr \<Rightarrow> mgr \<Rightarrow> bool" where
  "let_through e s t = (submits s t 0 \<or> submits s t 1 \<and> (\<exists>k. next_submit_allowed_ms s \<le> mono_at e k))"

lemma paced_let_through: "paced e s t \<Longrightarrow> let_through e s t"
  by (auto simp: paced_def let_through_def)

lemma unsent_paced: "unsent B s t \<Longrightarrow> paced e s t" "unsent B s t \<Longrightarrow> let_through e s t"
  using unsent_submits by (auto simp: paced_def let_through_def)

lemma submit_selected_paced:
  assumes u: "unsent False s u" and now: "now = mono_at e k" "next_submit_allowed_ms s \<le> now"
  shows "wp (submit_selected e c rec now) (\<lambda>_. paced e s) (\<lambda>_. let_through e s) u"
proof -
  have round: "wp (submit_round e c rec now) (\<lambda>_. paced e s) (\<lambda>_. let_through e s) t" if t: "unsent False s t" for t
  proof (rule wp_conseq [OF submit_round_submits])
    fix r v
    assume "submits t v 1 \<and> next_submit_allowed_ms v = now + submitIntervalMs (mgr_scheduler v)"
    then show "paced e s v" using submits_trans [OF unsent_submits [OF t]] now unfolding paced_def by fastforce
  next
    fix r v
    assume "submits t v 1"
    then show "let_through e s v" using submits_trans [OF unsent_submits [OF t]] now unfolding let_through_def by fastforce
  qed
  have admitted: "wp (if \<not> ok then ret BreakerBlocked else submit_round e c rec now)
      (\<lambda>_. paced e s) (\<lambda>_. let_through e s) t" if "unsent False u t" for ok t
    using round [OF unsent_trans [OF u that]] unsent_paced [OF unsent_trans [OF u that]] by (simp add: wp_ret)
  have "wp (bind_step admit (\<lambda>ok. if \<not> ok then ret BreakerBlocked else submit_round e c rec now))
      (\<lambda>_. paced e s) (\<lambda>_. let_through e s) u"
    unfolding wp_bind by (rule wp_unsent [OF unsent_admit]) (blast intro: admitted unsent_paced unsent_trans [OF u])+
  moreover have "wp (pre_park e rec d) (\<lambda>_. paced e s) (\<lambda>_. let_through e s) u" for d
    by (rule wp_unsent [OF unsent_pre_park]) (blast intro: unsent_paced unsent_trans [OF u])+
  ultimately show ?thesis unfolding submit_selected_def wp_bind [of "gets _"] wp_gets wp_if by simp
qed

lemma submitStep_paced: "wp (submitStep e c) (\<lambda>_. paced e s) (\<lambda>_. let_through e s) s"
proof -
  let ?F = "\<lambda>_ :: StepResult. paced e s" and ?E = "\<lambda>_ :: string. let_through e s"
  let ?pick = "\<lambda>win now el. if el = [] then ret Idle
      else bind_step (gets (\<lambda>s. selectNext (mgr_scheduler s) el (trend s) win)) (\<lambda>choice.
        case choice of None \<Rightarrow> ret Idle | Some rec \<Rightarrow> submit_selected e c rec now)"
  have pick: "wp (?pick win now el) ?F ?E t"
    if t: "unsent False s t" and now: "now = mono_at e k" "next_submit_allowed_ms s \<le> now" for win now el t k
    using submit_selected_paced [OF t now] unsent_paced(1) [OF t] by (auto simp: wp_simps split: option.splits)
  have work: "wp (seq_step (unpark_on_open e c win) (bind_step (fetch_work e c win) (?pick win now))) ?F ?E t"
    if t: "unsent False s t" and now: "now = mono_at e k" "next_submit_allowed_ms s \<le> now" for win now t k
    unfolding wp_seq wp_bind [of "fetch_work _ _ _"]
    by (rule wp_unsent [OF unsent_unpark]; (rule wp_unsent [OF unsent_fetch])?)
      (rule pick [OF _ now] unsent_paced(2), blast intro: unsent_trans t)+
  let ?s = "s\<lparr>reads := reads s + 1\<rparr>" and ?now = "mono_at e (reads s)"
  have s: "unsent False s ?s" by (simp add: unsent_def)
  have "wp (wall e) (\<lambda>w. wp (let win = xuniWindowAt (w + off) in
         seq_step (unpark_on_open e c win) (bind_step (fetch_work e c win) (?pick win ?now))) ?F ?E) ?E ?s"
    if "next_submit_allowed_ms s \<le> ?now" for off
    unfolding Let_def
    by (rule wp_unsent [OF unsent_reads(2)])
      (rule work [OF _ refl that] unsent_paced(2), blast intro: unsent_trans s)+
  then show ?thesis
    using unsent_paced(1) [OF s]
    unfolding submitStep_def mono_def wp_bind [of "read_next _"] wp_read_next wp_bind [of "gets _"] wp_gets wp_if
      wp_bind [of "wall _"] wp_ret by simp
qed

lemma paced_gate: "paced e s t \<Longrightarrow> gate_kept t u \<Longrightarrow> paced e s u"
  using submits_trans by (fastforce simp: paced_def gate_kept_def)

lemma runStep_paced: "wp (runStep e c) (\<lambda>_. paced e s) (\<lambda>_. let_through e s) s"
proof -
  let ?F = "\<lambda>_ :: StepResult. paced e s" and ?E = "\<lambda>_ :: string. let_through e s"
  have probe: "wp (probeStep e) ?F ?E t" if t: "unsent True s t" for t
  proof -
    have "wp (probeStep e) (\<lambda>_ u. submits s u 0) (\<lambda>_ u. submits s u 0) t"
    proof (rule probeStep_sends)
      fix u :: mgr
      show "submits s u 0" if "sent t u []"
        using submits_trans [OF unsent_submits [OF t], of u 0] that submit_is_request
        by (fastforce simp: sent_def submits_def filter_empty_conv)
    next
      fix u :: mgr and r
      show "submits s u 0" if d: "sent t u [EDifficulty r]"
      proof -
        obtain evs where v: "events u = events t @ evs" "filter is_request evs = [EDifficulty r]"
          using d by (auto simp: sent_def)
        have "filter is_submit evs = filter is_submit (filter is_request evs)"
          using submit_is_request by (auto simp: filter_filter intro!: filter_cong)
        then have "submits t u 0" using v by (simp add: submits_def is_submit_def)
        then show ?thesis using submits_trans [OF unsent_submits [OF t]] by fastforce
      qed
    qed
    then show ?thesis by (rule wp_conseq) (simp_all add: paced_def let_through_def)
  qed
  have confirm: "wp (bind_step (confirmStep e c) (\<lambda>r. ret (g r))) ?F ?E t" if "paced e s t" for g t
    unfolding wp_bind wp_ret
    using keepsD [OF gate_confirmStep, of t e c] paced_gate [OF that] paced_let_through
    by (auto simp: wp_def split: prod.splits sum.splits)
  have submit: "wp (bind_step (submitStep e c) (\<lambda>r. bind_step (confirmStep e c) (\<lambda>q. ret (h r q)))) ?F ?E t"
    if t: "unsent True s t" for h t
    unfolding wp_bind [of "submitStep _ _"]
  proof (rule wp_conseq [OF submitStep_paced])
    have same: "next_submit_allowed_ms t = next_submit_allowed_ms s" using t by (simp add: unsent_def)
    note tr = submits_trans [OF unsent_submits [OF t]]
    fix u
    show "wp (bind_step (confirmStep e c) (\<lambda>q. ret (h r q))) ?F ?E u" if "paced e t u" for r
      by (rule confirm) (use that same tr in \<open>fastforce simp: paced_def\<close>)
    show "let_through e s u" if "let_through e t u"
      using that same tr by (fastforce simp: let_through_def)
  qed
  show ?thesis
    unfolding runStep_def wp_seq
    by (rule wp_unsent [OF unsent_margin]) (auto simp: wp_bind [of "gets _"] wp_gets unsent_paced intro: probe submit)
qed


section \<open>The life-cycle flags\<close>

definition alive :: "mgr \<Rightarrow> mgr \<Rightarrow> bool" where
  "alive s s' = (fatal s' = fatal s \<and> running s' = running s)"

lemma alive_reflp: "reflp alive" and alive_transp: "transp alive"
  by (auto simp: reflp_def alive_def intro: transpI)

lemma unsent_alive: "keeps (unsent B) m \<Longrightarrow> keeps alive m"
  by (simp add: keeps_def alive_def unsent_def)

lemma alive_transport: "keeps alive (transport e req)"
  by (simp add: keeps_def transport_def read_next_def emit_def modify_def bind_step_def seq_step_def ret_def alive_def)

lemma alive_emit: "keeps alive (emit ev)"
  by (simp add: keeps_def emit_def modify_def alive_def)

lemma alive_gate: "keeps alive (modify (\<lambda>s. s\<lparr>next_submit_allowed_ms := f s\<rparr>))"
  by (simp add: keeps_def modify_def alive_def)

lemmas alive_intros = keeps_ret [OF alive_reflp] keeps_gets [OF alive_reflp] keeps_bind [OF alive_transp]
  keeps_seq [OF alive_transp] keeps_if keeps_let keeps_case_prod keeps_option alive_transport alive_emit alive_gate
  unsent_alive [OF unsent_call] unsent_alive [OF unsent_reads(1)] unsent_alive [OF unsent_reads(2)]
  unsent_alive [OF unsent_reads(3)] unsent_alive [OF unsent_parts(1)] unsent_alive [OF unsent_parts(3)]

lemmas alive_parts = unsent_alive [OF unsent_track] unsent_alive [OF unsent_hint]
  unsent_alive [OF unsent_verdicts(1)] unsent_alive [OF unsent_verdicts(2)] unsent_alive [OF unsent_verdicts(3)]
  unsent_alive [OF unsent_settle] unsent_alive [OF unsent_admit] unsent_alive [OF unsent_pre_park]
  unsent_alive [OF unsent_fetch] unsent_alive [OF unsent_unpark] unsent_alive [OF unsent_margin]
  unsent_alive [OF unsent_body] unsent_alive [OF unsent_transition] unsent_alive [OF unsent_network]

lemma alive_confirm_batch: "keeps alive (confirm_batch e c recs)"
  by (induction recs) (auto simp: confirm_one_def intro!: alive_intros alive_parts)

lemma alive_runStep: "keeps alive (runStep e c)"
  unfolding runStep_def probeStep_def submitStep_def submit_selected_def submit_round_def submit_exchange_def
    confirm_lookup_def confirmStep_def
  by (intro alive_intros alive_parts alive_confirm_batch)

lemma threadLoop_stopped: "\<not> running s \<Longrightarrow> threadLoop e c n s = s"
  by (cases n) simp_all


section \<open>The backoff of a failed attempt\<close>

lemma double_until_closed:
  "0 < d \<Longrightarrow> min (double_until n cap d) cap = min (d * 2 ^ n) cap"
proof (induction n arbitrary: d)
  case 0
  then show ?case by simp
next
  case (Suc n)
  show ?case
  proof (cases "d < cap")
    case True
    then show ?thesis using Suc.IH [of "d * 2"] Suc.prems by (simp add: mult.assoc)
  next
    case False
    have "(1 :: int) \<le> 2 ^ Suc n" by (rule one_le_power) simp
    then have "d * 1 \<le> d * 2 ^ Suc n" using Suc.prems by (intro mult_left_mono) simp_all
    then show ?thesis using False by simp
  qed
qed

lemma double_until_bound: "0 < d \<Longrightarrow> d \<le> 2 * cap \<Longrightarrow> 0 < double_until n cap d \<and> double_until n cap d \<le> 2 * cap"
  by (induction n arbitrary: d) auto


section \<open>What the drain loop promises\<close>

text \<open>
  C1 (no find is lost): from a well-formed journal, whatever the clocks, the transport and the
  journal's own failures do, any number of rounds of the thread keeps the journal well-formed
  with exactly the same finds; every row keeps its identity and payload; rows that are \<open>Acked\<close>,
  \<open>Dead\<close>, \<open>PermanentlyInvalid\<close> or \<open>Quarantined\<close> stay as they are; a row becomes \<open>Acked\<close> only if the
  server answered a \<open>/get_block\<close> request for its own key with a 200 whose body names that key (and
  its hash, if it names one); and a row leaves \<open>AcceptedUnconfirmed\<close> only on such an answer or on
  a 404 (\<open>row_follows\<close>, on the events of these rounds).
\<close>

theorem drain_loop_keeps_finds:
  assumes "journal_inv (journal s)" and "s' = threadLoop e c n s"
  shows "journal_inv (journal s') \<and> length (finds (journal s')) = length (finds (journal s)) \<and>
    (\<exists>evs. events s' = events s @ evs \<and>
      (\<forall>i < length (finds (journal s)). row_follows evs (finds (journal s) ! i) (finds (journal s') ! i)))"
  using threadLoop_follows [of s e c n] assms unfolding follows_def by blast

definition sample_manager :: mgr where
  "sample_manager = start (SubmissionManager default_config sample_db)"

theorem drain_loop_keeps_finds_witness:
  "\<forall>e n. length (finds (journal (threadLoop e default_config n sample_manager))) = 2"
proof (intro allI)
  fix e n
  have "journal sample_manager = sample_db" by (simp add: sample_manager_def start_def SubmissionManager_def)
  then show "length (finds (journal (threadLoop e default_config n sample_manager))) = 2"
    using drain_loop_keeps_finds [of sample_manager "threadLoop e default_config n sample_manager" e default_config n]
      sample_db_inv sample_rows by simp
qed

text \<open>
  C11 (an outage is respected): a round that begins with the breaker open sends no submission and
  no confirmation request. At most one request goes out, a difficulty probe, and only if the
  breaker's probe was due at a reading of the monotonic clock.
\<close>

theorem open_breaker_only_probes:
  assumes "breaker_state s = Open" and "s' = snd (runOnce e c s)"
  shows "\<exists>evs. events s' = events s @ evs \<and>
    (filter is_request evs = [] \<or>
     (\<exists>k r. filter is_request evs = [EDifficulty r] \<and> probeDue (mono_at e k) (mgr_breaker s)))"
  using open_round_sends [OF assms(1), of e c] assms(2) unfolding sent_def by blast

theorem open_breaker_only_probes_witness:
  "\<exists>evs. events (snd (runOnce
      \<lparr>mono_at = (\<lambda>_. 0), wall_at = (\<lambda>_. 0), response_at = (\<lambda>_. undefined), fault_at = (\<lambda>_. None)\<rparr> default_config
      (sample_manager\<lparr>mgr_breaker := (mgr_breaker sample_manager)\<lparr>state := Open, next_probe_at_ms := 5\<rparr>\<rparr>))) = evs \<and>
    filter is_request evs = []"
proof -
  let ?e = "\<lparr>mono_at = (\<lambda>_. 0), wall_at = (\<lambda>_. 0), response_at = (\<lambda>_. undefined), fault_at = (\<lambda>_. None)\<rparr>"
  let ?s = "sample_manager\<lparr>mgr_breaker := (mgr_breaker sample_manager)\<lparr>state := Open, next_probe_at_ms := 5\<rparr>\<rparr>"
  have "breaker_state ?s = Open" by (simp add: breaker_state_def)
  moreover have "\<not> probeDue (mono_at ?e k) (mgr_breaker ?s)" for k by (simp add: probeDue_def)
  moreover have "events ?s = []" by (simp add: sample_manager_def start_def SubmissionManager_def)
  ultimately show ?thesis using open_breaker_only_probes [of ?s "snd (runOnce ?e default_config ?s)" ?e default_config]
    by auto
qed

text \<open>
  C28 (pacing): a round submits at most one find; if it submits one, a reading of the monotonic
  clock had passed the pacing gate, and unless the round failed the gate afterwards lies one
  interval of the drain scheduler after that reading.
\<close>

theorem drain_loop_paced:
  "let s' = snd (runOnce e c s) in \<exists>evs. events s' = events s @ evs \<and>
    (filter is_submit evs = [] \<or>
     length (filter is_submit evs) = 1 \<and> (\<exists>k. next_submit_allowed_ms s \<le> mono_at e k \<and>
       (fatal s' \<or> next_submit_allowed_ms s' = mono_at e k + submitIntervalMs (mgr_scheduler s'))))"
proof -
  define s' where "s' = snd (runOnce e c s)"
  let ?G = "\<exists>evs. events s' = events s @ evs \<and> (filter is_submit evs = [] \<or>
     length (filter is_submit evs) = 1 \<and> (\<exists>k. next_submit_allowed_ms s \<le> mono_at e k \<and>
       (fatal s' \<or> next_submit_allowed_ms s' = mono_at e k + submitIntervalMs (mgr_scheduler s'))))"
  obtain r t where run: "runStep e c s = (r, t)" by fastforce
  have step: "wp (runStep e c) (\<lambda>_. paced e s) (\<lambda>_. let_through e s) s" by (rule runStep_paced)
  have nil: "submits s u 0 \<longleftrightarrow> (\<exists>evs. events u = events s @ evs \<and> filter is_submit evs = [])" for u
    by (simp add: submits_def)
  have fatal_submits: "submits s (handleFatal what t) n" if "submits s t n" for what n
    using that by (auto simp: submits_def handleFatal_def is_submit_def)
  consider "fatal s" | a where "\<not> fatal s" "r = Inr a" | x where "\<not> fatal s" "r = Inl x" by (cases r) blast+
  then have ?G
  proof cases
    case 1
    then show ?G by (simp add: s'_def runOnce_def)
  next
    case 2
    then have "paced e s s'" using step run by (simp add: wp_def s'_def runOnce_def)
    then show ?G unfolding paced_def nil unfolding submits_def by blast
  next
    case 3
    let ?w = "''submission step: '' @ x"
    have s': "s' = handleFatal ?w t" using 3 run by (simp add: s'_def runOnce_def)
    have "fatal (handleFatal ?w t)" by (simp add: handleFatal_def)
    moreover have "let_through e s t" using step run 3 by (simp add: wp_def)
    then have "let_through e s s'" unfolding s' let_through_def using fatal_submits by blast
    ultimately show ?G unfolding let_through_def nil s' [symmetric] unfolding submits_def by blast
  qed
  then show ?thesis unfolding s'_def Let_def .
qed

text \<open>
  C32 (failures latch): a round never throws. If a step throws, the round is idle, the manager is
  fatal and not running from then on, one console line and one fatal callback are the last
  events, and neither a further round nor the thread does anything; otherwise the flags stay as
  they were.
\<close>

theorem runOnce_fatal_latch:
  "case runOnce e c s of (r, s') \<Rightarrow>
     (if fatal s then r = Idle \<and> s' = s
      else (case runStep e c s of
              (Inr a, t) \<Rightarrow> r = a \<and> s' = t \<and> \<not> fatal s' \<and> running s' = running s
            | (Inl what, t) \<Rightarrow> r = Idle \<and> fatal s' \<and> \<not> running s' \<and> journal s' = journal t \<and>
                (\<exists>msg. events s' = events t @ [ELog Error ''SUBMIT'' msg, EFatal (''submission step: '' @ what)]) \<and>
                runOnce e' c' s' = (Idle, s') \<and> threadLoop e' c' n s' = s'))"
proof -
  obtain r t where run: "runStep e c s = (r, t)" by fastforce
  have fl: "fatal t = fatal s" "running t = running s"
    using keepsD [OF alive_runStep, of s e c] run by (simp_all add: alive_def)
  show ?thesis
  proof (cases r)
    case (Inl what)
    then show ?thesis using run fl by (simp add: runOnce_def handleFatal_def threadLoop_stopped)
  next
    case (Inr a)
    then show ?thesis using run fl by (simp add: runOnce_def)
  qed
qed

text \<open>
  C36 (backoff): after \<open>n\<close> earlier attempts the wait before the next one is the base delay doubled \<open>n\<close>
  times, capped; a \<open>Retry-After\<close> replaces the exponential delay but not the cap. The loop of
  doublings never exceeds twice the cap, so with a cap below \<open>2 ^ 62\<close> it stays inside
  \<open>std::int64_t\<close>.
\<close>

theorem backoff_is_capped_exponential:
  assumes "0 < backoff_base_ms c" and "backoff_base_ms c \<le> backoff_cap_ms c" and "backoff_cap_ms c < 2 ^ 62"
  shows "backoff_delay c (int n) None = min (backoff_base_ms c * 2 ^ n) (backoff_cap_ms c) \<and>
    backoff_delay c (int n) (Some r) = min (int r * 1000) (backoff_cap_ms c) \<and>
    double_until n (backoff_cap_ms c) (backoff_base_ms c) < 2 ^ 63"
proof (intro conjI)
  show "backoff_delay c (int n) None = min (backoff_base_ms c * 2 ^ n) (backoff_cap_ms c)"
    using double_until_closed [OF assms(1), of n "backoff_cap_ms c"] by (simp add: backoff_delay_def)
  show "backoff_delay c (int n) (Some r) = min (int r * 1000) (backoff_cap_ms c)"
    by (simp add: backoff_delay_def)
  have "double_until n (backoff_cap_ms c) (backoff_base_ms c) \<le> 2 * backoff_cap_ms c"
    using double_until_bound [of "backoff_base_ms c" "backoff_cap_ms c" n] assms by simp
  then show "double_until n (backoff_cap_ms c) (backoff_base_ms c) < 2 ^ 63" using assms(3) by simp
qed

theorem backoff_is_capped_exponential_witness:
  "backoff_delay default_config 3 None = 16000"
  using backoff_is_capped_exponential [of default_config 3 0] by (simp add: default_config_def)

end
