(* ===== verification/Command_Envelope.thy ===== *)
theory Command_Envelope
  imports Prelude
begin

text \<open>
  \<open>src/platform/CommandEnvelope.cpp\<close>: the signed envelope of a platform command and its replay
  cache. JSON values are the values \<open>nlohmann::json\<close> holds: an object keeps its members sorted by
  key. The text of a value (\<open>dump\<close>) and the HMAC digest of OpenSSL are parameters.
\<close>


section \<open>JSON values\<close>

datatype json =
    JNull
  | JBool bool
  | JInt int
  | JFloat double
  | JString string
  | JArray "json list"
  | JObject "(string \<times> json) list"

definition is_object :: "json \<Rightarrow> bool" where
  "is_object j = (case j of JObject _ \<Rightarrow> True | _ \<Rightarrow> False)"

text \<open>\<open>find\<close> (and \<open>contains\<close>, \<open>operator[]\<close> on a member that is there); no member in a non-object.\<close>

definition jfind :: "string \<Rightarrow> json \<Rightarrow> json option" where
  "jfind k j = (case j of JObject ms \<Rightarrow> map_of ms k | _ \<Rightarrow> None)"

text \<open>\<open>j[k] = v\<close> on an object, whose members stay sorted, and \<open>erase\<close>.\<close>

fun set_member :: "string \<Rightarrow> json \<Rightarrow> (string \<times> json) list \<Rightarrow> (string \<times> json) list" where
  "set_member k v [] = [(k, v)]"
| "set_member k v ((k', v') # ms) =
     (if k < k' then (k, v) # (k', v') # ms
      else if k = k' then (k, v) # ms
      else (k', v') # set_member k v ms)"

definition jset :: "string \<Rightarrow> json \<Rightarrow> json \<Rightarrow> json" where
  "jset k v j = (case j of JObject ms \<Rightarrow> JObject (set_member k v ms) | _ \<Rightarrow> j)"

definition jerase :: "string \<Rightarrow> json \<Rightarrow> json" where
  "jerase k j = (case j of JObject ms \<Rightarrow> JObject (filter (\<lambda>m. fst m \<noteq> k) ms) | _ \<Rightarrow> j)"

text \<open>An object from an initializer list.\<close>

definition jobject :: "(string \<times> json) list \<Rightarrow> json" where
  "jobject kvs = JObject (fold (\<lambda>(k, v). set_member k v) kvs [])"

text \<open>\<open>get<std::int64_t>()\<close> and \<open>get<int>()\<close> convert as \<open>static_cast\<close> does.\<close>

definition to_signed :: "nat \<Rightarrow> int \<Rightarrow> int" where
  "to_signed w i = (i + 2 ^ (w - 1)) mod 2 ^ w - 2 ^ (w - 1)"


section \<open>Field checks\<close>

definition kMaxPayloadBytes :: nat where "kMaxPayloadBytes = 64 * 1024"
definition kMaxLifetimeSec :: int where "kMaxLifetimeSec = 15 * 60"
definition kClockSkewSec :: int where "kClockSkewSec = 30"
definition kMinNonceHexLen :: nat where "kMinNonceHexLen = 16"
definition kMaxNonceHexLen :: nat where "kMaxNonceHexLen = 128"
definition kMaxIdLen :: nat where "kMaxIdLen = 128"

definition isHexDigit :: "char \<Rightarrow> bool" where
  "isHexDigit c = (let n = code c in
     (48 \<le> n \<and> n \<le> 57) \<or> (97 \<le> n \<and> n \<le> 102) \<or> (65 \<le> n \<and> n \<le> 70))"

definition toLowerAscii :: "string \<Rightarrow> string" where
  "toLowerAscii s = map tolower s"

definition getInt64Field :: "json \<Rightarrow> string \<Rightarrow> int option" where
  "getInt64Field obj k = (case jfind k obj of Some (JInt i) \<Rightarrow> Some (to_signed 64 i) | _ \<Rightarrow> None)"

definition getStringField :: "json \<Rightarrow> string \<Rightarrow> string option" where
  "getStringField obj k = (case jfind k obj of Some (JString s) \<Rightarrow> Some s | _ \<Rightarrow> None)"

definition isHexString :: "string \<Rightarrow> nat \<Rightarrow> nat \<Rightarrow> bool" where
  "isHexString s min_len max_len =
     (if length s < min_len \<or> length s > max_len then False else list_all isHexDigit s)"

definition isSafeIdentifier :: "string \<Rightarrow> nat \<Rightarrow> nat \<Rightarrow> bool" where
  "isSafeIdentifier s min_len max_len =
     (if length s < min_len \<or> length s > max_len then False
      else list_all (\<lambda>c. isalnum c \<or> c = CHR ''.'' \<or> c = CHR ''_'' \<or> c = CHR ''-'') s)"

definition isPrintableAscii :: "string \<Rightarrow> nat \<Rightarrow> nat \<Rightarrow> bool" where
  "isPrintableAscii s min_len max_len =
     (if length s < min_len \<or> length s > max_len then False
      else list_all (\<lambda>c. 0x20 \<le> code c \<and> code c \<le> 0x7E) s)"

text \<open>The digest bytes of \<open>HMAC\<close> in lowercase hexadecimal.\<close>

type_synonym hmac = "string \<Rightarrow> string \<Rightarrow> string"

definition hmacSha256Hex :: "hmac \<Rightarrow> string \<Rightarrow> string \<Rightarrow> string" where
  "hmacSha256Hex HMAC k data =
     concat (map (\<lambda>b. [hex_char (code b div 16), hex_char (code b mod 16)]) (HMAC k data))"

definition constantTimeHexEquals :: "string \<Rightarrow> string \<Rightarrow> bool" where
  "constantTimeHexEquals a b =
     (if length a \<noteq> length b then False else toLowerAscii a = toLowerAscii b)"


section \<open>The replay cache\<close>

text \<open>\<open>by_nonce_\<close> as an association list without duplicate keys: its length is \<open>size()\<close>.\<close>

record nonce_cache =
  capacity :: nat
  by_nonce :: "(string \<times> int) list"
  insertion_order :: "string list"

definition NonceCache :: "nat \<Rightarrow> nonce_cache" where
  "NonceCache cap = \<lparr>capacity = (if cap = 0 then 1 else cap), by_nonce = [], insertion_order = []\<rparr>"

definition erase_nonce :: "string \<Rightarrow> (string \<times> int) list \<Rightarrow> (string \<times> int) list" where
  "erase_nonce n m = filter (\<lambda>p. fst p \<noteq> n) m"

fun purge_front :: "int \<Rightarrow> (string \<times> int) list \<Rightarrow> string list \<Rightarrow> (string \<times> int) list \<times> string list" where
  "purge_front now m [] = (m, [])"
| "purge_front now m (n # order) =
     (case map_of m n of
        Some e \<Rightarrow> if e > now then (m, n # order) else purge_front now (erase_nonce n m) order
      | None \<Rightarrow> purge_front now m order)"

definition purgeExpired :: "int \<Rightarrow> nonce_cache \<Rightarrow> nonce_cache" where
  "purgeExpired now c =
     (case purge_front now (by_nonce c) (insertion_order c) of
        (m, order) \<Rightarrow> c\<lparr>by_nonce := m, insertion_order := order\<rparr>)"

fun evict :: "nat \<Rightarrow> (string \<times> int) list \<Rightarrow> string list \<Rightarrow> (string \<times> int) list \<times> string list" where
  "evict cap m [] = (m, [])"
| "evict cap m (n # order) =
     (if length m \<ge> cap then evict cap (erase_nonce n m) order else (m, n # order))"

definition checkAndInsert :: "string \<Rightarrow> int \<Rightarrow> int \<Rightarrow> nonce_cache \<Rightarrow> bool \<times> nonce_cache" where
  "checkAndInsert nonce expires_at now c0 =
     (let c = purgeExpired now c0 in
      case map_of (by_nonce c) nonce of
        Some _ \<Rightarrow> (False, c)
      | None \<Rightarrow>
          (case evict (capacity c) (by_nonce c) (insertion_order c) of
             (m, order) \<Rightarrow>
               (True, c\<lparr>by_nonce := (nonce, expires_at) # m, insertion_order := order @ [nonce]\<rparr>)))"


section \<open>Signing and verification\<close>

datatype VerifyStatus =
    VOk | MissingAuth | MalformedAuth | WrongWorker | IssuedInFuture | LifetimeInvalid | Expired
  | BadSignature | ReplayedNonce

definition verifyStatusName :: "VerifyStatus \<Rightarrow> string" where
  "verifyStatusName s = (case s of
       VOk \<Rightarrow> ''ok''
     | MissingAuth \<Rightarrow> ''missing auth envelope''
     | MalformedAuth \<Rightarrow> ''malformed auth envelope''
     | WrongWorker \<Rightarrow> ''wrong worker id''
     | IssuedInFuture \<Rightarrow> ''issued in the future''
     | LifetimeInvalid \<Rightarrow> ''invalid lifetime''
     | Expired \<Rightarrow> ''expired''
     | BadSignature \<Rightarrow> ''bad signature''
     | ReplayedNonce \<Rightarrow> ''replayed nonce'')"

definition canonicalBody :: "(json \<Rightarrow> string) \<Rightarrow> json \<Rightarrow> string" where
  "canonicalBody dump msg = dump (jerase ''auth'' msg)"

definition newline :: char where "newline = CHR 0x0A"

definition signingString ::
  "string \<Rightarrow> string \<Rightarrow> int \<Rightarrow> int \<Rightarrow> string \<Rightarrow> string \<Rightarrow> string" where
  "signingString worker_id command_id issued_at expires_at nonce bdy =
     ''TMv1'' @ [newline] @ worker_id @ [newline] @ command_id @ [newline] @
     to_dec_int issued_at @ [newline] @ to_dec_int expires_at @ [newline] @ nonce @ [newline] @ bdy"

definition signCommand ::
  "hmac \<Rightarrow> (json \<Rightarrow> string) \<Rightarrow> json \<Rightarrow> string \<Rightarrow> string \<Rightarrow> string \<Rightarrow> string \<Rightarrow> int \<Rightarrow> int \<Rightarrow> json" where
  "signCommand HMAC dump msg secret worker_id command_id nonce issued_at expires_at =
     (let bdy = canonicalBody dump msg;
          sig = hmacSha256Hex HMAC secret
            (signingString worker_id command_id issued_at expires_at nonce bdy) in
      jset ''auth'' (jobject
        [(''worker_id'', JString worker_id), (''command_id'', JString command_id),
         (''issued_at'', JInt issued_at), (''expires_at'', JInt expires_at),
         (''nonce'', JString nonce), (''sig'', JString sig)]) msg)"

text \<open>The typed fields of the envelope, before they are bounded.\<close>

record auth_fields =
  auth_worker :: string
  auth_command :: string
  auth_nonce :: string
  auth_sig :: string
  auth_issued :: int
  auth_expires :: int

definition read_auth :: "json \<Rightarrow> auth_fields option" where
  "read_auth auth =
     (case (getStringField auth ''worker_id'', getStringField auth ''command_id'',
            getStringField auth ''nonce'', getStringField auth ''sig'',
            getInt64Field auth ''issued_at'', getInt64Field auth ''expires_at'') of
        (Some w, Some c, Some n, Some g, Some i, Some e) \<Rightarrow>
          Some \<lparr>auth_worker = w, auth_command = c, auth_nonce = n, auth_sig = g,
                auth_issued = i, auth_expires = e\<rparr>
      | _ \<Rightarrow> None)"

definition verifyEnvelope ::
  "hmac \<Rightarrow> (json \<Rightarrow> string) \<Rightarrow> json \<Rightarrow> string \<Rightarrow> string \<Rightarrow> int \<Rightarrow> nonce_cache \<Rightarrow>
   VerifyStatus \<times> nonce_cache" where
  "verifyEnvelope HMAC dump msg secret expected_worker_id now nonces =
     (if \<not> is_object msg then (MissingAuth, nonces)
      else case jfind ''auth'' msg of
        None \<Rightarrow> (MissingAuth, nonces)
      | Some auth \<Rightarrow>
          if \<not> is_object auth then (MalformedAuth, nonces)
          else (case read_auth auth of
            None \<Rightarrow> (MalformedAuth, nonces)
          | Some a \<Rightarrow>
              if \<not> isSafeIdentifier (auth_worker a) 1 kMaxIdLen \<or>
                 \<not> isSafeIdentifier (auth_command a) 1 kMaxIdLen \<or>
                 \<not> isHexString (auth_nonce a) kMinNonceHexLen kMaxNonceHexLen \<or>
                 \<not> isHexString (auth_sig a) 64 64
              then (MalformedAuth, nonces)
              else if auth_worker a \<noteq> expected_worker_id then (WrongWorker, nonces)
              else if auth_issued a > now + kClockSkewSec then (IssuedInFuture, nonces)
              else if auth_expires a \<le> auth_issued a \<or>
                      auth_expires a - auth_issued a > kMaxLifetimeSec then (LifetimeInvalid, nonces)
              else if now > auth_expires a then (Expired, nonces)
              else
                (let expected_sig = hmacSha256Hex HMAC secret
                   (signingString (auth_worker a) (auth_command a) (auth_issued a) (auth_expires a)
                      (auth_nonce a) (canonicalBody dump msg)) in
                 if \<not> constantTimeHexEquals (auth_sig a) expected_sig then (BadSignature, nonces)
                 else (case checkAndInsert (auth_nonce a) (auth_expires a) now nonces of
                         (fresh, nonces') \<Rightarrow>
                           if \<not> fresh then (ReplayedNonce, nonces') else (VOk, nonces')))))"

text \<open>A string member, or the empty string.\<close>

definition string_or_empty :: "string \<Rightarrow> json \<Rightarrow> string" where
  "string_or_empty k msg = (case jfind k msg of Some (JString s) \<Rightarrow> s | _ \<Rightarrow> [])"

definition isMutatingCommand :: "json \<Rightarrow> bool" where
  "isMutatingCommand msg =
     (if \<not> is_object msg then True
      else
        (let command = string_or_empty ''command'' msg in
         if command = ''register_ack'' \<or> command = ''assign_task'' \<or> command = ''release'' then False
         else if command = [] then
           (let action = string_or_empty ''action'' msg in
            if action = ''pause'' \<or> action = ''resume'' then False else True)
         else True))"


section \<open>The cache remembers what it must\<close>

definition nonce_inv :: "nonce_cache \<Rightarrow> bool" where
  "nonce_inv c = (0 < capacity c \<and> distinct (map fst (by_nonce c)) \<and> distinct (insertion_order c) \<and>
     set (map fst (by_nonce c)) = set (insertion_order c) \<and> length (by_nonce c) \<le> capacity c)"

definition nonce_rel :: "(string \<times> int) list \<Rightarrow> string list \<Rightarrow> bool" where
  "nonce_rel m order = (distinct (map fst m) \<and> distinct order \<and> set (map fst m) = set order)"

lemma nonce_inv_rel: "nonce_inv c = (0 < capacity c \<and> nonce_rel (by_nonce c) (insertion_order c) \<and>
    length (by_nonce c) \<le> capacity c)"
  by (auto simp: nonce_inv_def nonce_rel_def)

lemma nonce_rel_length: "nonce_rel m order \<Longrightarrow> length m = length order"
  unfolding nonce_rel_def by (metis distinct_card length_map)

lemma erase_keys: "map fst (erase_nonce n m) = filter (\<lambda>k. k \<noteq> n) (map fst m)"
  by (simp add: erase_nonce_def filter_map comp_def)

lemma erase_rel: "nonce_rel m (n # order) \<Longrightarrow> nonce_rel (erase_nonce n m) order"
  unfolding nonce_rel_def erase_keys by auto

lemma map_of_erase: "map_of (erase_nonce n m) k = (if k = n then None else map_of m k)"
  by (induction m) (auto simp: erase_nonce_def)

lemma rel_front: "nonce_rel m (n # order) \<Longrightarrow> \<exists>e. map_of m n = Some e"
  unfolding nonce_rel_def by (metis list.set_intros(1) map_of_eq_None_iff not_None_eq set_map)

text \<open>
  Both loops drop a prefix of the insertion order and exactly its entries; the purge stops at the
  first entry that is still valid, the eviction as soon as there is room.
\<close>

lemma purge_front_spec:
  assumes "nonce_rel m order" and "purge_front now m order = (m', order')"
  shows "nonce_rel m' order' \<and> suffix order' order \<and>
    (\<forall>n \<in> set order'. map_of m' n = map_of m n) \<and>
    (\<forall>xs n ys e. order = xs @ n # ys \<longrightarrow> map_of m n = Some e \<longrightarrow> now < e \<longrightarrow>
       (\<exists>xs'. order' = xs' @ n # ys))"
  using assms
proof (induction now m order arbitrary: m' order' rule: purge_front.induct)
  case (1 now m)
  then show ?case by simp
next
  case (2 now m k order)
  obtain e where e: "map_of m k = Some e" using rel_front 2(3) by blast
  show ?case
  proof (cases "e > now")
    case True
    then show ?thesis using 2(3,4) e by auto
  next
    case False
    let ?m = "erase_nonce k m"
    have run: "purge_front now ?m order = (m', order')" using 2(4) e False by simp
    have rel: "nonce_rel ?m order" by (rule erase_rel) (rule 2(3))
    have k: "k \<notin> set order" using 2(3) by (simp add: nonce_rel_def)
    note ih = 2(2) [OF e False rel run]
    have same: "map_of m' n = map_of m n" if "n \<in> set order'" for n
    proof -
      have "n \<noteq> k" using that ih k set_mono_suffix by blast
      then show ?thesis using ih that by (simp add: map_of_erase)
    qed
    have pos: "\<exists>xs'. order' = xs' @ n # ys"
      if o: "k # order = xs @ n # ys" "map_of m n = Some d" "now < d" for xs n ys d
    proof -
      have ne: "n \<noteq> k" using o e False by auto
      then obtain zs where "order = zs @ n # ys" using o(1) by (cases xs) auto
      moreover have "map_of ?m n = Some d" using o(2) ne by (simp add: map_of_erase)
      ultimately show ?thesis using ih o(3) by blast
    qed
    have suf: "suffix order' (k # order)" using ih by (blast intro: suffix_ConsI)
    show ?thesis by (intro conjI ballI allI impI) (rule same pos suf | use ih in blast)+
  qed
qed

lemma evict_spec:
  assumes "nonce_rel m order" and "evict cap m order = (m', order')" and "0 < cap"
  shows "nonce_rel m' order' \<and> suffix order' order \<and> length m' < cap \<and>
    (\<forall>n \<in> set order'. map_of m' n = map_of m n) \<and>
    (\<forall>xs n ys. order = xs @ n # ys \<longrightarrow> length ys + 1 < cap \<longrightarrow> (\<exists>xs'. order' = xs' @ n # ys))"
  using assms
proof (induction cap m order arbitrary: m' order' rule: evict.induct)
  case (1 cap m)
  then show ?case using nonce_rel_length by fastforce
next
  case (2 cap m k order)
  show ?case
  proof (cases "length m \<ge> cap")
    case False
    then show ?thesis using 2(2,3) by auto
  next
    case True
    let ?m = "erase_nonce k m"
    have run: "evict cap ?m order = (m', order')" using 2(3) True by simp
    have rel: "nonce_rel ?m order" by (rule erase_rel) (rule 2(2))
    have k: "k \<notin> set order" using 2(2) by (simp add: nonce_rel_def)
    note ih = 2(1) [OF True rel run 2(4)]
    have same: "map_of m' n = map_of m n" if "n \<in> set order'" for n
    proof -
      have "n \<noteq> k" using that ih k set_mono_suffix by blast
      then show ?thesis using ih that by (simp add: map_of_erase)
    qed
    have pos: "\<exists>xs'. order' = xs' @ n # ys" if o: "k # order = xs @ n # ys" "length ys + 1 < cap" for xs n ys
    proof -
      have "length m = length order + 1" using nonce_rel_length [OF 2(2)] by simp
      then have "xs \<noteq> []" using o True by (cases xs) auto
      then obtain zs where "order = zs @ n # ys" using o(1) by (cases xs) auto
      then show ?thesis using ih o(2) by blast
    qed
    have suf: "suffix order' (k # order)" using ih by (blast intro: suffix_ConsI)
    show ?thesis by (intro conjI ballI allI impI) (rule same pos suf | use ih in blast)+
  qed
qed

lemma purged:
  assumes "nonce_inv c"
  shows "nonce_inv (purgeExpired now c)" "capacity (purgeExpired now c) = capacity c"
    and "map_of (by_nonce (purgeExpired now c)) n = Some e \<Longrightarrow> map_of (by_nonce c) n = Some e"
    and "insertion_order c = xs @ n # ys \<Longrightarrow> map_of (by_nonce c) n = Some e \<Longrightarrow> now < e \<Longrightarrow>
      \<exists>xs'. insertion_order (purgeExpired now c) = xs' @ n # ys \<and> map_of (by_nonce (purgeExpired now c)) n = Some e"
proof -
  obtain m order where run: "purge_front now (by_nonce c) (insertion_order c) = (m, order)" by fastforce
  have rel: "nonce_rel (by_nonce c) (insertion_order c)" using assms by (simp add: nonce_inv_rel)
  note sp = purge_front_spec [OF rel run]
  have len: "length m \<le> length (by_nonce c)"
    using sp nonce_rel_length rel suffix_length_le by metis
  show "nonce_inv (purgeExpired now c)"
    using assms sp len run by (auto simp: nonce_inv_rel purgeExpired_def)
  show "capacity (purgeExpired now c) = capacity c" using run by (simp add: purgeExpired_def)
  have dom: "k \<in> set order" if "map_of m k = Some d" for k d
  proof -
    have "k \<in> set (map fst m)" using that by (metis map_of_eq_None_iff option.distinct(1) set_map)
    then show ?thesis using sp by (simp add: nonce_rel_def)
  qed
  show "map_of (by_nonce c) n = Some e" if "map_of (by_nonce (purgeExpired now c)) n = Some e"
    using that run sp dom [of n e] by (simp add: purgeExpired_def)
  show "\<exists>xs'. insertion_order (purgeExpired now c) = xs' @ n # ys \<and> map_of (by_nonce (purgeExpired now c)) n = Some e"
    if o: "insertion_order c = xs @ n # ys" "map_of (by_nonce c) n = Some e" "now < e"
  proof -
    obtain xs' where "order = xs' @ n # ys" using sp o by blast
    then show ?thesis using run sp o(2) by (simp add: purgeExpired_def)
  qed
qed

lemma checkAndInsert_inv:
  assumes "nonce_inv c"
  shows "nonce_inv (snd (checkAndInsert n e now c))" and "capacity (snd (checkAndInsert n e now c)) = capacity c"
proof -
  let ?c = "purgeExpired now c"
  obtain m order where run: "evict (capacity ?c) (by_nonce ?c) (insertion_order ?c) = (m, order)" by fastforce
  have inv: "nonce_inv ?c" by (rule purged(1)) (rule assms)
  then have sp: "nonce_rel m order" "suffix order (insertion_order ?c)" "length m < capacity ?c"
    using evict_spec [OF _ run] by (auto simp: nonce_inv_rel)
  show "nonce_inv (snd (checkAndInsert n e now c))"
  proof (cases "map_of (by_nonce ?c) n")
    case None
    have "n \<notin> set (insertion_order ?c)"
      using None inv by (metis map_of_eq_None_iff nonce_inv_def set_map)
    then have "n \<notin> set order" using sp(2) set_mono_suffix by blast
    then have "nonce_rel ((n, e) # m) (order @ [n])" using sp(1) by (auto simp: nonce_rel_def)
    then show ?thesis using None run sp(3) inv by (simp add: checkAndInsert_def Let_def nonce_inv_rel)
  next
    case (Some d)
    then show ?thesis using inv by (simp add: checkAndInsert_def Let_def)
  qed
  show "capacity (snd (checkAndInsert n e now c)) = capacity c"
    using run purged(2) [OF assms] by (simp add: checkAndInsert_def Let_def split: option.splits)
qed

text \<open>
  A nonce recorded with expiry \<open>e\<close> that at most \<open>k\<close> newer ones follow.
\<close>

definition remembers :: "nat \<Rightarrow> string \<Rightarrow> int \<Rightarrow> nonce_cache \<Rightarrow> bool" where
  "remembers k n e c =
     (\<exists>xs ys. insertion_order c = xs @ n # ys \<and> length ys \<le> k \<and> map_of (by_nonce c) n = Some e)"

lemma remembers_rejects:
  assumes "nonce_inv c" and "remembers k n e c" and "now < e"
  shows "\<not> fst (checkAndInsert n e' now c)"
proof -
  obtain xs ys where "insertion_order c = xs @ n # ys" "map_of (by_nonce c) n = Some e"
    using assms(2) by (auto simp: remembers_def)
  then show ?thesis using purged(4) [OF assms(1) _ _ assms(3)] by (auto simp: checkAndInsert_def Let_def)
qed

lemma remembers_step:
  assumes inv: "nonce_inv c" and rem: "remembers k n e c" and now: "now < e" and room: "k + 1 < capacity c"
  shows "remembers (Suc k) n e (snd (checkAndInsert n' e' now c))"
proof -
  let ?c = "purgeExpired now c"
  obtain xs ys where o: "insertion_order c = xs @ n # ys" "length ys \<le> k" "map_of (by_nonce c) n = Some e"
    using rem by (auto simp: remembers_def)
  obtain xs' where p: "insertion_order ?c = xs' @ n # ys" "map_of (by_nonce ?c) n = Some e"
    using purged(4) [OF inv o(1,3) now] by blast
  show ?thesis
  proof (cases "map_of (by_nonce ?c) n'")
    case (Some d)
    then show ?thesis using p o(2) by (fastforce simp: checkAndInsert_def Let_def remembers_def)
  next
    case None
    obtain m order where run: "evict (capacity ?c) (by_nonce ?c) (insertion_order ?c) = (m, order)" by fastforce
    have rel: "nonce_rel (by_nonce ?c) (insertion_order ?c)" "0 < capacity ?c"
      using purged(1) [OF inv, of now] by (auto simp: nonce_inv_rel)
    have "length ys + 1 < capacity ?c" using o(2) room purged(2) [OF inv] by simp
    then obtain zs where z: "order = zs @ n # ys" using evict_spec [OF rel(1) run rel(2)] p(1) by blast
    have "map_of m n = Some e" using evict_spec [OF rel(1) run rel(2)] z p(2) by simp
    moreover have "n \<noteq> n'" using None p(2) by auto
    ultimately have r: "snd (checkAndInsert n' e' now c) =
        ?c\<lparr>by_nonce := (n', e') # m, insertion_order := zs @ n # (ys @ [n'])\<rparr>" "map_of ((n', e') # m) n = Some e"
      using None run z by (simp_all add: checkAndInsert_def Let_def)
    show ?thesis unfolding remembers_def r(1)
      by (rule exI [of _ zs], rule exI [of _ "ys @ [n']"]) (use r(2) o(2) in auto)
  qed
qed

lemma inserted_remembers:
  assumes "nonce_inv c" and "fst (checkAndInsert n e now c)"
  shows "remembers 0 n e (snd (checkAndInsert n e now c))"
proof -
  let ?c = "purgeExpired now c"
  obtain m order where run: "evict (capacity ?c) (by_nonce ?c) (insertion_order ?c) = (m, order)" by fastforce
  show ?thesis
    using assms(2) run by (fastforce simp: checkAndInsert_def Let_def remembers_def split: option.splits)
qed

interpretation nonces: machine "\<lambda>(n, e, now) c. snd (checkAndInsert n e now c)" nonce_inv "\<lambda>_. True"
  by unfold_locales (auto intro: checkAndInsert_inv)

definition check_all :: "(string \<times> int \<times> int) list \<Rightarrow> nonce_cache \<Rightarrow> nonce_cache" where
  "check_all calls c = fold (\<lambda>(n, e, now) c. snd (checkAndInsert n e now c)) calls c"

lemma remembers_all:
  assumes "nonce_inv c" and "remembers k n e c" and "\<forall>(n', e', now) \<in> set calls. now < e"
    and "k + length calls < capacity c"
  shows "remembers (k + length calls) n e (check_all calls c)"
  using assms
proof (induction calls arbitrary: k c)
  case Nil
  then show ?case by (simp add: check_all_def)
next
  case (Cons a calls)
  obtain n' e' now where a: "a = (n', e', now)" by (cases a)
  let ?c = "snd (checkAndInsert n' e' now c)"
  have "remembers (Suc k) n e ?c" using Cons.prems a by (intro remembers_step) auto
  then have "remembers (Suc k + length calls) n e (check_all calls ?c)"
    using Cons.prems checkAndInsert_inv a by (intro Cons.IH) auto
  then show ?case by (simp add: check_all_def a)
qed


section \<open>Facts about the envelope\<close>

lemma find_set_member: "map_of (set_member k v ms) k' = (if k' = k then Some v else map_of ms k')"
  by (induction ms) auto

lemma jfind_jset: "is_object j \<Longrightarrow> jfind k' (jset k v j) = (if k' = k then Some v else jfind k' j)"
  by (auto simp: is_object_def jfind_def jset_def find_set_member split: json.splits)

lemma jfind_jobject: "jfind k (jobject kvs) = map_of (rev kvs) k"
proof -
  have "map_of (fold (\<lambda>(k, v). set_member k v) kvs ms) k = (map_of ms ++ map_of (rev kvs)) k" for ms
    by (induction kvs arbitrary: ms) (auto simp: find_set_member map_add_def split: option.splits)
  from this [of "[]"] show ?thesis by (simp add: jobject_def jfind_def)
qed

lemma erase_set_member: "filter (\<lambda>m. fst m \<noteq> k) (set_member k v ms) = filter (\<lambda>m. fst m \<noteq> k) ms"
  by (induction ms) auto

lemma jerase_jset: "jerase k (jset k v j) = jerase k j"
  by (simp add: jerase_def jset_def erase_set_member split: json.splits)

lemma is_object_simps [simp]: "is_object (jset k v j) = is_object j" "is_object (jobject kvs)"
  by (auto simp: is_object_def jset_def jobject_def split: json.splits)

lemma to_signed_id: "- (2 ^ 63) \<le> i \<Longrightarrow> i < 2 ^ 63 \<Longrightarrow> to_signed 64 i = i"
  by (simp add: to_signed_def)

lemma hex_char_facts:
  assumes "n < 16"
  shows "isHexDigit (hex_char n)" "tolower (hex_char n) = hex_char n"
  using assms by (auto simp: isHexDigit_def hex_char_def tolower_def isupper_def Let_def)

lemma hmac_hex_lower: "toLowerAscii (hmacSha256Hex HMAC k d) = hmacSha256Hex HMAC k d"
proof -
  have "toLowerAscii (concat (map (\<lambda>b. [hex_char (code b div 16), hex_char (code b mod 16)]) bs)) =
      concat (map (\<lambda>b. [hex_char (code b div 16), hex_char (code b mod 16)]) bs)" for bs
    by (induction bs) (auto simp: toLowerAscii_def hex_char_facts code_less less_mult_imp_div_less)
  then show ?thesis by (simp add: hmacSha256Hex_def)
qed

lemma hmac_hex_string: "length (HMAC k d) = 32 \<Longrightarrow> isHexString (hmacSha256Hex HMAC k d) 64 64"
proof -
  have "list_all isHexDigit (concat (map (\<lambda>b. [hex_char (code b div 16), hex_char (code b mod 16)]) bs)) \<and>
      length (concat (map (\<lambda>b. [hex_char (code b div 16), hex_char (code b mod 16)]) bs)) = 2 * length bs" for bs
    by (induction bs) (auto simp: hex_char_facts code_less less_mult_imp_div_less)
  then show "length (HMAC k d) = 32 \<Longrightarrow> isHexString (hmacSha256Hex HMAC k d) 64 64"
    by (simp add: isHexString_def hmacSha256Hex_def)
qed

lemma no_newline:
  "isSafeIdentifier s a b \<Longrightarrow> newline \<notin> set s" "isHexString s a b \<Longrightarrow> newline \<notin> set s" "newline \<notin> set (to_dec_int i)"
proof -
  have nl: "\<not> isalnum newline" "\<not> isHexDigit newline" "\<not> isdigit newline"
    by (simp_all add: newline_def char_class isHexDigit_def code_def)
  show "newline \<notin> set s" if "isSafeIdentifier s a b"
    using that nl(1) unfolding isSafeIdentifier_def list_all_iff newline_def by (auto split: if_splits)
  show "newline \<notin> set s" if "isHexString s a b"
    using that nl(2) unfolding isHexString_def list_all_iff by (auto split: if_splits)
  have "newline \<notin> set (to_dec n)" for n using to_dec_digits nl(3) by blast
  then show "newline \<notin> set (to_dec_int i)" by (simp add: to_dec_int_def newline_def)
qed

lemma split_at_newline:
  "newline \<notin> set a \<Longrightarrow> newline \<notin> set b \<Longrightarrow> a @ newline # x = b @ newline # y \<Longrightarrow> a = b \<and> x = y"
  by (induction a arbitrary: b; case_tac b) auto

lemma to_dec_int_inj: "to_dec_int i = to_dec_int j \<Longrightarrow> i = j"
proof -
  have "\<not> isdigit (CHR ''-'')" by (simp add: isdigit_def code_def)
  then have dash: "to_dec n \<noteq> CHR ''-'' # s" "CHR ''-'' # s \<noteq> to_dec n" for s n
    using to_dec_digits list.set_intros(1) by metis+
  have inj: "m = n" if "to_dec m = to_dec n" for m n using that dec_val_to_dec by metis
  show "to_dec_int i = to_dec_int j \<Longrightarrow> i = j"
    by (cases "i < 0"; cases "j < 0") (auto simp: to_dec_int_def dash dest: inj)
qed


section \<open>What the envelope promises\<close>


text \<open>A signer and a digest to evaluate the checks on.\<close>

definition sample_hmac :: hmac where
  "sample_hmac k d = replicate 32 (CHR 0x00)"

definition sample_dump :: "json \<Rightarrow> string" where
  "sample_dump j = ''{}''"

definition sample_command :: json where
  "sample_command = jobject [(''command'', JString ''release''), (''lease_id'', JString ''L1'')]"

lemma signed_envelope:
  assumes obj: "is_object msg" and w: "isSafeIdentifier w 1 128" and i: "isSafeIdentifier cid 1 128"
    and n: "isHexString n 16 128" and len: "\<And>d. length (HMAC secret d) = 32"
    and t: "issued \<le> now + 30" "now \<le> expires" "issued < expires" "expires \<le> issued + 900"
    and r: "- (2 ^ 63) \<le> issued" "expires < 2 ^ 63"
  shows "verifyEnvelope HMAC dump (signCommand HMAC dump msg secret w cid n issued expires) secret w now c =
    (if fst (checkAndInsert n expires now c) then VOk else ReplayedNonce, snd (checkAndInsert n expires now c))"
proof -
  let ?sig = "hmacSha256Hex HMAC secret (signingString w cid issued expires n (canonicalBody dump msg))"
  let ?auth = "jobject [(''worker_id'', JString w), (''command_id'', JString cid), (''issued_at'', JInt issued),
      (''expires_at'', JInt expires), (''nonce'', JString n), (''sig'', JString ?sig)]"
  let ?m = "signCommand HMAC dump msg secret w cid n issued expires"
  have m: "?m = jset ''auth'' ?auth msg" by (simp add: signCommand_def Let_def)
  have f: "jfind ''auth'' ?m = Some ?auth" "is_object ?m" using obj by (simp_all add: m jfind_jset)
  have s: "to_signed 64 issued = issued" "to_signed 64 expires = expires" using r t by (simp_all add: to_signed_id)
  have a: "read_auth ?auth = Some \<lparr>auth_worker = w, auth_command = cid, auth_nonce = n, auth_sig = ?sig,
      auth_issued = issued, auth_expires = expires\<rparr>"
    by (simp add: read_auth_def getStringField_def getInt64Field_def jfind_jobject s)
  have b: "canonicalBody dump ?m = canonicalBody dump msg" by (simp add: canonicalBody_def m jerase_jset)
  have g: "isHexString ?sig 64 64" by (rule hmac_hex_string) (rule len)
  show ?thesis
    unfolding verifyEnvelope_def f
    using w i n t g
    by (simp add: f a b Let_def kMaxIdLen_def kMinNonceHexLen_def kMaxNonceHexLen_def kClockSkewSec_def kMaxLifetimeSec_def
        constantTimeHexEquals_def split: prod.splits)
qed

lemma sample_signed:
  assumes "1000 \<le> now" and "now \<le> 1060"
  shows "verifyEnvelope sample_hmac sample_dump
      (signCommand sample_hmac sample_dump sample_command ''s'' ''rig-1'' ''c1'' ''0123456789abcdef'' 1000 1060)
      ''s'' ''rig-1'' now c =
    (if fst (checkAndInsert ''0123456789abcdef'' 1060 now c) then VOk else ReplayedNonce,
     snd (checkAndInsert ''0123456789abcdef'' 1060 now c))"
  by (rule signed_envelope) (use assms in
    \<open>simp_all add: sample_command_def sample_hmac_def isSafeIdentifier_def isHexString_def isHexDigit_def
      char_class code_def\<close>)


text \<open>
  C20 (no replay): once a nonce has been accepted, it is rejected at every later time before its
  expiry, as long as fewer than \<open>capacity\<close> further nonces have been checked meanwhile.
\<close>

theorem nonce_replay_rejected:
  assumes "nonce_inv c" and "checkAndInsert n e now c = (True, c')" and "length calls < capacity c"
    and "\<forall>(n', e', now') \<in> set calls. now' < e" and "later < e"
  shows "nonce_inv (check_all calls c') \<and> fst (checkAndInsert n e'' later (check_all calls c')) = False"
proof -
  have c': "c' = snd (checkAndInsert n e now c)" using assms(2) by simp
  have inv: "nonce_inv c'" "capacity c' = capacity c" using checkAndInsert_inv [OF assms(1)] c' by simp_all
  have "remembers 0 n e c'" unfolding c' by (rule inserted_remembers) (use assms(1,2) in simp_all)
  then have "remembers (0 + length calls) n e (check_all calls c')"
    by (rule remembers_all [OF inv(1)]) (use assms(3,4) inv(2) in auto)
  moreover have "nonce_inv (check_all calls c')"
    unfolding check_all_def by (rule nonces.run_inv) (use inv in simp_all)
  ultimately show ?thesis using remembers_rejects assms(5) by blast
qed

theorem nonce_replay_rejected_witness:
  "fst (checkAndInsert ''aa'' 90 70 (check_all [(''bb'', 80, 20), (''cc'', 95, 60)]
     (snd (checkAndInsert ''aa'' 90 10 (NonceCache 4))))) = False"
proof -
  have "nonce_inv (NonceCache 4)" by (simp add: NonceCache_def nonce_inv_def)
  moreover have "checkAndInsert ''aa'' 90 10 (NonceCache 4) = (True, snd (checkAndInsert ''aa'' 90 10 (NonceCache 4)))"
    by (simp add: checkAndInsert_def NonceCache_def purgeExpired_def)
  ultimately show ?thesis
    using nonce_replay_rejected [of "NonceCache 4" "''aa''" 90 10 _ "[(''bb'', 80, 20), (''cc'', 95, 60)]" 70 90]
    by (simp add: NonceCache_def)
qed

text \<open>
  C37 (the signed text is unambiguous): two envelopes whose fields pass the charset checks and
  whose signing strings agree are the same in every field and in the body.
\<close>

theorem signingString_unambiguous:
  assumes "isSafeIdentifier w 1 128" and "isSafeIdentifier w' 1 128"
    and "isSafeIdentifier c 1 128" and "isSafeIdentifier c' 1 128"
    and "isHexString n 16 128" and "isHexString n' 16 128"
    and "signingString w c i e n b = signingString w' c' i' e' n' b'"
  shows "w = w' \<and> c = c' \<and> i = i' \<and> e = e' \<and> n = n' \<and> b = b'"
proof -
  note nl = no_newline(1) [OF assms(1)] no_newline(1) [OF assms(2)] no_newline(1) [OF assms(3)]
    no_newline(1) [OF assms(4)] no_newline(2) [OF assms(5)] no_newline(2) [OF assms(6)]
  have "w @ newline # c @ newline # to_dec_int i @ newline # to_dec_int e @ newline # n @ newline # b =
      w' @ newline # c' @ newline # to_dec_int i' @ newline # to_dec_int e' @ newline # n' @ newline # b'"
    using assms(7) by (simp add: signingString_def)
  note s1 = split_at_newline [OF nl(1,2) this]
  note s2 = split_at_newline [OF nl(3,4) conjunct2 [OF s1]]
  note s3 = split_at_newline [OF no_newline(3) no_newline(3) conjunct2 [OF s2]]
  note s4 = split_at_newline [OF no_newline(3) no_newline(3) conjunct2 [OF s3]]
  note s5 = split_at_newline [OF nl(5,6) conjunct2 [OF s4]]
  show ?thesis using s1 s2 s3 s4 s5 to_dec_int_inj by blast
qed

theorem signingString_unambiguous_witness:
  "signingString ''a'' ''b'' 1 2 ''0123456789abcdef'' ''x'' \<noteq> signingString ''a'' ''b'' 1 2 ''0123456789abcdee'' ''x''"
proof
  assume eq: "signingString ''a'' ''b'' 1 2 ''0123456789abcdef'' ''x'' = signingString ''a'' ''b'' 1 2 ''0123456789abcdee'' ''x''"
  have "isSafeIdentifier ''a'' 1 128" "isSafeIdentifier ''b'' 1 128" "isHexString ''0123456789abcdef'' 16 128"
    "isHexString ''0123456789abcdee'' 16 128"
    by (simp_all add: isSafeIdentifier_def isHexString_def isHexDigit_def char_class code_def)
  from signingString_unambiguous [OF this(1,1,2,2,3,4) eq] show False by simp
qed

text \<open>
  A signed command is accepted: a command signed with the secret for this worker, inside its
  window, verifies, provided its nonce is fresh; the digest is the 32 bytes of SHA-256.
\<close>

theorem sign_verify_roundtrip:
  assumes "is_object msg" and "isSafeIdentifier w 1 128" and "isSafeIdentifier cid 1 128" and "isHexString n 16 128"
    and "\<And>d. length (HMAC secret d) = 32" and "issued \<le> now + 30" and "now \<le> expires"
    and "issued < expires" and "expires \<le> issued + 900" and "- (2 ^ 63) \<le> issued" and "expires < 2 ^ 63"
    and "fst (checkAndInsert n expires now c)"
  shows "fst (verifyEnvelope HMAC dump (signCommand HMAC dump msg secret w cid n issued expires) secret w now c) = VOk"
  by (subst signed_envelope) (use assms in simp_all)

theorem sign_verify_roundtrip_witness:
  "fst (verifyEnvelope sample_hmac sample_dump
      (signCommand sample_hmac sample_dump sample_command ''s'' ''rig-1'' ''c1'' ''0123456789abcdef'' 1000 1060)
      ''s'' ''rig-1'' 1010 (NonceCache 4)) = VOk"
  by (rule sign_verify_roundtrip)
    (simp_all add: sample_command_def sample_hmac_def isSafeIdentifier_def isHexString_def isHexDigit_def
      char_class code_def checkAndInsert_def NonceCache_def purgeExpired_def)

text \<open>
  C38 (a replay at the last second): the cache drops a nonce at the second it expires, while the
  envelope is still valid in that second. A command accepted before by an empty cache is
  therefore accepted again at \<open>expires_at\<close>.
\<close>

theorem replay_accepted_at_expiry:
  assumes "verifyEnvelope HMAC dump msg secret worker now (NonceCache cap) = (VOk, c')"
    and "jfind ''auth'' msg = Some auth" and "read_auth auth = Some a"
  shows "fst (verifyEnvelope HMAC dump msg secret worker (auth_expires a) c') = VOk"
proof -
  have c': "c' = (NonceCache cap)\<lparr>by_nonce := [(auth_nonce a, auth_expires a)], insertion_order := [auth_nonce a]\<rparr>"
    using assms
    by (auto simp: verifyEnvelope_def Let_def checkAndInsert_def NonceCache_def purgeExpired_def split: if_splits prod.splits)
  have "fst (checkAndInsert (auth_nonce a) (auth_expires a) (auth_expires a) c')"
    by (simp add: c' checkAndInsert_def purgeExpired_def erase_nonce_def NonceCache_def)
  then show ?thesis
    using assms
    by (auto simp: verifyEnvelope_def Let_def kClockSkewSec_def split: if_splits prod.splits option.splits)
qed

theorem replay_accepted_at_expiry_witness:
  "\<exists>c'. fst (verifyEnvelope sample_hmac sample_dump
      (signCommand sample_hmac sample_dump sample_command ''s'' ''rig-1'' ''c1'' ''0123456789abcdef'' 1000 1060)
      ''s'' ''rig-1'' 1060 c') = VOk \<and> map fst (by_nonce c') = [''0123456789abcdef'']"
proof -
  let ?m = "signCommand sample_hmac sample_dump sample_command ''s'' ''rig-1'' ''c1'' ''0123456789abcdef'' 1000 1060"
  define c' where "c' = snd (checkAndInsert ''0123456789abcdef'' 1060 1010 (NonceCache 4))"
  have v: "verifyEnvelope sample_hmac sample_dump ?m ''s'' ''rig-1'' 1010 (NonceCache 4) = (VOk, c')"
    using sample_signed [of 1010 "NonceCache 4"]
    by (simp add: c'_def checkAndInsert_def NonceCache_def purgeExpired_def)
  have f: "jfind ''auth'' ?m = Some (jobject [(''worker_id'', JString ''rig-1''), (''command_id'', JString ''c1''),
      (''issued_at'', JInt 1000), (''expires_at'', JInt 1060), (''nonce'', JString ''0123456789abcdef''),
      (''sig'', JString (hmacSha256Hex sample_hmac ''s'' (signingString ''rig-1'' ''c1'' 1000 1060
        ''0123456789abcdef'' (canonicalBody sample_dump sample_command))))])" (is "_ = Some ?auth")
    by (simp add: signCommand_def Let_def jfind_jset sample_command_def)
  obtain a where a: "read_auth ?auth = Some a" "auth_expires a = 1060"
    by (simp add: read_auth_def getStringField_def getInt64Field_def jfind_jobject to_signed_id)
  have "map fst (by_nonce c') = [''0123456789abcdef'']"
    by (simp add: c'_def checkAndInsert_def NonceCache_def purgeExpired_def)
  then show ?thesis using replay_accepted_at_expiry [OF v f a(1)] a(2) by auto
qed

end
