(* ===== verification/Platform.thy ===== *)
theory Platform
  imports Command_Envelope Console_Log
begin

text \<open>
  The hashpower marketplace client: \<open>src/PlatformManager.cpp\<close> with \<open>src/LeaseManager.cpp\<close>,
  \<open>src/MiningCoordinator.cpp\<close>, \<open>src/WorkerReporter.cpp\<close>, the mining identity of
  \<open>src/MiningCommon.cpp\<close> and the address check of \<open>src/EthereumAddressValidator.cpp\<close>. Every handler
  is a step on one state that may throw (a JSON type error), as in the code; what it reads from
  outside (clocks, the MQTT connection, statistics) comes from streams of the environment, and
  what it does outwards is an event. The lines the handlers print with \<open>std::cout\<close> and
  \<open>std::cerr\<close> are left out; those of \<open>ConsoleLog\<close> are events. The three threads interleave at
  whole handlers.
\<close>


section \<open>Addresses\<close>

text \<open>\<open>std::regex_match\<close> against \<open>^0x[0-9a-fA-F]{40}$\<close>.\<close>

definition address_shape :: "string \<Rightarrow> bool" where
  "address_shape s = (length s = 42 \<and> take 2 s = ''0x'' \<and> list_all isHexDigit (drop 2 s))"

definition toupper :: "char \<Rightarrow> char" where
  "toupper c = (if islower c then char_of (code c - 32) else c)"

text \<open>\<open>keccak_256\<close> gives the digest in hexadecimal.\<close>

definition to_checksum_address :: "(string \<Rightarrow> string) \<Rightarrow> string \<Rightarrow> string" where
  "to_checksum_address keccak_256 address =
     (let address_lower = map tolower (drop 2 address);
          hash = keccak_256 address_lower in
      ''0x'' @ map (\<lambda>i. if code (hash ! i) \<ge> code (CHR ''8'') then toupper (address_lower ! i)
                         else address_lower ! i) [0..<length address_lower])"

definition is_valid_ethereum_address :: "(string \<Rightarrow> string) \<Rightarrow> string \<Rightarrow> bool" where
  "is_valid_ethereum_address keccak_256 address =
     (if \<not> address_shape address then False else address = to_checksum_address keccak_256 address)"


section \<open>Data\<close>

datatype PlatformState = IDLE | AVAILABLE | LEASED | MINING | COMPLETED | ERROR_STATE

definition platformStateToString :: "PlatformState \<Rightarrow> string" where
  "platformStateToString st = (case st of
       IDLE \<Rightarrow> ''IDLE'' | AVAILABLE \<Rightarrow> ''AVAILABLE'' | LEASED \<Rightarrow> ''LEASED'' | MINING \<Rightarrow> ''MINING''
     | COMPLETED \<Rightarrow> ''COMPLETED'' | ERROR_STATE \<Rightarrow> ''ERROR'')"

datatype MiningMode = SELF_MINING | PLATFORM_MINING

record MiningContext =
  ctx_mode :: MiningMode
  ctx_address :: string
  ctx_prefix :: string
  ctx_consumer_id :: string
  ctx_lease_id :: string

definition default_context :: MiningContext where
  "default_context = \<lparr>ctx_mode = SELF_MINING, ctx_address = [], ctx_prefix = [],
     ctx_consumer_id = [], ctx_lease_id = []\<rparr>"

record MiningIdentityConfig =
  userAddress :: string
  selfMiningPrefix :: string
  testBlockPattern :: string

text \<open>Times of the steady clock are in nanoseconds.\<close>

record LeaseInfo =
  lease_id :: string
  consumer_id :: string
  consumer_address :: string
  lease_prefix :: string
  duration_sec :: int
  start_time :: int
  blocks_found :: int

record gpuInfo =
  gpu_index :: int
  gpu_busId :: int
  gpu_name :: string
  gpu_memory :: int

record QueuedCommand =
  cmd_topic :: string
  cmd_payload :: string

datatype platform_event =
    PPublish string json
  | PConnect bool
  | PSubscribe string
  | PCallback bool
  | PDisconnect
  | PStateChange PlatformState PlatformState
  | PLog Level string

record platform =
  pf_state :: PlatformState
  pf_running :: bool
  current_lease :: "LeaseInfo option"
  coordinator :: MiningContext
  identity :: MiningIdentityConfig
  globalDifficulty :: int
  machineId :: string
  expected_worker_id :: string
  eth_address :: string
  pf_gpus :: "gpuInfo list"
  command_secret :: string
  nonces :: nonce_cache
  command_queue :: "QueuedCommand list"
  dropped_commands :: u64
  last_drop_log :: int
  state_change_cb :: bool
  pf_reads :: nat
  pf_events :: "platform_event list"

definition COMMAND_QUEUE_CAPACITY :: nat where "COMMAND_QUEUE_CAPACITY = 256"
definition NONCE_CACHE_CAPACITY :: nat where "NONCE_CACHE_CAPACITY = 4096"
definition PLATFORM_PREFIX_LENGTH :: nat where "PLATFORM_PREFIX_LENGTH = 16"

text \<open>
  The world: \<open>steady_at\<close> and \<open>epoch_at\<close> are the clocks, \<open>connected_at\<close> and \<open>connect_at\<close> answer
  \<open>isConnected\<close> and \<open>connect\<close>, \<open>stats_at\<close> is the hashrate total, the number of GPUs and the accepted
  blocks gathered from the statistics, \<open>uptime_at\<close> the uptime. The functions are the parsers and
  digests of the libraries.
\<close>

record world =
  steady_at :: "nat \<Rightarrow> int"
  epoch_at :: "nat \<Rightarrow> int"
  connected_at :: "nat \<Rightarrow> bool"
  connect_at :: "nat \<Rightarrow> bool"
  stats_at :: "nat \<Rightarrow> double \<times> int \<times> int"
  uptime_at :: "nat \<Rightarrow> int"
  json_parse :: "string \<Rightarrow> json option"
  json_dump :: "json \<Rightarrow> string"
  HMAC_of :: hmac
  keccak :: "string \<Rightarrow> string"
  fixed2 :: "double \<Rightarrow> string"

definition observe :: "(nat \<Rightarrow> 'a) \<Rightarrow> (platform, 'a) step" where
  "observe f = (\<lambda>s. (Inr (f (pf_reads s)), s\<lparr>pf_reads := pf_reads s + 1\<rparr>))"

definition tell :: "platform_event \<Rightarrow> (platform, unit) step" where
  "tell ev = modify (\<lambda>s. s\<lparr>pf_events := pf_events s @ [ev]\<rparr>)"

definition log_platform :: "Level \<Rightarrow> string \<Rightarrow> (platform, unit) step" where
  "log_platform l msg = tell (PLog l msg)"

text \<open>\<open>msg.value(k, d)\<close> for a string default: a member of another type throws.\<close>

definition value_string :: "json \<Rightarrow> string \<Rightarrow> string \<Rightarrow> (platform, string) step" where
  "value_string msg k d =
     (if \<not> is_object msg then throw ''type_error.306''
      else case jfind k msg of
        None \<Rightarrow> ret d
      | Some (JString s) \<Rightarrow> ret s
      | Some _ \<Rightarrow> throw ''type_error.302'')"


section \<open>The lease manager and the coordinator\<close>

definition startLease :: "string \<Rightarrow> string \<Rightarrow> string \<Rightarrow> string \<Rightarrow> int \<Rightarrow> int \<Rightarrow> LeaseInfo option \<Rightarrow> bool \<times> LeaseInfo option" where
  "startLease lid cid addr pre dur now cur =
     (case cur of
        Some _ \<Rightarrow> (False, cur)
      | None \<Rightarrow> (True, Some \<lparr>lease_id = lid, consumer_id = cid, consumer_address = addr,
                   lease_prefix = pre, duration_sec = dur, start_time = now, blocks_found = 0\<rparr>))"

definition endLease :: "LeaseInfo option \<Rightarrow> bool \<times> LeaseInfo option" where
  "endLease cur = (case cur of None \<Rightarrow> (False, None) | Some _ \<Rightarrow> (True, None))"

definition elapsed_seconds :: "int \<Rightarrow> LeaseInfo \<Rightarrow> int" where
  "elapsed_seconds now l = cdiv (now - start_time l) 1000000000"

definition isExpiredInternal :: "int \<Rightarrow> LeaseInfo option \<Rightarrow> bool" where
  "isExpiredInternal now cur =
     (case cur of
        None \<Rightarrow> True
      | Some l \<Rightarrow> if duration_sec l \<le> 0 then False else elapsed_seconds now l \<ge> duration_sec l)"

definition isExpired :: "int \<Rightarrow> LeaseInfo option \<Rightarrow> bool" where
  "isExpired now cur = isExpiredInternal now cur"

definition hasActiveLease :: "int \<Rightarrow> LeaseInfo option \<Rightarrow> bool" where
  "hasActiveLease now cur = (cur \<noteq> None \<and> \<not> isExpiredInternal now cur)"

definition recordBlock :: "LeaseInfo option \<Rightarrow> LeaseInfo option" where
  "recordBlock cur = map_option (\<lambda>l. l\<lparr>blocks_found := blocks_found l + 1\<rparr>) cur"

definition remainingSeconds :: "int \<Rightarrow> LeaseInfo option \<Rightarrow> int" where
  "remainingSeconds now cur =
     (case cur of
        None \<Rightarrow> 0
      | Some l \<Rightarrow>
          (let remaining = duration_sec l - to_signed 32 (elapsed_seconds now l) in
           if remaining > 0 then remaining else 0))"

definition toMiningContext :: "MiningIdentityConfig \<Rightarrow> LeaseInfo option \<Rightarrow> MiningContext" where
  "toMiningContext ident cur =
     (case cur of
        None \<Rightarrow> default_context\<lparr>ctx_mode := SELF_MINING, ctx_address := userAddress ident\<rparr>
      | Some l \<Rightarrow> \<lparr>ctx_mode = PLATFORM_MINING, ctx_address = consumer_address l, ctx_prefix = lease_prefix l,
                   ctx_consumer_id = consumer_id l, ctx_lease_id = lease_id l\<rparr>)"

definition coordinator_switchToSelfMining :: "MiningContext \<Rightarrow> MiningContext" where
  "coordinator_switchToSelfMining ctx =
     ctx\<lparr>ctx_mode := SELF_MINING, ctx_address := [], ctx_prefix := [], ctx_consumer_id := [],
         ctx_lease_id := []\<rparr>"

definition coordinator_switchToPlatformMining ::
  "string \<Rightarrow> string \<Rightarrow> string \<Rightarrow> string \<Rightarrow> MiningContext \<Rightarrow> MiningContext" where
  "coordinator_switchToPlatformMining addr pre cid lid ctx =
     ctx\<lparr>ctx_mode := PLATFORM_MINING, ctx_address := addr, ctx_prefix := pre, ctx_consumer_id := cid,
         ctx_lease_id := lid\<rparr>"

definition updateContext :: "MiningContext \<Rightarrow> MiningContext \<Rightarrow> MiningContext" where
  "updateContext ctx old = ctx"

definition isSelfMining :: "MiningContext \<Rightarrow> bool" where
  "isSelfMining ctx = (ctx_mode ctx = SELF_MINING)"

definition isPlatformMining :: "MiningContext \<Rightarrow> bool" where
  "isPlatformMining ctx = (ctx_mode ctx = PLATFORM_MINING)"

definition setMiningUserAddress :: "string \<Rightarrow> MiningIdentityConfig \<Rightarrow> MiningIdentityConfig" where
  "setMiningUserAddress a c = c\<lparr>userAddress := a\<rparr>"

definition setSelfMiningPrefix :: "string \<Rightarrow> MiningIdentityConfig \<Rightarrow> MiningIdentityConfig" where
  "setSelfMiningPrefix p c = c\<lparr>selfMiningPrefix := p\<rparr>"

definition setTestBlockPattern :: "string \<Rightarrow> MiningIdentityConfig \<Rightarrow> MiningIdentityConfig" where
  "setTestBlockPattern p c = c\<lparr>testBlockPattern := p\<rparr>"


section \<open>Reports to the platform\<close>

definition buildTopic :: "string \<Rightarrow> platform \<Rightarrow> string" where
  "buildTopic sfx s = ''xenminer/'' @ expected_worker_id s @ ''/'' @ sfx"

definition publish :: "string \<Rightarrow> json \<Rightarrow> (platform, unit) step" where
  "publish sfx payload = bind_step (gets (buildTopic sfx)) (\<lambda>topic. tell (PPublish topic payload))"

definition gpu_json :: "gpuInfo \<Rightarrow> json" where
  "gpu_json g = jobject [(''index'', JInt (gpu_index g)), (''name'', JString (gpu_name g)),
     (''memory_gb'', JInt (gpu_memory g)), (''bus_id'', JInt (gpu_busId g))]"

definition sendRegistration :: "world \<Rightarrow> (platform, unit) step" where
  "sendRegistration w =
     bind_step (gets (\<lambda>s. (machineId s, eth_address s, pf_gpus s))) (\<lambda>(mid, addr, gs).
     bind_step (observe (epoch_at w)) (\<lambda>now.
     publish ''register'' (jobject
       [(''worker_id'', JString mid), (''eth_address'', JString addr),
        (''gpu_count'', JInt (int (length gs))), (''total_memory_gb'', JInt (sum_list (map gpu_memory gs))),
        (''gpus'', JArray (map gpu_json gs)), (''version'', JString ''2.0.0''),
        (''timestamp'', JInt now)])))"

definition sendHeartbeat :: "world \<Rightarrow> double \<times> int \<times> int \<Rightarrow> (platform, unit) step" where
  "sendHeartbeat w stats =
     bind_step (gets (\<lambda>s. (machineId s, identity s, globalDifficulty s))) (\<lambda>(mid, ident, diff).
     bind_step (observe (uptime_at w)) (\<lambda>up.
     bind_step (observe (epoch_at w)) (\<lambda>now.
     publish ''heartbeat'' (jobject
       [(''worker_id'', JString mid), (''hashrate'', JFloat (fst stats)),
        (''active_gpus'', JInt (fst (snd stats))), (''accepted_blocks'', JInt (snd (snd stats))),
        (''difficulty'', JInt diff), (''address'', JString (userAddress ident)),
        (''prefix'', JString (selfMiningPrefix ident)),
        (''block_pattern'', JString (testBlockPattern ident)),
        (''uptime_sec'', JInt up), (''timestamp'', JInt now)]))))"

definition sendStatusUpdate :: "world \<Rightarrow> string \<Rightarrow> string \<Rightarrow> string \<Rightarrow> (platform, unit) step" where
  "sendStatusUpdate w st lid detail =
     bind_step (gets machineId) (\<lambda>mid.
     bind_step (observe (epoch_at w)) (\<lambda>now.
     let payload0 = jobject [(''worker_id'', JString mid), (''state'', JString st), (''timestamp'', JInt now)];
         payload1 = (if lid \<noteq> [] then jset ''lease_id'' (JString lid) payload0 else payload0);
         payload2 = (if detail \<noteq> [] then jset ''detail'' (JString detail) payload1 else payload1) in
     publish ''status'' payload2))"

definition sendBlockFound ::
  "world \<Rightarrow> string \<Rightarrow> string \<Rightarrow> string \<Rightarrow> string \<Rightarrow> nat \<Rightarrow> double \<Rightarrow> (platform, unit) step" where
  "sendBlockFound w lid hash k acc tries rate =
     bind_step (gets machineId) (\<lambda>mid.
     bind_step (observe (epoch_at w)) (\<lambda>now.
     publish ''block'' (jobject
       [(''worker_id'', JString mid), (''lease_id'', JString lid), (''hash'', JString hash),
        (''key'', JString k), (''account'', JString acc), (''attempts'', JInt (int tries)),
        (''hashrate'', JString (fixed2 w rate)), (''timestamp'', JInt now)])))"


section \<open>The platform manager\<close>

definition describeCommand :: "json \<Rightarrow> string" where
  "describeCommand msg =
     (let command = string_or_empty ''command'' msg;
          action = string_or_empty ''action'' msg;
          label = (if command \<noteq> [] then command else action) in
      if label = [] then ''<unknown>''
      else if \<not> isSafeIdentifier label 1 48 then ''<unparseable>''
      else if command = [] then ''action:'' @ label else label)"

definition PlatformManager ::
  "string \<Rightarrow> string \<Rightarrow> gpuInfo list \<Rightarrow> string \<Rightarrow> MiningIdentityConfig \<Rightarrow> int \<Rightarrow> platform" where
  "PlatformManager mid addr gs secret ident diff =
     \<lparr>pf_state = IDLE, pf_running = False, current_lease = None, coordinator = default_context,
      identity = ident, globalDifficulty = diff, machineId = mid, expected_worker_id = mid,
      eth_address = addr, pf_gpus = gs, command_secret = secret,
      nonces = NonceCache NONCE_CACHE_CAPACITY, command_queue = [], dropped_commands = 0,
      last_drop_log = 0, state_change_cb = False, pf_reads = 0, pf_events = []\<rparr>"

definition setCommandSecret :: "string \<Rightarrow> platform \<Rightarrow> platform" where
  "setCommandSecret secret s = s\<lparr>command_secret := secret\<rparr>"

definition setStateChangeCallback :: "platform \<Rightarrow> platform" where
  "setStateChangeCallback s = s\<lparr>state_change_cb := True\<rparr>"

definition transitionTo :: "world \<Rightarrow> PlatformState \<Rightarrow> (platform, unit) step" where
  "transitionTo w new_state =
     bind_step (gets pf_state) (\<lambda>old_state.
     seq_step (modify (\<lambda>s. s\<lparr>pf_state := new_state\<rparr>))
     (if old_state = new_state then ret ()
      else
        bind_step (observe (connected_at w)) (\<lambda>connected.
        seq_step
          (when_step connected
            (bind_step (gets (\<lambda>s. case current_lease s of Some l \<Rightarrow> lease_id l | None \<Rightarrow> [])) (\<lambda>lid.
             sendStatusUpdate w (platformStateToString new_state) lid [])))
          (bind_step (gets state_change_cb) (\<lambda>cb.
           when_step cb (tell (PStateChange old_state new_state)))))))"

definition switchToSelfMining :: "(platform, unit) step" where
  "switchToSelfMining = modify (\<lambda>s. s\<lparr>coordinator :=
     updateContext (default_context\<lparr>ctx_mode := SELF_MINING, ctx_address := userAddress (identity s)\<rparr>)
       (coordinator s)\<rparr>)"

definition switchToPlatformMining :: "MiningContext \<Rightarrow> (platform, unit) step" where
  "switchToPlatformMining ctx = modify (\<lambda>s. s\<lparr>coordinator := updateContext ctx (coordinator s)\<rparr>)"

definition lease_ended :: "(platform, unit) step" where
  "lease_ended = modify (\<lambda>s. s\<lparr>current_lease := snd (endLease (current_lease s))\<rparr>)"

text \<open>End the lease if it is active, as \<open>stop\<close> and the pause action do.\<close>

definition end_active_lease :: "world \<Rightarrow> (platform, unit) step" where
  "end_active_lease w =
     bind_step (observe (steady_at w)) (\<lambda>now.
     bind_step (gets (\<lambda>s. hasActiveLease now (current_lease s))) (\<lambda>active.
     when_step active (seq_step lease_ended switchToSelfMining)))"

definition start_platform :: "world \<Rightarrow> (platform, bool) step" where
  "start_platform w =
     bind_step (gets pf_running) (\<lambda>run.
     if run then ret True
     else
       bind_step (observe (connect_at w)) (\<lambda>ok.
       seq_step (tell (PConnect ok))
       (if \<not> ok then seq_step (transitionTo w ERROR_STATE) (ret False)
        else
          seq_step (modify (\<lambda>s. s\<lparr>pf_running := True\<rparr>))
          (bind_step (gets command_secret) (\<lambda>secret.
           seq_step (when_step (secret = [])
             (log_platform Warn (''SECURITY: no platform_command_secret configured '' @ em_dash @
               '' MQTT commands are UNAUTHENTICATED. Lease assignment and pause/resume remain enabled; '' @
               ''payout-address/difficulty/prefix/pattern changes and remote shutdown '' @
               ''are DISABLED until a shared secret is set in config.txt '' @
               ''(platform_command_secret=...).'')))
           (bind_step (gets (buildTopic ''task'')) (\<lambda>task.
            bind_step (gets (buildTopic ''control'')) (\<lambda>control.
            seq_step (tell (PSubscribe task))
            (seq_step (tell (PSubscribe control))
            (seq_step (tell (PCallback True))
            (seq_step (sendRegistration w)
            (seq_step (transitionTo w AVAILABLE) (ret True)))))))))))))"

definition stop_platform :: "world \<Rightarrow> (platform, unit) step" where
  "stop_platform w =
     bind_step (gets pf_running) (\<lambda>run.
     seq_step (modify (\<lambda>s. s\<lparr>pf_running := False\<rparr>))
     (if \<not> run then ret ()
      else
        seq_step (tell (PCallback False))
        (seq_step (end_active_lease w)
        (seq_step (sendStatusUpdate w ''offline'' [] [])
        (seq_step (tell PDisconnect) (transitionTo w IDLE))))))"

definition onBlockFound ::
  "world \<Rightarrow> string \<Rightarrow> string \<Rightarrow> string \<Rightarrow> nat \<Rightarrow> double \<Rightarrow> (platform, unit) step" where
  "onBlockFound w hash k acc tries rate =
     bind_step (gets pf_state) (\<lambda>current.
     if current = MINING then
       bind_step (gets current_lease) (\<lambda>lease.
       case lease of
         None \<Rightarrow> ret ()
       | Some l \<Rightarrow>
           seq_step (modify (\<lambda>s. s\<lparr>current_lease := recordBlock (current_lease s)\<rparr>))
             (sendBlockFound w (lease_id l) hash k acc tries rate))
     else if current = AVAILABLE then sendBlockFound w [] hash k acc tries rate
     else ret ())"

definition drop_message :: "bool \<Rightarrow> u64 \<Rightarrow> string" where
  "drop_message oversized dropped =
     (if oversized then ''oversized MQTT payload dropped''
      else ''command queue full '' @ em_dash @ '' dropping newest'') @
     '' (total dropped: '' @ to_dec (unat dropped) @ '')''"

definition enqueueCommand :: "world \<Rightarrow> string \<Rightarrow> string \<Rightarrow> (platform, unit) step" where
  "enqueueCommand w topic payload =
     (let oversized = length payload > kMaxPayloadBytes in
      bind_step (gets (\<lambda>s. (pf_running s, length (command_queue s)))) (\<lambda>(run, size).
      if \<not> run then ret ()
      else if oversized \<or> size \<ge> COMMAND_QUEUE_CAPACITY then
        seq_step (modify (\<lambda>s. s\<lparr>dropped_commands := dropped_commands s + 1\<rparr>))
        (bind_step (observe (steady_at w)) (\<lambda>now.
         bind_step (gets last_drop_log) (\<lambda>last.
         when_step (last = 0 \<or> now - last \<ge> 5 * 1000000000)
           (seq_step (modify (\<lambda>s. s\<lparr>last_drop_log := now\<rparr>))
            (bind_step (gets dropped_commands) (\<lambda>n. log_platform Warn (drop_message oversized n)))))))
      else modify (\<lambda>s. s\<lparr>command_queue := command_queue s @ [\<lparr>cmd_topic = topic, cmd_payload = payload\<rparr>]\<rparr>)))"

definition authorizeCommand :: "world \<Rightarrow> json \<Rightarrow> (platform, bool) step" where
  "authorizeCommand w msg =
     bind_step (gets command_secret) (\<lambda>secret.
     if secret \<noteq> [] then
       bind_step (observe (epoch_at w)) (\<lambda>now.
       bind_step (gets (\<lambda>s. verifyEnvelope (HMAC_of w) (json_dump w) msg secret (expected_worker_id s) now (nonces s)))
         (\<lambda>(status, cache).
       seq_step (modify (\<lambda>s. s\<lparr>nonces := cache\<rparr>))
       (if status \<noteq> VOk then
          seq_step (log_platform Warn (''rejected command '' @ [CHR 0x27] @ describeCommand msg @ [CHR 0x27] @ '': '' @ verifyStatusName status))
            (ret False)
        else ret True)))
     else if isMutatingCommand msg then
       seq_step (log_platform Error (''REFUSED unsigned mutating command '' @ [CHR 0x27] @ describeCommand msg @ [CHR 0x27] @ '' '' @ em_dash @
         '' set platform_command_secret in config.txt to enable signed control'')) (ret False)
     else ret True)"


section \<open>Command handlers\<close>

definition handleRegisterAck :: "world \<Rightarrow> json \<Rightarrow> (platform, unit) step" where
  "handleRegisterAck w msg =
     (let accepted = (case jfind ''accepted'' msg of Some (JBool b) \<Rightarrow> b | _ \<Rightarrow> False) in
      if accepted then
        bind_step (gets pf_state) (\<lambda>st. when_step (st \<noteq> AVAILABLE) (transitionTo w AVAILABLE))
      else
        bind_step (value_string msg ''reason'' ''unknown'') (\<lambda>reason. transitionTo w ERROR_STATE))"

text \<open>The checks of \<open>assign_task\<close>, in order; the text is that of the console line.\<close>

definition assign_problem :: "world \<Rightarrow> string \<Rightarrow> string \<Rightarrow> string \<Rightarrow> string \<Rightarrow> int \<Rightarrow> string option" where
  "assign_problem w lid cid addr pre dur =
     (if \<not> isSafeIdentifier lid 1 64 \<or> \<not> isSafeIdentifier cid 1 64
      then Some ''assign_task rejected: invalid lease_id/consumer_id''
      else if \<not> is_valid_ethereum_address (keccak w) addr
      then Some ''assign_task rejected: invalid consumer_address''
      else if pre \<noteq> [] \<and> \<not> isHexString pre PLATFORM_PREFIX_LENGTH PLATFORM_PREFIX_LENGTH
      then Some (''assign_task rejected: invalid prefix (need '' @ to_dec PLATFORM_PREFIX_LENGTH @ '' hex chars)'')
      else if dur < 60 \<or> dur > 7 * 24 * 3600
      then Some ''assign_task rejected: duration_sec out of range''
      else None)"

definition begin_lease :: "world \<Rightarrow> string \<Rightarrow> string \<Rightarrow> string \<Rightarrow> string \<Rightarrow> int \<Rightarrow> (platform, unit) step" where
  "begin_lease w lid cid addr pre dur =
     seq_step (transitionTo w LEASED)
     (bind_step (observe (steady_at w)) (\<lambda>now.
      bind_step (gets (\<lambda>s. startLease lid cid addr pre dur now (current_lease s))) (\<lambda>(ok, lease).
      seq_step (modify (\<lambda>s. s\<lparr>current_lease := lease\<rparr>))
      (if \<not> ok then transitionTo w ERROR_STATE
       else
         bind_step (gets (\<lambda>s. toMiningContext (identity s) (current_lease s))) (\<lambda>ctx.
         seq_step (switchToPlatformMining ctx) (transitionTo w MINING))))))"

definition handleAssignTask :: "world \<Rightarrow> json \<Rightarrow> (platform, unit) step" where
  "handleAssignTask w msg =
     bind_step (gets pf_state) (\<lambda>st.
     if st \<noteq> AVAILABLE then ret ()
     else
       bind_step (value_string msg ''lease_id'' []) (\<lambda>lid.
       bind_step (value_string msg ''consumer_id'' []) (\<lambda>cid.
       bind_step (value_string msg ''consumer_address'' []) (\<lambda>addr.
       bind_step (value_string msg ''prefix'' []) (\<lambda>pre.
       let dur = (case jfind ''duration_sec'' msg of Some (JInt i) \<Rightarrow> to_signed 32 i | _ \<Rightarrow> 3600) in
       case assign_problem w lid cid addr pre dur of
         Some text \<Rightarrow> log_platform Warn text
       | None \<Rightarrow> begin_lease w lid cid addr pre dur)))))"

definition finish_lease :: "world \<Rightarrow> (platform, unit) step" where
  "finish_lease w =
     seq_step (transitionTo w COMPLETED)
     (seq_step lease_ended (seq_step switchToSelfMining (transitionTo w AVAILABLE)))"

definition handleRelease :: "world \<Rightarrow> json \<Rightarrow> (platform, unit) step" where
  "handleRelease w msg =
     bind_step (value_string msg ''lease_id'' []) (\<lambda>lid.
     if lid \<noteq> [] \<and> \<not> isSafeIdentifier lid 1 64
     then log_platform Warn ''release rejected: invalid lease_id''
     else
       bind_step (gets current_lease) (\<lambda>current.
       case current of
         None \<Rightarrow> ret ()
       | Some l \<Rightarrow> if lid \<noteq> [] \<and> lease_id l \<noteq> lid then ret () else finish_lease w))"

text \<open>The four settings of \<open>set_config\<close>, each with its own check.\<close>

definition set_difficulty :: "json \<Rightarrow> (platform, unit) step" where
  "set_difficulty config =
     (case jfind ''difficulty'' config of
        None \<Rightarrow> ret ()
      | Some (JInt i) \<Rightarrow>
          (let newDiff = to_signed 32 i in
           if newDiff \<ge> 1 \<and> newDiff \<le> 10000000 then modify (\<lambda>s. s\<lparr>globalDifficulty := newDiff\<rparr>)
           else log_platform Warn (''set_config: difficulty out of range '' @ em_dash @ '' ignored''))
      | Some _ \<Rightarrow> log_platform Warn (''set_config: difficulty not an integer '' @ em_dash @ '' ignored''))"

definition set_address :: "world \<Rightarrow> json \<Rightarrow> (platform, unit) step" where
  "set_address w config =
     (case jfind ''address'' config of
        None \<Rightarrow> ret ()
      | Some v \<Rightarrow>
          (let addr = (case v of JString a \<Rightarrow> a | _ \<Rightarrow> []) in
           if addr \<noteq> [] \<and> is_valid_ethereum_address (keccak w) addr then
             seq_step (modify (\<lambda>s. s\<lparr>identity := setMiningUserAddress addr (identity s)\<rparr>))
               (log_platform Error (''REMOTE PAYOUT ADDRESS CHANGE via signed platform command: mining '' @
                  ''address is now '' @ addr))
           else log_platform Warn (''set_config: invalid payout address '' @ em_dash @ '' ignored'')))"

definition set_prefix :: "json \<Rightarrow> (platform, unit) step" where
  "set_prefix config =
     (case jfind ''prefix'' config of
        None \<Rightarrow> ret ()
      | Some v \<Rightarrow>
          (let pfx = (case v of JString p \<Rightarrow> p | _ \<Rightarrow> [CHR 0x01]) in
           if pfx = [] \<or> isHexString pfx 1 32
           then modify (\<lambda>s. s\<lparr>identity := setSelfMiningPrefix pfx (identity s)\<rparr>)
           else log_platform Warn (''set_config: invalid prefix (hex, <=32 chars) '' @ em_dash @ '' ignored'')))"

definition set_pattern :: "json \<Rightarrow> (platform, unit) step" where
  "set_pattern config =
     (case jfind ''block_pattern'' config of
        None \<Rightarrow> ret ()
      | Some v \<Rightarrow>
          (let pat = (case v of JString p \<Rightarrow> p | _ \<Rightarrow> [CHR 0x01]) in
           if pat = [] \<or> isSafeIdentifier pat 1 16
           then modify (\<lambda>s. s\<lparr>identity := setTestBlockPattern pat (identity s)\<rparr>)
           else log_platform Warn (''set_config: invalid block_pattern '' @ em_dash @ '' ignored'')))"

definition handleSetConfig :: "world \<Rightarrow> json \<Rightarrow> (platform, unit) step" where
  "handleSetConfig w msg =
     (let config = (case jfind ''config'' msg of None \<Rightarrow> JObject [] | Some j \<Rightarrow> j) in
      if \<not> is_object config then log_platform Warn ''set_config rejected: config is not an object''
      else
        seq_step (set_difficulty config)
        (seq_step (set_address w config)
        (seq_step (set_prefix config)
        (seq_step (set_pattern config)
        (bind_step (observe (stats_at w)) (sendHeartbeat w))))))"

definition handleControl :: "world \<Rightarrow> json \<Rightarrow> (platform, unit) step" where
  "handleControl w msg =
     bind_step (value_string msg ''action'' []) (\<lambda>action.
     if length action > 32 then log_platform Warn ''ignored control message with oversized action field''
     else if action = ''pause'' then seq_step (end_active_lease w) (transitionTo w IDLE)
     else if action = ''resume'' then
       bind_step (gets pf_state) (\<lambda>st.
       when_step (st = IDLE) (seq_step (sendRegistration w) (transitionTo w AVAILABLE)))
     else if action = ''shutdown'' then
       seq_step (log_platform Warn (''signed remote shutdown command accepted '' @ em_dash @ '' stopping platform manager''))
         (stop_platform w)
     else if action = ''set_config'' then handleSetConfig w msg
     else ret ())"

definition dispatch_command :: "world \<Rightarrow> json \<Rightarrow> (platform, unit) step" where
  "dispatch_command w msg =
     bind_step (value_string msg ''command'' []) (\<lambda>command.
     if length command > 64 then log_platform Warn ''ignored message with oversized command field''
     else if command = ''register_ack'' then handleRegisterAck w msg
     else if command = ''assign_task'' then handleAssignTask w msg
     else if command = ''release'' then handleRelease w msg
     else handleControl w msg)"

text \<open>Every exception ends in the two \<open>catch\<close> clauses, which only print.\<close>

definition catch_all :: "(platform, unit) step \<Rightarrow> (platform, unit) step" where
  "catch_all m = (\<lambda>s. case m s of (_, s') \<Rightarrow> (Inr (), s'))"

definition onMessage :: "world \<Rightarrow> string \<Rightarrow> string \<Rightarrow> (platform, unit) step" where
  "onMessage w topic payload = catch_all
     (case json_parse w payload of
        None \<Rightarrow> throw ''parse_error''
      | Some msg \<Rightarrow>
          if \<not> is_object msg then log_platform Warn ''ignored non-object MQTT message''
          else bind_step (authorizeCommand w msg) (\<lambda>ok.
            if \<not> ok then ret () else dispatch_command w msg))"


section \<open>The threads\<close>

text \<open>One pass of each thread's loop, after its wait.\<close>

definition dispatch_pass :: "world \<Rightarrow> (platform, unit) step" where
  "dispatch_pass w =
     bind_step (gets (\<lambda>s. (pf_running s, command_queue s))) (\<lambda>(run, queue).
     if \<not> run then ret ()
     else case queue of
       [] \<Rightarrow> ret ()
     | cmd # rest \<Rightarrow>
         seq_step (modify (\<lambda>s. s\<lparr>command_queue := rest\<rparr>))
           (onMessage w (cmd_topic cmd) (cmd_payload cmd)))"

definition heartbeat_pass :: "world \<Rightarrow> (platform, unit) step" where
  "heartbeat_pass w =
     bind_step (gets pf_running) (\<lambda>run.
     when_step run (bind_step (observe (stats_at w)) (sendHeartbeat w)))"

definition watchdog_pass :: "world \<Rightarrow> (platform, unit) step" where
  "watchdog_pass w =
     bind_step (gets pf_running) (\<lambda>run.
     when_step run
       (seq_step
         (bind_step (gets pf_state) (\<lambda>st.
          when_step (st = MINING)
            (bind_step (observe (steady_at w)) (\<lambda>now.
             bind_step (gets (\<lambda>s. isExpired now (current_lease s))) (\<lambda>expired.
             when_step expired (finish_lease w))))))
         (bind_step (gets pf_state) (\<lambda>st.
          when_step (st = ERROR_STATE)
            (seq_step (transitionTo w IDLE)
             (bind_step (observe (connected_at w)) (\<lambda>connected.
              if connected then seq_step (sendRegistration w) (transitionTo w AVAILABLE)
              else bind_step (observe (connect_at w)) (\<lambda>ok. tell (PConnect ok)))))))))"

datatype platform_action =
    DoStart
  | DoStop
  | DoEnqueue string string
  | DoDispatch
  | DoHeartbeat
  | DoWatchdog
  | DoBlock string string string nat double

definition platform_apply :: "world \<Rightarrow> platform_action \<Rightarrow> platform \<Rightarrow> platform" where
  "platform_apply w a s = (case a of
       DoStart \<Rightarrow> snd (start_platform w s)
     | DoStop \<Rightarrow> snd (stop_platform w s)
     | DoEnqueue t p \<Rightarrow> snd (enqueueCommand w t p s)
     | DoDispatch \<Rightarrow> snd (dispatch_pass w s)
     | DoHeartbeat \<Rightarrow> snd (heartbeat_pass w s)
     | DoWatchdog \<Rightarrow> snd (watchdog_pass w s)
     | DoBlock h k acc n r \<Rightarrow> snd (onBlockFound w h k acc n r s))"

end
