(* ===== verification/Platform_Safety.thy ===== *)
theory Platform_Safety
  imports Platform
begin

text \<open>
  What the marketplace client of \<open>Platform\<close> promises: the rig mines for a consumer exactly while
  it holds a valid lease, and no remote command changes the payout identity, the difficulty or
  the life cycle unless it is signed.
\<close>


section \<open>Steps that only report\<close>

text \<open>Everything but the reported state, the readings and the events.\<close>

definition shift :: "platform \<Rightarrow> platform \<Rightarrow> bool" where
  "shift s s' =
     (pf_running s' = pf_running s \<and> current_lease s' = current_lease s \<and> coordinator s' = coordinator s \<and>
      identity s' = identity s \<and> globalDifficulty s' = globalDifficulty s \<and>
      expected_worker_id s' = expected_worker_id s \<and> command_secret s' = command_secret s \<and>
      nonces s' = nonces s \<and> command_queue s' = command_queue s)"

definition noise :: "platform \<Rightarrow> platform \<Rightarrow> bool" where
  "noise s s' = (shift s s' \<and> pf_state s' = pf_state s)"

lemmas noise_defs = noise_def shift_def

lemma noise_reflp: "reflp noise" and noise_transp: "transp noise"
  by (auto simp: noise_defs reflp_def intro: transpI)

lemma noise_basic: "keeps noise (observe f)" "keeps noise (tell ev)" "keeps noise (log_platform l m)"
  by (simp_all add: keeps_def noise_defs observe_def tell_def log_platform_def modify_def)

lemmas noise_intros = keeps_ret [OF noise_reflp] keeps_gets [OF noise_reflp] keeps_bind [OF noise_transp]
  keeps_seq [OF noise_transp] keeps_when [OF noise_reflp] keeps_if noise_basic

lemma keeps_prod [keep_intros]: "(\<And>a b. keeps R (f a b)) \<Longrightarrow> keeps R (case p of (a, b) \<Rightarrow> f a b)"
  by (cases p) simp

lemma noise_reports:
  "keeps noise (publish t j)" "keeps noise (sendRegistration w)" "keeps noise (sendHeartbeat w st)"
  "keeps noise (sendStatusUpdate w a b c)" "keeps noise (sendBlockFound w l h k acc n r)"
proof -
  show p: "keeps noise (publish t j)" for t j unfolding publish_def by (intro noise_intros)
  show "keeps noise (sendRegistration w)" "keeps noise (sendHeartbeat w st)"
    "keeps noise (sendStatusUpdate w a b c)" "keeps noise (sendBlockFound w l h k acc n r)"
    unfolding sendRegistration_def sendHeartbeat_def sendStatusUpdate_def sendBlockFound_def Let_def
    by (intro noise_intros keeps_prod p)+
qed

text \<open>Steps that never throw.\<close>

definition total_step :: "('s, 'a) step \<Rightarrow> bool" where
  "total_step m = (\<forall>s. \<exists>a. fst (m s) = Inr a)"

lemma total_steps:
  "total_step (ret a)" "total_step (gets f)" "total_step (modify h)" "total_step (observe g)" "total_step (tell ev)"
  by (simp_all add: total_step_def ret_def gets_def modify_def observe_def tell_def)

lemma total_bind:
  assumes "total_step m" and "\<And>a. total_step (f a)"
  shows "total_step (bind_step m f)"
  unfolding total_step_def
proof
  fix s
  obtain a t where "m s = (Inr a, t)" using assms(1) unfolding total_step_def by (metis prod.collapse)
  then show "\<exists>b. fst (bind_step m f s) = Inr b" using assms(2) by (simp add: bind_step_def total_step_def)
qed

lemma total_seq: "total_step m \<Longrightarrow> total_step n \<Longrightarrow> total_step (seq_step m n)"
  unfolding seq_step_def by (rule total_bind)

lemma total_when: "total_step m \<Longrightarrow> total_step (when_step b m)"
  by (simp add: when_step_def total_steps)

lemma total_if: "total_step m \<Longrightarrow> total_step n \<Longrightarrow> total_step (if b then m else n)"
  by simp

lemmas total_intros = total_steps total_bind total_seq total_when total_if

lemma total_transition: "total_step (transitionTo w st)"
  unfolding transitionTo_def sendStatusUpdate_def publish_def Let_def by (intro total_intros)

lemma wp_noise:
  assumes "keeps noise m" and "\<And>a s'. noise s s' \<Longrightarrow> Q a s'" and "\<And>x s'. noise s s' \<Longrightarrow> E x s'"
  shows "wp m Q E s"
  using keepsD [OF assms(1), of s] assms(2,3) by (auto simp: wp_def split: prod.splits sum.splits)

lemma transition_final: "shift s (snd (transitionTo w st s)) \<and> pf_state (snd (transitionTo w st s)) = st"
proof -
  have "wp (transitionTo w st) (\<lambda>_ s'. shift s s' \<and> pf_state s' = st) (\<lambda>_ s'. shift s s' \<and> pf_state s' = st) s"
    unfolding transitionTo_def wp_bind [of "gets _"] wp_gets wp_seq [of "modify _"] wp_modify
  proof (rule wp_noise [where s = "s\<lparr>pf_state := st\<rparr>"])
    show "keeps noise (if pf_state s = st then ret ()
      else bind_step (observe (connected_at w)) (\<lambda>connected.
        seq_step
          (when_step connected
            (bind_step (gets (\<lambda>s. case current_lease s of Some l \<Rightarrow> lease_id l | None \<Rightarrow> [])) (\<lambda>lid.
             sendStatusUpdate w (platformStateToString st) lid [])))
          (bind_step (gets state_change_cb) (\<lambda>cb.
           when_step cb (tell (PStateChange (pf_state s) st))))))"
      by (intro noise_intros noise_reports)
  qed (auto simp: noise_defs)
  then show ?thesis by (simp only: wp_final)
qed

lemma wp_transition:
  assumes "\<And>s'. shift s s' \<Longrightarrow> pf_state s' = st \<Longrightarrow> Q () s'"
  shows "wp (transitionTo w st) Q E s"
proof -
  obtain s' where "transitionTo w st s = (Inr (), s')"
    using total_transition [of w st] unfolding total_step_def by (metis (full_types) old.unit.exhaust prod.collapse)
  then show ?thesis using transition_final [of s w st] assms by (simp add: wp_def)
qed


section \<open>The lease and what is mined\<close>

definition lease_ok :: "world \<Rightarrow> LeaseInfo \<Rightarrow> bool" where
  "lease_ok w l =
     (isSafeIdentifier (lease_id l) 1 64 \<and> isSafeIdentifier (consumer_id l) 1 64 \<and>
      is_valid_ethereum_address (keccak w) (consumer_address l) \<and>
      (lease_prefix l = [] \<or> isHexString (lease_prefix l) 16 16) \<and>
      60 \<le> duration_sec l \<and> duration_sec l \<le> 604800)"

definition lease_context :: "LeaseInfo \<Rightarrow> MiningContext" where
  "lease_context l = \<lparr>ctx_mode = PLATFORM_MINING, ctx_address = consumer_address l, ctx_prefix = lease_prefix l,
     ctx_consumer_id = consumer_id l, ctx_lease_id = lease_id l\<rparr>"

text \<open>The lease and the coordinator agree, and the bounded structures keep their bounds.\<close>

definition lease_inv :: "world \<Rightarrow> platform \<Rightarrow> bool" where
  "lease_inv w s =
     ((case current_lease s of
         None \<Rightarrow> ctx_mode (coordinator s) = SELF_MINING
       | Some l \<Rightarrow> lease_ok w l \<and> coordinator s = lease_context l) \<and>
      nonce_inv (nonces s) \<and> length (command_queue s) \<le> 256 \<and>
      (\<forall>cmd \<in> set (command_queue s). length (cmd_payload cmd) \<le> 65536))"

definition platform_inv :: "world \<Rightarrow> platform \<Rightarrow> bool" where
  "platform_inv w s = (lease_inv w s \<and> pf_state s \<noteq> LEASED \<and> pf_state s \<noteq> COMPLETED \<and>
     (pf_state s = MINING \<longrightarrow> current_lease s \<noteq> None))"

lemma shift_lease_inv: "shift s s' \<Longrightarrow> lease_inv w s' = lease_inv w s"
  by (auto simp: shift_def lease_inv_def split: option.splits)

lemma noise_inv: "noise s s' \<Longrightarrow> platform_inv w s' = platform_inv w s"
  using shift_lease_inv [of s s' w] by (auto simp: noise_def platform_inv_def shift_def)

text \<open>A step keeps the invariant, whether it returns or throws.\<close>

definition kept :: "world \<Rightarrow> platform \<Rightarrow> platform \<Rightarrow> bool" where
  "kept w s s' = (platform_inv w s \<longrightarrow> platform_inv w s')"

lemma kept_reflp: "reflp (kept w)" and kept_transp: "transp (kept w)"
  by (auto simp: kept_def reflp_def intro: transpI)

lemma noise_kept: "keeps noise m \<Longrightarrow> keeps (kept w) m"
  unfolding keeps_def kept_def using noise_inv by metis

lemmas kept_intros = keeps_ret [OF kept_reflp] keeps_throw [OF kept_reflp] keeps_gets [OF kept_reflp]
  keeps_bind [OF kept_transp] keeps_seq [OF kept_transp] keeps_when [OF kept_reflp] keeps_if keeps_option
  noise_kept [OF noise_basic(1)] noise_kept [OF noise_basic(2)] noise_kept [OF noise_basic(3)]
  noise_kept [OF noise_reports(2)] noise_kept [OF noise_reports(3)] noise_kept [OF noise_reports(4)]
  noise_kept [OF noise_reports(5)]

lemma kept_transition: "st \<notin> {LEASED, COMPLETED, MINING} \<Longrightarrow> keeps (kept w) (transitionTo v st)"
  unfolding keeps_def
proof
  fix s
  assume "st \<notin> {LEASED, COMPLETED, MINING}"
  then show "kept w s (snd (transitionTo v st s))"
    using transition_final [of s v st] shift_lease_inv [of s _ w] unfolding kept_def platform_inv_def by auto
qed

lemma kept_modify:
  assumes "\<And>s. platform_inv w s \<Longrightarrow> platform_inv w (f s)"
  shows "keeps (kept w) (modify f)"
  using assms by (simp add: keeps_def kept_def modify_def)

lemma kept_by_wp:
  assumes "\<And>s. platform_inv w s \<Longrightarrow> wp m (\<lambda>_. platform_inv w) (\<lambda>_. platform_inv w) s"
  shows "keeps (kept w) m"
  using assms unfolding keeps_def kept_def by (simp add: wp_final)

lemma kept_value_string: "keeps (kept w) (value_string msg k d)"
  unfolding value_string_def
  by (auto intro!: kept_intros split: option.splits json.splits simp: keeps_ret [OF kept_reflp] keeps_throw [OF kept_reflp])

lemma self_mining_context: "ctx_mode (updateContext (default_context\<lparr>ctx_mode := SELF_MINING, ctx_address := a\<rparr>) c) = SELF_MINING"
  by (simp add: updateContext_def)

lemma lease_inv_self:
  "lease_inv w s \<Longrightarrow> lease_inv w (s\<lparr>current_lease := None, coordinator :=
     updateContext (default_context\<lparr>ctx_mode := SELF_MINING, ctx_address := a\<rparr>) (coordinator s)\<rparr>)"
  by (simp add: lease_inv_def self_mining_context split: option.splits)

lemma endLease_none: "snd (endLease c) = None"
  by (simp add: endLease_def split: option.splits)

lemma inv_settled:
  "lease_inv w s \<Longrightarrow> pf_state s \<notin> {LEASED, COMPLETED, MINING} \<Longrightarrow> platform_inv w s"
  by (auto simp: platform_inv_def)

lemma wp_settle:
  assumes "lease_inv w s" and "st \<notin> {LEASED, COMPLETED, MINING}"
  shows "wp (transitionTo v st) (\<lambda>_. platform_inv w) (\<lambda>_. platform_inv w) s"
  by (rule wp_transition) (use assms shift_lease_inv inv_settled in blast)+

definition lease_kept :: "world \<Rightarrow> platform \<Rightarrow> platform \<Rightarrow> bool" where
  "lease_kept w s s' = (lease_inv w s \<longrightarrow> lease_inv w s')"

lemma lease_kept_reflp: "reflp (lease_kept w)" and lease_kept_transp: "transp (lease_kept w)"
  by (auto simp: lease_kept_def reflp_def intro: transpI)

lemma noise_lease_kept: "keeps noise m \<Longrightarrow> keeps (lease_kept w) m"
  unfolding keeps_def lease_kept_def noise_def using shift_lease_inv by metis

lemma transition_lease_kept: "keeps (lease_kept w) (transitionTo v st)"
  unfolding keeps_def lease_kept_def using transition_final shift_lease_inv by metis

lemmas lease_kept_intros = keeps_ret [OF lease_kept_reflp] keeps_gets [OF lease_kept_reflp]
  keeps_bind [OF lease_kept_transp] keeps_seq [OF lease_kept_transp] keeps_when [OF lease_kept_reflp] keeps_if
  noise_lease_kept [OF noise_basic(1)] noise_lease_kept [OF noise_basic(2)] noise_lease_kept [OF noise_reports(2)]
  noise_lease_kept [OF noise_reports(4)] transition_lease_kept

lemma release_lease_kept: "keeps (lease_kept w) (seq_step lease_ended switchToSelfMining)"
  unfolding keeps_def lease_kept_def
  using lease_inv_self
  by (simp add: seq_step_def bind_step_def lease_ended_def switchToSelfMining_def modify_def endLease_none)

lemma end_active_lease_kept: "keeps (lease_kept w) (end_active_lease v)"
  unfolding end_active_lease_def by (intro lease_kept_intros release_lease_kept)

lemma total_ends: "total_step (seq_step lease_ended switchToSelfMining)" "total_step (end_active_lease v)"
  "total_step (sendStatusUpdate v a b d)" "total_step (sendRegistration v)"
  unfolding lease_ended_def switchToSelfMining_def end_active_lease_def sendStatusUpdate_def sendRegistration_def
    publish_def Let_def case_prod_beta
  by (intro total_intros)+

lemma seq_assoc: "seq_step a (seq_step b c) = seq_step (seq_step a b) c"
  by (auto simp: seq_step_def bind_step_def fun_eq_iff split: prod.splits sum.splits)

text \<open>A step that keeps the lease sound and ends in a settled state keeps the invariant.\<close>

lemma kept_then_settle:
  assumes "keeps (lease_kept w) m" and "total_step m" and "st \<notin> {LEASED, COMPLETED, MINING}"
  shows "keeps (kept w) (seq_step m (transitionTo v st))"
proof (rule kept_by_wp)
  fix s
  assume "platform_inv w s"
  then have l: "lease_inv w s" by (simp add: platform_inv_def)
  obtain a t where m: "m s = (Inr a, t)" using assms(2) unfolding total_step_def by (metis prod.collapse)
  have "lease_inv w t" using keepsD [OF assms(1), of s] l m by (simp add: lease_kept_def)
  then have "wp (transitionTo v st) (\<lambda>_. platform_inv w) (\<lambda>_. platform_inv w) t" using assms(3) by (rule wp_settle)
  then show "wp (seq_step m (transitionTo v st)) (\<lambda>_. platform_inv w) (\<lambda>_. platform_inv w) s"
    using m unfolding wp_seq by (simp add: wp_def [of m])
qed

lemma kept_finish: "keeps (kept w) (finish_lease v)"
proof -
  have "finish_lease v = seq_step (seq_step (transitionTo v COMPLETED) (seq_step lease_ended switchToSelfMining))
      (transitionTo v AVAILABLE)"
    unfolding finish_lease_def seq_assoc ..
  then show ?thesis
    by (simp only:) (intro kept_then_settle lease_kept_intros release_lease_kept total_seq total_transition total_ends; simp)
qed

lemma kept_pause: "keeps (kept w) (seq_step (end_active_lease v) (transitionTo v IDLE))"
  by (intro kept_then_settle end_active_lease_kept total_ends) simp

lemma kept_stop: "keeps (kept w) (stop_platform v)"
proof -
  have "keeps (kept w) (seq_step (seq_step (tell (PCallback False)) (seq_step (end_active_lease v)
      (seq_step (sendStatusUpdate v ''offline'' [] []) (tell PDisconnect)))) (transitionTo v IDLE))"
    by (intro kept_then_settle lease_kept_intros end_active_lease_kept total_intros total_ends) simp
  then have body: "keeps (kept w) (seq_step (tell (PCallback False)) (seq_step (end_active_lease v)
        (seq_step (sendStatusUpdate v ''offline'' [] []) (seq_step (tell PDisconnect) (transitionTo v IDLE)))))"
    by (simp only: seq_assoc)
  have "platform_inv w (s\<lparr>pf_running := False\<rparr>) = platform_inv w s" for s
    by (simp add: platform_inv_def lease_inv_def split: option.splits)
  then show ?thesis
    unfolding stop_platform_def by (intro kept_intros kept_modify body) simp
qed

lemma startLease_ok:
  assumes "assign_problem w lid cid addr pre dur = None"
  shows "lease_ok w \<lparr>lease_id = lid, consumer_id = cid, consumer_address = addr, lease_prefix = pre,
    duration_sec = dur, start_time = now, blocks_found = 0\<rparr>"
  using assms by (auto simp: assign_problem_def lease_ok_def PLATFORM_PREFIX_LENGTH_def split: if_splits)

lemma wp_observe [wp_simps]: "wp (observe f) Q E s = Q (f (pf_reads s)) (s\<lparr>pf_reads := pf_reads s + 1\<rparr>)"
  by (simp add: wp_def observe_def)

lemma begin_lease_kept:
  assumes "assign_problem w lid cid addr pre dur = None"
  shows "keeps (kept w) (begin_lease w lid cid addr pre dur)"
proof (rule kept_by_wp)
  fix s
  assume "platform_inv w s"
  then have inv: "lease_inv w s" by (simp add: platform_inv_def)
  let ?rest = "\<lambda>lease. bind_step (gets (\<lambda>s. toMiningContext (identity s) (current_lease s))) (\<lambda>ctx.
         seq_step (switchToPlatformMining ctx) (transitionTo w MINING))"
  show "wp (begin_lease w lid cid addr pre dur) (\<lambda>_. platform_inv w) (\<lambda>_. platform_inv w) s"
    unfolding begin_lease_def wp_seq [of "transitionTo w LEASED"]
  proof (rule wp_transition)
    fix t :: platform
    assume t: "shift s t"
    then have l: "lease_inv w t" using inv shift_lease_inv by blast
    let ?t = "t\<lparr>pf_reads := pf_reads t + 1\<rparr>" and ?now = "steady_at w (pf_reads t)"
    have lt: "lease_inv w ?t" using l shift_lease_inv [of t ?t w] by (simp add: shift_def)
    show "wp (bind_step (observe (steady_at w)) (\<lambda>now.
      bind_step (gets (\<lambda>s. startLease lid cid addr pre dur now (current_lease s))) (\<lambda>(ok, lease).
      seq_step (modify (\<lambda>s. s\<lparr>current_lease := lease\<rparr>))
      (if \<not> ok then transitionTo w ERROR_STATE
       else bind_step (gets (\<lambda>s. toMiningContext (identity s) (current_lease s))) (\<lambda>ctx.
         seq_step (switchToPlatformMining ctx) (transitionTo w MINING)))))) (\<lambda>_. platform_inv w) (\<lambda>_. platform_inv w) t"
    proof (cases "current_lease t")
      case None
      let ?l = "\<lparr>lease_id = lid, consumer_id = cid, consumer_address = addr, lease_prefix = pre,
          duration_sec = dur, start_time = ?now, blocks_found = 0\<rparr>"
      let ?u = "?t\<lparr>current_lease := Some ?l, coordinator := lease_context ?l\<rparr>"
      have u: "lease_inv w ?u" using lt startLease_ok [OF assms] by (simp add: lease_inv_def split: option.splits)
      have "wp (transitionTo w MINING) (\<lambda>_. platform_inv w) (\<lambda>_. platform_inv w) ?u"
      proof (rule wp_transition)
        fix v :: platform
        assume v: "shift ?u v" "pf_state v = MINING"
        have "lease_inv w v" using shift_lease_inv [OF v(1)] u by simp
        moreover have "current_lease v = Some ?l" using v(1) by (simp add: shift_def)
        ultimately show "platform_inv w v" using v(2) by (simp add: platform_inv_def)
      qed
      then show ?thesis using None
        by (simp add: wp_simps startLease_def switchToPlatformMining_def toMiningContext_def updateContext_def lease_context_def)
    next
      case (Some k)
      have "lease_inv w (?t\<lparr>current_lease := Some k\<rparr>)"
        using l Some shift_lease_inv [of t "?t\<lparr>current_lease := Some k\<rparr>" w] by (simp add: shift_def)
      then show ?thesis using Some wp_settle [of w _ ERROR_STATE w] by (simp add: wp_simps startLease_def)
    qed
  qed
qed


section \<open>Every action keeps the invariant\<close>

lemma kept_assign: "keeps (kept w) (handleAssignTask w msg)"
proof -
  have pick: "keeps (kept w) (case assign_problem w a b c d n of
      Some text \<Rightarrow> log_platform Warn text | None \<Rightarrow> begin_lease w a b c d n)" for a b c d n
    by (cases "assign_problem w a b c d n") (simp_all add: begin_lease_kept noise_kept [OF noise_basic(3)])
  show ?thesis unfolding handleAssignTask_def Let_def
    by (intro keeps_bind [OF kept_transp] keeps_if keeps_ret [OF kept_reflp] keeps_gets [OF kept_reflp] kept_value_string pick)
qed

lemma kept_register: "keeps (kept w) (handleRegisterAck w msg)"
  unfolding handleRegisterAck_def Let_def by (intro kept_intros kept_value_string kept_transition) simp_all

lemma kept_release: "keeps (kept w) (handleRelease w msg)"
  unfolding handleRelease_def by (intro kept_intros kept_value_string kept_finish)

lemma inv_identity: "platform_inv w (s\<lparr>identity := i\<rparr>) = platform_inv w s"
  "platform_inv w (s\<lparr>globalDifficulty := d\<rparr>) = platform_inv w s"
  by (simp_all add: platform_inv_def lease_inv_def split: option.splits)

lemma keeps_json [keep_intros]:
  assumes "keeps R m" and "\<And>j. keeps R (f j)" and "\<And>i. keeps R (g i)"
  shows "keeps R (case x of None \<Rightarrow> m | Some (JInt i) \<Rightarrow> g i | Some j \<Rightarrow> f j)"
  using assms by (auto split: option.splits json.splits)

lemma kept_set_config: "keeps (kept w) (handleSetConfig w msg)"
proof -
  have "keeps (kept w) (set_difficulty c)" "keeps (kept w) (set_address w c)" "keeps (kept w) (set_prefix c)"
    "keeps (kept w) (set_pattern c)" for c
    unfolding set_difficulty_def set_address_def set_prefix_def set_pattern_def Let_def
    by (auto intro!: kept_intros kept_modify simp: inv_identity split: option.splits json.splits)
  then show ?thesis unfolding handleSetConfig_def Let_def by (intro kept_intros)
qed

lemma kept_control: "keeps (kept w) (handleControl w msg)"
  unfolding handleControl_def
  by (intro kept_intros kept_value_string kept_pause kept_stop kept_set_config kept_transition) simp

lemma catch_state: "snd (catch_all m s) = snd (m s)"
  by (simp add: catch_all_def split: prod.splits)

lemma kept_catch: "keeps (kept w) m \<Longrightarrow> keeps (kept w) (catch_all m)"
  by (simp add: keeps_def catch_state)

lemma verify_nonce_inv:
  "nonce_inv c \<Longrightarrow> nonce_inv (snd (verifyEnvelope HMAC dump msg secret worker now c))"
  using checkAndInsert_inv(1)
  by (auto simp: verifyEnvelope_def Let_def split: option.splits prod.splits) (metis snd_conv)+

lemma kept_authorize: "keeps (kept w) (authorizeCommand w msg)"
proof (rule kept_by_wp)
  fix s
  assume inv: "platform_inv w s"
  have n: "platform_inv w (s\<lparr>pf_reads := r, pf_events := e\<rparr>)" "platform_inv w (s\<lparr>pf_reads := r\<rparr>)"
    "platform_inv w (s\<lparr>pf_events := e\<rparr>)" for r e
    using inv by (simp_all add: platform_inv_def lease_inv_def split: option.splits)
  have "platform_inv w (s\<lparr>pf_reads := r, nonces := c\<rparr>)" "platform_inv w (s\<lparr>pf_reads := r, nonces := c, pf_events := e\<rparr>)"
    if "nonce_inv c" for r e c
    using inv that by (simp_all add: platform_inv_def lease_inv_def split: option.splits)
  moreover have "nonce_inv (snd (verifyEnvelope (HMAC_of w) (json_dump w) msg (command_secret s) (expected_worker_id s) now (nonces s)))" for now
    using inv by (intro verify_nonce_inv) (simp add: platform_inv_def lease_inv_def)
  ultimately show "wp (authorizeCommand w msg) (\<lambda>_. platform_inv w) (\<lambda>_. platform_inv w) s"
    unfolding authorizeCommand_def log_platform_def tell_def case_prod_beta using n inv
    by (simp add: wp_simps)
qed

lemma kept_message: "keeps (kept w) (onMessage w topic payload)"
  unfolding onMessage_def dispatch_command_def
  by (intro kept_catch kept_intros kept_authorize kept_value_string kept_register kept_assign kept_release kept_control)

lemma kept_queue:
  "keeps (kept w) (enqueueCommand w topic payload)" "keeps (kept w) (dispatch_pass w)"
proof -
  have drop: "platform_inv w (s\<lparr>dropped_commands := n\<rparr>) = platform_inv w s"
    "platform_inv w (s\<lparr>last_drop_log := t\<rparr>) = platform_inv w s" for s n t
    by (simp_all add: platform_inv_def lease_inv_def split: option.splits)
  show "keeps (kept w) (enqueueCommand w topic payload)"
  proof (rule kept_by_wp)
    fix s
    assume inv: "platform_inv w s"
    let ?cmd = "\<lparr>cmd_topic = topic, cmd_payload = payload\<rparr>"
    have push: "platform_inv w (s\<lparr>command_queue := command_queue s @ [?cmd]\<rparr>)"
      if "length payload \<le> kMaxPayloadBytes" "length (command_queue s) < COMMAND_QUEUE_CAPACITY"
      using inv that
      by (auto simp: platform_inv_def lease_inv_def kMaxPayloadBytes_def COMMAND_QUEUE_CAPACITY_def split: option.splits)
    have lost: "platform_inv w (s\<lparr>dropped_commands := n, pf_reads := r\<rparr>)"
      "platform_inv w (s\<lparr>dropped_commands := n, pf_reads := r, last_drop_log := t, pf_events := e\<rparr>)" for n r t e
      using inv by (simp_all add: platform_inv_def lease_inv_def split: option.splits)
    show "wp (enqueueCommand w topic payload) (\<lambda>_. platform_inv w) (\<lambda>_. platform_inv w) s"
      unfolding enqueueCommand_def Let_def case_prod_beta log_platform_def tell_def
      using push lost inv by (simp add: wp_simps not_less not_le)
  qed
  show "keeps (kept w) (dispatch_pass w)"
  proof (rule kept_by_wp)
    fix s
    assume inv: "platform_inv w s"
    have pop: "platform_inv w (s\<lparr>command_queue := q\<rparr>)" if "command_queue s = cmd # q" for cmd q
      using inv that by (simp add: platform_inv_def lease_inv_def split: option.splits)
    have msg: "wp (onMessage w t p) (\<lambda>_. platform_inv w) (\<lambda>_. platform_inv w) u" if "platform_inv w u" for u t p
      using keepsD [OF kept_message, of w u t p] that by (simp add: wp_final kept_def)
    show "wp (dispatch_pass w) (\<lambda>_. platform_inv w) (\<lambda>_. platform_inv w) s"
      unfolding dispatch_pass_def case_prod_beta
      using inv msg [OF pop] by (auto simp: wp_simps split: list.splits)
  qed
qed

lemma kept_heartbeat: "keeps (kept w) (heartbeat_pass w)"
  unfolding heartbeat_pass_def by (intro kept_intros)

lemma kept_watchdog: "keeps (kept w) (watchdog_pass w)"
  unfolding watchdog_pass_def by (intro kept_intros kept_finish kept_transition) simp_all

lemma kept_start: "keeps (kept w) (start_platform w)"
proof -
  have "platform_inv w (s\<lparr>pf_running := b\<rparr>) = platform_inv w s" for s b
    by (simp add: platform_inv_def lease_inv_def split: option.splits)
  then show ?thesis unfolding start_platform_def by (intro kept_intros kept_transition kept_modify) simp_all
qed

lemma recorded_lease: "lease_ok w (l\<lparr>blocks_found := n\<rparr>) = lease_ok w l" "lease_context (l\<lparr>blocks_found := n\<rparr>) = lease_context l"
  by (simp_all add: lease_ok_def lease_context_def)

lemma kept_block: "keeps (kept w) (onBlockFound w h k acc n r)"
proof -
  have "platform_inv w (s\<lparr>current_lease := recordBlock (current_lease s)\<rparr>)" if "platform_inv w s" for s
    using that by (cases "current_lease s") (simp_all add: platform_inv_def lease_inv_def recordBlock_def recorded_lease)
  then show ?thesis unfolding onBlockFound_def by (intro kept_intros kept_modify)
qed

lemma platform_apply_inv: "platform_inv w s \<Longrightarrow> platform_inv w (platform_apply w a s)"
  using keepsD [OF kept_start, of w s] keepsD [OF kept_stop, of w s w] keepsD [OF kept_queue(1), of w s]
    keepsD [OF kept_queue(2), of w s] keepsD [OF kept_heartbeat, of w s] keepsD [OF kept_watchdog, of w s]
    keepsD [OF kept_block, of w s]
  by (cases a) (simp_all add: platform_apply_def kept_def)

interpretation pf: machine "platform_apply w" "platform_inv w" "\<lambda>_. True" for w
  by unfold_locales (rule platform_apply_inv)

lemma initial_inv: "platform_inv w (PlatformManager mid addr gs secret ident diff)"
  by (simp add: PlatformManager_def platform_inv_def lease_inv_def default_context_def nonce_inv_def NonceCache_def)



section \<open>What a command may change\<close>

text \<open>The payout identity, the difficulty, the secret and the life cycle stay as they are.\<close>

definition untouched :: "platform \<Rightarrow> platform \<Rightarrow> bool" where
  "untouched s s' = (identity s' = identity s \<and> globalDifficulty s' = globalDifficulty s \<and>
     pf_running s' = pf_running s \<and> command_secret s' = command_secret s)"

lemma untouched_reflp: "reflp untouched" and untouched_transp: "transp untouched"
  by (auto simp: untouched_def reflp_def intro: transpI)

lemma noise_untouched: "keeps noise m \<Longrightarrow> keeps untouched m"
  by (simp add: keeps_def noise_defs untouched_def)

lemma untouched_transition: "keeps untouched (transitionTo w st)"
  using transition_final by (simp add: keeps_def shift_def untouched_def)

lemma untouched_modify: "(\<And>s. untouched s (f s)) \<Longrightarrow> keeps untouched (modify f)"
  by (rule keeps_modify)

lemma untouched_value: "keeps untouched (value_string msg k d)"
  unfolding value_string_def
  by (auto intro!: keeps_ret [OF untouched_reflp] keeps_throw [OF untouched_reflp] split: option.splits json.splits)

lemmas untouched_intros = keeps_ret [OF untouched_reflp] keeps_throw [OF untouched_reflp] keeps_gets [OF untouched_reflp]
  keeps_bind [OF untouched_transp] keeps_seq [OF untouched_transp] keeps_when [OF untouched_reflp] keeps_if keeps_option
  noise_untouched [OF noise_basic(1)] noise_untouched [OF noise_basic(2)] noise_untouched [OF noise_basic(3)]
  noise_untouched [OF noise_reports(2)] noise_untouched [OF noise_reports(3)] noise_untouched [OF noise_reports(4)]
  noise_untouched [OF noise_reports(5)] untouched_transition untouched_value untouched_modify keeps_prod

lemma untouched_lease_steps:
  "keeps untouched (end_active_lease w)" "keeps untouched (finish_lease w)" "keeps untouched (begin_lease w a b c d n)"
  unfolding end_active_lease_def finish_lease_def begin_lease_def lease_ended_def switchToSelfMining_def
    switchToPlatformMining_def
  by (intro untouched_intros; simp add: untouched_def)+

lemma untouched_handlers:
  "keeps untouched (handleRegisterAck w msg)" "keeps untouched (handleAssignTask w msg)" "keeps untouched (handleRelease w msg)"
  unfolding handleRegisterAck_def handleAssignTask_def handleRelease_def Let_def
  by (intro untouched_intros untouched_lease_steps)+

lemma untouched_authorize: "keeps untouched (authorizeCommand w msg)"
  unfolding authorizeCommand_def by (intro untouched_intros) (simp add: untouched_def)

lemma wp_value_string:
  "wp (value_string msg k d) Q E s = (if \<not> is_object msg then E ''type_error.306'' s
     else case jfind k msg of None \<Rightarrow> Q d s | Some (JString t) \<Rightarrow> Q t s | Some _ \<Rightarrow> E ''type_error.302'' s)"
  by (simp add: value_string_def wp_simps split: option.splits json.splits)

text \<open>A command that is not mutating by the envelope's policy changes nothing of this.\<close>

lemma untouched_benign:
  assumes "\<not> isMutatingCommand msg"
  shows "keeps untouched (dispatch_command w msg)"
proof -
  have "untouched s (snd (dispatch_command w msg s))" for s
  proof -
    have ctl: "untouched s (snd (handleControl w msg s))"
      if "string_or_empty ''action'' msg = ''pause'' \<or> string_or_empty ''action'' msg = ''resume''" for s
    proof -
      have p: "keeps untouched (seq_step (end_active_lease w) (transitionTo w IDLE))"
        by (intro untouched_intros untouched_lease_steps)
      have r: "keeps untouched (bind_step (gets pf_state) (\<lambda>st.
          when_step (st = IDLE) (seq_step (sendRegistration w) (transitionTo w AVAILABLE))))"
        by (intro untouched_intros)
      have "wp (handleControl w msg) (\<lambda>_. untouched s) (\<lambda>_. untouched s) s"
        unfolding handleControl_def wp_bind [of "value_string _ _ _"] wp_value_string
        using that keepsD [OF p, of s] keepsD [OF r, of s]
        by (auto simp: wp_final string_or_empty_def wp_ret untouched_def split: option.splits json.splits)
      then show ?thesis by (simp only: wp_final)
    qed
    have "wp (dispatch_command w msg) (\<lambda>_. untouched s) (\<lambda>_. untouched s) s"
      unfolding dispatch_command_def wp_bind [of "value_string _ _ _"] wp_value_string
      using assms keepsD [OF untouched_handlers(1), of s w msg] keepsD [OF untouched_handlers(2), of s w msg]
        keepsD [OF untouched_handlers(3), of s w msg] ctl [of s]
      by (auto simp: wp_final isMutatingCommand_def string_or_empty_def Let_def untouched_def
          split: option.splits json.splits if_splits)
    then show ?thesis by (simp only: wp_final)
  qed
  then show ?thesis by (simp add: keeps_def)
qed

text \<open>A command passes authorization only signed, or unsigned but benign where no secret is set.\<close>

definition authorized :: "world \<Rightarrow> json \<Rightarrow> platform \<Rightarrow> bool" where
  "authorized w msg s = (command_secret s \<noteq> [] \<and>
     (\<exists>now. fst (verifyEnvelope (HMAC_of w) (json_dump w) msg (command_secret s) (expected_worker_id s) now (nonces s)) = VOk))"

lemma authorize_spec:
  "wp (authorizeCommand w msg) (\<lambda>ok t. untouched s t \<and> (ok \<longrightarrow> authorized w msg s \<or> \<not> isMutatingCommand msg))
     (\<lambda>_ t. untouched s t) s"
  by (auto simp: authorizeCommand_def wp_simps wp_observe log_platform_def tell_def case_prod_beta untouched_def authorized_def)

lemma unsigned_message:
  assumes "\<And>msg. json_parse w p = Some msg \<Longrightarrow> \<not> authorized w msg s"
  shows "untouched s (snd (onMessage w t p s))"
proof (cases "json_parse w p")
  case None
  then show ?thesis by (simp add: onMessage_def catch_all_def throw_def untouched_def)
next
  case (Some msg)
  have "wp (bind_step (authorizeCommand w msg) (\<lambda>ok. if \<not> ok then ret () else dispatch_command w msg))
      (\<lambda>_. untouched s) (\<lambda>_. untouched s) s"
    unfolding wp_bind
  proof (rule wp_conseq [OF authorize_spec])
    fix ok t
    assume t: "untouched s t \<and> (ok \<longrightarrow> authorized w msg s \<or> \<not> isMutatingCommand msg)"
    show "wp (if \<not> ok then ret () else dispatch_command w msg) (\<lambda>_. untouched s) (\<lambda>_. untouched s) t"
    proof (cases ok)
      case True
      then have "keeps untouched (dispatch_command w msg)" using t assms Some by (intro untouched_benign) blast
      then show ?thesis using True t transpD [OF untouched_transp, of s t] by (simp add: wp_final keeps_def)
    qed (use t in \<open>simp add: wp_ret\<close>)
  qed
  moreover have "wp (log_platform Warn m) (\<lambda>_. untouched s) (\<lambda>_. untouched s) s" for m
    using keepsD [OF noise_untouched [OF noise_basic(3)]] by (simp add: wp_final)
  ultimately have "untouched s (snd ((if \<not> is_object msg then log_platform Warn ''ignored non-object MQTT message''
      else bind_step (authorizeCommand w msg) (\<lambda>ok. if \<not> ok then ret () else dispatch_command w msg)) s))"
    by (simp add: wp_final)
  then show ?thesis using Some by (simp add: onMessage_def catch_state)
qed

lemma untouched_rest:
  "keeps untouched (enqueueCommand w t p)" "keeps untouched (heartbeat_pass w)" "keeps untouched (watchdog_pass w)"
  "keeps untouched (onBlockFound w h k acc n r)"
  unfolding enqueueCommand_def heartbeat_pass_def watchdog_pass_def onBlockFound_def Let_def
  by (intro untouched_intros untouched_lease_steps; simp add: untouched_def)+

text \<open>Starting and stopping change the life cycle only.\<close>

definition same_identity :: "platform \<Rightarrow> platform \<Rightarrow> bool" where
  "same_identity s s' = (identity s' = identity s \<and> globalDifficulty s' = globalDifficulty s)"

lemma same_identity_po: "reflp same_identity" "transp same_identity"
  by (auto simp: same_identity_def reflp_def intro: transpI)

lemma untouched_identity: "keeps untouched m \<Longrightarrow> keeps same_identity m"
  by (simp add: keeps_def untouched_def same_identity_def)

lemma life_cycle_identity: "keeps same_identity (start_platform w)" "keeps same_identity (stop_platform w)"
  unfolding start_platform_def stop_platform_def
  by (intro keeps_ret [OF same_identity_po(1)] keeps_gets [OF same_identity_po(1)] keeps_bind [OF same_identity_po(2)]
      keeps_seq [OF same_identity_po(2)] keeps_when [OF same_identity_po(1)] keeps_if keeps_modify
      untouched_identity [OF noise_untouched [OF noise_basic(1)]] untouched_identity [OF noise_untouched [OF noise_basic(2)]]
      untouched_identity [OF noise_untouched [OF noise_basic(3)]] untouched_identity [OF noise_untouched [OF noise_reports(2)]]
      untouched_identity [OF noise_untouched [OF noise_reports(4)]] untouched_identity [OF untouched_transition]
      untouched_identity [OF untouched_lease_steps(1)]; simp add: same_identity_def)+

lemma start_runs: "pf_running s \<Longrightarrow> pf_running (snd (start_platform w s))"
  by (simp add: start_platform_def bind_step_def gets_def ret_def)

lemma dispatch_unsigned:
  assumes "\<And>cmd q msg. command_queue s = cmd # q \<Longrightarrow> json_parse w (cmd_payload cmd) = Some msg \<Longrightarrow> \<not> authorized w msg s"
  shows "untouched s (snd (dispatch_pass w s))"
proof (cases "pf_running s \<and> command_queue s \<noteq> []")
  case True
  then obtain cmd q where q: "command_queue s = cmd # q" by (cases "command_queue s") auto
  let ?s = "s\<lparr>command_queue := q\<rparr>"
  have "untouched ?s (snd (onMessage w (cmd_topic cmd) (cmd_payload cmd) ?s))"
    by (rule unsigned_message) (use assms [OF q] in \<open>simp add: authorized_def\<close>)
  then show ?thesis using True q
    by (simp add: dispatch_pass_def bind_step_def gets_def seq_step_def modify_def untouched_def)
next
  case False
  then show ?thesis
    by (auto simp: dispatch_pass_def bind_step_def gets_def ret_def untouched_def split: list.splits)
qed

text \<open>
  C17 (no takeover): whenever any action of the client changes the payout identity or the
  difficulty, or stops a running client other than by \<open>stop\<close>, that action is the dispatch of a
  queued command, a shared secret is configured, and the command carries an envelope that
  verifies under it for this worker.
\<close>

theorem platform_commands_authenticated:
  assumes "s' = platform_apply w a s"
    and "identity s' \<noteq> identity s \<or> globalDifficulty s' \<noteq> globalDifficulty s \<or>
      (pf_running s \<and> \<not> pf_running s' \<and> a \<noteq> DoStop)"
  shows "\<exists>cmd q msg now. a = DoDispatch \<and> command_queue s = cmd # q \<and> json_parse w (cmd_payload cmd) = Some msg \<and>
    command_secret s \<noteq> [] \<and>
    fst (verifyEnvelope (HMAC_of w) (json_dump w) msg (command_secret s) (expected_worker_id s) now (nonces s)) = VOk"
proof (cases "a = DoDispatch")
  case True
  have "\<not> untouched s s'" using assms(2) by (auto simp: untouched_def)
  then show ?thesis using dispatch_unsigned [of s w] True assms(1)
    unfolding authorized_def platform_apply_def by auto
next
  case False
  have "same_identity s s' \<and> (a \<noteq> DoStop \<longrightarrow> pf_running s \<longrightarrow> pf_running s')"
    using False assms(1) keepsD [OF life_cycle_identity(1), of s w] keepsD [OF life_cycle_identity(2), of s w]
      keepsD [OF untouched_rest(1), of s w] keepsD [OF untouched_rest(2), of s w] keepsD [OF untouched_rest(3), of s w]
      keepsD [OF untouched_rest(4), of s w] start_runs [of s w]
    by (cases a) (simp_all add: platform_apply_def untouched_def same_identity_def)
  then show ?thesis using assms(2) by (auto simp: same_identity_def)
qed

text \<open>A world to run commands in: the parser answers with a fixed message.\<close>

definition sample_world :: "json \<Rightarrow> world" where
  "sample_world msg = \<lparr>steady_at = (\<lambda>_. 0), epoch_at = (\<lambda>_. 1010), connected_at = (\<lambda>_. False), connect_at = (\<lambda>_. True),
     stats_at = (\<lambda>_. (0, 0, 0)), uptime_at = (\<lambda>_. 0), json_parse = (\<lambda>_. Some msg), json_dump = sample_dump,
     HMAC_of = sample_hmac, keccak = (\<lambda>_. replicate 64 (CHR ''0'')), fixed2 = (\<lambda>_. ''0.00'')\<rparr>"

definition retarget :: json where
  "retarget = jobject [(''action'', JString ''set_config''), (''config'', jobject [(''difficulty'', JInt 5)])]"

definition sample_rig :: platform where
  "sample_rig = (PlatformManager ''rig-1'' ''0x0'' [] ''s'' \<lparr>userAddress = ''0x1'', selfMiningPrefix = [], testBlockPattern = []\<rparr> 1727)
     \<lparr>pf_running := True, pf_state := AVAILABLE, command_queue := [\<lparr>cmd_topic = ''t'', cmd_payload = ''p''\<rparr>]\<rparr>"

theorem platform_commands_authenticated_witness:
  "let msg = signCommand sample_hmac sample_dump retarget ''s'' ''rig-1'' ''c1'' ''0123456789abcdef'' 1000 1060;
       s' = platform_apply (sample_world msg) DoDispatch sample_rig
   in globalDifficulty s' = 5 \<and> (\<exists>now. fst (verifyEnvelope sample_hmac sample_dump msg ''s'' ''rig-1'' now (NonceCache 4096)) = VOk)"
proof -
  define msg where "msg = signCommand sample_hmac sample_dump retarget ''s'' ''rig-1'' ''c1'' ''0123456789abcdef'' 1000 1060"
  let ?w = "sample_world msg"
  define s' where "s' = platform_apply ?w DoDispatch sample_rig"
  have obj: "is_object msg" "jfind ''command'' msg = None" "jfind ''action'' msg = Some (JString ''set_config'')"
    "jfind ''config'' msg = Some (jobject [(''difficulty'', JInt 5)])"
    unfolding msg_def signCommand_def Let_def retarget_def by (simp_all add: jfind_jset jfind_jobject)
  have v: "verifyEnvelope sample_hmac sample_dump msg ''s'' ''rig-1'' 1010 c =
      (if fst (checkAndInsert ''0123456789abcdef'' 1060 1010 c) then VOk else ReplayedNonce,
       snd (checkAndInsert ''0123456789abcdef'' 1060 1010 c))" for c
    unfolding msg_def
    by (rule signed_envelope) (simp_all add: retarget_def sample_hmac_def isSafeIdentifier_def isHexString_def isHexDigit_def
      char_class code_def)
  have f: "fst (checkAndInsert ''0123456789abcdef'' 1060 1010 (NonceCache n))" for n
    by (simp add: checkAndInsert_def NonceCache_def purgeExpired_def)
  have five: "to_signed 32 5 = 5" by (simp add: to_signed_def)
  have "globalDifficulty s' = 5"
    unfolding s'_def platform_apply_def sample_rig_def sample_world_def
    by (simp add: dispatch_pass_def onMessage_def catch_state authorizeCommand_def dispatch_command_def handleControl_def
      handleSetConfig_def set_difficulty_def set_address_def set_prefix_def set_pattern_def sendHeartbeat_def publish_def
      bind_step_def seq_step_def gets_def modify_def ret_def observe_def tell_def value_string_def obj v f five
      jfind_jobject PlatformManager_def Let_def)
  moreover have "command_secret sample_rig = ''s''" "expected_worker_id sample_rig = ''rig-1''"
    "nonces sample_rig = NonceCache 4096" "globalDifficulty sample_rig = 1727"
    by (simp_all add: sample_rig_def PlatformManager_def NONCE_CACHE_CAPACITY_def)
  moreover have "HMAC_of ?w = sample_hmac" "json_dump ?w = sample_dump" "json_parse ?w p = Some msg" for p
    by (simp_all add: sample_world_def)
  ultimately show ?thesis
    using platform_commands_authenticated [OF s'_def] unfolding Let_def msg_def [symmetric] s'_def [symmetric] by auto
qed

text \<open>
  C39 (an acknowledged registration orphans the lease): a \<open>register_ack\<close> that arrives while the rig
  is mining moves it to \<open>AVAILABLE\<close> with the lease still in place. From there no watchdog pass ends
  the lease, however long it has expired, and the rig goes on mining for the consumer.
\<close>

theorem register_ack_orphans_lease:
  assumes "pf_state s = MINING" and "current_lease s = Some l" and "jfind ''accepted'' msg = Some (JBool True)"
  shows "let s' = ((\<lambda>t. snd (watchdog_pass v t)) ^^ n) (snd (handleRegisterAck w msg s)) in
    pf_state s' = AVAILABLE \<and> current_lease s' = Some l \<and> coordinator s' = coordinator s"
proof -
  let ?s = "snd (handleRegisterAck w msg s)"
  have "handleRegisterAck w msg s = transitionTo w AVAILABLE s"
    using assms(1,3) by (simp add: handleRegisterAck_def bind_step_def gets_def when_step_def)
  then have r: "shift s ?s" "pf_state ?s = AVAILABLE" using transition_final [of s w AVAILABLE] by simp_all
  have pass: "snd (watchdog_pass v t) = t" if "pf_state t = AVAILABLE" for t
    using that by (simp add: watchdog_pass_def bind_step_def seq_step_def gets_def when_step_def ret_def)
  have "((\<lambda>t. snd (watchdog_pass v t)) ^^ n) ?s = ?s"
    by (induction n) (simp_all add: pass r(2))
  then show ?thesis using r assms(2) by (simp add: shift_def Let_def)
qed

theorem register_ack_orphans_lease_witness:
  "let l = \<lparr>lease_id = ''L'', consumer_id = ''C'', consumer_address = ''0x2'', lease_prefix = [], duration_sec = 60,
         start_time = 0, blocks_found = 0\<rparr>;
       s' = ((\<lambda>t. snd (watchdog_pass (sample_world JNull) t)) ^^ 9) (snd (handleRegisterAck (sample_world JNull)
         (jobject [(''accepted'', JBool True)]) (sample_rig\<lparr>pf_state := MINING, current_lease := Some l\<rparr>)))
   in pf_state s' = AVAILABLE \<and> current_lease s' = Some l"
  using register_ack_orphans_lease [of "sample_rig\<lparr>pf_state := MINING, current_lease := Some \<lparr>lease_id = ''L'', consumer_id = ''C'',
      consumer_address = ''0x2'', lease_prefix = [], duration_sec = 60, start_time = 0, blocks_found = 0\<rparr>\<rparr>"
      _ "jobject [(''accepted'', JBool True)]" 9 "sample_world JNull" "sample_world JNull"]
  by (simp only: Let_def platform.simps jfind_jobject) (simp add: jfind_jobject)

end
