(* ===== verification/Mining_Globals.thy ===== *)
theory Mining_Globals
  imports Platform
begin

text \<open>
  The mutable globals of \<open>src/MiningCommon.cpp\<close> that steer mining (difficulty, margin, lock, the
  fatal durability flag, the verdicts on the GPU first-block kernel) and the poller of
  \<open>src/DifficultyManager.cpp\<close> that keeps the difficulty fresh. \<open>int\<close> globals are integers of HOL; the
  one sum the code guards against overflow is guarded the same way here.
\<close>

section \<open>Globals\<close>

record mining_globals =
  g_running :: bool
  g_difficulty :: int
  g_difficulty_endpoint_down :: bool
  g_margin :: int
  g_lock :: int
  g_lock_live_lanes :: int
  g_fatal :: bool
  g_fatal_reason :: string
  g_devfee_address :: string
  g_eco_devfee_address :: string
  g_devfee_permillage :: int
  g_first_blocks :: "int \<rightharpoonup> bool"
  g_consecutive_failures :: int

text \<open>The initial values of the definitions in \<open>MiningCommon.cpp\<close> and \<open>DifficultyManager.cpp\<close>.\<close>

definition initial_globals :: mining_globals where
  "initial_globals =
     \<lparr> g_running = True, g_difficulty = 1727, g_difficulty_endpoint_down = False, g_margin = 0, g_lock = 0,
       g_lock_live_lanes = 0, g_fatal = False, g_fatal_reason = [],
       g_devfee_address = ''0x24691E54aFafe2416a8252097C9Ca67557271475'', g_eco_devfee_address = [],
       g_devfee_permillage = 1, g_first_blocks = Map.empty, g_consecutive_failures = 0 \<rparr>"

definition INT32_MAX :: int where "INT32_MAX = 2147483647"

definition liveMiningDifficulty :: "mining_globals \<Rightarrow> int" where
  "liveMiningDifficulty g =
     (let difficulty = g_difficulty g; margin = g_margin g in
      if margin \<le> 0 then difficulty
      else let sum = difficulty + margin in
           if sum > INT32_MAX then difficulty else sum)"

definition effectiveMiningDifficulty :: "mining_globals \<Rightarrow> int" where
  "effectiveMiningDifficulty g =
     (let lock = g_lock g in if lock > 0 then lock else liveMiningDifficulty g)"

definition laneMiningDifficulty :: "mining_globals \<Rightarrow> int \<Rightarrow> int" where
  "laneMiningDifficulty g streamIndex =
     (let lock = g_lock g in
      if lock > 0 \<and> streamIndex \<ge> g_lock_live_lanes g then lock else liveMiningDifficulty g)"

text \<open>The first declared reason stays; the flag and the stop are raised every time.\<close>

definition declareFatalDurabilityFailure :: "string \<Rightarrow> mining_globals \<Rightarrow> mining_globals" where
  "declareFatalDurabilityFailure reason g =
     (let g1 = (if g_fatal_reason g = []
                then g \<lparr> g_fatal_reason := (if reason = [] then ''unspecified durability failure'' else reason) \<rparr>
                else g)
      in g1 \<lparr> g_fatal := True, g_running := False \<rparr>)"

definition fatalDurabilityFailureReason :: "mining_globals \<Rightarrow> string" where
  "fatalDurabilityFailureReason g = g_fatal_reason g"

definition kGpuFirstBlocksEnabled :: bool where "kGpuFirstBlocksEnabled = True"

definition setGpuFirstBlocksVerified :: "int \<Rightarrow> bool \<Rightarrow> mining_globals \<Rightarrow> mining_globals" where
  "setGpuFirstBlocksVerified deviceIndex verified g =
     g \<lparr> g_first_blocks := (g_first_blocks g)(deviceIndex \<mapsto> verified) \<rparr>"

definition gpuFirstBlocksVerified :: "mining_globals \<Rightarrow> int \<Rightarrow> bool" where
  "gpuFirstBlocksVerified g deviceIndex =
     (case g_first_blocks g deviceIndex of None \<Rightarrow> kGpuFirstBlocksEnabled | Some v \<Rightarrow> v)"

text \<open>\<open>isWithinXuniWindow\<close>, on the minute of the local time.\<close>

definition isWithinXuniWindow :: "int \<Rightarrow> bool" where
  "isWithinXuniWindow tm_min = (tm_min < 5 \<or> tm_min \<ge> 55)"

section \<open>The difficulty poller\<close>

text \<open>
  A decimal integer at the start of a text, as \<open>std::stoi\<close> and \<open>operator>>\<close> read it: leading white
  space, an optional sign, the longest run of digits. \<open>None\<close> stands for \<open>invalid_argument\<close> (no
  digit) and \<open>out_of_range\<close>.
\<close>

definition read_sign :: "string \<Rightarrow> bool \<times> string" where
  "read_sign s = (case s of
       c # t \<Rightarrow> if c = CHR ''-'' then (True, t) else if c = CHR ''+'' then (False, t) else (False, s)
     | [] \<Rightarrow> (False, []))"

definition stoi :: "string \<Rightarrow> int option" where
  "stoi text =
     (let (neg, t) = read_sign (skip_while isspace text);
          digits = takeWhile isdigit t;
          v = (if neg then - int (dec_val digits) else int (dec_val digits))
      in if digits = [] then None
         else if v < - INT32_MAX - 1 \<or> INT32_MAX < v then None else Some v)"

text \<open>The cache file: writing may fail at opening, while writing, or at the rename; \<open>remove\<close> of the
  old file comes before the rename.\<close>

record cache_io =
  cache_open_ok :: bool
  cache_write_ok :: bool
  cache_rename_ok :: bool

definition persistDifficulty :: "cache_io \<Rightarrow> int \<Rightarrow> string option \<Rightarrow> string option" where
  "persistDifficulty io difficulty cache =
     (if \<not> cache_open_ok io then cache
      else if \<not> cache_write_ok io then cache
      else if cache_rename_ok io then Some (to_dec_int difficulty @ [CHR 0x0A]) else None)"

definition loadCachedDifficulty :: "string option \<Rightarrow> int" where
  "loadCachedDifficulty cache =
     (case cache of None \<Rightarrow> 0
      | Some text \<Rightarrow> (case stoi text of None \<Rightarrow> 0
         | Some value \<Rightarrow> if value < 1 \<or> value > 100000000 then 0 else value))"

definition kPoolDownFailureThreshold :: int where "kPoolDownFailureThreshold = 3"

text \<open>
  \<open>getDifficulty\<close> on the answer of \<open>HttpGet\<close> (an exception, or a status and a body). The parser of
  the JSON library is an argument; the texts of its exceptions are abbreviated.
\<close>

definition getDifficulty :: "(string \<Rightarrow> json option) \<Rightarrow> string + int \<times> string \<Rightarrow> string + string" where
  "getDifficulty parse response =
     (case response of
        Inl e \<Rightarrow> Inl (''Error: '' @ e)
      | Inr (status, body) \<Rightarrow>
          if status \<noteq> 200
          then Inl (''Error: Failed to get the difficulty: HTTP status code '' @ to_dec_int status)
          else (case parse body of
                  None \<Rightarrow> Inl ''JSON parsing error: parse_error''
                | Some json_response \<Rightarrow>
                    if \<not> is_object json_response then Inl ''Error: type_error.305''
                    else (case jfind ''difficulty'' json_response of
                            Some (JString text) \<Rightarrow> Inr text
                          | _ \<Rightarrow> Inl ''Error: type_error.302'')))"

text \<open>
  What one poll sees: the answer of the server and the fate of the cache file. The poller tells the
  observer (the submission manager) and the console.
\<close>

record difficulty_poll =
  poll_response :: "string + int \<times> string"
  poll_io :: cache_io

datatype poll_event = Observe u32 | PollLog Level string

record poller =
  po_globals :: mining_globals
  po_cache :: "string option"
  po_events :: "poll_event list"

definition poll_success :: "int \<Rightarrow> cache_io \<Rightarrow> poller \<Rightarrow> poller" where
  "poll_success newDifficulty io s =
     (let g = po_globals s;
          g1 = g \<lparr> g_difficulty := newDifficulty \<rparr>;
          failures = g_consecutive_failures g;
          evs = [Observe (word_of_int newDifficulty)]
      in if failures > 0
         then \<lparr> po_globals = g1 \<lparr> g_consecutive_failures := 0, g_difficulty_endpoint_down := False \<rparr>,
                po_cache = persistDifficulty io newDifficulty (po_cache s),
                po_events = po_events s @ evs @
                  [if g_difficulty_endpoint_down g
                   then PollLog Ok (''difficulty restored | current='' @ to_dec_int newDifficulty)
                   else PollLog Info (''difficulty poll restored | prior_failures='' @ to_dec_int failures)] \<rparr>
         else \<lparr> po_globals = g1, po_cache = persistDifficulty io newDifficulty (po_cache s),
                po_events = po_events s @ evs \<rparr>)"

definition poll_failure :: "string \<Rightarrow> poller \<Rightarrow> poller" where
  "poll_failure what s =
     (let g = po_globals s; n = g_consecutive_failures g + 1 in
      \<lparr> po_globals = g \<lparr> g_consecutive_failures := n,
          g_difficulty_endpoint_down :=
            (n = kPoolDownFailureThreshold \<or> g_difficulty_endpoint_down g) \<rparr>,
        po_cache = po_cache s,
        po_events = po_events s @
          (if n = 1 then [PollLog Warn (''difficulty poll failed; using cached value and retrying '' @
                            em_dash @ '' '' @ what)] else []) @
          (if n = kPoolDownFailureThreshold
           then [PollLog Error (''difficulty endpoint DOWN after '' @ to_dec_int n @ '' failures '' @ em_dash @
                   '' mining continues on cached difficulty; polling every 10s'')] else []) \<rparr>)"

definition updateDifficulty :: "(string \<Rightarrow> json option) \<Rightarrow> difficulty_poll \<Rightarrow> poller \<Rightarrow> poller" where
  "updateDifficulty parse p s =
     (case getDifficulty parse (poll_response p) of
        Inl what \<Rightarrow> poll_failure what s
      | Inr difficultyStr \<Rightarrow>
          (case stoi difficultyStr of
             None \<Rightarrow> poll_failure ''stoi'' s
           | Some newDifficulty \<Rightarrow> poll_success newDifficulty (poll_io p) s))"

section \<open>Lemmas\<close>

text \<open>The value a poll delivers, and the abstract poller: the last value delivered and the number
  of polls that failed since.\<close>

definition poll_value :: "(string \<Rightarrow> json option) \<Rightarrow> difficulty_poll \<Rightarrow> int option" where
  "poll_value parse p = (case getDifficulty parse (poll_response p) of Inl _ \<Rightarrow> None | Inr t \<Rightarrow> stoi t)"

definition last_value :: "int \<Rightarrow> int option list \<Rightarrow> int" where
  "last_value d vs = (case dropWhile (\<lambda>v. v = None) (rev vs) of [] \<Rightarrow> d | v # _ \<Rightarrow> the v)"

definition trailing_failures :: "int option list \<Rightarrow> nat" where
  "trailing_failures vs = length (takeWhile (\<lambda>v. v = None) (rev vs))"

lemma updateDifficulty_cases:
  obtains (failed) what where "poll_value parse p = None" "updateDifficulty parse p s = poll_failure what s"
  | (delivered) v where "poll_value parse p = Some v" "updateDifficulty parse p s = poll_success v (poll_io p) s"
  by (cases "getDifficulty parse (poll_response p)"; cases "poll_value parse p")
     (auto simp: poll_value_def updateDifficulty_def split: option.splits)

lemma stoi_to_dec_int:
  assumes "- INT32_MAX - 1 \<le> d" and "d \<le> INT32_MAX"
  shows "stoi (to_dec_int d @ [CHR 0x0A]) = Some d"
proof -
  have digits: "takeWhile isdigit (to_dec n @ [CHR 0x0A]) = to_dec n" for n
    using to_dec_digits [of _ n] by (subst takeWhile_append2) (auto simp: isdigit_def [of "CHR 0x0A"] code_def)
  have start: "to_dec n = c # t \<Longrightarrow> isdigit c" for n c t
    using to_dec_digits [of c n] by simp
  have plain: "isdigit c \<Longrightarrow> \<not> isspace c \<and> c \<noteq> CHR ''-'' \<and> c \<noteq> CHR ''+''" for c
    by (auto simp: isdigit_def isspace_def Let_def code_def)
  show ?thesis
  proof (cases "d < 0")
    case True
    have "\<not> isspace (CHR ''-'')" by (simp add: isspace_def code_def)
    with True assms digits [of "nat (- d)"] show ?thesis
      by (simp add: stoi_def to_dec_int_def read_sign_def Let_def)
  next
    case False
    obtain c t where ct: "to_dec (nat d) = c # t" by (cases "to_dec (nat d)") auto
    have "skip_while isspace (to_dec (nat d) @ [CHR 0x0A]) = to_dec (nat d) @ [CHR 0x0A]"
      using plain [OF start [OF ct]] by (simp add: ct)
    moreover have "read_sign (to_dec (nat d) @ [CHR 0x0A]) = (False, to_dec (nat d) @ [CHR 0x0A])"
      using plain [OF start [OF ct]] by (simp add: ct read_sign_def)
    ultimately show ?thesis
      using False assms digits [of "nat d"] by (simp add: stoi_def to_dec_int_def Let_def)
  qed
qed

lemma poll_run:
  fixes s :: poller
  assumes "g_consecutive_failures (po_globals s) = 0" and "\<not> g_difficulty_endpoint_down (po_globals s)"
  shows "let vs = map (poll_value parse) polls; g = po_globals (fold (updateDifficulty parse) polls s) in
     g_difficulty g = last_value (g_difficulty (po_globals s)) vs \<and>
     g_consecutive_failures g = int (trailing_failures vs) \<and>
     (g_difficulty_endpoint_down g \<longleftrightarrow> 3 \<le> trailing_failures vs) \<and>
     (g_running g, g_lock g, g_margin g, g_fatal g) =
       (g_running (po_globals s), g_lock (po_globals s), g_margin (po_globals s), g_fatal (po_globals s))"
proof (induction polls rule: rev_induct)
  case Nil
  with assms show ?case by (simp add: last_value_def trailing_failures_def)
next
  case (snoc p polls)
  show ?case
  proof (cases rule: updateDifficulty_cases [of parse p "fold (updateDifficulty parse) polls s"])
    case (failed what)
    with snoc show ?thesis
      by (auto simp: Let_def last_value_def trailing_failures_def poll_failure_def kPoolDownFailureThreshold_def)
  next
    case (delivered v)
    with snoc show ?thesis
      by (auto simp: Let_def last_value_def trailing_failures_def poll_success_def)
  qed
qed

lemma cache_roundtrip:
  assumes "1 \<le> d" and "d \<le> 100000000"
  shows "loadCachedDifficulty (persistDifficulty io d c) \<in> {d, loadCachedDifficulty c, 0}"
    and "cache_open_ok io \<and> cache_write_ok io \<and> cache_rename_ok io \<Longrightarrow>
         loadCachedDifficulty (persistDifficulty io d c) = d"
proof -
  have "loadCachedDifficulty (Some (to_dec_int d @ [CHR 0x0A])) = d"
    using assms by (simp add: loadCachedDifficulty_def stoi_to_dec_int INT32_MAX_def)
  moreover have "loadCachedDifficulty None = 0" by (simp add: loadCachedDifficulty_def)
  ultimately show "loadCachedDifficulty (persistDifficulty io d c) \<in> {d, loadCachedDifficulty c, 0}"
    and "cache_open_ok io \<and> cache_write_ok io \<and> cache_rename_ok io \<Longrightarrow>
         loadCachedDifficulty (persistDifficulty io d c) = d"
    by (auto simp: persistDifficulty_def)
qed

section \<open>Properties\<close>

text \<open>
  The memory cost of a lane: With the lock off every lane mines at the effective difficulty,
  which is at least the live difficulty and at most the margin above it; with the lock on the first
  lanes mine at the live difficulty and all others exactly at the lock, which is the effective
  difficulty. The sum never leaves the range of \<open>int\<close>.
\<close>

theorem lane_difficulty_correct:
  "let d = g_difficulty g; live = liveMiningDifficulty g in
   (g_lock g \<le> 0 \<longrightarrow> laneMiningDifficulty g lane = live \<and> effectiveMiningDifficulty g = live) \<and>
   (0 < g_lock g \<longrightarrow> effectiveMiningDifficulty g = g_lock g \<and>
      laneMiningDifficulty g lane = (if lane < g_lock_live_lanes g then live else g_lock g)) \<and>
   d \<le> live \<and> live \<le> d + max 0 (g_margin g) \<and> (d \<le> INT32_MAX \<longrightarrow> live \<le> INT32_MAX) \<and>
   (g_margin g \<le> 0 \<or> INT32_MAX < d + g_margin g \<longrightarrow> live = d)"
  by (auto simp: laneMiningDifficulty_def effectiveMiningDifficulty_def liveMiningDifficulty_def Let_def)

theorem lane_difficulty_correct_witness:
  "laneMiningDifficulty (initial_globals \<lparr> g_margin := 1000 \<rparr>) 0 \<le> 2727 \<and>
   laneMiningDifficulty (initial_globals \<lparr> g_lock := 8, g_lock_live_lanes := 1 \<rparr>) 1 = 8"
  using lane_difficulty_correct [of "initial_globals \<lparr> g_margin := 1000 \<rparr>" 0]
    lane_difficulty_correct [of "initial_globals \<lparr> g_lock := 8, g_lock_live_lanes := 1 \<rparr>" 1]
  by (simp add: initial_globals_def Let_def)


definition sample_polls :: "difficulty_poll list" where
  "sample_polls = [\<lparr> poll_response = Inr (200, ''{}''), poll_io = \<lparr> cache_open_ok = True, cache_write_ok = True, cache_rename_ok = True \<rparr> \<rparr>,
                   \<lparr> poll_response = Inl ''timeout'', poll_io = \<lparr> cache_open_ok = True, cache_write_ok = True, cache_rename_ok = True \<rparr> \<rparr>]"

definition sample_parse :: "string \<Rightarrow> json option" where
  "sample_parse t = Some (JObject [(''difficulty'', JString ''42'')])"


end
