(* ===== verification/Hash_Encoding.thy ===== *)
theory Hash_Encoding
  imports Prelude "HOL-Library.Monad_Syntax"
begin

unbundle bit_operations_syntax

text \<open>
  The text a hash travels in: \<open>hashapi/HashApiEncoding.cpp\<close> (unpadded base64),
  \<open>treeminer/PhcAssembler.h\<close> (the PHC string of a find) and the scan for patterns of
  \<open>hashapi/HashApiMatching.cpp\<close>. The encoder is compared with a reference decoder, and the digest
  \<open>CpuMiningWorker.cpp\<close> cuts out of a PHC string with the digest that was put in.
\<close>

type_synonym byte = "8 word"

section \<open>Base64\<close>

definition kBase64Chars :: string where
  "kBase64Chars = ''ABCDEFGHIJKLMNOPQRSTUVWXYZ'' @ ''abcdefghijklmnopqrstuvwxyz'' @ ''0123456789+/''"

definition base64EncodedLength :: "nat \<Rightarrow> nat" where
  "base64EncodedLength in_len =
     (let full_groups = in_len div 3; remaining = in_len mod 3 in
      full_groups * 4 + (if remaining = 0 then 0 else remaining + 1))"

text \<open>\<open>kBase64Chars[(value >> n) & 0x3f]\<close>.\<close>

definition sextet :: "nat \<Rightarrow> u32 \<Rightarrow> char" where
  "sextet n value = kBase64Chars ! unat (drop_bit n value AND 0x3f)"

text \<open>
  The loop of \<open>base64EncodeInto\<close> takes three bytes at a time; what it leaves is empty, one byte or
  two bytes.
\<close>

fun base64EncodeInto :: "byte list \<Rightarrow> string" where
  "base64EncodeInto (b0 # b1 # b2 # rest) =
     (let value = push_bit 16 (ucast b0 :: u32) OR push_bit 8 (ucast b1) OR ucast b2 in
      [sextet 18 value, sextet 12 value, sextet 6 value, sextet 0 value] @ base64EncodeInto rest)"
| "base64EncodeInto [b0, b1] =
     (let value = push_bit 16 (ucast b0 :: u32) OR push_bit 8 (ucast b1) in
      [sextet 18 value, sextet 12 value, sextet 6 value])"
| "base64EncodeInto [b0] =
     (let value = push_bit 16 (ucast b0 :: u32) in [sextet 18 value, sextet 12 value])"
| "base64EncodeInto [] = []"

definition base64Encode :: "byte list \<Rightarrow> string" where
  "base64Encode bytes = base64EncodeInto bytes"

section \<open>PHC strings\<close>

text \<open>\<open>hexToBytes\<close> throws on an odd length and on the first character that is no hex digit.\<close>

fun hex_pairs :: "string \<Rightarrow> string + byte list" where
  "hex_pairs (c # d # rest) =
     (case hex_nibble c of None \<Rightarrow> Inl ''hexToBytes: non-hex character''
      | Some h \<Rightarrow> (case hex_nibble d of None \<Rightarrow> Inl ''hexToBytes: non-hex character''
         | Some l \<Rightarrow> (case hex_pairs rest of Inl e \<Rightarrow> Inl e
            | Inr bytes \<Rightarrow> Inr ((push_bit 4 (word_of_nat h) OR word_of_nat l) # bytes))))"
| "hex_pairs _ = Inr []"

definition hexToBytes :: "string \<Rightarrow> string + byte list" where
  "hexToBytes hex = (if length hex mod 2 \<noteq> 0 then Inl ''hexToBytes: odd-length hex string''
                     else hex_pairs hex)"

definition phc_parameters :: "u32 \<Rightarrow> string" where
  "phc_parameters memory_cost = ''$argon2id$v=19$m='' @ to_dec (unat memory_cost) @ '',t=1,p=1$''"

definition assemblePhc :: "u32 \<Rightarrow> string \<Rightarrow> string \<Rightarrow> string + string" where
  "assemblePhc memory_cost hexsalt digest_b64 =
     (case hexToBytes hexsalt of Inl e \<Rightarrow> Inl e
      | Inr salt_bytes \<Rightarrow>
          Inr (phc_parameters memory_cost @ base64Encode salt_bytes @ ''$'' @ digest_b64))"

text \<open>\<open>digestFromProtocolPhc\<close>: the text after the last dollar sign of a PHC string with the
  expected parameters.\<close>

definition after_last_dollar :: "string \<Rightarrow> string option" where
  "after_last_dollar s =
     (if CHR ''$'' \<in> set s then Some (rev (takeWhile (\<lambda>c. c \<noteq> CHR ''$'') (rev s))) else None)"

definition digestFromProtocolPhc :: "string \<Rightarrow> u32 \<Rightarrow> string + string" where
  "digestFromProtocolPhc phc difficulty =
     (if \<not> prefix (phc_parameters difficulty) phc
      then Inl ''CPU backend returned a non-protocol Argon2id hash''
      else case after_last_dollar phc of
             None \<Rightarrow> Inl ''CPU backend returned an invalid PHC string''
           | Some digest \<Rightarrow> if digest = [] then Inl ''CPU backend returned an invalid PHC string''
                            else Inr digest)"

section \<open>Patterns\<close>

definition isSuperblockHash :: "string \<Rightarrow> bool" where
  "isSuperblockHash hash = (50 \<le> length (filter isupper hash))"

text \<open>The loop of \<open>hasXuniMatch\<close> visits every occurrence of \<open>XUNI\<close>, starting the next search one
  character after the last.\<close>

fun hasXuniMatch :: "string \<Rightarrow> bool" where
  "hasXuniMatch [] = False"
| "hasXuniMatch (c # s) =
     ((prefix ''XUNI'' (c # s) \<and> 4 < length (c # s) \<and> isdigit ((c # s) ! 4)) \<or> hasXuniMatch s)"

section \<open>Lemmas\<close>

lemma length_kBase64Chars [simp]: "length kBase64Chars = 64"
  by (simp add: kBase64Chars_def)

lemma distinct_kBase64Chars: "distinct kBase64Chars"
  by (simp add: kBase64Chars_def)

lemma dollar_not_base64: "CHR ''$'' \<notin> set kBase64Chars"
  by (simp add: kBase64Chars_def)

text \<open>The six bits behind a base64 character, and the reference decoder: four characters carry 24
  bits, three 18 (two bytes), two 12 (one byte).\<close>

definition sextet_val :: "char \<Rightarrow> nat option" where
  "sextet_val c = (if c \<in> set kBase64Chars
                   then Some (length (takeWhile (\<lambda>d. d \<noteq> c) kBase64Chars)) else None)"

definition byte_at :: "nat \<Rightarrow> nat \<Rightarrow> byte" where
  "byte_at n v = word_of_nat (v div 2 ^ n)"

fun base64Decode :: "string \<Rightarrow> byte list option" where
  "base64Decode (a # b # c # d # rest) =
     do { w \<leftarrow> sextet_val a; x \<leftarrow> sextet_val b; y \<leftarrow> sextet_val c; z \<leftarrow> sextet_val d;
          bytes \<leftarrow> base64Decode rest;
          let v = ((w * 64 + x) * 64 + y) * 64 + z;
          Some (byte_at 16 v # byte_at 8 v # byte_at 0 v # bytes) }"
| "base64Decode [a, b, c] =
     do { w \<leftarrow> sextet_val a; x \<leftarrow> sextet_val b; y \<leftarrow> sextet_val c;
          let v = ((w * 64 + x) * 64 + y) * 64; Some [byte_at 16 v, byte_at 8 v] }"
| "base64Decode [a, b] =
     do { w \<leftarrow> sextet_val a; x \<leftarrow> sextet_val b;
          let v = (w * 64 + x) * 4096; Some [byte_at 16 v] }"
| "base64Decode [] = Some []"
| "base64Decode [a] = None"

lemma takeWhile_nth_distinct:
  "distinct xs \<Longrightarrow> i < length xs \<Longrightarrow> length (takeWhile (\<lambda>d. d \<noteq> xs ! i) xs) = i"
  by (induction xs arbitrary: i) (auto simp: nth_Cons split: nat.splits)

lemma sextet_val_nth: "i < 64 \<Longrightarrow> sextet_val (kBase64Chars ! i) = Some i"
  unfolding sextet_val_def
  by (simp add: takeWhile_nth_distinct [OF distinct_kBase64Chars])

lemma sextet_index: "unat (drop_bit n (v :: u32) AND 0x3f) = unat v div 2 ^ n mod 64"
proof -
  have "drop_bit n v AND 0x3f = take_bit 6 (drop_bit n v)"
    by (simp add: take_bit_eq_mask mask_eq_exp_minus_1)
  then show ?thesis
    by (simp only: unsigned_take_bit_eq unsigned_drop_bit_eq)
       (simp add: take_bit_eq_mod drop_bit_eq_div)
qed

lemma sextet_val_sextet [simp]: "sextet_val (sextet n v) = Some (unat v div 2 ^ n mod 64)"
  by (simp add: sextet_def sextet_index sextet_val_nth)

lemma sextet_mem: "sextet n v \<in> set kBase64Chars"
  by (simp add: sextet_def sextet_index)

text \<open>The shifted bytes do not overlap, so their disjunction is their sum.\<close>

lemma unat_byte_less [simp]: "unat (b :: byte) < 256"
proof -
  have "unat b < 2 ^ LENGTH(8)" by (rule unsigned_less)
  then show ?thesis by simp
qed

lemma bit_byte: "bit (b :: byte) n \<Longrightarrow> n < 8"
  using bit_imp_le_length by fastforce

lemma unat_ucast_byte [simp]: "unat (ucast (b :: byte) :: u32) = unat b"
proof -
  have "unat b < 2 ^ 32" by (rule less_le_trans [OF unat_byte_less]) simp
  then show ?thesis by (simp add: unsigned_ucast_eq take_bit_nat_eq_self)
qed

lemma unat_shifted_byte:
  assumes "n \<le> 24"
  shows "unat (push_bit n (ucast (b :: byte)) :: u32) = unat b * 2 ^ n"
proof -
  have "unat b * 2 ^ n < 256 * 2 ^ n" by simp
  also have "\<dots> \<le> 256 * 2 ^ 24" using assms by (intro mult_left_mono power_increasing) simp_all
  finally have "unat b * 2 ^ n < 2 ^ 32" by simp
  then show ?thesis
    by (simp only: unsigned_push_bit_eq unat_ucast_byte) (simp add: push_bit_eq_mult take_bit_nat_eq_self)
qed

lemma unat_or_disjoint:
  fixes a b :: u32
  assumes "\<And>n. bit a n \<Longrightarrow> \<not> bit b n"
  shows "unat (a OR b) = unat a + unat b"
  by (simp only: unsigned_or_eq) (subst disjunctive_add, use assms in \<open>auto simp: bit_unsigned_iff\<close>)

lemmas shifted_bytes = unat_shifted_byte [of 16, simplified] unat_shifted_byte [of 8, simplified]

lemma unat_group3:
  "unat (push_bit 16 (ucast (b0 :: byte) :: u32) OR push_bit 8 (ucast (b1 :: byte)) OR ucast (b2 :: byte))
     = unat b0 * 65536 + unat b1 * 256 + unat b2"
proof -
  have "unat (push_bit 16 (ucast b0 :: u32) OR (push_bit 8 (ucast b1) OR ucast b2))
          = unat (push_bit 16 (ucast b0) :: u32) + unat (push_bit 8 (ucast b1) OR ucast b2 :: u32)"
    by (rule unat_or_disjoint) (auto simp: bit_simps dest!: bit_byte)
  moreover have "unat (push_bit 8 (ucast b1) OR ucast b2 :: u32)
          = unat (push_bit 8 (ucast b1) :: u32) + unat (ucast b2 :: u32)"
    by (rule unat_or_disjoint) (auto simp: bit_simps dest!: bit_byte)
  ultimately show ?thesis by (simp add: shifted_bytes ac_simps)
qed

lemma unat_group2:
  "unat (push_bit 16 (ucast (b0 :: byte) :: u32) OR push_bit 8 (ucast (b1 :: byte)))
     = unat b0 * 65536 + unat b1 * 256"
proof -
  have "unat (push_bit 16 (ucast b0 :: u32) OR push_bit 8 (ucast b1))
          = unat (push_bit 16 (ucast b0) :: u32) + unat (push_bit 8 (ucast b1) :: u32)"
    by (rule unat_or_disjoint) (auto simp: bit_simps dest!: bit_byte)
  then show ?thesis by (simp add: shifted_bytes)
qed

text \<open>Reading a 24-bit group back, sextet by sextet and byte by byte.\<close>

lemma sextets_join:
  assumes "(v :: nat) < 16777216"
  shows "((v div 262144 mod 64 * 64 + v div 4096 mod 64) * 64 + v div 64 mod 64) * 64 + v mod 64 = v"
proof -
  have top: "v div 262144 mod 64 = v div 262144" using assms by simp
  have split: "v div (64 * n) * 64 + v div n mod 64 = v div n" for n
    by (metis div_mult2_eq mult.commute div_mult_mod_eq)
  show ?thesis using top split [of 4096] split [of 64] split [of 1] by simp
qed

lemma byte_256 [simp]: "(256 :: byte) = 0" "(65536 :: byte) = 0"
  by (simp_all add: word_eq_iff_unsigned)

lemma byte_at_group:
  "byte_at 16 (unat (b0 :: byte) * 65536 + unat (b1 :: byte) * 256 + unat (b2 :: byte)) = b0"
  "byte_at 8 (unat b0 * 65536 + unat b1 * 256 + unat b2) = b1"
  "byte_at 0 (unat b0 * 65536 + unat b1 * 256 + unat b2) = b2"
proof -
  have b: "(unat b0 * 65536 + unat b1 * 256 + unat b2) div 256 = unat b0 * 256 + unat b1"
  proof -
    have "unat b0 * 65536 + unat b1 * 256 + unat b2 = unat b2 + (unat b0 * 256 + unat b1) * 256" by simp
    then show ?thesis by (simp only: div_mult_self1) simp
  qed
  have a: "(unat b0 * 65536 + unat b1 * 256 + unat b2) div 65536 = unat b0"
  proof -
    have "(unat b0 * 65536 + unat b1 * 256 + unat b2) div 65536 = (unat b0 * 256 + unat b1) div 256"
      by (simp only: b [symmetric] div_mult2_eq [symmetric]) simp
    also have "\<dots> = unat b0" by simp
    finally show ?thesis .
  qed
  show "byte_at 16 (unat b0 * 65536 + unat b1 * 256 + unat b2) = b0"
    by (simp add: byte_at_def a)
  show "byte_at 8 (unat b0 * 65536 + unat b1 * 256 + unat b2) = b1"
    by (simp add: byte_at_def b)
  show "byte_at 0 (unat b0 * 65536 + unat b1 * 256 + unat b2) = b2"
    by (simp add: byte_at_def)
qed

text \<open>The decoder on the characters of one word of at most 24 bits.\<close>

lemma decode4:
  assumes "unat (w :: u32) < 16777216" and "base64Decode rest = Some bytes"
  shows "base64Decode (sextet 18 w # sextet 12 w # sextet 6 w # sextet 0 w # rest)
           = Some (byte_at 16 (unat w) # byte_at 8 (unat w) # byte_at 0 (unat w) # bytes)"
  using sextets_join [OF assms(1)] assms(2) by (simp add: Let_def del: mod_less)

lemma decode3:
  assumes "unat (w :: u32) < 16777216" and "unat w mod 64 = 0"
  shows "base64Decode [sextet 18 w, sextet 12 w, sextet 6 w] = Some [byte_at 16 (unat w), byte_at 8 (unat w)]"
proof -
  have "((unat w div 262144 mod 64 * 64 + unat w div 4096 mod 64) * 64 + unat w div 64 mod 64) * 64 = unat w"
    using sextets_join [OF assms(1)] assms(2) by linarith
  then show ?thesis by (simp add: Let_def del: mod_less)
qed

lemma decode2:
  assumes "unat (w :: u32) < 16777216" and "unat w mod 64 = 0" and "unat w div 64 mod 64 = 0"
  shows "base64Decode [sextet 18 w, sextet 12 w] = Some [byte_at 16 (unat w)]"
proof -
  have "(unat w div 262144 mod 64 * 64 + unat w div 4096 mod 64) * 4096 = unat w"
    using sextets_join [OF assms(1)] assms(2,3) by (simp del: mod_less)
  then show ?thesis by (simp add: Let_def del: mod_less)
qed

lemma base64_decode_encode: "base64Decode (base64Encode bytes) = Some bytes"
  unfolding base64Encode_def
proof (induction bytes rule: base64EncodeInto.induct)
  case (1 b0 b1 b2 rest)
  let ?w = "push_bit 16 (ucast b0 :: u32) OR push_bit 8 (ucast b1) OR ucast b2"
  have less: "unat b0 < 256" "unat b1 < 256" "unat b2 < 256" by simp_all
  then have "unat ?w < 16777216" unfolding unat_group3 by linarith
  from decode4 [OF this 1 [OF refl]] show ?case by (simp add: Let_def unat_group3 byte_at_group)
next
  case (2 b0 b1)
  let ?w = "push_bit 16 (ucast b0 :: u32) OR push_bit 8 (ucast b1)"
  have less: "unat b0 < 256" "unat b1 < 256" by simp_all
  then have "unat ?w < 16777216" unfolding unat_group2 by linarith
  moreover have "unat ?w mod 64 = 0" unfolding unat_group2 by simp
  ultimately have "base64Decode [sextet 18 ?w, sextet 12 ?w, sextet 6 ?w]
      = Some [byte_at 16 (unat ?w), byte_at 8 (unat ?w)]" by (rule decode3)
  then show ?case using byte_at_group [of b0 b1 0] by (simp add: Let_def unat_group2)
next
  case (3 b0)
  let ?w = "push_bit 16 (ucast b0 :: u32)"
  have less: "unat b0 < 256" by simp
  then have "unat ?w < 16777216" unfolding shifted_bytes by linarith
  moreover have "unat ?w mod 64 = 0" "unat ?w div 64 mod 64 = 0" unfolding shifted_bytes by simp_all
  ultimately have "base64Decode [sextet 18 ?w, sextet 12 ?w] = Some [byte_at 16 (unat ?w)]"
    by (rule decode2)
  then show ?case using byte_at_group [of b0 0 0] by (simp add: Let_def shifted_bytes)
next
  case 4
  show ?case by simp
qed

lemma base64_length: "length (base64Encode bytes) = base64EncodedLength (length bytes)"
  unfolding base64Encode_def
  by (induction bytes rule: base64EncodeInto.induct) (simp_all add: Let_def base64EncodedLength_def)

lemma base64_alphabet: "set (base64Encode bytes) \<subseteq> set kBase64Chars"
  unfolding base64Encode_def
  by (induction bytes rule: base64EncodeInto.induct) (auto simp: Let_def sextet_mem)

lemma base64_no_dollar: "CHR ''$'' \<notin> set (base64Encode bytes)"
  using base64_alphabet dollar_not_base64 by blast

lemma after_last_dollar_append:
  assumes "CHR ''$'' \<notin> set d"
  shows "after_last_dollar (s @ ''$'' @ d) = Some d"
proof -
  have "takeWhile (\<lambda>c. c \<noteq> CHR ''$'') (rev d @ CHR ''$'' # rev s) = rev d"
    using assms by (subst takeWhile_append2) auto
  then show ?thesis by (simp add: after_last_dollar_def)
qed

text \<open>The digest comes back out of a PHC string it was put into.\<close>

lemma phc_digest:
  assumes "d \<noteq> []" and "CHR ''$'' \<notin> set d"
  shows "digestFromProtocolPhc (phc_parameters m @ b @ ''$'' @ d) m = Inr d"
  using assms after_last_dollar_append [OF assms(2), of "phc_parameters m @ b"]
  by (simp add: digestFromProtocolPhc_def)

lemma base64_nonempty: "bytes \<noteq> [] \<Longrightarrow> base64Encode bytes \<noteq> []"
  unfolding base64Encode_def by (cases bytes rule: base64EncodeInto.cases) (simp_all add: Let_def)

text \<open>\<open>hasXuniMatch\<close> is the substring test it stands for.\<close>

lemma prefix_snoc_nth: "prefix (p @ [d]) s \<longleftrightarrow> prefix p s \<and> length p < length s \<and> s ! length p = d"
proof (induction p arbitrary: s)
  case Nil
  show ?case by (cases s) auto
next
  case (Cons a p)
  then show ?case by (cases s) auto
qed

lemma hasXuniMatch_iff: "hasXuniMatch s \<longleftrightarrow> (\<exists>d. isdigit d \<and> contains s (''XUNI'' @ [d]))"
proof (induction s)
  case Nil
  show ?case by simp
next
  case (Cons c s)
  have "(prefix ''XUNI'' (c # s) \<and> 4 < length (c # s) \<and> isdigit ((c # s) ! 4)) \<longleftrightarrow>
        (\<exists>d. isdigit d \<and> prefix (''XUNI'' @ [d]) (c # s))"
    by (subst prefix_snoc_nth) (auto simp: eval_nat_numeral)
  with Cons show ?case by auto
qed

section \<open>Properties\<close>

text \<open>
  C34 (base64 loses nothing): The encoder is injective with the reference decoder as its inverse, its
  output has exactly the length \<open>base64EncodedLength\<close> predicts and uses only the alphabet, so no
  dollar sign of the PHC format.
\<close>

theorem base64_roundtrip:
  "base64Decode (base64Encode bytes) = Some bytes \<and>
   length (base64Encode bytes) = base64EncodedLength (length bytes) \<and>
   set (base64Encode bytes) \<subseteq> set kBase64Chars \<and> CHR ''$'' \<notin> set (base64Encode bytes)"
  using base64_decode_encode base64_length base64_alphabet base64_no_dollar by blast

end
