(* ===== verification/Hash_Api.thy ===== *)
theory Hash_Api
  imports Hash_Encoding
begin

text \<open>
  The hash API of \<open>src/hashapi\<close>: requests and results (\<open>HashApiTypes.h\<close>), their validation
  (\<open>HashApiValidation.cpp\<close>), the recording of matches (\<open>HashApiMatching.cpp\<close>), random keys
  (\<open>RandomHexKeyGenerator.h\<close>) and the batch loop of the CPU backend (\<open>CpuHashBackend.cpp\<close> over
  \<open>Argon2idHasher.cpp\<close>). The Argon2 library is the argument \<open>argon2\<close> of the definitions: it maps
  memory cost, salt and password to the contents of the output buffer, or fails. The outputs of the
  Mersenne twister are a function of their position, and the measured hash rate of a batch an
  argument. The timings, and the flag that asks for detailed ones, are left out: nothing reads them but
  the command line.
\<close>

section \<open>Requests and results\<close>

definition kHashApiKeyLength :: nat where "kHashApiKeyLength = 64"
definition kDefaultHashLength :: nat where "kDefaultHashLength = 64"
definition kMaxTargetPatternLength :: nat where "kMaxTargetPatternLength = 128"
definition kMaxCpuBatchSize :: u64 where "kMaxCpuBatchSize = 10000"
definition kMaxWarpsPerBlock :: u64 where "kMaxWarpsPerBlock = 16"

record HashApiRequest =
  rq_request_id :: string
  rq_algorithm :: string
  rq_backend :: string
  rq_salt_hex :: string
  rq_key :: string
  rq_key_prefix :: string
  rq_target_pattern :: string
  rq_difficulty :: u32
  rq_batch_size :: u64
  rq_device_id :: int
  rq_allow_xuni :: bool
  rq_first_block_workers :: u64
  rq_first_block_dynamic_chunk_size :: u64
  rq_first_block_dynamic_chunk_auto :: bool
  rq_gpu_first_blocks :: bool
  rq_warps_per_block :: u64
  rq_precomputed_refs :: bool

text \<open>The default member values of the struct.\<close>

definition default_request :: HashApiRequest where
  "default_request =
     \<lparr> rq_request_id = [], rq_algorithm = ''argon2id-xen'', rq_backend = ''cpu'', rq_salt_hex = [],
       rq_key = [], rq_key_prefix = [], rq_target_pattern = ''XEN11'', rq_difficulty = 42069,
       rq_batch_size = 1, rq_device_id = 0, rq_allow_xuni = True, rq_first_block_workers = 0,
       rq_first_block_dynamic_chunk_size = 0, rq_first_block_dynamic_chunk_auto = False,
       rq_gpu_first_blocks = False, rq_warps_per_block = 0, rq_precomputed_refs = False \<rparr>"

record HashApiMatch =
  mt_key :: string
  mt_hash :: string
  mt_matched_pattern :: string
  mt_attempt_index :: u64
  mt_is_superblock :: bool

record HashApiResult =
  rs_request_id :: string
  rs_ok :: bool
  rs_error :: string
  rs_algorithm :: string
  rs_backend :: string
  rs_device_id :: int
  rs_batch_size :: u64
  rs_batch_size_min :: u64
  rs_batch_size_max :: u64
  rs_attempts :: u64
  rs_first_block_dynamic_chunk_size :: u64
  rs_first_block_dynamic_chunk_auto :: bool
  rs_first_block_worker_count :: u64
  rs_first_block_chunk_size :: u64
  rs_first_block_dynamic_chunk_size_min :: u64
  rs_first_block_dynamic_chunk_size_max :: u64
  rs_first_block_chunk_size_min :: u64
  rs_first_block_chunk_size_max :: u64
  rs_gpu_first_blocks :: bool
  rs_warps_per_block :: u64
  rs_precomputed_refs :: bool
  rs_hashrate :: double
  rs_hash :: string
  rs_matches :: "HashApiMatch list"

definition default_result :: HashApiResult where
  "default_result =
     \<lparr> rs_request_id = [], rs_ok = False, rs_error = [], rs_algorithm = [], rs_backend = [],
       rs_device_id = 0, rs_batch_size = 0, rs_batch_size_min = 0, rs_batch_size_max = 0,
       rs_attempts = 0, rs_first_block_dynamic_chunk_size = 0, rs_first_block_dynamic_chunk_auto = False,
       rs_first_block_worker_count = 0, rs_first_block_chunk_size = 0, rs_first_block_dynamic_chunk_size_min = 0,
       rs_first_block_dynamic_chunk_size_max = 0, rs_first_block_chunk_size_min = 0, rs_first_block_chunk_size_max = 0,
       rs_gpu_first_blocks = False, rs_warps_per_block = 1, rs_precomputed_refs = False, rs_hashrate = 0, rs_hash = [], rs_matches = [] \<rparr>"

section \<open>Validation\<close>

definition isSupportedAlgorithm :: "string \<Rightarrow> bool" where
  "isSupportedAlgorithm algorithm = (algorithm = ''argon2id-xen'')"

definition isSupportedBackend :: "string \<Rightarrow> bool" where
  "isSupportedBackend backend = (backend \<in> {''cpu'', ''reference'', ''cuda''})"

definition isHexText :: "string \<Rightarrow> bool" where
  "isHexText value = list_all (\<lambda>c. hex_nibble c \<noteq> None) value"

definition normalizeHex :: "string \<Rightarrow> string" where
  "normalizeHex value =
     map tolower
       (if 2 \<le> length value \<and> value ! 0 = CHR ''0'' \<and> (value ! 1 = CHR ''x'' \<or> value ! 1 = CHR ''X'')
        then drop 2 value else value)"

definition complain :: "bool \<Rightarrow> string \<Rightarrow> string list" where
  "complain b message = (if b then [message] else [])"

definition salt_errors :: "string \<Rightarrow> string list" where
  "salt_errors salt =
     (if salt = [] then [''salt_hex is required'']
      else complain (length salt mod 2 \<noteq> 0) ''salt_hex must contain an even number of hex characters'' @
           complain (length salt < 16) ''salt_hex must be at least 16 hex characters'' @
           complain (\<not> isHexText salt) ''salt_hex must contain only hex characters'')"

definition key_errors :: "string \<Rightarrow> string \<Rightarrow> string list" where
  "key_errors pre key =
     (if pre = [] then []
      else complain (kHashApiKeyLength < length pre) ''key_prefix cannot exceed 64 hex characters'' @
           complain (\<not> isHexText pre) ''key_prefix must contain only hex characters'') @
     (if key = [] then []
      else complain (length key \<noteq> kHashApiKeyLength) ''key must contain exactly 64 hex characters'' @
           complain (\<not> isHexText key) ''key must contain only hex characters'' @
           complain (pre \<noteq> [] \<and> \<not> prefix pre key)
             ''key must start with key_prefix when both are provided'')"

definition validateRequest :: "HashApiRequest \<Rightarrow> string list" where
  "validateRequest request =
     complain (\<not> isSupportedAlgorithm (rq_algorithm request))
       (''unsupported algorithm: '' @ rq_algorithm request) @
     complain (\<not> isSupportedBackend (rq_backend request))
       (''unsupported backend: '' @ rq_backend request) @
     salt_errors (normalizeHex (rq_salt_hex request)) @
     key_errors (normalizeHex (rq_key_prefix request)) (normalizeHex (rq_key request)) @
     complain (rq_target_pattern request = []) ''target_pattern is required'' @
     complain (kMaxTargetPatternLength < length (rq_target_pattern request)) ''target_pattern is too long'' @
     complain (rq_difficulty request = 0) ''difficulty must be greater than zero'' @
     complain (rq_batch_size request = 0) ''batch_size must be greater than zero'' @
     complain ((rq_backend request = ''cpu'' \<or> rq_backend request = ''reference'') \<and>
               kMaxCpuBatchSize < rq_batch_size request) ''cpu batch_size exceeds safe limit'' @
     complain (rq_device_id request < 0) ''device_id must be non-negative'' @
     complain (rq_gpu_first_blocks request \<and> rq_backend request \<noteq> ''cuda'')
       ''gpu_first_blocks requires backend=cuda'' @
     complain (kMaxWarpsPerBlock < rq_warps_per_block request) ''warps_per_block exceeds maximum of 16'' @
     complain (1 < rq_warps_per_block request \<and> rq_backend request \<noteq> ''cuda'')
       ''warps_per_block > 1 requires backend=cuda'' @
     complain (rq_precomputed_refs request \<and> rq_backend request \<noteq> ''cuda'')
       ''precomputed_refs requires backend=cuda''"

definition isValidRequest :: "HashApiRequest \<Rightarrow> bool" where
  "isValidRequest request = (validateRequest request = [])"

fun joinErrors :: "string list \<Rightarrow> string" where
  "joinErrors [] = []"
| "joinErrors [e] = e"
| "joinErrors (e # es) = e @ ''; '' @ joinErrors es"

section \<open>Matches\<close>

definition appendMatches ::
  "HashApiRequest \<Rightarrow> HashApiResult \<Rightarrow> string \<Rightarrow> string \<Rightarrow> u64 \<Rightarrow> HashApiResult" where
  "appendMatches request result key hash attempt_index =
     (let m1 = (if contains hash (rq_target_pattern request)
                then [\<lparr> mt_key = key, mt_hash = hash, mt_matched_pattern = rq_target_pattern request,
                        mt_attempt_index = attempt_index, mt_is_superblock = isSuperblockHash hash \<rparr>]
                else []);
          m2 = (if rq_allow_xuni request \<and> hasXuniMatch hash
                then [\<lparr> mt_key = key, mt_hash = hash, mt_matched_pattern = ''XUNI'',
                        mt_attempt_index = attempt_index, mt_is_superblock = False \<rparr>]
                else [])
      in result \<lparr> rs_matches := rs_matches result @ m1 @ m2 \<rparr>)"

section \<open>Random keys\<close>

record RandomHexKeyGenerator =
  kg_prefix :: string
  kg_total_length :: nat
  kg_generator :: "nat \<Rightarrow> u64"
  kg_position :: nat

definition new_generator :: "string \<Rightarrow> nat \<Rightarrow> (nat \<Rightarrow> u64) \<Rightarrow> RandomHexKeyGenerator" where
  "new_generator initial_prefix key_length outputs =
     \<lparr> kg_prefix = map tolower initial_prefix, kg_total_length = key_length,
       kg_generator = outputs, kg_position = 0 \<rparr>"

text \<open>The inner loop: up to sixteen nibbles of one random word, while the key is too short.\<close>

fun push_nibbles :: "nat \<Rightarrow> nat \<Rightarrow> u64 \<Rightarrow> string \<Rightarrow> string" where
  "push_nibbles 0 len bits key = key"
| "push_nibbles (Suc n) len bits key =
     (if length key < len
      then push_nibbles n len (drop_bit 4 bits) (key @ [hex_char (unat (bits AND 0x0f))])
      else key)"

lemma push_nibbles_longer: "length key \<le> length (push_nibbles n len bits key)"
  by (induction n len bits key rule: push_nibbles.induct) auto

text \<open>The outer loop draws words until the key is long enough.\<close>

function fill_key :: "nat \<Rightarrow> (nat \<Rightarrow> u64) \<Rightarrow> nat \<Rightarrow> string \<Rightarrow> string \<times> nat" where
  "fill_key len outputs pos key =
     (if length key < len
      then fill_key len outputs (pos + 1) (push_nibbles 16 len (outputs pos) key)
      else (key, pos))"
  by pat_completeness auto

lemma push_nibbles_grows: "length key < len \<Longrightarrow> length key < length (push_nibbles (Suc n) len bits key)"
  using push_nibbles_longer [of "key @ [hex_char (unat (bits AND 0x0f))]" n len "drop_bit 4 bits"] by simp

termination fill_key
  by (relation "measure (\<lambda>(len, _, _, key). len - length key)")
     (auto simp: diff_less_mono2 push_nibbles_grows [of _ _ 15, simplified] simp del: push_nibbles.simps)

declare fill_key.simps [simp del]

definition nextRandomKey :: "RandomHexKeyGenerator \<Rightarrow> string \<times> RandomHexKeyGenerator" where
  "nextRandomKey g =
     (if kg_total_length g \<le> length (kg_prefix g)
      then (take (kg_total_length g) (kg_prefix g), g)
      else let (key, pos) = fill_key (kg_total_length g) (kg_generator g) (kg_position g) (kg_prefix g)
           in (key, g \<lparr> kg_position := pos \<rparr>))"

section \<open>The CPU backend\<close>

definition hexchar_to_byte :: "char \<Rightarrow> string + byte" where
  "hexchar_to_byte ch = (case hex_nibble ch of None \<Rightarrow> Inl ''Invalid hexadecimal character''
                         | Some n \<Rightarrow> Inr (word_of_nat n))"

text \<open>After an odd number of characters the loop reads the terminating NUL of the string, which is
  no hexadecimal digit.\<close>

fun hexstr_to_bytes :: "string \<Rightarrow> string + byte list" where
  "hexstr_to_bytes [] = Inr []"
| "hexstr_to_bytes [c] =
     (case hexchar_to_byte c of Inl e \<Rightarrow> Inl e | Inr _ \<Rightarrow>
      (case hexchar_to_byte (CHR 0x00) of Inl e \<Rightarrow> Inl e | Inr _ \<Rightarrow> Inr []))"
| "hexstr_to_bytes (c # d # rest) =
     (case hexchar_to_byte c of Inl e \<Rightarrow> Inl e | Inr h \<Rightarrow>
      (case hexchar_to_byte d of Inl e \<Rightarrow> Inl e | Inr l \<Rightarrow>
       (case hexstr_to_bytes rest of Inl e \<Rightarrow> Inl e | Inr bytes \<Rightarrow>
        Inr ((push_bit 4 h OR l) # bytes))))"

text \<open>\<open>generateHash\<close> keeps the buffer up to its first NUL.\<close>

type_synonym argon2_library = "u32 \<Rightarrow> byte list \<Rightarrow> string \<Rightarrow> string option"

definition generateHash :: "argon2_library \<Rightarrow> u32 \<Rightarrow> byte list \<Rightarrow> string \<Rightarrow> string + string" where
  "generateHash argon2 m_cost salt password =
     (case argon2 m_cost salt password of
        None \<Rightarrow> Inl ''Failed to generate Argon2id hash''
      | Some encoded_hash \<Rightarrow> Inr (takeWhile (\<lambda>c. c \<noteq> CHR 0x00) encoded_hash))"

definition kMinArgon2CpuDifficulty :: u32 where "kMinArgon2CpuDifficulty = 8"

text \<open>The batch loop, with the attempts still to do; an exception stops it with the matches found
  so far.\<close>

fun cpu_attempts ::
  "argon2_library \<Rightarrow> HashApiRequest \<Rightarrow> byte list \<Rightarrow> string \<Rightarrow> nat \<Rightarrow> nat \<Rightarrow> RandomHexKeyGenerator \<Rightarrow>
   HashApiResult \<Rightarrow> string option \<times> HashApiResult" where
  "cpu_attempts argon2 request salt fixed_key i 0 g result = (None, result)"
| "cpu_attempts argon2 request salt fixed_key i (Suc n) g result =
     (let (key, g') = (if fixed_key \<noteq> [] then (fixed_key, g) else nextRandomKey g) in
      case generateHash argon2 (rq_difficulty request) salt key of
        Inl e \<Rightarrow> (Some e, result)
      | Inr hash \<Rightarrow>
          let result' = (if fixed_key \<noteq> [] then result \<lparr> rs_hash := hash \<rparr> else result) in
          cpu_attempts argon2 request salt fixed_key (i + 1) n g'
            (appendMatches request result' key hash (word_of_nat i)))"

definition cpu_compute ::
  "argon2_library \<Rightarrow> (nat \<Rightarrow> u64) \<Rightarrow> HashApiRequest \<Rightarrow> HashApiResult \<Rightarrow> string option \<times> HashApiResult" where
  "cpu_compute argon2 outputs request result =
     (let salt = normalizeHex (rq_salt_hex request);
          pre = normalizeHex (rq_key_prefix request);
          fixed_key = normalizeHex (rq_key request);
          attempts = (if fixed_key \<noteq> [] then 1 else rq_batch_size request)
      in case hexstr_to_bytes salt of
           Inl e \<Rightarrow> (Some e, result)
         | Inr salt_bytes \<Rightarrow>
             (case cpu_attempts argon2 request salt_bytes fixed_key 0 (unat attempts)
                     (new_generator pre kHashApiKeyLength outputs) result of
                (Some e, result') \<Rightarrow> (Some e, result')
              | (None, result') \<Rightarrow>
                  (None, result' \<lparr> rs_ok := True, rs_attempts := attempts, rs_batch_size := attempts,
                                   rs_batch_size_min := attempts, rs_batch_size_max := attempts \<rparr>)))"

definition CpuHashBackend_runBatch ::
  "argon2_library \<Rightarrow> (nat \<Rightarrow> u64) \<Rightarrow> (u64 \<Rightarrow> double) \<Rightarrow> HashApiRequest \<Rightarrow> HashApiResult" where
  "CpuHashBackend_runBatch argon2 outputs rate request =
     (let result = default_result
            \<lparr> rs_request_id := rq_request_id request, rs_algorithm := rq_algorithm request,
              rs_backend := (if rq_backend request = ''reference'' then ''reference'' else ''cpu''),
              rs_device_id := rq_device_id request, rs_batch_size := rq_batch_size request \<rparr>;
          errors = validateRequest request
      in if errors \<noteq> [] then result \<lparr> rs_error := joinErrors errors \<rparr>
         else if rq_backend request = ''cuda''
         then result \<lparr> rs_error := ''cuda backend is not available in CpuHashBackend'' \<rparr>
         else if rq_difficulty request < kMinArgon2CpuDifficulty
         then result \<lparr> rs_error := ''cpu/reference difficulty must be at least 8'' \<rparr>
         else case cpu_compute argon2 outputs request result of
                (Some e, r) \<Rightarrow> r \<lparr> rs_error := e \<rparr>
              | (None, r) \<Rightarrow> if 0 < rs_attempts r then r \<lparr> rs_hashrate := rate (rs_attempts r) \<rparr> else r)"

section \<open>Lemmas\<close>

text \<open>Both hex readers of the sources agree on even-length text.\<close>

lemma hex_pairs_agree: "even (length s) \<Longrightarrow> isHexText s \<Longrightarrow>
  \<exists>bytes. hexstr_to_bytes s = Inr bytes \<and> hex_pairs s = Inr bytes"
proof (induction s rule: hexstr_to_bytes.induct)
  case (3 c d rest)
  from 3(2) have "even (length rest)" by simp
  moreover have "isHexText rest" using 3(3) by (simp add: isHexText_def)
  moreover obtain h l where "hex_nibble c = Some h" "hex_nibble d = Some l"
    using 3(3) by (auto simp: isHexText_def)
  ultimately show ?case using 3(1) [of "word_of_nat h" "word_of_nat l"]
    by (auto simp: hexchar_to_byte_def)
qed simp_all

lemma hexstr_pairs:
  assumes "length s mod 2 = 0" and "isHexText s"
  shows "\<exists>bytes. hexstr_to_bytes s = Inr bytes \<and> hexToBytes s = Inr bytes"
proof -
  have "even (length s)" using assms(1) by presburger
  from hex_pairs_agree [OF this assms(2)] assms(1) show ?thesis by (simp add: hexToBytes_def)
qed

lemma push_nibbles_keeps:
  "\<exists>t. push_nibbles n len bits key = key @ t \<and> (\<forall>c\<in>set t. hex_nibble c \<noteq> None)"
proof (induction n len bits key rule: push_nibbles.induct)
  case (2 n len bits key)
  have "unat (bits AND 0x0f) < 16"
  proof -
    have "bits AND 0x0f = take_bit 4 bits" by (simp add: take_bit_eq_mask mask_eq_exp_minus_1)
    then show ?thesis by (simp only: unsigned_take_bit_eq) (simp add: take_bit_eq_mod)
  qed
  with 2 show ?case by (cases "length key < len") auto
qed simp

lemma push_nibbles_bound: "length key \<le> len \<Longrightarrow> length (push_nibbles n len bits key) \<le> len"
  by (induction n len bits key rule: push_nibbles.induct) auto

lemma fill_key_spec:
  assumes "length key \<le> len"
  shows "\<exists>t. fst (fill_key len outputs pos key) = key @ t \<and>
           length (fst (fill_key len outputs pos key)) = len \<and> (\<forall>c\<in>set t. hex_nibble c \<noteq> None)"
  using assms
proof (induction len outputs pos key rule: fill_key.induct)
  case (1 len outputs pos key)
  show ?case
  proof (cases "length key < len")
    case True
    obtain t where t: "push_nibbles 16 len (outputs pos) key = key @ t" "\<forall>c\<in>set t. hex_nibble c \<noteq> None"
      using push_nibbles_keeps by blast
    have "length (push_nibbles 16 len (outputs pos) key) \<le> len"
      by (rule push_nibbles_bound) (use True in simp)
    from 1(1) [OF True this] t show ?thesis
      by (subst fill_key.simps, subst (2) fill_key.simps) (auto simp: True)
  next
    case False
    with 1(2) show ?thesis by (simp add: fill_key.simps)
  qed
qed

text \<open>A key of the CPU miner: 64 hexadecimal digits that start with the lower-case prefix.\<close>

definition good_key :: "string \<Rightarrow> string \<Rightarrow> bool" where
  "good_key pre k = (length k = kHashApiKeyLength \<and> isHexText k \<and> prefix pre k)"

lemma nextRandomKey_good:
  assumes "isHexText (kg_prefix g)" and "length (kg_prefix g) \<le> kHashApiKeyLength"
    and "kg_total_length g = kHashApiKeyLength"
  shows "good_key (kg_prefix g) (fst (nextRandomKey g))"
    and "kg_prefix (snd (nextRandomKey g)) = kg_prefix g"
    and "kg_total_length (snd (nextRandomKey g)) = kHashApiKeyLength"
proof -
  show "good_key (kg_prefix g) (fst (nextRandomKey g))"
  proof (cases "kg_total_length g \<le> length (kg_prefix g)")
    case True
    with assms show ?thesis by (simp add: nextRandomKey_def good_key_def)
  next
    case False
    then have "length (kg_prefix g) \<le> kg_total_length g" by simp
    from fill_key_spec [OF this] obtain t where
      "fst (fill_key (kg_total_length g) (kg_generator g) (kg_position g) (kg_prefix g)) = kg_prefix g @ t"
      "length (fst (fill_key (kg_total_length g) (kg_generator g) (kg_position g) (kg_prefix g))) = kg_total_length g"
      "\<forall>c\<in>set t. hex_nibble c \<noteq> None" by metis
    with assms False show ?thesis
      by (auto simp: nextRandomKey_def good_key_def isHexText_def list_all_iff split: prod.splits)
  qed
  show "kg_prefix (snd (nextRandomKey g)) = kg_prefix g"
    "kg_total_length (snd (nextRandomKey g)) = kHashApiKeyLength"
    using assms(3) by (auto simp: nextRandomKey_def split: prod.splits)
qed

text \<open>What a batch tries and finds, stated without the loop: its keys in order, and the matches
  of the key tried at position \<open>i\<close>.\<close>

fun batch_keys :: "string \<Rightarrow> nat \<Rightarrow> RandomHexKeyGenerator \<Rightarrow> string list" where
  "batch_keys fixed_key 0 g = []"
| "batch_keys fixed_key (Suc n) g =
     (if fixed_key \<noteq> [] then fixed_key # batch_keys fixed_key n g
      else fst (nextRandomKey g) # batch_keys fixed_key n (snd (nextRandomKey g)))"

definition matches_of :: "HashApiRequest \<Rightarrow> string \<Rightarrow> string \<Rightarrow> nat \<Rightarrow> HashApiMatch list" where
  "matches_of request key hash i =
     rs_matches (appendMatches request default_result key hash (word_of_nat i))"

definition encoded :: "argon2_library \<Rightarrow> u32 \<Rightarrow> byte list \<Rightarrow> string \<Rightarrow> string" where
  "encoded argon2 m_cost salt key = takeWhile (\<lambda>c. c \<noteq> CHR 0x00) (the (argon2 m_cost salt key))"

definition batch_matches ::
  "argon2_library \<Rightarrow> HashApiRequest \<Rightarrow> byte list \<Rightarrow> nat \<Rightarrow> string list \<Rightarrow> HashApiMatch list" where
  "batch_matches argon2 request salt i keys =
     concat (map (\<lambda>(j, k). matches_of request k (encoded argon2 (rq_difficulty request) salt k) j)
               (zip [i..<i + length keys] keys))"

lemma length_batch_keys [simp]: "length (batch_keys fixed_key n g) = n"
  by (induction fixed_key n g rule: batch_keys.induct) simp_all

lemma appendMatches_matches:
  "appendMatches request result key hash (word_of_nat i)
     = result \<lparr> rs_matches := rs_matches result @ matches_of request key hash i \<rparr>"
  by (simp add: appendMatches_def matches_of_def default_result_def Let_def)

lemma batch_matches_Cons:
  "batch_matches argon2 request salt i (k # ks)
     = matches_of request k (encoded argon2 (rq_difficulty request) salt k) i
       @ batch_matches argon2 request salt (i + 1) ks"
proof -
  have "[i..<i + length (k # ks)] = i # [i + 1..<i + 1 + length ks]"
    by (subst upt_conv_Cons) simp_all
  then show ?thesis by (simp add: batch_matches_def)
qed

lemma generateHash_encoded:
  "generateHash argon2 m salt k = (if argon2 m salt k = None then Inl ''Failed to generate Argon2id hash''
                                   else Inr (encoded argon2 m salt k))"
  by (auto simp: generateHash_def encoded_def)

lemma cpu_attempts_spec:
  "if \<forall>k\<in>set (batch_keys fixed_key n g). argon2 (rq_difficulty request) salt k \<noteq> None
   then \<exists>h. cpu_attempts argon2 request salt fixed_key i n g result
        = (None, result \<lparr> rs_hash := h,
                          rs_matches := rs_matches result @
                            batch_matches argon2 request salt i (batch_keys fixed_key n g) \<rparr>)
   else \<exists>h ms. cpu_attempts argon2 request salt fixed_key i n g result
        = (Some ''Failed to generate Argon2id hash'', result \<lparr> rs_hash := h, rs_matches := ms \<rparr>)"
proof (induction n arbitrary: i g result)
  case 0
  have "cpu_attempts argon2 request salt fixed_key i 0 g result =
      (None, result \<lparr> rs_hash := rs_hash result,
        rs_matches := rs_matches result @ batch_matches argon2 request salt i (batch_keys fixed_key 0 g) \<rparr>)"
    by (simp add: batch_matches_def)
  moreover have "\<forall>k\<in>set (batch_keys fixed_key 0 g). argon2 (rq_difficulty request) salt k \<noteq> None" by simp
  ultimately show ?case by (metis (no_types))
next
  case (Suc n)
  define k g' where "k = (if fixed_key \<noteq> [] then fixed_key else fst (nextRandomKey g))"
    and "g' = (if fixed_key \<noteq> [] then g else snd (nextRandomKey g))"
  define r where "r = (if fixed_key \<noteq> []
       then result \<lparr> rs_hash := encoded argon2 (rq_difficulty request) salt k \<rparr> else result)"
  have keys: "batch_keys fixed_key (Suc n) g = k # batch_keys fixed_key n g'"
    by (simp add: k_def g'_def)
  have head: "(if fixed_key \<noteq> [] then (fixed_key, g) else nextRandomKey g) = (k, g')"
    by (simp add: k_def g'_def)
  show ?case
  proof (cases "argon2 (rq_difficulty request) salt k")
    case None
    then have "cpu_attempts argon2 request salt fixed_key i (Suc n) g result
        = (Some ''Failed to generate Argon2id hash'',
           result \<lparr> rs_hash := rs_hash result, rs_matches := rs_matches result \<rparr>)"
      unfolding cpu_attempts.simps head by (simp add: generateHash_encoded)
    with None keys show ?thesis by (metis list.set_intros(1))
  next
    case (Some buf)
    then have step: "cpu_attempts argon2 request salt fixed_key i (Suc n) g result
        = cpu_attempts argon2 request salt fixed_key (i + 1) n g'
            (r \<lparr> rs_matches := rs_matches r @ matches_of request k
                  (encoded argon2 (rq_difficulty request) salt k) i \<rparr>)"
      unfolding cpu_attempts.simps head by (simp add: generateHash_encoded appendMatches_matches r_def)
    have "rs_matches r = rs_matches result" and "r \<lparr> rs_hash := h \<rparr> = result \<lparr> rs_hash := h \<rparr>" for h
      by (simp_all add: r_def)
    note r = this(1) this(2)
    have upd: "r \<lparr> rs_matches := a, rs_hash := h, rs_matches := b \<rparr> = result \<lparr> rs_hash := h, rs_matches := b \<rparr>"
      for a b h by (simp add: r_def)
    show ?thesis
      using Suc.IH [of g' "i + 1" "r \<lparr> rs_matches := rs_matches r @ matches_of request k
                  (encoded argon2 (rq_difficulty request) salt k) i \<rparr>"] Some
      unfolding step keys by (auto simp: upd r batch_matches_Cons split: if_splits)
  qed
qed

lemma complain_Nil [simp]: "complain b m = [] \<longleftrightarrow> \<not> b"
  by (simp add: complain_def)

lemma valid_salt:
  assumes "isValidRequest request"
  shows "\<exists>bytes. hexstr_to_bytes (normalizeHex (rq_salt_hex request)) = Inr bytes \<and>
                 hexToBytes (normalizeHex (rq_salt_hex request)) = Inr bytes"
  using assms
  by (intro hexstr_pairs)
     (auto simp: isValidRequest_def validateRequest_def salt_errors_def split: if_splits)

lemma tolower_lower: "tolower (tolower c) = tolower c"
  by (auto simp: tolower_def isupper_def Let_def)

lemma tolower_normal: "map tolower (normalizeHex v) = normalizeHex v"
  by (simp add: normalizeHex_def tolower_lower)

lemma batch_keys_good:
  assumes "isHexText (kg_prefix g)" and "length (kg_prefix g) \<le> kHashApiKeyLength"
    and "kg_total_length g = kHashApiKeyLength"
    and "fixed_key \<noteq> [] \<Longrightarrow> good_key (kg_prefix g) fixed_key"
    and "k \<in> set (batch_keys fixed_key n g)"
  shows "good_key (kg_prefix g) k"
  using assms
proof (induction n arbitrary: g)
  case (Suc n)
  show ?case
  proof (cases "fixed_key = []")
    case True
    with Suc.prems(5) consider "k = fst (nextRandomKey g)" | "k \<in> set (batch_keys fixed_key n (snd (nextRandomKey g)))"
      by auto
    then show ?thesis
    proof cases
      case 1
      then show ?thesis using nextRandomKey_good(1) [OF Suc.prems(1-3)] by simp
    next
      case 2
      with Suc.IH [of "snd (nextRandomKey g)"] Suc.prems True show ?thesis
        by (simp add: nextRandomKey_good)
    qed
  qed (use Suc in auto)
qed simp

lemma valid_keys:
  assumes "isValidRequest request"
    and "k \<in> set (batch_keys (normalizeHex (rq_key request)) n
                 (new_generator (normalizeHex (rq_key_prefix request)) kHashApiKeyLength outputs))"
  shows "good_key (normalizeHex (rq_key_prefix request)) k"
proof -
  let ?g = "new_generator (normalizeHex (rq_key_prefix request)) kHashApiKeyLength outputs"
  have pre: "kg_prefix ?g = normalizeHex (rq_key_prefix request)"
    by (simp add: new_generator_def tolower_normal)
  have key: "key_errors (kg_prefix ?g) (normalizeHex (rq_key request)) = []"
    using assms(1) unfolding pre by (simp add: isValidRequest_def validateRequest_def)
  have "good_key (kg_prefix ?g) k"
  proof (rule batch_keys_good [OF _ _ _ _ assms(2)])
    show "isHexText (kg_prefix ?g)" "length (kg_prefix ?g) \<le> kHashApiKeyLength"
      using key by (auto simp: key_errors_def isHexText_def split: if_splits)
    show "kg_total_length ?g = kHashApiKeyLength" by (simp add: new_generator_def)
    show "good_key (kg_prefix ?g) (normalizeHex (rq_key request))" if "normalizeHex (rq_key request) \<noteq> []"
      using key that by (auto simp: key_errors_def good_key_def split: if_splits)
  qed
  with pre show ?thesis by simp
qed

lemma joinErrors_nonempty: "es \<noteq> [] \<Longrightarrow> (\<forall>e\<in>set es. e \<noteq> []) \<Longrightarrow> joinErrors es \<noteq> []"
  by (induction es rule: joinErrors.induct) simp_all

lemma validate_messages: "e \<in> set (validateRequest request) \<Longrightarrow> e \<noteq> []"
  by (auto simp: validateRequest_def salt_errors_def key_errors_def complain_def split: if_splits)

lemma cpu_batch_spec:
  "let result = CpuHashBackend_runBatch argon2 outputs rate request;
       fixed_key = normalizeHex (rq_key request);
       pre = normalizeHex (rq_key_prefix request);
       n = (if fixed_key \<noteq> [] then 1 else rq_batch_size request);
       keys = batch_keys fixed_key (unat n) (new_generator pre kHashApiKeyLength outputs);
       salt = projr (hexToBytes (normalizeHex (rq_salt_hex request)))
   in (rs_ok result \<longleftrightarrow>
         isValidRequest request \<and> rq_backend request \<noteq> ''cuda'' \<and> 8 \<le> rq_difficulty request \<and>
         (\<forall>k\<in>set keys. argon2 (rq_difficulty request) salt k \<noteq> None)) \<and>
      (rs_ok result \<longrightarrow>
         rs_attempts result = n \<and> (\<forall>k\<in>set keys. good_key pre k) \<and>
         rs_matches result = batch_matches argon2 request salt 0 keys) \<and>
      (\<not> rs_ok result \<longrightarrow> rs_attempts result = 0 \<and> rs_error result \<noteq> [])"
proof (cases "isValidRequest request \<and> rq_backend request \<noteq> ''cuda'' \<and> 8 \<le> rq_difficulty request")
  case False
  have "joinErrors (validateRequest request) \<noteq> []" if "\<not> isValidRequest request"
    using joinErrors_nonempty that validate_messages by (auto simp: isValidRequest_def)
  with False show ?thesis
    by (auto simp: CpuHashBackend_runBatch_def Let_def isValidRequest_def default_result_def
          kMinArgon2CpuDifficulty_def not_le)
next
  case True
  define fixed_key pre n where "fixed_key = normalizeHex (rq_key request)"
    and "pre = normalizeHex (rq_key_prefix request)"
    and "n = (if fixed_key \<noteq> [] then 1 else rq_batch_size request)"
  define g where "g = new_generator pre kHashApiKeyLength outputs"
  obtain salt where salt: "hexstr_to_bytes (normalizeHex (rq_salt_hex request)) = Inr salt"
    "hexToBytes (normalizeHex (rq_salt_hex request)) = Inr salt"
    using valid_salt True by blast
  have good: "\<forall>k\<in>set (batch_keys fixed_key (unat n) g). good_key pre k"
    using valid_keys True by (auto simp: fixed_key_def pre_def g_def)
  have diff: "\<not> rq_difficulty request < 8" using True by (simp add: not_less)
  let ?r = "default_result \<lparr> rs_request_id := rq_request_id request, rs_algorithm := rq_algorithm request,
              rs_backend := (if rq_backend request = ''reference'' then ''reference'' else ''cpu''),
              rs_device_id := rq_device_id request, rs_batch_size := rq_batch_size request \<rparr>"
  have run: "CpuHashBackend_runBatch argon2 outputs rate request
      = (case cpu_compute argon2 outputs request ?r of
                (Some e, r) \<Rightarrow> r \<lparr> rs_error := e \<rparr>
              | (None, r) \<Rightarrow> if 0 < rs_attempts r then r \<lparr> rs_hashrate := rate (rs_attempts r) \<rparr> else r)"
    using True diff by (simp add: CpuHashBackend_runBatch_def Let_def isValidRequest_def kMinArgon2CpuDifficulty_def)
  show ?thesis
    using cpu_attempts_spec [of fixed_key "unat n" g argon2 request salt 0 ?r] True good
    unfolding run cpu_compute_def Let_def
      fixed_key_def [symmetric] pre_def [symmetric] n_def [symmetric] g_def [symmetric]
    by (auto simp: salt default_result_def split: if_splits)
qed

text \<open>The matches of a successful batch, one by one.\<close>

lemma matches_of_match:
  assumes "m \<in> set (matches_of request k h i)"
  shows "mt_key m = k" "mt_hash m = h" "mt_attempt_index m = word_of_nat i"
    "mt_matched_pattern m = rq_target_pattern request \<or> mt_matched_pattern m = ''XUNI''"
  using assms by (auto simp: matches_of_def appendMatches_def default_result_def Let_def split: if_splits)

lemma cpu_batch_match:
  fixes argon2 :: argon2_library and outputs :: "nat \<Rightarrow> u64" and rate :: "u64 \<Rightarrow> double"
    and request :: HashApiRequest
  defines "result \<equiv> CpuHashBackend_runBatch argon2 outputs rate request"
  assumes "rs_ok result" and "m \<in> set (rs_matches result)"
  shows "\<exists>salt. hexToBytes (normalizeHex (rq_salt_hex request)) = Inr salt \<and>
           argon2 (rq_difficulty request) salt (mt_key m) \<noteq> None \<and>
           mt_hash m = encoded argon2 (rq_difficulty request) salt (mt_key m)"
    and "good_key (normalizeHex (rq_key_prefix request)) (mt_key m)"
    and "mt_attempt_index m < rs_attempts result"
proof -
  define n where "n = (if normalizeHex (rq_key request) \<noteq> [] then 1 else rq_batch_size request)"
  define keys where "keys = batch_keys (normalizeHex (rq_key request)) (unat n)
    (new_generator (normalizeHex (rq_key_prefix request)) kHashApiKeyLength outputs)"
  define salt where "salt = projr (hexToBytes (normalizeHex (rq_salt_hex request)))"
  note spec = cpu_batch_spec [of argon2 outputs rate request, folded result_def, unfolded Let_def,
      folded n_def, folded keys_def salt_def]
  have ok: "isValidRequest request" "\<forall>k\<in>set keys. argon2 (rq_difficulty request) salt k \<noteq> None"
    "rs_attempts result = n" "\<forall>k\<in>set keys. good_key (normalizeHex (rq_key_prefix request)) k"
    "rs_matches result = batch_matches argon2 request salt 0 keys"
    using spec assms(2) by blast+
  obtain bytes where "hexToBytes (normalizeHex (rq_salt_hex request)) = Inr bytes"
    using valid_salt [OF ok(1)] by blast
  then have salt: "hexToBytes (normalizeHex (rq_salt_hex request)) = Inr salt" by (simp add: salt_def)
  obtain j k where jk: "(j, k) \<in> set (zip [0..<length keys] keys)"
    "m \<in> set (matches_of request k (encoded argon2 (rq_difficulty request) salt k) j)"
    using assms(3) ok(5) by (auto simp: batch_matches_def)
  note mk = matches_of_match [OF jk(2)]
  have k: "k \<in> set keys" and "j < length keys"
    using jk(1) by (auto dest: set_zip_rightD set_zip_leftD)
  then have j: "j < unat n" by (simp add: keys_def)
  have "unat (word_of_nat j :: u64) \<le> j" by (simp add: unsigned_of_nat take_bit_nat_less_eq_self)
  with j have "word_of_nat j < n" by (simp add: word_less_nat_alt)
  then show "mt_attempt_index m < rs_attempts result" using ok(3) mk by simp
  show "good_key (normalizeHex (rq_key_prefix request)) (mt_key m)" using ok(4) k mk by simp
  show "\<exists>salt. hexToBytes (normalizeHex (rq_salt_hex request)) = Inr salt \<and>
           argon2 (rq_difficulty request) salt (mt_key m) \<noteq> None \<and>
           mt_hash m = encoded argon2 (rq_difficulty request) salt (mt_key m)"
    using salt mk ok(2) k by auto
qed

section \<open>Properties\<close>

text \<open>
  C15 (a CPU batch tries what it says and reports every match): A batch succeeds exactly when its
  request is valid, is for this backend, is at least at the minimum difficulty and the Argon2
  library fails on none of its keys. A successful batch counts one attempt per key, every key has
  64 hexadecimal digits and the requested prefix, and its matches are exactly the matches of the
  keys tried, in order, each with its position: none is invented and none is lost. A failed batch
  counts no attempt and says why.
\<close>

theorem cpu_batch_correct:
  "let result = CpuHashBackend_runBatch argon2 outputs rate request;
       fixed_key = normalizeHex (rq_key request);
       pre = normalizeHex (rq_key_prefix request);
       n = (if fixed_key \<noteq> [] then 1 else rq_batch_size request);
       keys = batch_keys fixed_key (unat n) (new_generator pre kHashApiKeyLength outputs);
       salt = projr (hexToBytes (normalizeHex (rq_salt_hex request)))
   in (rs_ok result \<longleftrightarrow>
         isValidRequest request \<and> rq_backend request \<noteq> ''cuda'' \<and> 8 \<le> rq_difficulty request \<and>
         (\<forall>k\<in>set keys. argon2 (rq_difficulty request) salt k \<noteq> None)) \<and>
      (rs_ok result \<longrightarrow>
         rs_attempts result = n \<and> (\<forall>k\<in>set keys. good_key pre k) \<and>
         rs_matches result = batch_matches argon2 request salt 0 keys) \<and>
      (\<not> rs_ok result \<longrightarrow> rs_attempts result = 0 \<and> rs_error result \<noteq> [])"
  by (rule cpu_batch_spec)

text \<open>A library that hashes every password to the same PHC string, and a request for one key.\<close>

definition sample_argon2 :: argon2_library where
  "sample_argon2 m salt k = Some (''$argon2id$v=19$m=8,t=1,p=1$AAAAAAAAAAA$abXEN11XUNI7'' @ [CHR 0x00])"

definition sample_request :: HashApiRequest where
  "sample_request = default_request
     \<lparr> rq_salt_hex := ''0x0000000000000000'', rq_difficulty := 8, rq_batch_size := 64,
       rq_key := ''00000000000000000000000000000000'' @ ''00000000000000000000000000000000'' \<rparr>"

lemma sample_salt: "hexToBytes (normalizeHex (rq_salt_hex sample_request)) = Inr [0, 0, 0, 0, 0, 0, 0, 0]"
  by (simp add: sample_request_def normalizeHex_def hexToBytes_def hex_nibble_def tolower_def isupper_def
        code_def Let_def)

lemma sample_valid: "isValidRequest sample_request"
  by (simp add: isValidRequest_def validateRequest_def sample_request_def default_request_def
        isSupportedAlgorithm_def isSupportedBackend_def salt_errors_def key_errors_def normalizeHex_def
        isHexText_def hex_nibble_def tolower_def isupper_def code_def Let_def
        kHashApiKeyLength_def kMaxTargetPatternLength_def kMaxCpuBatchSize_def kMaxWarpsPerBlock_def)

theorem cpu_batch_correct_witness:
  "rs_ok (CpuHashBackend_runBatch sample_argon2 (\<lambda>_. 0) (\<lambda>_. 0) sample_request) \<and>
   rs_attempts (CpuHashBackend_runBatch sample_argon2 (\<lambda>_. 0) (\<lambda>_. 0) sample_request) = 1 \<and>
   \<not> rs_ok (CpuHashBackend_runBatch (\<lambda>_ _ _. None) (\<lambda>_. 0) (\<lambda>_. 0) sample_request)"
proof -
  have key: "normalizeHex (rq_key sample_request) \<noteq> []"
    by (simp add: sample_request_def normalizeHex_def)
  have "rq_backend sample_request \<noteq> ''cuda''" "8 \<le> rq_difficulty sample_request"
    by (simp_all add: sample_request_def default_request_def)
  with cpu_batch_correct [of sample_argon2 "\<lambda>_. 0" "\<lambda>_. 0" sample_request]
    cpu_batch_correct [of "\<lambda>_ _ _. None" "\<lambda>_. 0" "\<lambda>_. 0" sample_request] key sample_valid
  show ?thesis by (simp add: Let_def sample_argon2_def)
qed

end
