(* ===== verification/Cpu_Worker.thy ===== *)
theory Cpu_Worker
  imports Hash_Api
begin

text \<open>
  \<open>src/CpuMiningWorker.cpp\<close>: the group of CPU hashing threads. The shared atomics and the data under
  the two mutexes are one record; each thread has its phase and its local counter
  \<open>attempts_since_match\<close>. Threads interleave at whole passes of the loop of \<open>runWorker\<close>. What a pass
  asks its callbacks and its backend for is the argument \<open>tick\<close>; the submit callback is a step on a
  state of its own, which may throw into the worker. The sum of the hash rates, in floating point,
  is the argument \<open>aggregate\<close>. Failure of the operating system to create a thread is not modelled.
\<close>

section \<open>State\<close>

record cpu_config =
  cc_worker_count :: nat
  cc_batch_size :: u64
  cc_max_difficulty :: u32

record cpu_work =
  wk_salt_hex :: string
  wk_key_prefix :: string
  wk_target_pattern :: string
  wk_allow_xuni :: bool

text \<open>The arguments of the submit callback (\<open>SubmitCallback\<close> of \<open>MiningCommon.h\<close>).\<close>

record submission =
  sb_hexsalt :: string
  sb_key :: string
  sb_hashed_pure :: string
  sb_memory_cost :: u32
  sb_attempts :: u64
  sb_hashrate :: double
  sb_source :: string

datatype worker_phase = NotEntered | Looping | Exited

record 'w cpu_state =
  cw_stop_requested :: bool
  cw_running :: bool
  cw_attempts :: u64
  cw_matches :: u64
  cw_active_workers :: int
  cw_difficulty :: u32
  cw_paused_for_difficulty :: bool
  cw_threads :: nat
  cw_worker_hashrates :: "double list"
  cw_last_error :: string
  cw_started_at :: "int option"
  cw_stopped_at :: "int option"
  cw_phase :: "nat \<Rightarrow> worker_phase"
  cw_since_match :: "nat \<Rightarrow> u64"
  cw_outside :: 'w

definition initial_workers :: "'w \<Rightarrow> 'w cpu_state" where
  "initial_workers w =
     \<lparr> cw_stop_requested = False, cw_running = False, cw_attempts = 0, cw_matches = 0,
       cw_active_workers = 0, cw_difficulty = 0, cw_paused_for_difficulty = False, cw_threads = 0,
       cw_worker_hashrates = [], cw_last_error = [], cw_started_at = None, cw_stopped_at = None,
       cw_phase = (\<lambda>_. NotEntered), cw_since_match = (\<lambda>_. 0), cw_outside = w \<rparr>"

text \<open>The checks of the constructor.\<close>

definition check_worker_config :: "cpu_config \<Rightarrow> bool \<Rightarrow> bool \<Rightarrow> bool \<Rightarrow> string option" where
  "check_worker_config cfg has_difficulty has_work has_submit =
     (if cc_worker_count cfg = 0 then Some ''CPU worker count must be greater than zero''
      else if cc_batch_size cfg = 0 \<or> kMaxCpuBatchSize < cc_batch_size cfg
      then Some ''CPU batch size must be between 1 and 10000''
      else if \<not> has_difficulty then Some ''CPU difficulty provider is required''
      else if \<not> has_work then Some ''CPU work provider is required''
      else if \<not> has_submit then Some ''CPU submit callback is required''
      else None)"

section \<open>Life cycle\<close>

definition start_workers :: "cpu_config \<Rightarrow> int \<Rightarrow> ('w cpu_state, unit) step" where
  "start_workers cfg now = (\<lambda>s.
     if cw_running s then (Inr (), s)
     else if cw_threads s \<noteq> 0
     then (Inl ''CPU mining workers must be joined before restarting'', s)
     else (Inr (), s \<lparr> cw_stop_requested := False, cw_attempts := 0, cw_matches := 0,
             cw_active_workers := 0, cw_difficulty := 0,
             cw_worker_hashrates := replicate (cc_worker_count cfg) 0, cw_last_error := [],
             cw_started_at := Some now, cw_stopped_at := None, cw_running := True,
             cw_threads := cc_worker_count cfg, cw_phase := (\<lambda>_. NotEntered),
             cw_since_match := (\<lambda>_. 0) \<rparr>))"

definition stop_workers :: "'w cpu_state \<Rightarrow> 'w cpu_state" where
  "stop_workers s = s \<lparr> cw_stop_requested := True \<rparr>"

text \<open>\<open>join\<close> returns when every thread has left \<open>runWorker\<close>; before that it waits.\<close>

definition all_exited :: "'w cpu_state \<Rightarrow> bool" where
  "all_exited s = (\<forall>w < cw_threads s. cw_phase s w = Exited)"

definition join_workers :: "int \<Rightarrow> 'w cpu_state \<Rightarrow> 'w cpu_state" where
  "join_workers now s =
     (if \<not> all_exited s then s
      else let s1 = s \<lparr> cw_threads := 0, cw_running := False \<rparr> in
           if cw_started_at s1 \<noteq> None \<and> cw_stopped_at s1 = None
           then s1 \<lparr> cw_stopped_at := Some now \<rparr> else s1)"

definition recordError :: "string \<Rightarrow> 'w cpu_state \<Rightarrow> 'w cpu_state" where
  "recordError message s =
     (let s1 = (if cw_last_error s = [] then s \<lparr> cw_last_error := message \<rparr> else s) in
      s1 \<lparr> cw_stop_requested := True \<rparr>)"

text \<open>The end of \<open>runWorker\<close>.\<close>

definition leave_worker :: "nat \<Rightarrow> int \<Rightarrow> 'w cpu_state \<Rightarrow> 'w cpu_state" where
  "leave_worker w now s =
     (let s1 = (if w < length (cw_worker_hashrates s)
                then s \<lparr> cw_worker_hashrates := (cw_worker_hashrates s)[w := 0] \<rparr> else s);
          s2 = s1 \<lparr> cw_active_workers := cw_active_workers s1 - 1, cw_phase := (cw_phase s1)(w := Exited) \<rparr>
      in if cw_active_workers s1 = 1
         then s2 \<lparr> cw_running := False, cw_stopped_at := Some now \<rparr> else s2)"

section \<open>One pass of the loop\<close>

definition kMinCpuDifficulty :: u32 where "kMinCpuDifficulty = 8"

record cpu_tick =
  tk_continue :: bool
  tk_difficulty :: u32
  tk_work :: cpu_work
  tk_backend :: "HashApiRequest \<Rightarrow> HashApiResult"

definition digestMatches :: "cpu_work \<Rightarrow> HashApiMatch \<Rightarrow> string \<Rightarrow> bool" where
  "digestMatches work match digest =
     (if mt_matched_pattern match = wk_target_pattern work then contains digest (wk_target_pattern work)
      else if mt_matched_pattern match = ''XUNI'' then wk_allow_xuni work \<and> hasXuniMatch digest
      else False)"

definition cpu_request :: "cpu_config \<Rightarrow> nat \<Rightarrow> u32 \<Rightarrow> cpu_work \<Rightarrow> HashApiRequest" where
  "cpu_request cfg w difficulty work = default_request
     \<lparr> rq_backend := ''cpu'', rq_salt_hex := wk_salt_hex work, rq_key_prefix := wk_key_prefix work,
       rq_target_pattern := wk_target_pattern work, rq_difficulty := difficulty,
       rq_batch_size := cc_batch_size cfg, rq_device_id := int w, rq_allow_xuni := wk_allow_xuni work \<rparr>"

text \<open>The counting of attempts around a match, the same lines as in \<open>MineUnit::submitMatches\<close>: the
  attempts up to the match are added once, and the next index moves behind it.\<close>

definition count_attempts :: "u64 \<Rightarrow> u64 \<Rightarrow> u64 \<Rightarrow> u64 \<times> u64" where
  "count_attempts index next_index since =
     (if next_index \<le> index then (since + (index - next_index + 1), index + 1) else (since, next_index))"

definition call_outside :: "('w, unit) step \<Rightarrow> ('w cpu_state, unit) step" where
  "call_outside m = (\<lambda>s. case m (cw_outside s) of (r, w') \<Rightarrow> (r, s \<lparr> cw_outside := w' \<rparr>))"

definition set_since :: "nat \<Rightarrow> u64 \<Rightarrow> 'w cpu_state \<Rightarrow> 'w cpu_state" where
  "set_since w n s = s \<lparr> cw_since_match := (cw_since_match s)(w := n) \<rparr>"

definition cpu_submit ::
  "(double list \<Rightarrow> double) \<Rightarrow> (submission \<Rightarrow> ('w, unit) step) \<Rightarrow> nat \<Rightarrow> u32 \<Rightarrow> cpu_work \<Rightarrow>
   HashApiMatch \<Rightarrow> string \<Rightarrow> ('w cpu_state, unit) step" where
  "cpu_submit aggregate submit w difficulty work match digest =
     bind_step (gets (\<lambda>s. (aggregate (cw_worker_hashrates s), cw_since_match s w))) (\<lambda>(rate, since).
     seq_step (call_outside (submit
       \<lparr> sb_hexsalt = wk_salt_hex work, sb_key = mt_key match, sb_hashed_pure = digest,
         sb_memory_cost = difficulty, sb_attempts = since, sb_hashrate = rate, sb_source = ''CPU'' \<rparr>))
     (modify (\<lambda>s. set_since w 0 (s \<lparr> cw_matches := cw_matches s + 1 \<rparr>))))"

fun cpu_matches ::
  "(double list \<Rightarrow> double) \<Rightarrow> (submission \<Rightarrow> ('w, unit) step) \<Rightarrow> nat \<Rightarrow> u32 \<Rightarrow> cpu_work \<Rightarrow>
   HashApiMatch list \<Rightarrow> u64 \<Rightarrow> ('w cpu_state, u64) step" where
  "cpu_matches aggregate submit w difficulty work [] next_index = ret next_index"
| "cpu_matches aggregate submit w difficulty work (m # ms) next_index =
     bind_step (gets (\<lambda>s. count_attempts (mt_attempt_index m) next_index (cw_since_match s w)))
       (\<lambda>(since, next_index').
     seq_step (modify (set_since w since))
     (case digestFromProtocolPhc (mt_hash m) difficulty of
        Inl e \<Rightarrow> throw e
      | Inr digest \<Rightarrow>
          seq_step (when_step (digestMatches work m digest)
                      (cpu_submit aggregate submit w difficulty work m digest))
          (cpu_matches aggregate submit w difficulty work ms next_index')))"

definition cpu_batch ::
  "cpu_config \<Rightarrow> (double list \<Rightarrow> double) \<Rightarrow> (submission \<Rightarrow> ('w, unit) step) \<Rightarrow> nat \<Rightarrow> cpu_tick \<Rightarrow>
   ('w cpu_state, unit) step" where
  "cpu_batch cfg aggregate submit w tick =
     (let difficulty = tk_difficulty tick; work = tk_work tick;
          result = tk_backend tick (cpu_request cfg w difficulty work) in
      if \<not> rs_ok result then throw (''CPU hash batch failed: '' @ rs_error result)
      else
        seq_step (modify (\<lambda>s. s \<lparr> cw_attempts := cw_attempts s + rs_attempts result,
                    cw_worker_hashrates := (cw_worker_hashrates s)[w := rs_hashrate result] \<rparr>))
        (bind_step (cpu_matches aggregate submit w difficulty work (rs_matches result) 0) (\<lambda>next_index.
        modify (\<lambda>s. if next_index \<le> rs_attempts result
                    then set_since w (cw_since_match s w + (rs_attempts result - next_index)) s else s))))"

definition cpu_pass ::
  "cpu_config \<Rightarrow> (double list \<Rightarrow> double) \<Rightarrow> (submission \<Rightarrow> ('w, unit) step) \<Rightarrow> nat \<Rightarrow> cpu_tick \<Rightarrow>
   ('w cpu_state, unit) step" where
  "cpu_pass cfg aggregate submit w tick =
     (let difficulty = tk_difficulty tick in
      if difficulty < kMinCpuDifficulty then throw ''CPU mining difficulty must be at least 8''
      else
        seq_step (modify (\<lambda>s. s \<lparr> cw_difficulty := difficulty \<rparr>))
        (if 0 < cc_max_difficulty cfg \<and> cc_max_difficulty cfg < difficulty
         then modify (\<lambda>s. s \<lparr> cw_paused_for_difficulty := True,
                 cw_worker_hashrates := (cw_worker_hashrates s)[w := 0] \<rparr>)
         else
           seq_step (modify (\<lambda>s. s \<lparr> cw_paused_for_difficulty := False \<rparr>))
           (cpu_batch cfg aggregate submit w tick)))"

section \<open>Events\<close>

text \<open>
  \<open>runWorker\<close> of thread \<open>w\<close> is one \<open>CEnter\<close> and then \<open>CPass\<close> events: a pass tests the loop condition
  first and leaves when it fails; an exception is recorded and leaves too. The clock of a pass is
  read only on leaving.
\<close>

datatype cpu_event =
    CStart int
  | CStop
  | CJoin int
  | CEnter nat bool int
  | CPass nat cpu_tick int

definition enter_worker :: "nat \<Rightarrow> bool \<Rightarrow> int \<Rightarrow> 'w cpu_state \<Rightarrow> 'w cpu_state" where
  "enter_worker w has_backend now s =
     (if \<not> (w < cw_threads s \<and> cw_phase s w = NotEntered) then s
      else let s1 = s \<lparr> cw_active_workers := cw_active_workers s + 1,
                        cw_phase := (cw_phase s)(w := Looping) \<rparr>
           in if has_backend then set_since w 0 s1
              else leave_worker w now (recordError ''CPU backend factory returned null'' s1))"

definition pass_worker ::
  "cpu_config \<Rightarrow> (double list \<Rightarrow> double) \<Rightarrow> (submission \<Rightarrow> ('w, unit) step) \<Rightarrow> nat \<Rightarrow> cpu_tick \<Rightarrow> int \<Rightarrow>
   'w cpu_state \<Rightarrow> 'w cpu_state" where
  "pass_worker cfg aggregate submit w tick now s =
     (if cw_phase s w \<noteq> Looping then s
      else if cw_stop_requested s \<or> \<not> tk_continue tick then leave_worker w now s
      else case cpu_pass cfg aggregate submit w tick s of
             (Inr _, s') \<Rightarrow> s'
           | (Inl e, s') \<Rightarrow> leave_worker w now (recordError e s'))"

fun cpu_apply ::
  "cpu_config \<Rightarrow> (double list \<Rightarrow> double) \<Rightarrow> (submission \<Rightarrow> ('w, unit) step) \<Rightarrow> cpu_event \<Rightarrow>
   'w cpu_state \<Rightarrow> 'w cpu_state" where
  "cpu_apply cfg aggregate submit (CStart now) s = snd (start_workers cfg now s)"
| "cpu_apply cfg aggregate submit CStop s = stop_workers s"
| "cpu_apply cfg aggregate submit (CJoin now) s = join_workers now s"
| "cpu_apply cfg aggregate submit (CEnter w has_backend now) s = enter_worker w has_backend now s"
| "cpu_apply cfg aggregate submit (CPass w tick now) s =
     pass_worker cfg aggregate submit w tick now s"

section \<open>Lemmas\<close>

text \<open>A pass leaves the life cycle alone.\<close>

definition same_cycle :: "'w cpu_state \<Rightarrow> 'w cpu_state \<Rightarrow> bool" where
  "same_cycle s t =
     (cw_phase t = cw_phase s \<and> cw_active_workers t = cw_active_workers s \<and> cw_threads t = cw_threads s \<and>
      cw_stop_requested t = cw_stop_requested s \<and> cw_running t = cw_running s \<and>
      cw_last_error t = cw_last_error s \<and> length (cw_worker_hashrates t) = length (cw_worker_hashrates s))"

lemma same_cycle_reflp [keep_intros]: "reflp same_cycle"
  by (simp add: reflp_def same_cycle_def)

lemma same_cycle_transp [keep_intros]: "transp same_cycle"
  by (auto simp: transp_def same_cycle_def)

lemma keeps_prod_arg: "(\<And>a b. keeps R (f a b)) \<Longrightarrow> keeps R (case x of (a, b) \<Rightarrow> f a b)"
  by (cases x) simp

lemma same_cycle_call [keep_intros]: "keeps same_cycle (call_outside m)"
  by (simp add: keeps_def call_outside_def same_cycle_def split: prod.splits)

lemma same_cycle_since: "same_cycle s (set_since w n s)" "same_cycle s t \<Longrightarrow> same_cycle s (set_since w n t)"
  by (simp_all add: same_cycle_def set_since_def)

lemma same_cycle_submit [keep_intros]:
  "keeps same_cycle (cpu_submit aggregate submit w difficulty work match digest)"
  unfolding cpu_submit_def
  by (intro keep_intros keeps_prod_arg) (simp add: same_cycle_def set_since_def)

lemma same_cycle_matches [keep_intros]:
  "keeps same_cycle (cpu_matches aggregate submit w difficulty work ms next_index)"
proof (induction ms arbitrary: next_index)
  case (Cons m ms)
  show ?case
    by (cases "digestFromProtocolPhc (mt_hash m) difficulty")
       (auto intro!: keep_intros keeps_prod_arg same_cycle_since Cons)
qed (simp add: keep_intros)

lemma same_cycle_pass: "keeps same_cycle (cpu_pass cfg aggregate submit w tick)"
  unfolding cpu_pass_def cpu_batch_def Let_def
  by (intro keep_intros) (auto simp: same_cycle_def set_since_def)

text \<open>The invariant of the group: the count of active workers is the number of threads inside the
  loop, and an error has asked everyone to stop.\<close>

definition cpu_inv :: "'w cpu_state \<Rightarrow> bool" where
  "cpu_inv s =
     (cw_active_workers s = int (card {w. cw_phase s w = Looping}) \<and>
      {w. cw_phase s w = Looping} \<subseteq> {..<cw_threads s} \<and>
      (cw_last_error s \<noteq> [] \<longrightarrow> cw_stop_requested s))"

lemma cpu_inv_initial: "cpu_inv (initial_workers w)"
  by (simp add: cpu_inv_def initial_workers_def)

lemma cpu_inv_same: "cpu_inv s \<Longrightarrow> same_cycle s t \<Longrightarrow> cpu_inv t"
  by (simp add: cpu_inv_def same_cycle_def)

lemma looping_finite: "cpu_inv s \<Longrightarrow> finite {w. cw_phase s w = Looping}"
  unfolding cpu_inv_def using finite_subset by blast

lemma cpu_inv_error: "cpu_inv s \<Longrightarrow> cpu_inv (recordError e s)"
  by (simp add: cpu_inv_def recordError_def Let_def)

lemma leave_worker_simps [simp]:
  "cw_phase (leave_worker w now s) = (cw_phase s)(w := Exited)"
  "cw_active_workers (leave_worker w now s) = cw_active_workers s - 1"
  "cw_threads (leave_worker w now s) = cw_threads s"
  "cw_last_error (leave_worker w now s) = cw_last_error s"
  "cw_stop_requested (leave_worker w now s) = cw_stop_requested s"
  "cw_attempts (leave_worker w now s) = cw_attempts s"
  "cw_since_match (leave_worker w now s) = cw_since_match s"
  "cw_outside (leave_worker w now s) = cw_outside s"
  by (simp_all add: leave_worker_def Let_def)

lemma cpu_inv_leave:
  assumes "cpu_inv s" and "cw_phase s w = Looping"
  shows "cpu_inv (leave_worker w now s)"
proof -
  let ?L = "{v. cw_phase s v = Looping}"
  have fin: "finite ?L" using assms(1) by (rule looping_finite)
  have eq: "{v. ((cw_phase s)(w := Exited)) v = Looping} = ?L - {w}" by auto
  have "0 < card ?L" using fin assms(2) by (auto simp: card_gt_0_iff)
  then have "int (card (?L - {w})) = int (card ?L) - 1" using fin assms(2) by simp
  moreover have "?L - {w} \<subseteq> {..<cw_threads s}" using assms(1) by (auto simp: cpu_inv_def)
  ultimately show ?thesis using assms(1) unfolding cpu_inv_def leave_worker_simps eq by simp
qed

lemma cpu_inv_enter: "cpu_inv s \<Longrightarrow> cpu_inv (enter_worker w has_backend now s)"
proof -
  assume inv: "cpu_inv s"
  show ?thesis
  proof (cases "w < cw_threads s \<and> cw_phase s w = NotEntered")
    case True
    let ?s = "s \<lparr> cw_active_workers := cw_active_workers s + 1, cw_phase := (cw_phase s)(w := Looping) \<rparr>"
    have eq: "{v. ((cw_phase s)(w := Looping)) v = Looping} = insert w {v. cw_phase s v = Looping}" by auto
    have "cpu_inv ?s"
      using inv True looping_finite [OF inv] eq by (auto simp: cpu_inv_def card_insert_if)
    moreover have "cpu_inv (leave_worker w now (recordError e ?s))" for e
      by (rule cpu_inv_leave [OF cpu_inv_error [OF calculation]]) (simp add: recordError_def Let_def)
    ultimately show ?thesis using True
      by (simp add: enter_worker_def Let_def cpu_inv_same [OF _ same_cycle_since(1)])
  qed (use inv in \<open>auto simp: enter_worker_def\<close>)
qed

lemma cpu_inv_pass:
  assumes "cpu_inv s"
  shows "cpu_inv (pass_worker cfg aggregate submit w tick now s)"
proof (cases "cw_phase s w = Looping \<and> \<not> (cw_stop_requested s \<or> \<not> tk_continue tick)")
  case True
  obtain r t where rt: "cpu_pass cfg aggregate submit w tick s = (r, t)" by (cases "cpu_pass cfg aggregate submit w tick s")
  have same: "same_cycle s t" using keepsD [OF same_cycle_pass [of cfg aggregate submit w tick], of s] rt by simp
  then have "cpu_inv t" by (rule cpu_inv_same [OF assms])
  moreover have "cpu_inv (leave_worker w now (recordError e t))" for e
    by (rule cpu_inv_leave [OF cpu_inv_error [OF calculation]])
       (use same True in \<open>simp add: recordError_def Let_def same_cycle_def\<close>)
  ultimately show ?thesis using True rt by (simp add: pass_worker_def split: sum.splits)
next
  case False
  then show ?thesis using assms cpu_inv_leave by (auto simp: pass_worker_def)
qed

lemma cpu_inv_start: "cpu_inv s \<Longrightarrow> cpu_inv (snd (start_workers cfg now s))"
  by (simp add: cpu_inv_def start_workers_def)

lemma cpu_inv_join: "cpu_inv s \<Longrightarrow> cpu_inv (join_workers now s)"
  by (fastforce simp: cpu_inv_def join_workers_def all_exited_def Let_def)

interpretation cpu: machine "cpu_apply cfg aggregate submit" cpu_inv "\<lambda>_. True" for cfg aggregate submit
proof
  fix e :: cpu_event and s :: "'a cpu_state"
  assume inv: "cpu_inv s"
  show "cpu_inv (cpu_apply cfg aggregate submit e s)"
    using inv cpu_inv_start [OF inv] cpu_inv_join [OF inv] cpu_inv_enter [OF inv] cpu_inv_pass [OF inv]
    by (cases e) (auto simp: stop_workers_def cpu_inv_def)
qed

text \<open>What the callback does to its own state is all a pass does to it.\<close>

definition outside_keeps :: "('w \<Rightarrow> bool) \<Rightarrow> 'w cpu_state \<Rightarrow> 'w cpu_state \<Rightarrow> bool" where
  "outside_keeps I s t = (I (cw_outside s) \<longrightarrow> I (cw_outside t))"

lemma outside_po [keep_intros]: "reflp (outside_keeps I)" "transp (outside_keeps I)"
  by (auto simp: reflp_def transp_def outside_keeps_def)

lemma outside_matches:
  assumes "\<And>m digest since rate. m \<in> set ms \<Longrightarrow> digestFromProtocolPhc (mt_hash m) difficulty = Inr digest \<Longrightarrow>
      digestMatches work m digest \<Longrightarrow>
      keeps (\<lambda>x y. I x \<longrightarrow> I y) (submit \<lparr> sb_hexsalt = wk_salt_hex work, sb_key = mt_key m, sb_hashed_pure = digest,
         sb_memory_cost = difficulty, sb_attempts = since, sb_hashrate = rate, sb_source = ''CPU'' \<rparr>)"
  shows "keeps (outside_keeps I) (cpu_matches aggregate submit w difficulty work ms next_index)"
  using assms
proof (induction ms arbitrary: next_index)
  case (Cons m ms)
  have call: "keeps (outside_keeps I) (call_outside c)" if "keeps (\<lambda>x y. I x \<longrightarrow> I y) c" for c
    using that by (simp add: keeps_def call_outside_def outside_keeps_def split: prod.splits) (metis prod.sel(2))
  have rest: "keeps (outside_keeps I) (cpu_matches aggregate submit w difficulty work ms n)" for n
    using Cons by simp
  show ?case
  proof (cases "digestFromProtocolPhc (mt_hash m) difficulty")
    case (Inl e)
    show ?thesis unfolding cpu_matches.simps Inl sum.case
      by (intro keep_intros keeps_prod_arg) (simp add: outside_keeps_def set_since_def)
  next
    case (Inr digest)
    have "keeps (outside_keeps I) (cpu_submit aggregate submit w difficulty work m digest)"
      if "digestMatches work m digest"
      unfolding cpu_submit_def
      by (intro keep_intros keeps_prod_arg call Cons.prems)
         (use Inr that in \<open>simp_all add: outside_keeps_def set_since_def\<close>)
    then have sub: "keeps (outside_keeps I) (when_step (digestMatches work m digest)
        (cpu_submit aggregate submit w difficulty work m digest))"
      by (intro keep_intros)
    show ?thesis unfolding cpu_matches.simps Inr sum.case
      by (intro keeps_bind keeps_seq keeps_gets keeps_modify outside_po keeps_prod_arg sub rest)
         (simp add: outside_keeps_def set_since_def)
  qed
qed (simp add: keep_intros)

lemma outside_pass:
  fixes result :: HashApiResult
  assumes "\<And>m digest since rate.
      rs_ok (tk_backend tick (cpu_request cfg w (tk_difficulty tick) (tk_work tick))) \<Longrightarrow>
      m \<in> set (rs_matches (tk_backend tick (cpu_request cfg w (tk_difficulty tick) (tk_work tick)))) \<Longrightarrow>
      digestFromProtocolPhc (mt_hash m) (tk_difficulty tick) = Inr digest \<Longrightarrow>
      digestMatches (tk_work tick) m digest \<Longrightarrow> 8 \<le> tk_difficulty tick \<Longrightarrow>
      keeps (\<lambda>x y. I x \<longrightarrow> I y) (submit \<lparr> sb_hexsalt = wk_salt_hex (tk_work tick), sb_key = mt_key m,
         sb_hashed_pure = digest, sb_memory_cost = tk_difficulty tick, sb_attempts = since,
         sb_hashrate = rate, sb_source = ''CPU'' \<rparr>)"
  shows "keeps (outside_keeps I) (cpu_pass cfg aggregate submit w tick)"
  unfolding cpu_pass_def cpu_batch_def Let_def
  by (intro keep_intros outside_matches assms)
     (auto simp: outside_keeps_def set_since_def kMinCpuDifficulty_def not_less)

lemma pass_worker_outside:
  assumes "keeps (outside_keeps I) (cpu_pass cfg aggregate submit w tick)" and "I (cw_outside s)"
  shows "I (cw_outside (pass_worker cfg aggregate submit w tick now s))"
proof -
  have "I (cw_outside (snd (cpu_pass cfg aggregate submit w tick s)))"
    using keepsD [OF assms(1), of s] assms(2) by (simp add: outside_keeps_def)
  with assms(2) show ?thesis
    by (auto simp: pass_worker_def recordError_def Let_def split: prod.splits sum.splits)
qed

lemma other_events_outside:
  "cw_outside (snd (start_workers cfg now s)) = cw_outside s"
  "cw_outside (stop_workers s) = cw_outside s"
  "cw_outside (join_workers now s) = cw_outside s"
  "cw_outside (enter_worker w has_backend now s) = cw_outside s"
  by (simp_all add: start_workers_def stop_workers_def join_workers_def enter_worker_def set_since_def
        recordError_def Let_def)

text \<open>A callback that only writes the submissions down.\<close>

definition record_submission :: "submission \<Rightarrow> (submission list, unit) step" where
  "record_submission sb = modify (\<lambda>l. l @ [sb])"

definition reported :: "submission list \<Rightarrow> u64" where
  "reported l = sum_list (map sb_attempts l)"

text \<open>The books: attempts reported and attempts carried over, against the index reached.\<close>

definition balance :: "nat \<Rightarrow> submission list cpu_state \<Rightarrow> u64" where
  "balance w s = reported (cw_outside s) + cw_since_match s w"

definition only_worker :: "nat \<Rightarrow> 'w cpu_state \<Rightarrow> 'w cpu_state \<Rightarrow> bool" where
  "only_worker w s t = (cw_attempts t = cw_attempts s \<and> (\<forall>v. v \<noteq> w \<longrightarrow> cw_since_match t v = cw_since_match s v))"

lemma count_attempts_balance:
  "count_attempts i n since = (since', n') \<Longrightarrow> since' - n' = since - n"
  by (auto simp: count_attempts_def split: if_splits)

lemma count_attempts_bound:
  "count_attempts i n since = (since', n') \<Longrightarrow> i < k \<Longrightarrow> n \<le> k \<Longrightarrow> n' \<le> k"
  by (auto simp: count_attempts_def inc_le split: if_splits)

lemma matches_balance:
  assumes "\<forall>m\<in>set ms. mt_attempt_index m < k" and "next_index \<le> k"
  shows "wp (cpu_matches aggregate record_submission w difficulty work ms next_index)
     (\<lambda>n t. only_worker w s t \<and> balance w t - n = balance w s - next_index \<and> n \<le> k)
     (\<lambda>e t. e \<noteq> []) s"
  using assms
proof (induction ms arbitrary: next_index s)
  case Nil
  then show ?case by (simp add: wp_simps only_worker_def)
next
  case (Cons m ms)
  obtain since n' where c: "count_attempts (mt_attempt_index m) next_index (cw_since_match s w) = (since, n')"
    by (cases "count_attempts (mt_attempt_index m) next_index (cw_since_match s w)")
  have n': "n' \<le> k" using count_attempts_bound [OF c] Cons.prems by simp
  have b: "reported l + since - n' = reported l + cw_since_match s w - next_index" for l
    using count_attempts_balance [OF c] by (simp add: add_diff_eq [symmetric])
  have rest: "wp (cpu_matches aggregate record_submission w difficulty work ms n')
     (\<lambda>n t. only_worker w s t \<and> balance w t - n = balance w s - next_index \<and> n \<le> k) (\<lambda>e t. e \<noteq> []) u"
    if "only_worker w s u" "balance w u - n' = balance w s - next_index" for u
    by (rule wp_conseq [OF Cons.IH [of n' u]]) (use Cons.prems n' that in \<open>auto simp: only_worker_def\<close>)
  let ?s = "set_since w since s"
  have s1: "only_worker w s ?s" "balance w ?s - n' = balance w s - next_index"
    using b by (simp_all add: only_worker_def set_since_def balance_def)
  have sub: "wp (cpu_submit aggregate record_submission w difficulty work m digest)
      (\<lambda>_ u. only_worker w s u \<and> balance w u - n' = balance w s - next_index) (\<lambda>e t. e \<noteq> []) ?s" for digest
    using s1 unfolding cpu_submit_def
    by (simp add: wp_simps) (simp add: wp_def call_outside_def record_submission_def modify_def gets_def
        only_worker_def balance_def reported_def set_since_def add.assoc)
  show ?case
  proof (cases "digestFromProtocolPhc (mt_hash m) difficulty")
    case (Inl e)
    then have "e \<noteq> []" by (auto simp: digestFromProtocolPhc_def split: if_splits option.splits)
    then show ?thesis by (simp add: wp_simps c Inl)
  next
    case (Inr digest)
    then show ?thesis using rest s1 by (auto simp: wp_simps c intro!: wp_conseq [OF sub])
  qed
qed

definition bounded_backend :: "(HashApiRequest \<Rightarrow> HashApiResult) \<Rightarrow> bool" where
  "bounded_backend b = (\<forall>rq. rs_ok (b rq) \<longrightarrow> (\<forall>m\<in>set (rs_matches (b rq)). mt_attempt_index m < rs_attempts (b rq)))"

lemma cpu_backend_bounded: "bounded_backend (CpuHashBackend_runBatch argon2 outputs rate)"
  unfolding bounded_backend_def using cpu_batch_match(3) by blast

text \<open>After a pass the books balance: what was hashed is what was reported or is carried over.\<close>

lemma pass_balance:
  assumes "bounded_backend (tk_backend tick)"
  shows "wp (cpu_pass cfg aggregate record_submission w tick)
     (\<lambda>_ t. (\<forall>v. v \<noteq> w \<longrightarrow> cw_since_match t v = cw_since_match s v) \<and>
            balance w t - balance w s = cw_attempts t - cw_attempts s) (\<lambda>e t. e \<noteq> []) s"
proof -
  define result where "result = tk_backend tick (cpu_request cfg w (tk_difficulty tick) (tk_work tick))"
  have batch: "wp (cpu_batch cfg aggregate record_submission w tick)
     (\<lambda>_ t. (\<forall>v. v \<noteq> w \<longrightarrow> cw_since_match t v = cw_since_match s v) \<and>
            balance w t - balance w s = cw_attempts t - cw_attempts s) (\<lambda>e t. e \<noteq> []) u"
    if u: "cw_since_match u = cw_since_match s" "cw_outside u = cw_outside s" "cw_attempts u = cw_attempts s" for u
  proof (cases "rs_ok result")
    case True
    let ?u = "u \<lparr> cw_attempts := cw_attempts u + rs_attempts result,
                  cw_worker_hashrates := (cw_worker_hashrates u)[w := rs_hashrate result] \<rparr>"
    have "\<forall>m\<in>set (rs_matches result). mt_attempt_index m < rs_attempts result"
      using assms True by (simp add: bounded_backend_def result_def)
    from matches_balance [OF this, of 0 aggregate w "tk_difficulty tick" "tk_work tick" ?u]
    have "wp (cpu_matches aggregate record_submission w (tk_difficulty tick) (tk_work tick) (rs_matches result) 0)
     (\<lambda>n t. only_worker w ?u t \<and> balance w t - n = balance w ?u \<and> n \<le> rs_attempts result)
     (\<lambda>e t. e \<noteq> []) ?u" by simp
    moreover have "balance w ?u = balance w s" using u by (simp add: balance_def)
    ultimately show ?thesis using True u
      unfolding cpu_batch_def Let_def result_def [symmetric]
      by (simp add: wp_simps, elim wp_conseq)
         (auto simp: wp_simps only_worker_def set_since_def balance_def algebra_simps)
  next
    case False
    then show ?thesis by (simp add: cpu_batch_def Let_def wp_simps result_def)
  qed
  show ?thesis unfolding cpu_pass_def Let_def
    using batch [of "s \<lparr> cw_difficulty := tk_difficulty tick, cw_paused_for_difficulty := False \<rparr>"]
    by (simp add: wp_simps) (simp add: balance_def)
qed

text \<open>The books of the whole group.\<close>

definition books_inv :: "cpu_config \<Rightarrow> submission list cpu_state \<Rightarrow> bool" where
  "books_inv cfg s =
     (cpu_inv s \<and> cw_threads s \<le> cc_worker_count cfg \<and>
      (cw_last_error s = [] \<longrightarrow>
         (\<forall>w. cw_phase s w = NotEntered \<longrightarrow> cw_since_match s w = 0) \<and>
         cw_attempts s = reported (cw_outside s) + (\<Sum>w<cc_worker_count cfg. cw_since_match s w)))"

definition counted_event :: "cpu_event \<Rightarrow> bool" where
  "counted_event e = (case e of CStart _ \<Rightarrow> False | CPass _ tick _ \<Rightarrow> bounded_backend (tk_backend tick) | _ \<Rightarrow> True)"

lemma sum_one_changed:
  fixes f g :: "nat \<Rightarrow> u64"
  assumes "w < n" and "\<And>v. v \<noteq> w \<Longrightarrow> g v = f v"
  shows "(\<Sum>v<n. g v) = (\<Sum>v<n. f v) + (g w - f w)"
proof -
  have "(\<Sum>v<n. g v) = g w + (\<Sum>v\<in>{..<n} - {w}. g v)" using assms(1) by (simp add: sum.remove)
  also have "(\<Sum>v\<in>{..<n} - {w}. g v) = (\<Sum>v\<in>{..<n} - {w}. f v)" using assms(2) by (intro sum.cong) auto
  also have "(\<Sum>v\<in>{..<n} - {w}. f v) = (\<Sum>v<n. f v) - f w" using assms(1) by (simp add: sum_diff1)
  finally show ?thesis by simp
qed

lemma books_step:
  fixes a' :: u64
  assumes "(r' + c') - (r + c) = a' - a" and "a = r + n" and "n' = n + (c' - c)"
  shows "a' = r' + n'"
proof -
  have "a' = (r + n) + ((r' + c') - (r + c))" using assms(1,2) by simp
  also have "\<dots> = r' + (n + (c' - c))" by simp
  finally show ?thesis using assms(3) by simp
qed

lemma books_pass:
  assumes "books_inv cfg s" and "bounded_backend (tk_backend tick)"
  shows "books_inv cfg (pass_worker cfg aggregate record_submission w tick now s)"
proof (cases "cw_phase s w = Looping \<and> \<not> (cw_stop_requested s \<or> \<not> tk_continue tick)")
  case True
  obtain r t where rt: "cpu_pass cfg aggregate record_submission w tick s = (r, t)"
    by (cases "cpu_pass cfg aggregate record_submission w tick s")
  have same: "same_cycle s t"
    using keepsD [OF same_cycle_pass [of cfg aggregate record_submission w tick], of s] rt by simp
  have inv: "cpu_inv (pass_worker cfg aggregate record_submission w tick now s)"
    using assms(1) cpu_inv_pass by (auto simp: books_inv_def)
  have w: "w < cc_worker_count cfg" using assms(1) True by (auto simp: books_inv_def cpu_inv_def)
  note wp = pass_balance [OF assms(2), of cfg aggregate w s]
  have cfg: "cw_threads t \<le> cc_worker_count cfg" using same assms(1) by (simp add: same_cycle_def books_inv_def)
  show ?thesis
  proof (cases r)
    case (Inl e)
    then have "e \<noteq> []" using wp rt by (simp add: wp_def)
    then have "cw_last_error (recordError e t) \<noteq> []" "cw_threads (recordError e t) = cw_threads t"
      by (simp_all add: recordError_def Let_def)
    with Inl rt True inv cfg show ?thesis by (simp add: books_inv_def pass_worker_def)
  next
    case (Inr x)
    then have t: "\<And>v. v \<noteq> w \<Longrightarrow> cw_since_match t v = cw_since_match s v"
        "balance w t - balance w s = cw_attempts t - cw_attempts s"
      using wp rt by (simp_all add: wp_def)
    have "cw_attempts t = reported (cw_outside t) + (\<Sum>v<cc_worker_count cfg. cw_since_match t v)"
      if "cw_last_error s = []"
    proof (rule books_step [OF t(2) [unfolded balance_def]])
      show "cw_attempts s = reported (cw_outside s) + (\<Sum>v<cc_worker_count cfg. cw_since_match s v)"
        using that assms(1) by (simp add: books_inv_def)
      show "(\<Sum>v<cc_worker_count cfg. cw_since_match t v)
          = (\<Sum>v<cc_worker_count cfg. cw_since_match s v) + (cw_since_match t w - cw_since_match s w)"
        by (rule sum_one_changed [OF w t(1)])
    qed
    moreover have "cw_since_match t v = 0" if "cw_phase s v = NotEntered" "cw_last_error s = []" for v
      using that True assms(1) t(1) [of v] by (cases "v = w") (auto simp: books_inv_def)
    ultimately show ?thesis using Inr rt True inv cfg same by (simp add: books_inv_def pass_worker_def same_cycle_def)
  qed
next
  case False
  then show ?thesis using assms(1) cpu_inv_leave by (auto simp: pass_worker_def books_inv_def)
qed


lemma books_enter: "books_inv cfg s \<Longrightarrow> books_inv cfg (enter_worker w has_backend now s)"
proof -
  assume inv: "books_inv cfg s"
  have "cpu_inv (enter_worker w has_backend now s)" using inv cpu_inv_enter by (auto simp: books_inv_def)
  moreover have "(cw_since_match s)(w := 0) = cw_since_match s"
    if "cw_phase s w = NotEntered" "cw_last_error s = []"
    using inv that by (auto simp: books_inv_def)
  ultimately show ?thesis using inv
    by (auto simp: books_inv_def enter_worker_def Let_def set_since_def recordError_def)
qed

lemma books_join: "books_inv cfg s \<Longrightarrow> books_inv cfg (join_workers now s)"
  using cpu_inv_join [of s now] by (auto simp: books_inv_def join_workers_def Let_def)

interpretation books: machine "cpu_apply cfg aggregate record_submission" "books_inv cfg" counted_event
  for cfg aggregate
proof
  fix e :: cpu_event and s :: "submission list cpu_state"
  assume inv: "books_inv cfg s" and ok: "counted_event e"
  show "books_inv cfg (cpu_apply cfg aggregate record_submission e s)"
    using ok books_join [OF inv] books_enter [OF inv] books_pass [OF inv] inv
    by (cases e) (auto simp: counted_event_def stop_workers_def books_inv_def cpu_inv_def)
qed

text \<open>
  What the Argon2 library documents of \<open>argon2id_hash_encoded\<close> with one pass and one lane: the buffer
  holds the PHC string of memory cost, salt and a digest of 64 bytes.
\<close>

definition phc_library :: "argon2_library \<Rightarrow> bool" where
  "phc_library argon2 = (\<forall>m salt k buf. argon2 m salt k = Some buf \<longrightarrow>
     (\<exists>digest. length digest = 64 \<and>
        takeWhile (\<lambda>c. c \<noteq> CHR 0x00) buf = phc_parameters m @ base64Encode salt @ ''$'' @ base64Encode digest))"

text \<open>A submission that a pass with these inputs may make: a key with the prefix of the work, hashed
  at the difficulty and with the salt of the pass, whose digest has the pattern asked for, and from
  which the PHC string assembles to the very string the library computed.\<close>

definition found_by :: "argon2_library \<Rightarrow> cpu_tick \<Rightarrow> submission \<Rightarrow> bool" where
  "found_by argon2 tick sb =
     (let work = tk_work tick; d = tk_difficulty tick in
      sb_hexsalt sb = wk_salt_hex work \<and> sb_memory_cost sb = d \<and> 8 \<le> d \<and> sb_source sb = ''CPU'' \<and>
      good_key (normalizeHex (wk_key_prefix work)) (sb_key sb) \<and>
      (contains (sb_hashed_pure sb) (wk_target_pattern work) \<or>
       wk_allow_xuni work \<and> hasXuniMatch (sb_hashed_pure sb)) \<and>
      (\<exists>salt. hexToBytes (normalizeHex (wk_salt_hex work)) = Inr salt \<and>
         argon2 d salt (sb_key sb) \<noteq> None \<and>
         assemblePhc d (normalizeHex (wk_salt_hex work)) (sb_hashed_pure sb)
           = Inr (encoded argon2 d salt (sb_key sb))))"

lemma cpu_request_fields:
  "rq_salt_hex (cpu_request cfg w d work) = wk_salt_hex work"
  "rq_key_prefix (cpu_request cfg w d work) = wk_key_prefix work"
  "rq_difficulty (cpu_request cfg w d work) = d"
  by (simp_all add: cpu_request_def)

lemma encoded_phc:
  assumes "phc_library argon2" and "argon2 m salt k \<noteq> None"
  shows "\<exists>digest. digest \<noteq> [] \<and> CHR ''$'' \<notin> set digest \<and>
           encoded argon2 m salt k = phc_parameters m @ base64Encode salt @ ''$'' @ digest"
proof -
  obtain buf where "argon2 m salt k = Some buf" using assms(2) by blast
  moreover from this obtain digest where "length digest = 64"
    "takeWhile (\<lambda>c. c \<noteq> CHR 0x00) buf = phc_parameters m @ base64Encode salt @ ''$'' @ base64Encode digest"
    using assms(1) unfolding phc_library_def by blast
  moreover from this have "digest \<noteq> []" by auto
  ultimately show ?thesis
    using base64_nonempty [of digest] base64_no_dollar [of digest] by (auto simp: encoded_def)
qed

lemma cpu_match_found:
  assumes "phc_library argon2" and "tk_backend tick = CpuHashBackend_runBatch argon2 outputs rate"
    and "rs_ok (tk_backend tick (cpu_request cfg w (tk_difficulty tick) (tk_work tick)))"
    and "m \<in> set (rs_matches (tk_backend tick (cpu_request cfg w (tk_difficulty tick) (tk_work tick))))"
    and "digestFromProtocolPhc (mt_hash m) (tk_difficulty tick) = Inr digest"
    and "digestMatches (tk_work tick) m digest" and "8 \<le> tk_difficulty tick"
  shows "found_by argon2 tick \<lparr> sb_hexsalt = wk_salt_hex (tk_work tick), sb_key = mt_key m,
         sb_hashed_pure = digest, sb_memory_cost = tk_difficulty tick, sb_attempts = since,
         sb_hashrate = rate', sb_source = ''CPU'' \<rparr>"
proof -
  let ?d = "tk_difficulty tick" and ?work = "tk_work tick"
  obtain salt where salt: "hexToBytes (normalizeHex (wk_salt_hex ?work)) = Inr salt"
    "argon2 ?d salt (mt_key m) \<noteq> None" "mt_hash m = encoded argon2 ?d salt (mt_key m)"
    using cpu_batch_match(1) assms(2-4) by (metis cpu_request_fields(1,3))
  have key: "good_key (normalizeHex (wk_key_prefix ?work)) (mt_key m)"
    using cpu_batch_match(2) assms(2-4) by (metis cpu_request_fields(2))
  obtain d where d: "d \<noteq> []" "CHR ''$'' \<notin> set d"
    "encoded argon2 ?d salt (mt_key m) = phc_parameters ?d @ base64Encode salt @ ''$'' @ d"
    using encoded_phc [OF assms(1) salt(2)] by blast
  have "digest = d" using assms(5) salt(3) d(3) phc_digest [OF d(1,2)] by simp
  then have "assemblePhc ?d (normalizeHex (wk_salt_hex ?work)) digest = Inr (encoded argon2 ?d salt (mt_key m))"
    using salt(1) d(3) by (simp add: assemblePhc_def)
  moreover have "contains digest (wk_target_pattern ?work) \<or> wk_allow_xuni ?work \<and> hasXuniMatch digest"
    using assms(6) by (auto simp: digestMatches_def split: if_splits)
  ultimately show ?thesis using salt key assms(7) by (simp add: found_by_def)
qed

definition cpu_backed :: "argon2_library \<Rightarrow> cpu_event \<Rightarrow> bool" where
  "cpu_backed argon2 e = (case e of
       CPass _ tick _ \<Rightarrow> \<exists>outputs rate. tk_backend tick = CpuHashBackend_runBatch argon2 outputs rate
     | _ \<Rightarrow> True)"

text \<open>The rule for whoever supplies the callback: what it keeps on genuine submissions, the workers
  keep.\<close>

lemma cpu_event_outside:
  assumes "phc_library argon2" and "cpu_backed argon2 e"
    and "\<And>w tick now sb. e = CPass w tick now \<Longrightarrow> found_by argon2 tick sb \<Longrightarrow> keeps (\<lambda>x y. I x \<longrightarrow> I y) (submit sb)"
    and "I (cw_outside s)"
  shows "I (cw_outside (cpu_apply cfg aggregate submit e s))"
proof (cases e)
  case (CPass w tick now)
  obtain outputs rate where b: "tk_backend tick = CpuHashBackend_runBatch argon2 outputs rate"
    using assms(2) CPass by (auto simp: cpu_backed_def)
  have "keeps (outside_keeps I) (cpu_pass cfg aggregate submit w tick)"
    by (rule outside_pass) (rule assms(3) [OF CPass], rule cpu_match_found [OF assms(1) b], assumption+)
  with CPass show ?thesis using pass_worker_outside [where I = I] assms(4) by simp
qed (use assms(4) in \<open>simp_all add: other_events_outside\<close>)

lemma cpu_run_outside:
  assumes "phc_library argon2" and "\<And>e. e \<in> set es \<Longrightarrow> cpu_backed argon2 e"
    and "\<And>w tick now sb. CPass w tick now \<in> set es \<Longrightarrow> found_by argon2 tick sb \<Longrightarrow>
           keeps (\<lambda>x y. I x \<longrightarrow> I y) (submit sb)"
    and "I (cw_outside s)"
  shows "I (cw_outside (fold (cpu_apply cfg aggregate submit) es s))"
  using assms(2-4)
proof (induction es arbitrary: s)
  case (Cons e es)
  have "I (cw_outside (cpu_apply cfg aggregate submit e s))"
  proof (rule cpu_event_outside [OF assms(1), where I = I])
    show "cpu_backed argon2 e" "I (cw_outside s)" using Cons.prems by simp_all
    show "keeps (\<lambda>x y. I x \<longrightarrow> I y) (submit sb)" if "e = CPass w tick now" "found_by argon2 tick sb" for w tick now sb
      using Cons.prems(2) [of w tick now sb] that by simp
  qed
  then have "I (cw_outside (fold (cpu_apply cfg aggregate submit) es (cpu_apply cfg aggregate submit e s)))"
    by (rule Cons.IH [rotated 2]) (rule Cons.prems, simp, rule Cons.prems(2), rule list.set_intros(2), assumption+)
  then show ?case by simp
qed simp

section \<open>Properties\<close>

text \<open>
  C13 (every attempt is accounted for): Start any number of workers and let them run in any
  interleaving, with backends that put matches inside their batch. As long as no worker has failed,
  the number of attempts counted is the number reported with the submissions plus the attempts each
  worker carries towards its next match: nothing is counted twice, also when one key matches two
  patterns or a match is not submitted. Throughout, the count of active workers is the number of
  threads inside the loop, and an error has asked all of them to stop.
\<close>

theorem cpu_attempts_accounted:
  fixes cfg :: cpu_config
  assumes "\<forall>e\<in>set es. counted_event e"
  shows "let s = fold (cpu_apply cfg aggregate record_submission) es (snd (start_workers cfg now (initial_workers []))) in
     cw_active_workers s = int (card {w. cw_phase s w = Looping}) \<and>
     (cw_last_error s \<noteq> [] \<longrightarrow> cw_stop_requested s) \<and>
     (cw_last_error s = [] \<longrightarrow>
        cw_attempts s = reported (cw_outside s) + (\<Sum>w<cc_worker_count cfg. cw_since_match s w))"
proof -
  have "books_inv cfg (snd (start_workers cfg now (initial_workers [])))"
    by (simp add: books_inv_def cpu_inv_def start_workers_def initial_workers_def reported_def)
  from books.run_inv [OF this, of es aggregate] assms
  show ?thesis unfolding Let_def by (simp add: books_inv_def cpu_inv_def)
qed

text \<open>
  What the CPU miner submits is genuine: If the Argon2 library writes PHC strings, then in every
  run of the workers on the CPU backend each submission comes from a pass of the run: its salt and
  difficulty are those of the pass, its key has 64 hexadecimal digits with the prefix of the work, its
  digest contains the pattern (or a XUNI while the window is open), and the PHC string assembled from
  the submission is exactly the encoded hash the library computed for the key.
\<close>

theorem cpu_finds_are_genuine:
  assumes "phc_library argon2" and "\<forall>e\<in>set es. cpu_backed argon2 e"
    and "sb \<in> set (cw_outside (fold (cpu_apply cfg aggregate record_submission) es (initial_workers [])))"
  shows "\<exists>w tick now. CPass w tick now \<in> set es \<and> found_by argon2 tick sb"
proof -
  let ?I = "\<lambda>l. \<forall>sb\<in>set l. \<exists>w tick now. CPass w tick now \<in> set es \<and> found_by argon2 tick sb"
  have "?I (cw_outside (fold (cpu_apply cfg aggregate record_submission) es (initial_workers [])))"
    by (rule cpu_run_outside [OF assms(1)])
       (use assms(2) in \<open>auto simp: keeps_def record_submission_def modify_def initial_workers_def\<close>)
  then show ?thesis using assms(3) by blast
qed

text \<open>A run of one worker: its library hashes every key to the same digest, which has the pattern.\<close>

definition sample_digest :: string where
  "sample_digest = base64Encode (0x5d # 0x5d # 0x5d # replicate 61 0)"

definition phc_argon2 :: argon2_library where
  "phc_argon2 m salt k = Some (phc_parameters m @ base64Encode salt @ ''$'' @ sample_digest)"

definition sample_key :: string where "sample_key = replicate 64 (CHR ''0'')"

definition sample_cfg :: cpu_config where
  "sample_cfg = \<lparr> cc_worker_count = 1, cc_batch_size = 1, cc_max_difficulty = 0 \<rparr>"

definition sample_work :: cpu_work where
  "sample_work = \<lparr> wk_salt_hex = ''0000000000000000'', wk_key_prefix = sample_key,
     wk_target_pattern = ''XV1d'', wk_allow_xuni = False \<rparr>"

definition sample_tick :: cpu_tick where
  "sample_tick = \<lparr> tk_continue = True, tk_difficulty = 8, tk_work = sample_work,
     tk_backend = CpuHashBackend_runBatch phc_argon2 (\<lambda>_. 0) (\<lambda>_. 0) \<rparr>"

lemma phc_text_clean:
  "takeWhile (\<lambda>c. c \<noteq> CHR 0x00) (phc_parameters m @ base64Encode salt @ ''$'' @ base64Encode d)
     = phc_parameters m @ base64Encode salt @ ''$'' @ base64Encode d"
proof -
  have "CHR 0x00 \<notin> set (phc_parameters m @ base64Encode salt @ ''$'' @ base64Encode d)"
    using base64_alphabet [of salt] base64_alphabet [of d] to_dec_digits [of "CHR 0x00" "unat m"]
    by (auto simp: phc_parameters_def kBase64Chars_def isdigit_def code_def)
  then show ?thesis by (intro takeWhile_eq_all_conv [THEN iffD2]) metis
qed

lemma encoded_phc_argon2:
  "encoded phc_argon2 m salt k = phc_parameters m @ base64Encode salt @ ''$'' @ sample_digest"
  unfolding encoded_def phc_argon2_def option.sel sample_digest_def by (rule phc_text_clean)

lemma phc_argon2_phc: "phc_library phc_argon2"
  unfolding phc_library_def phc_argon2_def sample_digest_def
  by (auto simp only: option.inject phc_text_clean intro!: exI [of _ "0x5d # 0x5d # 0x5d # replicate 61 0"]) simp

lemma sample_cfg_fields [simp]:
  "cc_worker_count sample_cfg = 1" "cc_batch_size sample_cfg = 1" "cc_max_difficulty sample_cfg = 0"
  by (simp_all add: sample_cfg_def)

theorem cpu_attempts_accounted_witness:
  "let s = fold (cpu_apply sample_cfg hd record_submission) [CEnter 0 True 0, CPass 0 sample_tick 0]
             (snd (start_workers sample_cfg 0 (initial_workers []))) in
   cw_active_workers s = int (card {w. cw_phase s w = Looping})"
  using cpu_attempts_accounted [of "[CEnter 0 True 0, CPass 0 sample_tick 0]" sample_cfg hd 0]
  by (simp add: Let_def counted_event_def sample_tick_def cpu_backend_bounded)

lemma sample_digest_text: "\<exists>t. sample_digest = ''XV1d'' @ t"
proof -
  have "[sextet 18 v, sextet 12 v, sextet 6 v, sextet 0 v] = ''XV1d''"
    if "unat v = 6118749" for v
    unfolding sextet_def sextet_index that by (simp add: kBase64Chars_def)
  moreover have "unat (push_bit 16 (ucast (0x5d :: byte) :: u32) OR push_bit 8 (ucast (0x5d :: byte)) OR ucast (0x5d :: byte)) = 6118749"
    unfolding unat_group3 by simp
  ultimately show ?thesis
    by (simp add: sample_digest_def base64Encode_def Let_def del: push_bit_numeral)
qed

lemma contains_middle: "contains (a @ b @ c) b"
  unfolding contains_iff_sublist sublist_def by blast

abbreviation sample_rq :: HashApiRequest where
  "sample_rq \<equiv> cpu_request sample_cfg 0 8 sample_work"

lemma sample_rq_valid: "isValidRequest sample_rq"
  by (simp add: isValidRequest_def validateRequest_def cpu_request_def sample_cfg_def sample_work_def
        default_request_def isSupportedAlgorithm_def isSupportedBackend_def salt_errors_def key_errors_def
        normalizeHex_def isHexText_def hex_nibble_def tolower_def isupper_def code_def sample_key_def
        kHashApiKeyLength_def kMaxTargetPatternLength_def kMaxCpuBatchSize_def kMaxWarpsPerBlock_def Let_def
        list_all_iff nth_replicate)

lemma sample_result:
  defines "r \<equiv> CpuHashBackend_runBatch phc_argon2 (\<lambda>_. 0) (\<lambda>_. 0) sample_rq"
  shows "rs_ok r" "rs_attempts r = 1"
    "\<exists>m. rs_matches r = [m] \<and> mt_matched_pattern m = ''XV1d'' \<and> mt_attempt_index m = 0 \<and>
         (\<exists>salt. mt_hash m = phc_parameters 8 @ base64Encode salt @ ''$'' @ sample_digest)"
proof -
  have rq: "rq_backend sample_rq \<noteq> ''cuda''" "8 \<le> rq_difficulty sample_rq" "rq_batch_size sample_rq = 1"
    "normalizeHex (rq_key sample_rq) = []" "rq_allow_xuni sample_rq = False"
    "rq_target_pattern sample_rq = ''XV1d''" "rq_difficulty sample_rq = 8"
    by (simp_all add: cpu_request_def sample_cfg_def default_request_def normalizeHex_def sample_work_def)
  define g where "g = new_generator (normalizeHex (rq_key_prefix sample_rq)) kHashApiKeyLength (\<lambda>_. 0)"
  define k where "k = fst (nextRandomKey g)"
  define salt where "salt = projr (hexToBytes (normalizeHex (rq_salt_hex sample_rq)))"
  have spec: "rs_ok r" "rs_attempts r = 1" "rs_matches r = batch_matches phc_argon2 sample_rq salt 0 [k]"
    using cpu_batch_spec [of phc_argon2 "\<lambda>_. 0" "\<lambda>_. 0" sample_rq] sample_rq_valid rq
    by (simp_all add: Let_def r_def phc_argon2_def g_def k_def salt_def)
  show "rs_ok r" "rs_attempts r = 1" by (rule spec)+
  note enc = encoded_phc_argon2 [of 8 salt k]
  obtain t where t: "sample_digest = ''XV1d'' @ t" using sample_digest_text by blast
  have "contains (encoded phc_argon2 8 salt k) ''XV1d''"
    unfolding enc t using contains_middle [of "phc_parameters 8 @ base64Encode salt @ ''$''" "''XV1d''" t] by simp
  then show "\<exists>m. rs_matches r = [m] \<and> mt_matched_pattern m = ''XV1d'' \<and> mt_attempt_index m = 0 \<and>
         (\<exists>salt. mt_hash m = phc_parameters 8 @ base64Encode salt @ ''$'' @ sample_digest)"
    using spec(3) rq enc
    by (auto simp: batch_matches_def matches_of_def appendMatches_def default_result_def Let_def)
qed

lemma sample_run:
  "\<exists>sb. cw_outside (fold (cpu_apply sample_cfg hd submit) [CStart 0, CEnter 0 True 0, CPass 0 sample_tick 0]
          (initial_workers outer)) = snd (submit sb outer) \<and>
        sb_hexsalt sb = wk_salt_hex sample_work \<and> sb_hashed_pure sb = sample_digest \<and> sb_memory_cost sb = 8"
proof -
  obtain m salt where m: "rs_matches (CpuHashBackend_runBatch phc_argon2 (\<lambda>_. 0) (\<lambda>_. 0) sample_rq) = [m]"
    "mt_matched_pattern m = ''XV1d''" "mt_attempt_index m = 0"
    "mt_hash m = phc_parameters 8 @ base64Encode salt @ ''$'' @ sample_digest"
    using sample_result(3) by blast
  obtain t where t: "sample_digest = ''XV1d'' @ t" using sample_digest_text by blast
  have "CHR ''$'' \<notin> set sample_digest" unfolding sample_digest_def by (rule base64_no_dollar)
  then have digest: "digestFromProtocolPhc (mt_hash m) 8 = Inr sample_digest"
    unfolding m(4) by (intro phc_digest) (simp_all add: t)
  have dm: "digestMatches sample_work m sample_digest"
    using contains_middle [of "[]" "''XV1d''" t] m(2) by (simp add: digestMatches_def sample_work_def t)
  define sb where "sb = \<lparr> sb_hexsalt = wk_salt_hex sample_work, sb_key = mt_key m,
      sb_hashed_pure = sample_digest, sb_memory_cost = 8, sb_attempts = 1,
      sb_hashrate = hd [rs_hashrate (CpuHashBackend_runBatch phc_argon2 (\<lambda>_. 0) (\<lambda>_. 0) sample_rq)],
      sb_source = ''CPU'' \<rparr>"
  have "cw_outside (fold (cpu_apply sample_cfg hd submit) [CStart 0, CEnter 0 True 0, CPass 0 sample_tick 0]
          (initial_workers outer)) = snd (submit sb outer)"
    using m dm digest sample_result(1,2)
    by (cases "submit sb outer"; cases "fst (submit sb outer)")
      (simp_all add: start_workers_def initial_workers_def enter_worker_def pass_worker_def cpu_pass_def cpu_batch_def
          sample_tick_def set_since_def kMinCpuDifficulty_def seq_step_def bind_step_def modify_def
          gets_def when_step_def cpu_submit_def call_outside_def ret_def Let_def sb_def
          count_attempts_def leave_worker_def recordError_def)
  then show ?thesis by (auto simp: sb_def)
qed

theorem cpu_finds_are_genuine_witness:
  "\<exists>sb. sb \<in> set (cw_outside (fold (cpu_apply sample_cfg hd record_submission)
              [CStart 0, CEnter 0 True 0, CPass 0 sample_tick 0] (initial_workers []))) \<and>
        found_by phc_argon2 sample_tick sb"
proof -
  let ?es = "[CStart 0, CEnter 0 True 0, CPass 0 sample_tick 0]"
  obtain sb where sb: "sb \<in> set (cw_outside (fold (cpu_apply sample_cfg hd record_submission) ?es (initial_workers [])))"
    using sample_run [of record_submission "[]"] by (auto simp: record_submission_def modify_def)
  have "\<exists>w tick now. CPass w tick now \<in> set ?es \<and> found_by phc_argon2 tick sb"
    by (rule cpu_finds_are_genuine [OF phc_argon2_phc _ sb]) (auto simp: cpu_backed_def sample_tick_def)
  with sb show ?thesis by auto
qed

end
