(* ===== verification/Mine_Unit.thy ===== *)
theory Mine_Unit
  imports Mining_Globals Cpu_Worker
begin

text \<open>
  The GPU side of mining: the batch size (\<open>hashapi/HashApiTuning.cpp\<close>), the mining loop of one CUDA
  stream (\<open>src/MineUnit.cpp\<close>) pass by pass, for any hash backend, and
  the choice of salt and key prefix, in which the developer fee is taken; the same choice for the
  CPU workers is the work provider in \<open>main.cpp\<close>. The CUDA hash backend is an argument, and so is the
  floating-point quotient of the memory estimate. Of \<open>stat\<close> only the total and the
  rate are kept; the status line it prints is left out.
\<close>

section \<open>Batch size\<close>

record CudaBatchSizeDecision =
  bd_memory_limited_batch_size :: u64
  bd_tuned_batch_size :: u64
  bd_selected_batch_size :: u64
  bd_explicit_limit_applied :: bool
  bd_tuned_default_applied :: bool

definition no_decision :: CudaBatchSizeDecision where
  "no_decision = \<lparr> bd_memory_limited_batch_size = 0, bd_tuned_batch_size = 0, bd_selected_batch_size = 0,
     bd_explicit_limit_applied = False, bd_tuned_default_applied = False \<rparr>"

text \<open>The default of \<open>reserve_bytes\<close> is 100 MiB; \<open>fdiv available difficulty\<close> is the available
  memory divided by \<open>difficulty * 1024.0 * 1.001\<close>, truncated. This is the CUDA build.\<close>

definition estimateCudaMemoryBatchLimit :: "(u64 \<Rightarrow> u32 \<Rightarrow> u64) \<Rightarrow> u64 \<Rightarrow> u32 \<Rightarrow> u64 \<Rightarrow> u64" where
  "estimateCudaMemoryBatchLimit fdiv free_memory_bytes difficulty reserve_bytes =
     (if difficulty = 0 \<or> free_memory_bytes \<le> reserve_bytes then 0
      else fdiv (free_memory_bytes - reserve_bytes) difficulty)"

definition default_reserve_bytes :: u64 where "default_reserve_bytes = 100 * 1024 * 1024"

definition recommendedCudaBatchSize :: "u32 \<Rightarrow> u64" where
  "recommendedCudaBatchSize difficulty =
     (if difficulty \<le> 1 then 2048 else if difficulty \<le> 8 then 4096 else if difficulty \<le> 64 then 3072 else 0)"

fun recommended_scan :: "u64 \<Rightarrow> u32 list \<Rightarrow> u64" where
  "recommended_scan selected [] = selected"
| "recommended_scan selected (d # ds) =
     (let recommended = recommendedCudaBatchSize d in
      if recommended = 0 then 0
      else recommended_scan (if selected = 0 then recommended else min selected recommended) ds)"

definition recommendedCudaBatchSizeForDifficultySequence :: "u32 list \<Rightarrow> u64" where
  "recommendedCudaBatchSizeForDifficultySequence difficulties = recommended_scan 0 difficulties"

definition choose_batch_size :: "u64 \<Rightarrow> u64 \<Rightarrow> u64 \<Rightarrow> CudaBatchSizeDecision" where
  "choose_batch_size limit explicit_max tuned =
     (let d = no_decision \<lparr> bd_memory_limited_batch_size := limit \<rparr> in
      if limit = 0 then d
      else if 0 < explicit_max
      then d \<lparr> bd_selected_batch_size := min limit explicit_max, bd_explicit_limit_applied := True \<rparr>
      else let d1 = d \<lparr> bd_tuned_batch_size := tuned \<rparr> in
           if 0 < tuned
           then d1 \<lparr> bd_selected_batch_size := min limit tuned, bd_tuned_default_applied := True \<rparr>
           else d1 \<lparr> bd_selected_batch_size := limit \<rparr>)"

definition selectCudaBatchSize :: "(u64 \<Rightarrow> u32 \<Rightarrow> u64) \<Rightarrow> u64 \<Rightarrow> u32 \<Rightarrow> u64 \<Rightarrow> CudaBatchSizeDecision" where
  "selectCudaBatchSize fdiv free_memory_bytes difficulty explicit_max_batch_size =
     choose_batch_size (estimateCudaMemoryBatchLimit fdiv free_memory_bytes difficulty default_reserve_bytes)
       explicit_max_batch_size (recommendedCudaBatchSize difficulty)"

definition selectCudaBatchSizeForDifficultySequence ::
  "(u64 \<Rightarrow> u32 \<Rightarrow> u64) \<Rightarrow> u64 \<Rightarrow> u32 list \<Rightarrow> u64 \<Rightarrow> CudaBatchSizeDecision" where
  "selectCudaBatchSizeForDifficultySequence fdiv free_memory_bytes difficulties explicit_max_batch_size =
     (if difficulties = [] then no_decision
      else choose_batch_size
             (estimateCudaMemoryBatchLimit fdiv free_memory_bytes (Max (set difficulties)) default_reserve_bytes)
             explicit_max_batch_size (recommendedCudaBatchSizeForDifficultySequence difficulties))"

section \<open>Whom a batch mines for\<close>

definition DEVFEE_PREFIX :: string where "DEVFEE_PREFIX = ''FFFFFFFF''"
definition ECODEVFEE_PREFIX :: string where "ECODEVFEE_PREFIX = ''EEEEEEEE''"

text \<open>\<open>s.substr(2)\<close> throws on a shorter string.\<close>

definition substr2 :: "string \<Rightarrow> string + string" where
  "substr2 s = (if length s < 2 then Inl ''basic_string::substr'' else Inr (drop 2 s))"

definition platform_salt :: "MiningContext \<Rightarrow> string" where
  "platform_salt ctx = (if take 2 (ctx_address ctx) = ''0x'' then drop 2 (ctx_address ctx) else ctx_address ctx)"

text \<open>Salt and prefix when a fee address is due: the prefix carries the user's address.\<close>

definition fee_work :: "string \<Rightarrow> string \<Rightarrow> string \<Rightarrow> string + string \<times> string" where
  "fee_work fee_address fee_prefix user =
     (case substr2 fee_address of Inl e \<Rightarrow> Inl e
      | Inr salt \<Rightarrow> (case substr2 user of Inl e \<Rightarrow> Inl e | Inr u \<Rightarrow> Inr (salt, fee_prefix @ u)))"

text \<open>The choice in \<open>runMineLoop\<close>, by the number of the batch in its round of 1000.\<close>

definition mine_work ::
  "mining_globals \<Rightarrow> MiningContext \<Rightarrow> MiningIdentityConfig \<Rightarrow> int \<Rightarrow> string + string \<times> string" where
  "mine_work g ctx ident batchComputeCount =
     (if ctx_mode ctx = PLATFORM_MINING then Inr (platform_salt ctx, ctx_prefix ctx)
      else case substr2 (userAddress ident) of Inl e \<Rightarrow> Inl e
        | Inr user \<Rightarrow>
            if selfMiningPrefix ident \<noteq> [] then Inr (user, selfMiningPrefix ident)
            else if 1000 - batchComputeCount \<le> g_devfee_permillage g
            then (if 1000 - batchComputeCount \<le> cdiv (g_devfee_permillage g) 2 \<and> g_eco_devfee_address g \<noteq> []
                  then fee_work (g_eco_devfee_address g) ECODEVFEE_PREFIX (userAddress ident)
                  else fee_work (g_devfee_address g) DEVFEE_PREFIX (userAddress ident))
            else Inr (user, []))"

definition block_pattern :: "MiningIdentityConfig \<Rightarrow> string" where
  "block_pattern ident = (if testBlockPattern ident = [] then ''XEN11'' else testBlockPattern ident)"

text \<open>The work provider of the CPU workers; the sequence number moves only when a fee may be due.\<close>

definition cpu_salt_prefix ::
  "mining_globals \<Rightarrow> MiningContext \<Rightarrow> MiningIdentityConfig \<Rightarrow> u64 \<Rightarrow> (string + string \<times> string) \<times> u64" where
  "cpu_salt_prefix g ctx ident seq =
     (if ctx_mode ctx = PLATFORM_MINING then (Inr (platform_salt ctx, ctx_prefix ctx), seq)
      else case substr2 (userAddress ident) of Inl e \<Rightarrow> (Inl e, seq)
        | Inr user \<Rightarrow>
            if selfMiningPrefix ident = [] \<and> 0 < g_devfee_permillage g
            then let slot = seq mod 1000;
                     feeStart = 1000 - word_of_int (g_devfee_permillage g);
                     useEcoFee = (g_eco_devfee_address g \<noteq> [] \<and>
                       1000 - word_of_int (cdiv (g_devfee_permillage g) 2) \<le> slot)
                 in (if feeStart \<le> slot
                     then (if useEcoFee
                           then fee_work (g_eco_devfee_address g) ECODEVFEE_PREFIX (userAddress ident)
                           else fee_work (g_devfee_address g) DEVFEE_PREFIX (userAddress ident))
                     else Inr (user, []), seq + 1)
            else (Inr (user, selfMiningPrefix ident), seq))"

definition cpu_work_provider ::
  "mining_globals \<Rightarrow> MiningContext \<Rightarrow> MiningIdentityConfig \<Rightarrow> int \<Rightarrow> u64 \<Rightarrow> (string + cpu_work) \<times> u64" where
  "cpu_work_provider g ctx ident tm_min seq =
     (case cpu_salt_prefix g ctx ident seq of
        (Inl e, seq') \<Rightarrow> (Inl e, seq')
      | (Inr (salt, pre), seq') \<Rightarrow>
          (Inr \<lparr> wk_salt_hex = salt, wk_key_prefix = pre, wk_target_pattern = block_pattern ident,
                 wk_allow_xuni = isWithinXuniWindow tm_min \<rparr>, seq'))"

text \<open>The difficulty provider of the CPU workers.\<close>

definition cpu_difficulty_provider :: "mining_globals \<Rightarrow> u32" where
  "cpu_difficulty_provider g = word_of_int (if 0 < g_lock g then g_lock g else g_difficulty g)"

section \<open>The mining loop of a stream\<close>

record 'w mine_unit =
  mu_difficulty :: u64
  mu_stream_index :: int
  mu_batch_size :: u64
  mu_attempts :: u64
  mu_hashtotal :: u64
  mu_hashrate :: double
  mu_batch_count :: int
  mu_outside :: 'w

record mine_tick =
  mk_running :: bool
  mk_globals :: mining_globals
  mk_context :: MiningContext
  mk_identity :: MiningIdentityConfig
  mk_minute :: int
  mk_device :: int
  mk_warps :: u64
  mk_precomputed_refs :: bool
  mk_backend :: "HashApiRequest \<Rightarrow> HashApiResult"
  mk_rate :: "u64 \<Rightarrow> double"

text \<open>\<open>batchCompute\<close> builds this request and hands it to the backend.\<close>

definition gpu_request :: "'w mine_unit \<Rightarrow> mine_tick \<Rightarrow> string \<Rightarrow> string \<Rightarrow> string \<Rightarrow> HashApiRequest" where
  "gpu_request u tick salt keyPrefix targetPattern = default_request
     \<lparr> rq_backend := ''cuda'', rq_salt_hex := salt, rq_key_prefix := keyPrefix, rq_target_pattern := targetPattern,
       rq_difficulty := ucast (mu_difficulty u), rq_batch_size := mu_batch_size u, rq_device_id := mk_device tick,
       rq_allow_xuni := isWithinXuniWindow (mk_minute tick),
       rq_first_block_dynamic_chunk_auto := True,
       rq_gpu_first_blocks := gpuFirstBlocksVerified (mk_globals tick) (mk_device tick),
       rq_warps_per_block := mk_warps tick, rq_precomputed_refs := mk_precomputed_refs tick \<rparr>"

definition batchCompute :: "'w mine_unit \<Rightarrow> mine_tick \<Rightarrow> string \<Rightarrow> string \<Rightarrow> string \<Rightarrow> HashApiResult" where
  "batchCompute u tick salt keyPrefix targetPattern =
     mk_backend tick (gpu_request u tick salt keyPrefix targetPattern)"

definition call_unit :: "('w, unit) step \<Rightarrow> ('w mine_unit, unit) step" where
  "call_unit m = (\<lambda>u. case m (mu_outside u) of (r, w') \<Rightarrow> (r, u \<lparr> mu_outside := w' \<rparr>))"

fun submit_each ::
  "(submission \<Rightarrow> ('w, unit) step) \<Rightarrow> string \<Rightarrow> HashApiMatch list \<Rightarrow> u64 \<Rightarrow> ('w mine_unit, u64) step" where
  "submit_each submit salt [] next_index = ret next_index"
| "submit_each submit salt (m # ms) next_index =
     bind_step (gets (\<lambda>u. (u, count_attempts (mt_attempt_index m) next_index (mu_attempts u))))
       (\<lambda>(u, since, next_index').
     seq_step (modify (\<lambda>u. u \<lparr> mu_attempts := since \<rparr>))
     (seq_step (call_unit (submit
       \<lparr> sb_hexsalt = salt, sb_key = mt_key m, sb_hashed_pure = mt_hash m,
         sb_memory_cost = ucast (mu_difficulty u), sb_attempts = since, sb_hashrate = mu_hashrate u,
         sb_source = ''GPU'' \<rparr>))
     (seq_step (modify (\<lambda>u. u \<lparr> mu_attempts := 0 \<rparr>))
     (submit_each submit salt ms next_index'))))"

definition submitMatches ::
  "(submission \<Rightarrow> ('w, unit) step) \<Rightarrow> string \<Rightarrow> HashApiResult \<Rightarrow> ('w mine_unit, unit) step" where
  "submitMatches submit salt result =
     bind_step (submit_each submit salt (rs_matches result) 0) (\<lambda>next_index.
     modify (\<lambda>u. if next_index \<le> rs_attempts result
                 then u \<lparr> mu_attempts := mu_attempts u + (rs_attempts result - next_index) \<rparr> else u))"

definition stat_unit :: "mine_tick \<Rightarrow> 'w mine_unit \<Rightarrow> 'w mine_unit" where
  "stat_unit tick u =
     (let hashtotal = mu_hashtotal u + mu_batch_size u in
      u \<lparr> mu_hashtotal := hashtotal, mu_hashrate := mk_rate tick hashtotal \<rparr>)"

text \<open>One pass of the loop: \<open>Some rc\<close> leaves it with that code, \<open>None\<close> goes round again.\<close>

definition mine_pass ::
  "(submission \<Rightarrow> ('w, unit) step) \<Rightarrow> mine_tick \<Rightarrow> ('w mine_unit, int option) step" where
  "mine_pass submit tick =
     bind_step (gets (\<lambda>u. u)) (\<lambda>u.
     if \<not> mk_running tick then ret (Some 0)
     else if laneMiningDifficulty (mk_globals tick) (mu_stream_index u) \<noteq> to_signed 32 (uint (mu_difficulty u))
     then ret (Some 0)
     else case mine_work (mk_globals tick) (mk_context tick) (mk_identity tick) (mu_batch_count u) of
            Inl e \<Rightarrow> throw e
          | Inr (salt, pre) \<Rightarrow>
              let result = batchCompute u tick salt pre (block_pattern (mk_identity tick)) in
              if \<not> rs_ok result then ret (Some 1)
              else
                seq_step (submitMatches submit salt result)
                (seq_step (modify (stat_unit tick))
                (seq_step (modify (\<lambda>u. u \<lparr> mu_batch_count :=
                   (if 1000 \<le> mu_batch_count u + 1 then 0 else mu_batch_count u + 1) \<rparr>))
                (ret None))))"

text \<open>The head of \<open>runMineLoop\<close> sizes the batch for the free memory, shared by the streams of the
  device; \<open>Gpu_Stream\<close> has the loop.\<close>

definition shared_memory :: "u64 \<Rightarrow> u64 \<Rightarrow> u64 \<Rightarrow> u64" where
  "shared_memory totalMemory freeMemory streams =
     (if 1 < streams
      then let kDeviceHeadroom = 512 * 1024 * 1024;
               shareable = (if kDeviceHeadroom < totalMemory then totalMemory - kDeviceHeadroom else totalMemory)
           in min freeMemory (shareable div streams)
      else freeMemory)"

definition new_unit :: "mining_globals \<Rightarrow> int \<Rightarrow> 'w \<Rightarrow> 'w mine_unit" where
  "new_unit g streamIndex w =
     \<lparr> mu_difficulty = word_of_int (laneMiningDifficulty g streamIndex), mu_stream_index = streamIndex,
       mu_batch_size = 1, mu_attempts = 0, mu_hashtotal = 0, mu_hashrate = 0, mu_batch_count = 0,
       mu_outside = w \<rparr>"

section \<open>Lemmas\<close>

text \<open>The slots of a round of 1000 batches that pay a fee.\<close>

datatype payee = Miner | DevFee | EcoFee

definition fee_slot :: "int \<Rightarrow> bool \<Rightarrow> nat \<Rightarrow> payee" where
  "fee_slot p eco c =
     (if int c < 1000 - p then Miner else if eco \<and> 1000 - p div 2 \<le> int c then EcoFee else DevFee)"

definition slot_work :: "mining_globals \<Rightarrow> string \<Rightarrow> payee \<Rightarrow> string + string \<times> string" where
  "slot_work g user y = (case y of
       Miner \<Rightarrow> Inr (drop 2 user, [])
     | DevFee \<Rightarrow> fee_work (g_devfee_address g) DEVFEE_PREFIX user
     | EcoFee \<Rightarrow> fee_work (g_eco_devfee_address g) ECODEVFEE_PREFIX user)"

lemma mine_work_slot:
  assumes "ctx_mode ctx = SELF_MINING" and "2 \<le> length (userAddress ident)" and "selfMiningPrefix ident = []"
    and "0 \<le> g_devfee_permillage g"
  shows "mine_work g ctx ident (int c)
      = slot_work g (userAddress ident) (fee_slot (g_devfee_permillage g) (g_eco_devfee_address g \<noteq> []) c)"
  using assms by (auto simp: mine_work_def slot_work_def fee_slot_def substr2_def)

lemma cpu_slot:
  fixes seq :: u64
  assumes "0 \<le> p" and "p \<le> 1000"
  shows "1000 - word_of_int p \<le> seq mod 1000 \<longleftrightarrow> 1000 - p \<le> int (unat seq mod 1000)"
proof -
  have p: "unat (1000 - word_of_int p :: u64) = nat (1000 - p)"
  proof -
    have "(1000 - word_of_int p :: u64) = word_of_int (1000 - p)" by simp
    also have "unat \<dots> = nat (1000 - p)"
      using assms by (simp add: unsigned_of_int nat_mod_distrib take_bit_eq_mod del: of_int_diff)
    finally show ?thesis .
  qed
  have "unat (seq mod 1000) = unat seq mod 1000" by (simp add: unat_mod_distrib)
  with p show ?thesis using assms by (simp add: word_le_nat_alt) linarith
qed

lemma cpu_work_slot:
  assumes "ctx_mode ctx = SELF_MINING" and "2 \<le> length (userAddress ident)" and "selfMiningPrefix ident = []"
    and "0 \<le> g_devfee_permillage g" and "g_devfee_permillage g \<le> 1000"
  shows "fst (cpu_salt_prefix g ctx ident seq)
      = slot_work g (userAddress ident)
          (fee_slot (g_devfee_permillage g) (g_eco_devfee_address g \<noteq> []) (unat seq mod 1000))"
proof -
  let ?p = "g_devfee_permillage g"
  have half: "cdiv ?p 2 = ?p div 2" using assms(4) by simp
  have "(1000 - word_of_int ?p \<le> seq mod 1000) = (1000 - ?p \<le> int (unat seq mod 1000))"
    by (rule cpu_slot [OF assms(4,5)])
  moreover have "(1000 - word_of_int (?p div 2) \<le> seq mod 1000) = (1000 - ?p div 2 \<le> int (unat seq mod 1000))"
    by (rule cpu_slot) (use assms(4,5) in auto)
  moreover have "int (unat seq mod 1000) < 1000" by simp
  ultimately show ?thesis using assms
    by (auto simp: cpu_salt_prefix_def slot_work_def fee_slot_def substr2_def half Let_def simp del: of_nat_mod zmod_int)
qed

lemma fee_slot_counts:
  assumes "0 \<le> p" and "p \<le> 1000"
  shows "card {c. c < 1000 \<and> fee_slot p eco c = Miner} = nat (1000 - p)"
    and "card {c. c < 1000 \<and> fee_slot p eco c = EcoFee} = (if eco then nat (p div 2) else 0)"
    and "card {c. c < 1000 \<and> fee_slot p eco c = DevFee} = (if eco then nat (p - p div 2) else nat p)"
proof -
  have half: "0 \<le> p div 2" "p div 2 \<le> p" using assms by simp_all
  have miner: "(c < 1000 \<and> fee_slot p eco c = Miner) \<longleftrightarrow> c \<in> {..<nat (1000 - p)}" for c
    using assms by (simp add: fee_slot_def) linarith
  have eco: "(c < 1000 \<and> fee_slot p eco c = EcoFee) \<longleftrightarrow> c \<in> (if eco then {nat (1000 - p div 2)..<1000} else {})" for c
    using assms half by (simp add: fee_slot_def nat_le_iff)
  have dev: "(c < 1000 \<and> fee_slot p eco c = DevFee) \<longleftrightarrow>
      c \<in> (if eco then {nat (1000 - p)..<nat (1000 - p div 2)} else {nat (1000 - p)..<1000})" for c
    using assms half by (simp add: fee_slot_def nat_le_iff zless_nat_eq_int_zless) linarith
  show "card {c. c < 1000 \<and> fee_slot p eco c = Miner} = nat (1000 - p)"
    unfolding miner Collect_mem_eq by simp
  show "card {c. c < 1000 \<and> fee_slot p eco c = EcoFee} = (if eco then nat (p div 2) else 0)"
    unfolding eco Collect_mem_eq using assms half by (simp add: nat_diff_distrib)
  show "card {c. c < 1000 \<and> fee_slot p eco c = DevFee} = (if eco then nat (p - p div 2) else nat p)"
    unfolding dev Collect_mem_eq using assms half by (simp add: nat_diff_distrib)
qed

text \<open>What a pass hands to the recording callback.\<close>

definition gpu_submissions :: "string \<Rightarrow> u32 \<Rightarrow> HashApiMatch list \<Rightarrow> (string \<times> string \<times> string \<times> u32) list" where
  "gpu_submissions salt d ms = map (\<lambda>m. (salt, mt_key m, mt_hash m, d)) ms"

definition essence :: "submission \<Rightarrow> string \<times> string \<times> string \<times> u32" where
  "essence sb = (sb_hexsalt sb, sb_key sb, sb_hashed_pure sb, sb_memory_cost sb)"

lemma unit_update_swap [simp]:
  "u \<lparr> mu_outside := x, mu_attempts := a \<rparr> = u \<lparr> mu_attempts := a, mu_outside := x \<rparr>"
  by simp

lemma submit_each_spec:
  assumes "\<forall>m\<in>set ms. mt_attempt_index m < k" and "next_index \<le> k"
  shows "\<exists>n a new. submit_each record_submission salt ms next_index u
      = (Inr n, u \<lparr> mu_attempts := a, mu_outside := mu_outside u @ new \<rparr>) \<and>
     map essence new = gpu_submissions salt (ucast (mu_difficulty u)) ms \<and>
     reported new + a - n = mu_attempts u - next_index \<and> n \<le> k"
  using assms
proof (induction ms arbitrary: next_index u)
  case Nil
  then show ?case
    by (auto simp: ret_def gpu_submissions_def reported_def intro!: exI [of _ "mu_attempts u"] exI [of _ "[]"])
next
  case (Cons m ms)
  obtain since n' where c: "count_attempts (mt_attempt_index m) next_index (mu_attempts u) = (since, n')"
    by (cases "count_attempts (mt_attempt_index m) next_index (mu_attempts u)")
  have n': "n' \<le> k" using count_attempts_bound [OF c] Cons.prems by simp
  let ?sb = "\<lparr> sb_hexsalt = salt, sb_key = mt_key m, sb_hashed_pure = mt_hash m,
         sb_memory_cost = ucast (mu_difficulty u), sb_attempts = since, sb_hashrate = mu_hashrate u,
         sb_source = ''GPU'' \<rparr>"
  let ?u = "u \<lparr> mu_attempts := 0, mu_outside := mu_outside u @ [?sb] \<rparr>"
  obtain n a new where IH: "submit_each record_submission salt ms n' ?u
      = (Inr n, ?u \<lparr> mu_attempts := a, mu_outside := mu_outside ?u @ new \<rparr>)"
    "map essence new = gpu_submissions salt (ucast (mu_difficulty u)) ms" "reported new + a - n = - n'" "n \<le> k"
    using Cons.IH [of n' ?u] Cons.prems n' by auto
  have "reported (?sb # new) + a - n = since + (reported new + a - n)" by (simp add: reported_def)
  also have "\<dots> = mu_attempts u - next_index" using IH(3) count_attempts_balance [OF c] by simp
  finally have "reported (?sb # new) + a - n = mu_attempts u - next_index" .
  moreover have "submit_each record_submission salt (m # ms) next_index u
      = (Inr n, u \<lparr> mu_attempts := a, mu_outside := mu_outside u @ ?sb # new \<rparr>)"
    using IH(1) by (simp add: c seq_step_def bind_step_def gets_def modify_def call_unit_def record_submission_def)
  moreover have "map essence (?sb # new) = gpu_submissions salt (ucast (mu_difficulty u)) (m # ms)"
    using IH(2) by (simp add: gpu_submissions_def essence_def)
  ultimately show ?case using IH(4) by blast
qed

lemma submitMatches_spec:
  assumes "\<forall>m\<in>set (rs_matches result). mt_attempt_index m < rs_attempts result"
  shows "\<exists>a new. submitMatches record_submission salt result u
      = (Inr (), u \<lparr> mu_attempts := a, mu_outside := mu_outside u @ new \<rparr>) \<and>
     map essence new = gpu_submissions salt (ucast (mu_difficulty u)) (rs_matches result) \<and>
     reported new + a = mu_attempts u + rs_attempts result"
proof -
  obtain n a new where s: "submit_each record_submission salt (rs_matches result) 0 u
      = (Inr n, u \<lparr> mu_attempts := a, mu_outside := mu_outside u @ new \<rparr>)"
     "map essence new = gpu_submissions salt (ucast (mu_difficulty u)) (rs_matches result)"
     "reported new + a - n = mu_attempts u" "n \<le> rs_attempts result"
    using submit_each_spec [OF assms, of 0 salt u] by auto
  have "reported new + (a + (rs_attempts result - n)) = (reported new + a - n) + rs_attempts result" by simp
  then have "reported new + (a + (rs_attempts result - n)) = mu_attempts u + rs_attempts result"
    using s(3) by simp
  with s(1,2,4) show ?thesis
    by (intro exI [of _ "a + (rs_attempts result - n)"] exI [of _ new])
       (simp add: submitMatches_def bind_step_def modify_def)
qed

lemma to_signed_ucast: "to_signed 32 (uint (ucast (d :: u64) :: u32)) = to_signed 32 (uint d)"
proof -
  have "uint (ucast d :: u32) = uint d mod 2 ^ 32" by (simp add: unsigned_ucast_eq take_bit_eq_mod)
  then show ?thesis by (simp add: to_signed_def mod_add_left_eq)
qed

section \<open>Properties\<close>

text \<open>
  C16 (the developer fee is exactly the permillage): A rig that mines for itself without a prefix
  override pays by the number of the batch in its round of 1000. The GPU loop and the CPU work
  provider make the same choice in every slot, and with a permillage between 0 and 1000 exactly that
  many slots of a round pay a fee: half of them (rounded down) go to the ecosystem address when there
  is one, the rest to the developer address.
\<close>

theorem devfee_share_exact:
  assumes "ctx_mode ctx = SELF_MINING" and "2 \<le> length (userAddress ident)" and "selfMiningPrefix ident = []"
    and "0 \<le> g_devfee_permillage g" and "g_devfee_permillage g \<le> 1000"
  shows "let p = g_devfee_permillage g; eco = (g_eco_devfee_address g \<noteq> []) in
     mine_work g ctx ident (int c) = slot_work g (userAddress ident) (fee_slot p eco c) \<and>
     fst (cpu_salt_prefix g ctx ident seq) = slot_work g (userAddress ident) (fee_slot p eco (unat seq mod 1000)) \<and>
     card {c. c < 1000 \<and> fee_slot p eco c = Miner} = nat (1000 - p) \<and>
     card {c. c < 1000 \<and> fee_slot p eco c = EcoFee} = (if eco then nat (p div 2) else 0) \<and>
     card {c. c < 1000 \<and> fee_slot p eco c = DevFee} = (if eco then nat (p - p div 2) else nat p)"
  using mine_work_slot [OF assms(1-4)] cpu_work_slot [OF assms] fee_slot_counts [OF assms(4,5)]
  by (simp add: Let_def)

theorem devfee_share_exact_witness:
  "card {c. c < 1000 \<and> fee_slot 1 False c = DevFee} = 1 \<and>
   mine_work initial_globals default_context
     \<lparr> userAddress = ''0xab'', selfMiningPrefix = [], testBlockPattern = [] \<rparr> 999
     = Inr (''24691E54aFafe2416a8252097C9Ca67557271475'', ''FFFFFFFFab'')"
  using devfee_share_exact [of default_context "\<lparr> userAddress = ''0xab'', selfMiningPrefix = [], testBlockPattern = [] \<rparr>"
      initial_globals 999 0]
  by (simp add: default_context_def initial_globals_def Let_def slot_work_def fee_slot_def fee_work_def
        substr2_def DEVFEE_PREFIX_def)

text \<open>
  C14 (a GPU pass submits what was mined, at the cost it was mined at): When a pass goes round again,
  the batch was computed at the difficulty the lane has at that moment, and every match is submitted
  once and in order, with the salt of the chosen work and that same memory cost; the attempts
  reported with the matches plus those carried over are the attempts carried in plus those of the
  batch.
\<close>

theorem mine_pass_faithful:
  fixes u :: "submission list mine_unit"
  assumes "mine_pass record_submission tick u = (Inr None, u')" and "bounded_backend (mk_backend tick)"
  shows "\<exists>salt pre new. mine_work (mk_globals tick) (mk_context tick) (mk_identity tick) (mu_batch_count u) = Inr (salt, pre) \<and>
    (let rq = gpu_request u tick salt pre (block_pattern (mk_identity tick)); result = mk_backend tick rq in
     rs_ok result \<and>
     to_signed 32 (uint (rq_difficulty rq)) = laneMiningDifficulty (mk_globals tick) (mu_stream_index u) \<and>
     mu_outside u' = mu_outside u @ new \<and>
     map essence new = gpu_submissions salt (rq_difficulty rq) (rs_matches result) \<and>
     reported new + mu_attempts u' = mu_attempts u + rs_attempts result)"
proof -
  obtain salt pre where work: "mine_work (mk_globals tick) (mk_context tick) (mk_identity tick) (mu_batch_count u) = Inr (salt, pre)"
    using assms(1)
    by (auto simp: mine_pass_def bind_step_def gets_def ret_def throw_def split: if_splits sum.splits)
  define rq where "rq = gpu_request u tick salt pre (block_pattern (mk_identity tick))"
  have d: "rq_difficulty rq = ucast (mu_difficulty u)" by (simp add: rq_def gpu_request_def)
  have cond: "rs_ok (mk_backend tick rq)"
    "to_signed 32 (uint (mu_difficulty u)) = laneMiningDifficulty (mk_globals tick) (mu_stream_index u)"
    using assms(1) work
    by (auto simp: mine_pass_def batchCompute_def rq_def bind_step_def gets_def ret_def Let_def split: if_splits)
  obtain a new where sm: "submitMatches record_submission salt (mk_backend tick rq) u
      = (Inr (), u \<lparr> mu_attempts := a, mu_outside := mu_outside u @ new \<rparr>)"
     "map essence new = gpu_submissions salt (ucast (mu_difficulty u)) (rs_matches (mk_backend tick rq))"
     "reported new + a = mu_attempts u + rs_attempts (mk_backend tick rq)"
    using submitMatches_spec [of "mk_backend tick rq" salt u] assms(2) cond(1)
    by (auto simp: bounded_backend_def)
  have "mu_outside u' = mu_outside u @ new \<and> mu_attempts u' = a"
    using assms(1) work cond sm(1)
    by (auto simp: mine_pass_def batchCompute_def rq_def bind_step_def seq_step_def gets_def modify_def ret_def
          stat_unit_def Let_def split: if_splits)
  with work cond sm show ?thesis by (auto simp: Let_def d to_signed_ucast rq_def [symmetric])
qed

definition sample_gpu_tick :: mine_tick where
  "sample_gpu_tick = \<lparr> mk_running = True, mk_globals = initial_globals, mk_context = default_context,
     mk_identity = \<lparr> userAddress = ''0xab'', selfMiningPrefix = [], testBlockPattern = [] \<rparr>,
     mk_minute = 30, mk_device = 0, mk_warps = 1, mk_precomputed_refs = False,
     mk_backend = (\<lambda>rq. default_result \<lparr> rs_ok := True, rs_attempts := 9, rs_matches :=
       [\<lparr> mt_key = ''k'', mt_hash = ''XEN11'', mt_matched_pattern = ''XEN11'', mt_attempt_index = 4, mt_is_superblock = False \<rparr>] \<rparr>),
     mk_rate = (\<lambda>_. 0) \<rparr>"

theorem mine_pass_faithful_witness:
  "\<exists>u' new. mine_pass record_submission sample_gpu_tick (new_unit initial_globals 0 []) = (Inr None, u') \<and>
     mu_outside u' = new \<and> map essence new = [(''ab'', ''k'', ''XEN11'', 1727)] \<and>
     reported new + mu_attempts u' = 9"
proof -
  let ?u = "new_unit initial_globals 0 [] :: submission list mine_unit"
  have lane: "laneMiningDifficulty initial_globals i = 1727" for i
    by (simp add: laneMiningDifficulty_def liveMiningDifficulty_def initial_globals_def)
  have work: "mine_work initial_globals default_context
      \<lparr> userAddress = ''0xab'', selfMiningPrefix = [], testBlockPattern = [] \<rparr> 0 = Inr (''ab'', [])"
    by (simp add: mine_work_def default_context_def substr2_def initial_globals_def)
  have "\<exists>u'. mine_pass record_submission sample_gpu_tick ?u = (Inr None, u')"
    by (simp add: mine_pass_def sample_gpu_tick_def new_unit_def lane work to_signed_def batchCompute_def
          submitMatches_def seq_step_def bind_step_def gets_def modify_def call_unit_def record_submission_def
          ret_def count_attempts_def default_result_def Let_def)
  then obtain u' where u': "mine_pass record_submission sample_gpu_tick ?u = (Inr None, u')" by blast
  have "bounded_backend (mk_backend sample_gpu_tick)"
    by (simp add: bounded_backend_def sample_gpu_tick_def default_result_def)
  from mine_pass_faithful [OF u' this] u' show ?thesis
    by (auto simp: Let_def sample_gpu_tick_def new_unit_def lane work gpu_request_def gpu_submissions_def default_result_def)
qed

end
