(* ===== verification/Fallback_Sink.thy ===== *)
theory Fallback_Sink
  imports Find_Journal Response_Classifier
begin

text \<open>
  \<open>src/journal/FallbackSink.cpp\<close>: the append-only JSONL file a find goes to when the journal
  throws, and its import into the journal at the next start. The file is its bytes, or
  \<^term>\<open>None\<close> when it does not exist; the outcome of each system call is an argument.

  \<open>snprintf("%.17g")\<close> and \<open>strtod\<close> are arguments too (\<open>fmt17g\<close> and \<open>strtod\<close>), because a
  \<open>double\<close> is only carried along here: what the source relies on is \<open>exact_rate\<close> below.
\<close>

section \<open>Writing one record\<close>

definition escape_char :: "char \<Rightarrow> string" where
  "escape_char c =
     (if c = quote then [backslash, quote]
      else if c = backslash then [backslash, backslash]
      else if c = CHR 0x08 then [backslash, CHR ''b'']
      else if c = CHR 0x0C then [backslash, CHR ''f'']
      else if c = CHR 0x0A then [backslash, CHR ''n'']
      else if c = CHR 0x0D then [backslash, CHR ''r'']
      else if c = CHR 0x09 then [backslash, CHR ''t'']
      else if code c < 32 then
        backslash # ''u00'' @ [hex_char (code c div 16 mod 16), hex_char (code c mod 16)]
      else [c])"

definition appendJsonString :: "string \<Rightarrow> string \<Rightarrow> string" where
  "appendJsonString out v = out @ [quote] @ concat (map escape_char v) @ [quote]"

definition appendField :: "string \<Rightarrow> string \<Rightarrow> string \<Rightarrow> bool \<Rightarrow> string" where
  "appendField out k v first =
     appendJsonString (appendJsonString (if first then out else out @ '','') k @ '':'') v"

definition appendRawField :: "string \<Rightarrow> string \<Rightarrow> string \<Rightarrow> bool \<Rightarrow> string" where
  "appendRawField out k literal first =
     appendJsonString (if first then out else out @ '','') k @ '':'' @ literal"

definition rate_literal :: "(double \<Rightarrow> string) \<Rightarrow> double \<Rightarrow> string" where
  "rate_literal fmt17g d =
     (let rate = fmt17g d in
      if rate = [] \<or> 64 \<le> length rate then ''0''
      else if list_all (\<lambda>c. c \<notin> set ''niNI'') rate then rate else ''0'')"

definition serialize :: "(double \<Rightarrow> string) \<Rightarrow> FoundPayload \<Rightarrow> string" where
  "serialize fmt17g p =
     (let out = ''{'';
          out = appendField out ''key'' (key p) True;
          out = appendField out ''hash_to_verify'' (hash_to_verify p) False;
          out = appendField out ''account'' (account p) False;
          out = appendField out ''kind'' (kind_to_string (kind p)) False;
          out = appendRawField out ''memory_cost'' (to_dec (unat (memory_cost p))) False;
          out = appendField out ''worker'' (worker p) False;
          out = appendRawField out ''attempts'' (to_dec (unat (attempts p))) False;
          out = appendRawField out ''hashes_per_second'' (rate_literal fmt17g (hashes_per_second p)) False;
          out = appendField out ''found_at_utc'' (found_at_utc p) False
      in out @ ''}'' @ [CHR 0x0A])"


section \<open>Reading one record\<close>

definition sink_ws :: "char \<Rightarrow> bool" where
  "sink_ws c = (c = CHR '' '' \<or> c = CHR 0x09 \<or> c = CHR 0x0D \<or> c = CHR 0x0A)"

definition sink_skipWs :: "string \<Rightarrow> string" where
  "sink_skipWs s = skip_while sink_ws s"

definition appendUtf8 :: "nat \<Rightarrow> string" where
  "appendUtf8 cp =
     (if cp < 128 then [char_of cp]
      else if cp < 2048 then [char_of (192 + cp div 64), char_of (128 + cp mod 64)]
      else [char_of (224 + cp div 4096), char_of (128 + cp div 64 mod 64), char_of (128 + cp mod 64)])"

text \<open>The \<open>switch (esc)\<close> of \<open>parseJsonString\<close>: decoded bytes and the suffix after the escape.\<close>

definition sink_escape :: "char \<Rightarrow> string \<Rightarrow> (string \<times> string) option" where
  "sink_escape e s =
     (if e = CHR ''u'' then
        (case s of
           h1 # h2 # h3 # h4 # r \<Rightarrow> map_option (\<lambda>cp. (appendUtf8 cp, r)) (hex4 h1 h2 h3 h4)
         | _ \<Rightarrow> None)
      else map_option (\<lambda>ch. ([ch], s)) (simple_escape e))"

lemma sink_escape_length: "sink_escape e s = Some (t, r) \<Longrightarrow> length r \<le> length s"
  by (auto simp: sink_escape_def split: if_splits list.splits)

function sink_chars :: "string \<Rightarrow> string \<Rightarrow> (string \<times> string) option" where
  "sink_chars out [] = None"
| "sink_chars out (c # s) =
     (if c = quote then Some (out, s)
      else if c = backslash then
        (case s of
           [] \<Rightarrow> None
         | e # s' \<Rightarrow>
             (case sink_escape e s' of None \<Rightarrow> None | Some (t, r) \<Rightarrow> sink_chars (out @ t) r))
      else sink_chars (out @ [c]) s)"
  by pat_completeness auto
termination
  by (relation "measure (\<lambda>(_, s). length s)") (auto dest: sink_escape_length)

definition sink_parseJsonString :: "string \<Rightarrow> (string \<times> string) option" where
  "sink_parseJsonString s =
     (case s of [] \<Rightarrow> None | c # s' \<Rightarrow> if c = quote then sink_chars [] s' else None)"

lemma sink_chars_length: "sink_chars out s = Some (v, r) \<Longrightarrow> length r < length s"
proof (induction out s rule: sink_chars.induct)
  case (2 out c s)
  show ?case
  proof (cases "c = quote \<or> c \<noteq> backslash")
    case True
    then show ?thesis using 2 by (auto split: if_splits)
  next
    case False
    then obtain e s' t q where s: "s = e # s'" "sink_escape e s' = Some (t, q)"
      "sink_chars (out @ t) q = Some (v, r)"
      using 2(3) by (auto split: list.splits option.splits)
    then have "length r < length q" using 2(1) False by auto
    then show ?thesis using s sink_escape_length [OF s(2)] by simp
  qed
qed simp

lemma sink_string_length: "sink_parseJsonString s = Some (v, r) \<Longrightarrow> length r < length s"
  by (auto simp: sink_parseJsonString_def split: list.splits if_splits dest: sink_chars_length)

definition token_stop :: "char \<Rightarrow> bool" where
  "token_stop c = (c = CHR '','' \<or> c = CHR ''}'' \<or> sink_ws c)"

definition sink_value :: "string \<Rightarrow> (string \<times> string) option" where
  "sink_value s =
     (case s of
        [] \<Rightarrow> None
      | c # _ \<Rightarrow>
          if c = quote then sink_parseJsonString s
          else if c = CHR ''{'' \<or> c = CHR ''['' then None
          else
            let tok = takeWhile (\<lambda>x. \<not> token_stop x) s in
            if tok = [] then None else Some (tok, dropWhile (\<lambda>x. \<not> token_stop x) s))"

lemma sink_value_length: "sink_value s = Some (v, r) \<Longrightarrow> length r \<le> length s"
  by (auto simp: sink_value_def Let_def length_dropWhile_le le_SucI split: list.splits if_splits
    dest: sink_string_length)

lemma sink_skipWs_length: "length (sink_skipWs s) \<le> length s"
  by (simp add: sink_skipWs_def length_dropWhile_le)

text \<open>
  The \<open>for (;;)\<close> of \<open>parseFlatObject\<close>. The \<open>std::map\<close> is the association list of its assignments,
  newest first. The result is the map and the suffix where the loop was left.
\<close>

function sink_members :: "(string \<times> string) list \<Rightarrow> string \<Rightarrow> ((string \<times> string) list \<times> string) option" where
  "sink_members flds s =
     (case sink_parseJsonString (sink_skipWs s) of
        None \<Rightarrow> None
      | Some (k, r1) \<Rightarrow>
     (case sink_skipWs r1 of
        [] \<Rightarrow> None
      | c # r2 \<Rightarrow>
        if c \<noteq> CHR '':'' then None
        else
          (case sink_value (sink_skipWs r2) of
             None \<Rightarrow> None
           | Some (v, r3) \<Rightarrow>
             (case sink_skipWs r3 of
                [] \<Rightarrow> Some ((k, v) # flds, [])
              | d # r4 \<Rightarrow>
                  if d = CHR '','' then sink_members ((k, v) # flds) r4
                  else Some ((k, v) # flds, d # r4)))))"
  by pat_completeness auto
termination
proof (relation "measure (\<lambda>(_, s). length s)", simp, goal_cases)
  case (1 flds s a k r1 c r2 b v r3 d r4)
  have "length r1 < length s"
    using 1(1,2) sink_string_length sink_skipWs_length [of s] by fastforce
  moreover have "length r2 < length r1"
    using 1(3) sink_skipWs_length [of r1] by simp
  moreover have "length r3 \<le> length r2"
    using 1(5,6) sink_value_length sink_skipWs_length [of r2] by fastforce
  moreover have "length r4 < length r3" using 1(7) sink_skipWs_length [of r3] by simp
  ultimately show ?case by simp
qed

declare sink_members.simps [simp del]

definition parseFlatObject :: "string \<Rightarrow> (string \<times> string) list option" where
  "parseFlatObject line =
     (case sink_skipWs line of
        [] \<Rightarrow> None
      | c # s \<Rightarrow>
        if c \<noteq> CHR ''{'' then None
        else
          (case sink_skipWs s of
             [] \<Rightarrow> None
           | d # r \<Rightarrow>
             if d = CHR ''}'' then (if sink_skipWs r = [] then Some [] else None)
             else
               (case sink_members [] (d # r) of
                  None \<Rightarrow> None
                | Some (flds, t) \<Rightarrow>
                  (case t of
                     [] \<Rightarrow> None
                   | e # u \<Rightarrow> if e = CHR ''}'' \<and> sink_skipWs u = [] then Some flds else None))))"

text \<open>A \<open>const char*\<close> ends at its first NUL.\<close>

definition c_str :: "string \<Rightarrow> string" where
  "c_str s = takeWhile (\<lambda>c. c \<noteq> CHR 0x00) s"

text \<open>\<open>std::strtoull(text, &end, 10)\<close>: value, suffix at \<open>end\<close>, and whether \<open>errno\<close> was set.\<close>

definition strtoull :: "string \<Rightarrow> nat \<times> string \<times> bool" where
  "strtoull text =
     (let s = skip_while isspace text;
          (neg, ds) = (case s of c # t \<Rightarrow> if c = CHR ''-'' then (True, t)
                                          else if c = CHR ''+'' then (False, t) else (False, s)
                        | [] \<Rightarrow> (False, []));
          digits = takeWhile isdigit ds;
          v = dec_val digits
      in if digits = [] then (0, text, False)
         else if 2 ^ 64 \<le> v then (2 ^ 64 - 1, dropWhile isdigit ds, True)
         else (if neg then (2 ^ 64 - v) mod 2 ^ 64 else v, dropWhile isdigit ds, False))"

definition parseU64 :: "string \<Rightarrow> nat option" where
  "parseU64 text =
     (if text = [] then None
      else
        (case strtoull (c_str text) of
           (v, rest, err) \<Rightarrow> if err \<or> rest \<noteq> [] \<or> hd text = CHR ''-'' then None else Some v))"

definition parseDouble :: "(string \<Rightarrow> double \<times> string) \<Rightarrow> string \<Rightarrow> double option" where
  "parseDouble strtod text =
     (if text = [] then None
      else (case strtod (c_str text) of (v, rest) \<Rightarrow> if rest \<noteq> [] then None else Some v))"

definition payloadFromFields ::
  "(string \<Rightarrow> double \<times> string) \<Rightarrow> (string \<times> string) list \<Rightarrow> FoundPayload option" where
  "payloadFromFields strtod flds =
     (let lookup = map_of flds in
      case (lookup ''key'', lookup ''hash_to_verify'', lookup ''account'', lookup ''kind'',
            lookup ''memory_cost'', lookup ''worker'', lookup ''attempts'',
            lookup ''hashes_per_second'', lookup ''found_at_utc'') of
        (Some k, Some h, Some a, Some kindText, Some memoryCostText, Some w, Some attemptsText,
         Some rateText, Some f) \<Rightarrow>
          (case (if kindText = ''XEN11'' then Some XEN11
                 else if kindText = ''XUNI'' then Some XUNI else None) of
             None \<Rightarrow> None
           | Some kd \<Rightarrow>
          (case parseU64 memoryCostText of
             None \<Rightarrow> None
           | Some memoryCost \<Rightarrow>
             if 4294967295 < memoryCost then None
             else
          (case parseU64 attemptsText of
             None \<Rightarrow> None
           | Some att \<Rightarrow>
          (case parseDouble strtod rateText of
             None \<Rightarrow> None
           | Some rate \<Rightarrow>
               Some \<lparr>key = k, hash_to_verify = h, account = a, kind = kd,
                     memory_cost = of_nat memoryCost, worker = w, attempts = of_nat att,
                     hashes_per_second = rate, found_at_utc = f\<rparr>))))
      | _ \<Rightarrow> None)"


section \<open>The file\<close>

text \<open>
  What the system calls of one \<open>append\<close> do: whether the file can be opened, how many bytes
  \<open>writeAll\<close> gets out (\<^term>\<open>None\<close>: all of them), and the results of \<open>fsync\<close> and \<open>close\<close>.
\<close>

record append_io =
  open_ok :: bool
  write_cut :: "nat option"
  sync_ok :: bool
  close_ok :: bool

definition sink_append ::
  "(double \<Rightarrow> string) \<Rightarrow> append_io \<Rightarrow> FoundPayload \<Rightarrow> string option \<Rightarrow> bool \<times> string option" where
  "sink_append fmt17g io p file =
     (let line = serialize fmt17g p in
      if \<not> open_ok io then (False, file)
      else
        let content = (case file of None \<Rightarrow> [] | Some s \<Rightarrow> s);
            written = (case write_cut io of None \<Rightarrow> line | Some n \<Rightarrow> take n line)
        in (write_cut io = None \<and> sync_ok io \<and> close_ok io, Some (content @ written)))"

text \<open>The lines \<open>std::getline\<close> delivers.\<close>

function getlines :: "string \<Rightarrow> string list" where
  "getlines s =
     (if s = [] then []
      else takeWhile (\<lambda>c. c \<noteq> CHR 0x0A) s # getlines (drop 1 (dropWhile (\<lambda>c. c \<noteq> CHR 0x0A) s)))"
  by pat_completeness auto
termination
proof (relation "measure length", simp, goal_cases)
  case (1 s)
  have "length (dropWhile (\<lambda>c. c \<noteq> CHR 0x0A) s) \<le> length s" by (rule length_dropWhile_le)
  moreover have "0 < length s" using 1 by (simp only: length_greater_0_conv not_False_eq_True)
  ultimately show ?case by (simp only: in_measure length_drop)
qed

declare getlines.simps [simp del]

definition strip_eol :: "string \<Rightarrow> string" where
  "strip_eol line = rev (dropWhile (\<lambda>c. c = CHR 0x0D \<or> c = CHR 0x0A) (rev line))"

definition blank_line :: "string \<Rightarrow> bool" where
  "blank_line line = list_all (\<lambda>c. c = CHR '' '' \<or> c = CHR 0x09) line"

definition parse_line :: "(string \<Rightarrow> double \<times> string) \<Rightarrow> string \<Rightarrow> FoundPayload option" where
  "parse_line strtod line =
     (case parseFlatObject line of None \<Rightarrow> None | Some flds \<Rightarrow> payloadFromFields strtod flds)"

record ImportStats =
  imported :: nat
  malformed :: nat
  file_present :: bool

text \<open>
  The loop of \<open>importInto\<close> over the abstract journal's \<open>append\<close>, with the journal's fault at each
  call. It yields \<open>cleanPass\<close>, the statistics and the journal.
\<close>

fun import_lines ::
  "('f \<Rightarrow> FoundPayload \<Rightarrow> ('d, int) step) \<Rightarrow> (string \<Rightarrow> double \<times> string) \<Rightarrow> (nat \<Rightarrow> 'f) \<Rightarrow>
   string list \<Rightarrow> ImportStats \<Rightarrow> 'd \<Rightarrow> bool \<times> ImportStats \<times> 'd" where
  "import_lines app strtod faults [] stats d = (True, stats, d)"
| "import_lines app strtod faults (l # ls) stats d =
     (let line = strip_eol l in
      if blank_line line then import_lines app strtod faults ls stats d
      else
        (case parse_line strtod line of
           None \<Rightarrow> import_lines app strtod faults ls (stats\<lparr>malformed := malformed stats + 1\<rparr>) d
         | Some p \<Rightarrow>
             (case app (faults (imported stats)) p d of
                (Inl _, d') \<Rightarrow> (False, stats, d')
              | (Inr _, d') \<Rightarrow>
                  import_lines app strtod faults ls (stats\<lparr>imported := imported stats + 1\<rparr>) d')))"

text \<open>
  What \<open>importInto\<close> meets on disk: whether the file can be opened, after how many lines a read
  error stops \<open>getline\<close> (\<^term>\<open>None\<close>: it reads to the end), and whether the rename works. It
  returns the statistics, the journal, the sink file and the archived file.
\<close>

record import_io =
  readable :: bool
  read_cut :: "nat option"
  rename_ok :: bool

definition no_stats :: ImportStats where
  "no_stats = \<lparr>imported = 0, malformed = 0, file_present = False\<rparr>"

definition importInto ::
  "('f \<Rightarrow> FoundPayload \<Rightarrow> ('d, int) step) \<Rightarrow> (string \<Rightarrow> double \<times> string) \<Rightarrow> (nat \<Rightarrow> 'f) \<Rightarrow> import_io \<Rightarrow>
   string option \<Rightarrow> string option \<Rightarrow> 'd \<Rightarrow> ImportStats \<times> 'd \<times> string option \<times> string option" where
  "importInto app strtod faults io file archived d =
     (case file of
        None \<Rightarrow> (no_stats, d, None, archived)
      | Some content \<Rightarrow>
          if \<not> readable io then (no_stats\<lparr>file_present := True\<rparr>, d, file, archived)
          else
            let ls = (case read_cut io of None \<Rightarrow> getlines content | Some n \<Rightarrow> take n (getlines content))
            in (case import_lines app strtod faults ls (no_stats\<lparr>file_present := True\<rparr>) d of
                  (cleanPass, stats, d') \<Rightarrow>
                    if \<not> (cleanPass \<and> read_cut io = None) then (stats, d', file, archived)
                    else if rename_ok io then (stats, d', None, Some content)
                    else (stats, d', file, None)))"


section \<open>A written record reads back\<close>

text \<open>A string written by \<open>appendJsonString\<close> is read back by \<open>parseJsonString\<close>, byte for byte.\<close>

lemma hex4_control: "n < 32 \<Longrightarrow> hex4 (CHR ''0'') (CHR ''0'') (hex_char (n div 16 mod 16)) (hex_char (n mod 16)) = Some n"
proof -
  assume n: "n < 32"
  have "hex_nibble (CHR ''0'') = Some 0" by code_simp
  moreover have "n div 16 mod 16 * 16 + n mod 16 = n" using n by (simp add: div_mult_mod_eq)
  ultimately show ?thesis by (simp add: hex4_def)
qed

lemma sink_chars_escape_char: "sink_chars out (escape_char c @ s) = sink_chars (out @ [c]) s"
proof -
  have u: "sink_escape (CHR ''u'') (CHR ''0'' # CHR ''0'' # hex_char (code c div 16) #
      hex_char (code c mod 16) # s) = Some ([c], s)" if "code c < 32"
    using that hex4_control [OF that] by (simp add: sink_escape_def appendUtf8_def)
  have e: "sink_escape quote s = Some ([quote], s)" "sink_escape backslash s = Some ([backslash], s)"
    "sink_escape (CHR ''b'') s = Some ([CHR 0x08], s)" "sink_escape (CHR ''f'') s = Some ([CHR 0x0C], s)"
    "sink_escape (CHR ''n'') s = Some ([CHR 0x0A], s)" "sink_escape (CHR ''r'') s = Some ([CHR 0x0D], s)"
    "sink_escape (CHR ''t'') s = Some ([CHR 0x09], s)"
    by (simp_all add: sink_escape_def simple_escape_def json_chars)
  have q: "quote \<noteq> backslash" "backslash \<noteq> quote" by (simp_all add: json_chars)
  show ?thesis by (simp add: escape_char_def e q u)
qed

lemma sink_chars_escaped: "sink_chars out (concat (map escape_char v) @ quote # r) = Some (out @ v, r)"
  by (induction v arbitrary: out) (simp_all add: sink_chars_escape_char)

definition json_text :: "string \<Rightarrow> string" where
  "json_text v = quote # concat (map escape_char v) @ [quote]"

lemma sink_string_text: "sink_parseJsonString (json_text v @ r) = Some (v, r)"
  by (simp add: sink_parseJsonString_def json_text_def sink_chars_escaped)

lemma skip_nonblank: "\<not> sink_ws c \<Longrightarrow> sink_skipWs (c # s) = c # s"
  by (simp add: sink_skipWs_def)

lemma sink_not_ws [simp]: "\<not> sink_ws quote" "\<not> sink_ws (CHR '':'')" "\<not> sink_ws (CHR '','')"
  "\<not> sink_ws (CHR ''}'')" "\<not> sink_ws (CHR ''{'')"
  by (simp_all add: sink_ws_def quote_def)

lemma quote_not_brace: "quote \<noteq> CHR ''}''"
  by (simp add: quote_def)

lemma skip_text: "sink_skipWs (json_text v @ r) = json_text v @ r"
  by (simp add: json_text_def skip_nonblank)

text \<open>A bare token the parser takes whole.\<close>

definition bare_token :: "string \<Rightarrow> bool" where
  "bare_token t = (t \<noteq> [] \<and> list_all (\<lambda>c. \<not> token_stop c) t \<and> hd t \<notin> {quote, CHR ''{'', CHR ''[''})"

lemma skip_token: "bare_token t \<Longrightarrow> sink_skipWs (t @ r) = t @ r"
  by (cases t) (auto simp: bare_token_def token_stop_def skip_nonblank)

lemma value_text: "sink_value (json_text v @ r) = Some (v, r)"
proof -
  have "sink_value (json_text v @ r) = sink_parseJsonString (json_text v @ r)"
    by (simp add: sink_value_def json_text_def)
  then show ?thesis by (simp add: sink_string_text)
qed

lemma value_token: "bare_token t \<Longrightarrow> token_stop c \<Longrightarrow> sink_value (t @ c # r) = Some (t, c # r)"
proof -
  assume t: "bare_token t" and c: "token_stop c"
  have "takeWhile (\<lambda>x. \<not> token_stop x) (t @ c # r) = t" "dropWhile (\<lambda>x. \<not> token_stop x) (t @ c # r) = c # r"
    using t c by (auto simp: bare_token_def list_all_iff)
  moreover obtain a u where "t = a # u" using t by (cases t) (auto simp: bare_token_def)
  ultimately show ?thesis using t by (simp add: sink_value_def bare_token_def)
qed

text \<open>A member is a key and either a string or a bare token, as it stands in the text.\<close>

definition member_value :: "string \<Rightarrow> string \<Rightarrow> bool" where
  "member_value v txt = (txt = json_text v \<or> txt = v \<and> bare_token v)"

lemma member_next:
  assumes "member_value v t"
  shows "sink_members flds (json_text k @ CHR '':'' # t @ CHR '','' # r) = sink_members ((k, v) # flds) r"
    "sink_members flds (json_text k @ CHR '':'' # t @ CHR ''}'' # r) = Some ((k, v) # flds, CHR ''}'' # r)"
proof -
  have s: "sink_skipWs (t @ r) = t @ r" for r
    using assms skip_text skip_token unfolding member_value_def by metis
  have v: "sink_value (t @ c # r) = Some (v, c # r)" if "token_stop c" for c r
    using assms value_text value_token that unfolding member_value_def by metis
  have "token_stop (CHR '','')" "token_stop (CHR ''}'')" by (simp_all add: token_stop_def)
  note v' = v [OF this(1)] v [OF this(2)]
  show "sink_members flds (json_text k @ CHR '':'' # t @ CHR '','' # r) = sink_members ((k, v) # flds) r"
    by (subst sink_members.simps) (simp add: skip_text sink_string_text skip_nonblank s v')
  show "sink_members flds (json_text k @ CHR '':'' # t @ CHR ''}'' # r) = Some ((k, v) # flds, CHR ''}'' # r)"
    by (subst sink_members.simps) (simp add: skip_text sink_string_text skip_nonblank s v')
qed

definition member_list :: "(string \<times> string) list \<Rightarrow> string" where
  "member_list ms = concat (map (\<lambda>(k, t). CHR '','' # json_text k @ CHR '':'' # t) ms)"

lemma members_list:
  assumes "list_all2 (\<lambda>(k, v) (k', t). k = k' \<and> member_value v t) fs ms" and "fs \<noteq> []"
  shows "sink_members flds (tl (member_list ms) @ CHR ''}'' # r) = Some (rev fs @ flds, CHR ''}'' # r)"
  using assms
proof (induction fs arbitrary: flds ms)
  case (Cons f fs)
  obtain k v where f: "f = (k, v)" by (cases f)
  obtain t ms' where ms: "ms = (k, t) # ms'" "member_value v t"
    "list_all2 (\<lambda>(k, v) (k', t). k = k' \<and> member_value v t) fs ms'"
    using Cons.prems(1) by (auto simp: list_all2_Cons1 f)
  show ?case
  proof (cases fs)
    case Nil
    then show ?thesis using ms member_next(2) by (simp add: member_list_def f)
  next
    case (Cons g gs)
    then obtain n ms'' where "ms' = n # ms''" using ms(3) by (auto simp: list_all2_Cons1)
    then have "member_list ms' = CHR '','' # tl (member_list ms')"
      by (simp add: member_list_def split: prod.splits)
    then have "tl (member_list ms) = json_text k @ CHR '':'' # t @ CHR '','' # tl (member_list ms')"
      using ms(1) by (simp add: member_list_def)
    then show ?thesis using Cons.IH [OF ms(3)] \<open>fs = g # gs\<close> member_next(1) [OF ms(2)] by (simp add: f)
  qed
qed simp


text \<open>
  What \<open>serialize\<close> relies on for a rate \<open>d\<close>: \<open>%.17g\<close> prints it as an ordinary number that
  \<open>strtod\<close> reads back whole and exactly.
\<close>

definition exact_rate :: "(double \<Rightarrow> string) \<Rightarrow> (string \<Rightarrow> double \<times> string) \<Rightarrow> double \<Rightarrow> bool" where
  "exact_rate fmt17g strtod d =
     (fmt17g d \<noteq> [] \<and> length (fmt17g d) < 64 \<and> list_all (\<lambda>c. c \<in> set ''0123456789+-.e'') (fmt17g d) \<and>
      strtod (fmt17g d) = (d, []))"

lemma exact_rate_literal:
  assumes "exact_rate fmt17g strtod d"
  shows "rate_literal fmt17g d = fmt17g d \<and> bare_token (fmt17g d) \<and>
    parseDouble strtod (fmt17g d) = Some d \<and> CHR 0x0A \<notin> set (fmt17g d)"
proof -
  have c: "c \<in> set ''0123456789+-.e''" if "c \<in> set (fmt17g d)" for c
    using assms that unfolding exact_rate_def list_all_iff by blast
  have ok: "\<not> token_stop c \<and> c \<notin> set ''niNI'' \<and> c \<noteq> CHR 0x00 \<and> c \<noteq> CHR 0x0A \<and>
      c \<notin> {quote, CHR ''{'', CHR ''[''}" if "c \<in> set (fmt17g d)" for c
    using c [OF that] by (auto simp: token_stop_def sink_ws_def quote_def)
  have ne: "fmt17g d \<noteq> []" and l: "length (fmt17g d) < 64" and r: "strtod (fmt17g d) = (d, [])"
    using assms by (simp_all add: exact_rate_def)
  have "c_str (fmt17g d) = fmt17g d" unfolding c_str_def takeWhile_eq_all_conv using ok by blast
  moreover have "list_all (\<lambda>c. c \<notin> set ''niNI'') (fmt17g d)" "list_all (\<lambda>c. \<not> token_stop c) (fmt17g d)"
    unfolding list_all_iff using ok by blast+
  moreover have "hd (fmt17g d) \<notin> {quote, CHR ''{'', CHR ''[''}" using ok ne by (meson hd_in_set)
  moreover have "CHR 0x0A \<notin> set (fmt17g d)" using ok by blast
  ultimately show ?thesis
    using ne l r unfolding rate_literal_def bare_token_def parseDouble_def Let_def by simp
qed

lemma to_dec_token: "bare_token (to_dec n) \<and> CHR 0x0A \<notin> set (to_dec n)"
proof -
  have d: "\<not> token_stop c \<and> c \<noteq> CHR 0x0A \<and> c \<notin> {quote, CHR ''{'', CHR ''[''}" if "isdigit c" for c
    using that by (auto simp: isdigit_def Let_def code_def token_stop_def sink_ws_def quote_def)
  then have "list_all (\<lambda>c. \<not> token_stop c) (to_dec n)" "CHR 0x0A \<notin> set (to_dec n)"
    "hd (to_dec n) \<notin> {quote, CHR ''{'', CHR ''[''}"
    using to_dec_digits [of _ n] to_dec_nonempty [of n] unfolding list_all_iff by (blast, blast, meson hd_in_set)
  then show ?thesis by (simp add: bare_token_def)
qed

lemma parseU64_to_dec: "n < 2 ^ 64 \<Longrightarrow> parseU64 (to_dec n) = Some n"
proof -
  assume n: "n < 2 ^ 64"
  have dig: "isdigit c" if "c \<in> set (to_dec n)" for c using that by (rule to_dec_digits)
  have sp: "\<not> isspace c \<and> c \<noteq> CHR ''-'' \<and> c \<noteq> CHR ''+'' \<and> c \<noteq> CHR 0x00" if "isdigit c" for c
    using that by (auto simp: isdigit_def isspace_def Let_def code_def)
  obtain c t where ct: "to_dec n = c # t" using to_dec_nonempty [of n] by (cases "to_dec n") auto
  have hd: "isdigit c" using dig ct by simp
  have "c_str (to_dec n) = to_dec n" unfolding c_str_def takeWhile_eq_all_conv using dig sp by blast
  moreover have "dropWhile isspace (to_dec n) = to_dec n" using sp [OF hd] by (simp add: ct)
  moreover have "takeWhile isdigit (to_dec n) = to_dec n" "dropWhile isdigit (to_dec n) = []"
    using dig by (simp_all add: takeWhile_eq_all_conv)
  moreover have "(case to_dec n of x # y \<Rightarrow> if x = CHR ''-'' then (True, y)
      else if x = CHR ''+'' then (False, y) else (False, to_dec n) | [] \<Rightarrow> (False, [])) = (False, to_dec n)"
    using sp [OF hd] by (simp add: ct)
  ultimately have "strtoull (c_str (to_dec n)) = (n, [], False)"
    using n unfolding strtoull_def Let_def by (simp only: split dec_val_to_dec) simp
  then show ?thesis using sp [OF hd] ct by (simp add: parseU64_def)
qed

text \<open>The members of a serialized record, in the order of the source.\<close>

definition payload_fields :: "(double \<Rightarrow> string) \<Rightarrow> FoundPayload \<Rightarrow> (string \<times> string) list" where
  "payload_fields fmt17g p =
     [(''key'', key p), (''hash_to_verify'', hash_to_verify p), (''account'', account p),
      (''kind'', kind_to_string (kind p)), (''memory_cost'', to_dec (unat (memory_cost p))),
      (''worker'', worker p), (''attempts'', to_dec (unat (attempts p))),
      (''hashes_per_second'', rate_literal fmt17g (hashes_per_second p)),
      (''found_at_utc'', found_at_utc p)]"

definition payload_members :: "(double \<Rightarrow> string) \<Rightarrow> FoundPayload \<Rightarrow> (string \<times> string) list" where
  "payload_members fmt17g p =
     [(''key'', json_text (key p)), (''hash_to_verify'', json_text (hash_to_verify p)),
      (''account'', json_text (account p)), (''kind'', json_text (kind_to_string (kind p))),
      (''memory_cost'', to_dec (unat (memory_cost p))), (''worker'', json_text (worker p)),
      (''attempts'', to_dec (unat (attempts p))),
      (''hashes_per_second'', rate_literal fmt17g (hashes_per_second p)),
      (''found_at_utc'', json_text (found_at_utc p))]"

definition record_line :: "(double \<Rightarrow> string) \<Rightarrow> FoundPayload \<Rightarrow> string" where
  "record_line fmt17g p = CHR ''{'' # tl (member_list (payload_members fmt17g p)) @ ''}''"

lemma appendJsonString_text: "appendJsonString out v = out @ json_text v"
  by (simp add: appendJsonString_def json_text_def)

lemma serialize_line: "serialize fmt17g p = record_line fmt17g p @ [CHR 0x0A]"
  by (simp add: serialize_def record_line_def member_list_def payload_members_def Let_def
    appendField_def appendRawField_def appendJsonString_text)

lemma payload_members_ok:
  assumes "exact_rate fmt17g strtod (hashes_per_second p)"
  shows "list_all2 (\<lambda>(k, v) (k', t). k = k' \<and> member_value v t) (payload_fields fmt17g p)
    (payload_members fmt17g p)"
  using exact_rate_literal [OF assms] to_dec_token
  by (simp add: payload_fields_def payload_members_def member_value_def)

lemma parse_record_line:
  assumes "exact_rate fmt17g strtod (hashes_per_second p)"
  shows "parse_line strtod (record_line fmt17g p) = Some p"
proof -
  have "sink_members [] (tl (member_list (payload_members fmt17g p)) @ CHR ''}'' # []) =
      Some (rev (payload_fields fmt17g p) @ [], CHR ''}'' # [])"
    by (rule members_list [OF payload_members_ok [OF assms]]) (simp add: payload_fields_def)
  moreover obtain r where r: "tl (member_list (payload_members fmt17g p)) @ ''}'' = quote # r"
    by (simp add: member_list_def payload_members_def json_text_def)
  ultimately have obj: "parseFlatObject (record_line fmt17g p) = Some (rev (payload_fields fmt17g p))"
    unfolding parseFlatObject_def record_line_def r
    by (simp add: skip_nonblank quote_not_brace) (simp add: sink_skipWs_def)
  have "unat (memory_cost p) \<le> 4294967295" using unat_u32_less [of "memory_cost p"] by linarith
  moreover have "parseU64 (to_dec (unat (memory_cost p))) = Some (unat (memory_cost p))"
    by (rule parseU64_to_dec, rule less_trans [OF unat_u32_less]) simp
  moreover have "parseU64 (to_dec (unat (attempts p))) = Some (unat (attempts p))"
    by (rule parseU64_to_dec) (use unat_u64_less [of "attempts p"] in simp)
  ultimately show ?thesis
    using exact_rate_literal [OF assms] unfolding parse_line_def obj
    by (cases "kind p") (simp_all add: payloadFromFields_def payload_fields_def)
qed


section \<open>A written file reads back\<close>

lemma getlines_cons: "CHR 0x0A \<notin> set l \<Longrightarrow> getlines (l @ CHR 0x0A # r) = l # getlines r"
proof -
  assume l: "CHR 0x0A \<notin> set l"
  then have "takeWhile (\<lambda>c. c \<noteq> CHR 0x0A) (l @ CHR 0x0A # r) = l"
    "dropWhile (\<lambda>c. c \<noteq> CHR 0x0A) (l @ CHR 0x0A # r) = CHR 0x0A # r"
    by (induction l) auto
  then show ?thesis by (subst getlines.simps) simp
qed

lemma escape_char_plain: "x \<in> set (escape_char c) \<Longrightarrow> x \<noteq> CHR 0x0A"
proof -
  have "hex_char n \<noteq> CHR 0x0A" if "n < 16" for n
  proof
    assume "hex_char n = CHR 0x0A"
    then have "hex_nibble (CHR 0x0A) = Some n" using hex_nibble_hex_char [OF that] by simp
    moreover have "hex_nibble (CHR 0x0A) = None" by code_simp
    ultimately show False by simp
  qed
  from this [of "code c div 16 mod 16"] this [of "code c mod 16"]
  show "x \<in> set (escape_char c) \<Longrightarrow> x \<noteq> CHR 0x0A"
    by (auto simp: escape_char_def json_chars split: if_splits)
qed

lemma json_text_plain: "CHR 0x0A \<notin> set (json_text v)"
  using escape_char_plain by (fastforce simp: json_text_def quote_def)

lemma record_line_plain:
  assumes "exact_rate fmt17g strtod (hashes_per_second p)"
  shows "CHR 0x0A \<notin> set (record_line fmt17g p)"
  using exact_rate_literal [OF assms] to_dec_token json_text_plain
  by (simp add: record_line_def member_list_def payload_members_def)

lemma record_line_last: "\<exists>t. record_line fmt17g p = CHR ''{'' # t @ ''}''"
  by (simp add: record_line_def)

lemma strip_record_line: "strip_eol (record_line fmt17g p) = record_line fmt17g p \<and> \<not> blank_line (record_line fmt17g p)"
  using record_line_last [of fmt17g p] by (auto simp: strip_eol_def blank_line_def)

text \<open>The payloads a sink file holds, in order.\<close>

fun line_payloads :: "(string \<Rightarrow> double \<times> string) \<Rightarrow> string list \<Rightarrow> FoundPayload list" where
  "line_payloads strtod [] = []"
| "line_payloads strtod (l # ls) =
     (if blank_line (strip_eol l) then line_payloads strtod ls
      else (case parse_line strtod (strip_eol l) of
              None \<Rightarrow> line_payloads strtod ls
            | Some p \<Rightarrow> p # line_payloads strtod ls))"

definition sink_payloads :: "(string \<Rightarrow> double \<times> string) \<Rightarrow> string \<Rightarrow> FoundPayload list" where
  "sink_payloads strtod content = line_payloads strtod (getlines content)"

lemma sink_payloads_serialized:
  assumes "exact_rate fmt17g strtod (hashes_per_second p)"
  shows "sink_payloads strtod (serialize fmt17g p @ r) = p # sink_payloads strtod r"
  using getlines_cons [OF record_line_plain [OF assms], of r] strip_record_line [of fmt17g p]
    parse_record_line [OF assms]
  by (simp add: sink_payloads_def serialize_line)


section \<open>Import over any capture journal\<close>

text \<open>
  What \<open>importInto\<close> needs of \<open>IFindJournal::append\<close>: after a normal return the key is held and
  no other key was touched, a key already held changes nothing, and a throw changes nothing.
\<close>

locale capture_journal =
  fixes app :: "'f \<Rightarrow> FoundPayload \<Rightarrow> ('d, int) step"
    and keys :: "'d \<Rightarrow> string set"
    and ok :: "'d \<Rightarrow> bool"
  assumes app_ok: "ok d \<Longrightarrow> ok (snd (app f p d))"
    and app_keys: "ok d \<Longrightarrow> app f p d = (Inr i, d') \<Longrightarrow> keys d' = insert (key p) (keys d)"
    and app_throw: "ok d \<Longrightarrow> app f p d = (Inl e, d') \<Longrightarrow> d' = d"
    and app_dup: "ok d \<Longrightarrow> app f p d = (Inr i, d') \<Longrightarrow> key p \<in> keys d \<Longrightarrow> d' = d"
begin

lemma import_lines_keys:
  assumes "ok d" and "import_lines app strtod faults ls stats d = (clean, stats', d')"
  shows "ok d' \<and> keys d \<subseteq> keys d' \<and>
    keys d' \<subseteq> keys d \<union> key ` set (line_payloads strtod ls) \<and>
    (clean \<longrightarrow> key ` set (line_payloads strtod ls) \<subseteq> keys d' \<and>
       imported stats' = imported stats + length (line_payloads strtod ls))"
  using assms
proof (induction ls arbitrary: stats d)
  case (Cons l ls)
  show ?case
  proof (cases "blank_line (strip_eol l) \<or> parse_line strtod (strip_eol l) = None")
    case True
    then have lp: "line_payloads strtod (l # ls) = line_payloads strtod ls" by auto
    from True have "\<exists>st. import_lines app strtod faults ls st d = (clean, stats', d') \<and>
        imported st = imported stats"
      using Cons.prems(2) by (cases "blank_line (strip_eol l)") (auto simp: Let_def)
    then show ?thesis using Cons.IH [OF Cons.prems(1)] unfolding lp by metis
  next
    case False
    then obtain p where p: "\<not> blank_line (strip_eol l)" "parse_line strtod (strip_eol l) = Some p" by auto
    obtain r d1 where a: "app (faults (imported stats)) p d = (r, d1)" by fastforce
    show ?thesis
    proof (cases r)
      case (Inl e)
      then have "d1 = d" using app_throw Cons.prems(1) a by blast
      then show ?thesis using Cons.prems a Inl p by (auto simp: Let_def)
    next
      case (Inr i)
      have d1: "ok d1" "keys d1 = insert (key p) (keys d)"
        using app_ok [OF Cons.prems(1), of "faults (imported stats)" p] app_keys Cons.prems(1) a Inr by auto
      have "import_lines app strtod faults ls (stats\<lparr>imported := imported stats + 1\<rparr>) d1 = (clean, stats', d')"
        using Cons.prems(2) a Inr p by (simp add: Let_def)
      then show ?thesis using Cons.IH [OF d1(1)] d1(2) p by auto
    qed
  qed
qed simp

lemma import_lines_replay:
  assumes "ok d" and "key ` set (line_payloads strtod ls) \<subseteq> keys d"
    and "import_lines app strtod faults ls stats d = (clean, stats', d')"
  shows "d' = d"
  using assms
proof (induction ls arbitrary: stats)
  case (Cons l ls)
  show ?case
  proof (cases "blank_line (strip_eol l) \<or> parse_line strtod (strip_eol l) = None")
    case True
    then show ?thesis using Cons by (auto simp: Let_def split: if_splits)
  next
    case False
    then obtain p where p: "\<not> blank_line (strip_eol l)" "parse_line strtod (strip_eol l) = Some p" by auto
    obtain r d1 where a: "app (faults (imported stats)) p d = (r, d1)" by fastforce
    have k: "key p \<in> keys d" "key ` set (line_payloads strtod ls) \<subseteq> keys d"
      using Cons.prems(2) p by auto
    have "d1 = d" using app_throw app_dup Cons.prems(1) a k by (cases r) blast+
    then show ?thesis using Cons.IH [OF Cons.prems(1) k(2)] Cons.prems(3) a p
      by (cases r) (auto simp: Let_def)
  qed
qed simp

end

definition journal_keys :: "db \<Rightarrow> string set" where
  "journal_keys d = col_key ` set (finds d)"

interpretation cap: capture_journal append_find journal_keys journal_inv
proof
  fix d :: db and f p i d' e
  assume inv: "journal_inv d"
  show "journal_inv (snd (append_find f p d))" using journal_keepsD [OF append_find_keeps inv] by blast
  show "append_find f p d = (Inr i, d') \<Longrightarrow> journal_keys d' = insert (key p) (journal_keys d)"
    by (cases f; cases "\<exists>r \<in> set (finds d). col_key r = key p")
      (auto simp: append_find_def journal_keys_def Let_def insert_row_def intro!: insert_absorb [symmetric]
        split: option.splits intro: rev_image_eqI)
  show "append_find f p d = (Inl e, d') \<Longrightarrow> d' = d"
    by (cases f) (auto simp: append_find_def Let_def split: if_splits option.splits)
  show "append_find f p d = (Inr i, d') \<Longrightarrow> key p \<in> journal_keys d \<Longrightarrow> d' = d"
    by (cases f) (auto simp: append_find_def journal_keys_def Let_def split: if_splits option.splits)
qed


section \<open>Properties\<close>

definition good_io :: append_io where
  "good_io = \<lparr>open_ok = True, write_cut = None, sync_ok = True, close_ok = True\<rparr>"

definition sink_append_all :: "(double \<Rightarrow> string) \<Rightarrow> FoundPayload list \<Rightarrow> string option \<Rightarrow> string option" where
  "sink_append_all fmt17g ps file = fold (\<lambda>p f. snd (sink_append fmt17g good_io p f)) ps file"

lemma sink_append_all_content:
  "sink_append_all fmt17g ps (Some s) = Some (s @ concat (map (serialize fmt17g) ps))"
  by (induction ps arbitrary: s) (simp_all add: sink_append_all_def sink_append_def good_io_def Let_def)

lemma sink_payloads_nil: "sink_payloads strtod [] = []"
  by (simp add: sink_payloads_def getlines.simps)

lemma sink_payloads_concat:
  assumes "\<And>p. p \<in> set ps \<Longrightarrow> exact_rate fmt17g strtod (hashes_per_second p)"
  shows "sink_payloads strtod (concat (map (serialize fmt17g) ps)) = ps"
  using assms by (induction ps) (simp_all add: sink_payloads_nil sink_payloads_serialized)

text \<open>A stand-in for the two conversions that meets \<open>exact_rate\<close> at every pattern, for witnesses.\<close>

definition bits_fmt :: "double \<Rightarrow> string" where
  "bits_fmt d = to_dec (unat d)"

definition bits_strtod :: "string \<Rightarrow> double \<times> string" where
  "bits_strtod t = (of_nat (dec_val t), [])"

text \<open>
  C29 (sink round trip): whatever bytes the fields hold (quotes, control characters, line feeds,
  NULs), the records that successful \<open>append\<close> calls put into a fresh sink file are exactly the
  records the import reads from it, in order, provided \<open>%.17g\<close> and \<open>strtod\<close> are exact on their
  rates.
\<close>

theorem sink_file_roundtrip:
  assumes "\<And>p. p \<in> set ps \<Longrightarrow> exact_rate fmt17g strtod (hashes_per_second p)"
  shows "case sink_append_all fmt17g ps (Some []) of
      None \<Rightarrow> False | Some content \<Rightarrow> sink_payloads strtod content = ps"
  using sink_payloads_concat [OF assms] by (simp add: sink_append_all_content)

lemma bits_exact: "exact_rate bits_fmt bits_strtod 7"
proof -
  have "to_dec 7 = ''7''" by code_simp
  then show ?thesis by (simp add: exact_rate_def bits_fmt_def bits_strtod_def dec_val_def digit_val_def code_def)
qed

theorem sink_file_roundtrip_witness:
  "case sink_append_all bits_fmt [(sample_payload ''a'')\<lparr>hashes_per_second := 7, worker := [CHR 0x0A, CHR 0x22]\<rparr>] (Some []) of
     None \<Rightarrow> False
   | Some content \<Rightarrow> sink_payloads bits_strtod content =
       [(sample_payload ''a'')\<lparr>hashes_per_second := 7, worker := [CHR 0x0A, CHR 0x22]\<rparr>]"
  by (rule sink_file_roundtrip) (simp add: bits_exact)

lemma importInto_spec:
  assumes "journal_inv d"
    and "importInto append_find strtod faults io (Some content) archived d = (stats, d', file', archived')"
  shows "journal_inv d' \<and> journal_keys d \<subseteq> journal_keys d' \<and>
    (file' = Some content \<or> file' = None \<and> archived' = Some content \<and>
      key ` set (sink_payloads strtod content) \<subseteq> journal_keys d' \<and>
      imported stats = length (sink_payloads strtod content) \<and>
      fst (snd (importInto append_find strtod faults' io' (Some content) archived d')) = d')"
proof (cases "readable io")
  case False
  then show ?thesis using assms by (auto simp: importInto_def)
next
  case True
  let ?ls = "case read_cut io of None \<Rightarrow> getlines content | Some n \<Rightarrow> take n (getlines content)"
  obtain clean st dd where run:
    "import_lines append_find strtod faults ?ls (no_stats\<lparr>file_present := True\<rparr>) d = (clean, st, dd)"
    by (metis prod_cases3)
  have eqs: "d' = dd" "stats = st"
    "file' = None \<Longrightarrow> clean \<and> read_cut io = None \<and> archived' = Some content" "file' = None \<or> file' = Some content"
    using assms(2) True run by (auto simp: importInto_def Let_def split: if_splits)
  note k = cap.import_lines_keys [OF assms(1) run]
  have "key ` set (sink_payloads strtod content) \<subseteq> journal_keys d' \<and>
      imported stats = length (sink_payloads strtod content)" if "file' = None"
    using k eqs(1,2) eqs(3) [OF that] by (simp add: sink_payloads_def no_stats_def)
  moreover have "fst (snd (importInto append_find strtod faults' io' (Some content) archived d')) = d'"
    if h: "key ` set (sink_payloads strtod content) \<subseteq> journal_keys d'"
  proof -
    let ?ls' = "case read_cut io' of None \<Rightarrow> getlines content | Some n \<Rightarrow> take n (getlines content)"
    have "set (line_payloads strtod (take n ls)) \<subseteq> set (line_payloads strtod ls)" for n ls
      by (induction ls arbitrary: n) (auto simp: take_Cons split: option.splits nat.splits)
    then have "set (line_payloads strtod ?ls') \<subseteq> set (line_payloads strtod (getlines content))"
      by (cases "read_cut io'") simp_all
    then have "key ` set (line_payloads strtod ?ls') \<subseteq> journal_keys d'"
      using h unfolding sink_payloads_def by blast
    moreover obtain c s e where "import_lines append_find strtod faults' ?ls'
        (no_stats\<lparr>file_present := True\<rparr>) d' = (c, s, e)" by (metis prod_cases3)
    ultimately show ?thesis
      using cap.import_lines_replay [of d'] k eqs(1) by (auto simp: importInto_def Let_def)
  qed
  ultimately show ?thesis using k eqs by blast
qed



text \<open>
  C40 (a torn line takes the next record with it): when one \<open>append\<close> fails after a single byte and
  a later one succeeds, nothing separates the two lines. The import finds one malformed line,
  imports nothing and archives the file: the record whose \<open>append\<close> returned true is lost, while
  \<open>FallbackSink.h\<close> says that a torn tail costs exactly one record.
\<close>

theorem sink_torn_line_loses_next_record:
  assumes "exact_rate fmt17g strtod (hashes_per_second q)"
  shows "let io1 = good_io\<lparr>write_cut := Some 1\<rparr>;
             r1 = sink_append fmt17g io1 p None;
             r2 = sink_append fmt17g good_io q (snd r1);
             io = \<lparr>readable = True, read_cut = None, rename_ok = True\<rparr>
         in \<not> fst r1 \<and> fst r2 \<and>
            importInto append_find strtod (\<lambda>_. None) io (snd r2) None d =
              (\<lparr>imported = 0, malformed = 1, file_present = True\<rparr>, d, None, snd r2)"
proof -
  have one: "take 1 (serialize fmt17g p) = ''{''" by (simp add: serialize_line record_line_def)
  let ?l = "CHR ''{'' # record_line fmt17g q"
  have "CHR 0x0A \<notin> set ?l" using record_line_plain [OF assms] by simp
  then have "getlines (?l @ CHR 0x0A # []) = ?l # getlines []" by (rule getlines_cons)
  then have lines: "getlines (CHR ''{'' # serialize fmt17g q) = [?l]"
    by (simp add: serialize_line getlines.simps [of "[]"])
  obtain t where t: "record_line fmt17g q = CHR ''{'' # t @ ''}''" using record_line_last by blast
  have "parseFlatObject ?l = None"
    by (simp add: t parseFlatObject_def skip_nonblank)
      (subst sink_members.simps, simp add: skip_nonblank sink_parseJsonString_def quote_def)
  then have bad: "parse_line strtod (strip_eol ?l) = None" "\<not> blank_line (strip_eol ?l)"
    by (simp_all add: t strip_eol_def parse_line_def blank_line_def)
  show ?thesis
    using one bad by (simp add: sink_append_def good_io_def Let_def importInto_def lines no_stats_def)
qed

theorem sink_torn_line_loses_next_record_witness:
  "fst (sink_append bits_fmt good_io ((sample_payload ''k9'')\<lparr>hashes_per_second := 7\<rparr>) (Some ''{'')) \<and>
   fst (snd (importInto append_find bits_strtod (\<lambda>_. None) \<lparr>readable = True, read_cut = None, rename_ok = True\<rparr>
     (snd (sink_append bits_fmt good_io ((sample_payload ''k9'')\<lparr>hashes_per_second := 7\<rparr>) (Some ''{''))) None sample_db)) = sample_db"
proof -
  have "exact_rate bits_fmt bits_strtod (hashes_per_second ((sample_payload ''k9'')\<lparr>hashes_per_second := 7\<rparr>))"
    by (simp add: bits_exact)
  moreover have "snd (sink_append bits_fmt (good_io\<lparr>write_cut := Some 1\<rparr>) (sample_payload ''a'') None) = Some ''{''"
    by (simp add: sink_append_def good_io_def serialize_line record_line_def Let_def)
  ultimately show ?thesis
    using sink_torn_line_loses_next_record [of bits_fmt bits_strtod
        "(sample_payload ''k9'')\<lparr>hashes_per_second := 7\<rparr>" "sample_payload ''a''" sample_db]
    by (simp add: Let_def)
qed

end
