(* ===== verification/Find_Capture.thy ===== *)
theory Find_Capture
  imports Mine_Unit Fallback_Sink Civil_Time
begin

text \<open>
  The place where mining meets durability, in \<open>src/main.cpp\<close>: the submit callback every producer of
  hashes calls, and the part of the start-up that opens the journal, imports the fallback file and
  recovers. The callback writes a find to the journal or, when SQLite fails, to the fallback sink;
  when both fail it declares the fatal durability failure, which stops the miner. What one call
  meets outside (clock, SQLite faults, file system, whether the marketplace client runs) is one entry
  of a stream. The texts of log and console lines are left out; their levels are kept.
\<close>

section \<open>State\<close>

datatype LastSubmissionState = NoneYet | AcceptedState | UnconfirmedState | RetryState | ParkedState | FailedState

definition submissionStateLabel :: "LastSubmissionState \<Rightarrow> string" where
  "submissionStateLabel st = (case st of
       AcceptedState \<Rightarrow> ''accepted'' | UnconfirmedState \<Rightarrow> ''confirming'' | RetryState \<Rightarrow> ''retrying''
     | ParkedState \<Rightarrow> ''held'' | FailedState \<Rightarrow> ''rejected'' | NoneYet \<Rightarrow> ''none'')"

datatype capture_event =
    CapLog
  | CapConsole Level string
  | CapReport string string string u64 double
  | CapNotify

record capture_env =
  ce_now_ms :: int
  ce_append_fault :: sqlite_fault
  ce_counts_fault :: sqlite_fault
  ce_sink_io :: append_io
  ce_platform_running :: bool
  ce_has_manager :: bool

record capture =
  ca_db :: db
  ca_sink :: "string option"
  ca_globals :: mining_globals
  ca_machine_id :: string
  ca_queued_xnm :: nat
  ca_queued_xuni :: nat
  ca_last_submission :: LastSubmissionState
  ca_super_blocks :: int
  ca_normal_blocks :: int
  ca_xuni_blocks :: int
  ca_calls :: nat
  ca_events :: "capture_event list"

section \<open>The submit callback\<close>

definition find_payload :: "string \<Rightarrow> int \<Rightarrow> submission \<Rightarrow> string \<Rightarrow> FoundPayload" where
  "find_payload mid now_ms sb hashed_data =
     \<lparr> key = sb_key sb, hash_to_verify = hashed_data, account = ''0x'' @ sb_hexsalt sb,
       kind = (if contains (sb_hashed_pure sb) ''XEN11'' then XEN11 else XUNI),
       memory_cost = sb_memory_cost sb, worker = mid, attempts = sb_attempts sb,
       hashes_per_second = sb_hashrate sb, found_at_utc = isoUtc now_ms \<rparr>"

text \<open>Where a find ended up: in the journal under its id, in the sink, or nowhere.\<close>

datatype capture_outcome = Journaled int | Sunk | Lost

definition persist_find ::
  "(double \<Rightarrow> string) \<Rightarrow> capture_env \<Rightarrow> FoundPayload \<Rightarrow> capture \<Rightarrow> capture_outcome \<times> capture" where
  "persist_find fmt17g env p s =
     (case append_find (ce_append_fault env) p (ca_db s) of
        (Inr i, d) \<Rightarrow> (Journaled i, s \<lparr> ca_db := d \<rparr>)
      | (Inl e, d) \<Rightarrow>
          (case sink_append fmt17g (ce_sink_io env) p (ca_sink s) of
             (True, file) \<Rightarrow>
               (Sunk, s \<lparr> ca_db := d, ca_sink := file,
                          ca_events := ca_events s @ [CapConsole Warn ''JOURNAL'', CapLog] \<rparr>)
           | (False, file) \<Rightarrow>
               (Lost, s \<lparr> ca_db := d, ca_sink := file,
                          ca_events := ca_events s @ [CapConsole Error ''JOURNAL'', CapLog],
                          ca_globals := declareFatalDurabilityFailure
                            (''journal append and fallback sink both failed: '' @ e) (ca_globals s) \<rparr>)))"

definition durable :: "capture_outcome \<Rightarrow> bool" where
  "durable out = (case out of Journaled _ \<Rightarrow> True | Sunk \<Rightarrow> True | Lost \<Rightarrow> False)"

definition is_journaled :: "capture_outcome \<Rightarrow> bool" where
  "is_journaled out = (case out of Journaled _ \<Rightarrow> True | _ \<Rightarrow> False)"

definition refresh_queued :: "sqlite_fault \<Rightarrow> capture \<Rightarrow> capture" where
  "refresh_queued fault s =
     (case fst (counts fault (ca_db s)) of
        Inl _ \<Rightarrow> s
      | Inr c \<Rightarrow> s \<lparr> ca_queued_xnm := cnt_queued_xen11 c, ca_queued_xuni := cnt_queued_xuni c \<rparr>)"

definition count_find :: "FindKind \<Rightarrow> string \<Rightarrow> capture \<Rightarrow> capture" where
  "count_find k hashed_pure s =
     (if k = XEN11
      then (if 50 \<le> length (filter isupper hashed_pure)
            then s \<lparr> ca_super_blocks := ca_super_blocks s + 1 \<rparr>
            else s \<lparr> ca_normal_blocks := ca_normal_blocks s + 1 \<rparr>)
      else s \<lparr> ca_xuni_blocks := ca_xuni_blocks s + 1 \<rparr>)"

definition tell_capture :: "capture_event list \<Rightarrow> capture \<Rightarrow> capture" where
  "tell_capture evs s = s \<lparr> ca_events := ca_events s @ evs \<rparr>"

definition find_level :: "capture_outcome \<Rightarrow> Level" where
  "find_level out = (case out of Journaled _ \<Rightarrow> Found | Sunk \<Rightarrow> Warn | Lost \<Rightarrow> Error)"

text \<open>What follows the write: the marketplace report, the queue counts and block counters, the
  console line and the wake-up of the drain thread.\<close>

definition announce_find ::
  "capture_env \<Rightarrow> submission \<Rightarrow> FoundPayload \<Rightarrow> capture_outcome \<Rightarrow> capture \<Rightarrow> capture" where
  "announce_find env sb p out s2 =
     (let s3 = (if durable out \<and> ce_platform_running env
                then tell_capture [CapReport (hash_to_verify p) (sb_key sb) (''0x'' @ sb_hexsalt sb)
                       (sb_attempts sb) (sb_hashrate sb)] s2 else s2);
          s4 = (if is_journaled out then refresh_queued (ce_counts_fault env) s3 else s3);
          s5 = tell_capture [CapLog] s4;
          s6 = (if durable out then count_find (kind p) (sb_hashed_pure sb) s5 else s5);
          s7 = tell_capture [CapConsole (find_level out) (kind_to_string (kind p))] s6
      in if ce_has_manager env then tell_capture [CapNotify] s7 else s7)"

definition submitCallback ::
  "(double \<Rightarrow> string) \<Rightarrow> (nat \<Rightarrow> capture_env) \<Rightarrow> submission \<Rightarrow> (capture, unit) step" where
  "submitCallback fmt17g envs sb = (\<lambda>s0.
     let env = envs (ca_calls s0); s1 = s0 \<lparr> ca_calls := ca_calls s0 + 1 \<rparr> in
     case assemblePhc (sb_memory_cost sb) (sb_hexsalt sb) (sb_hashed_pure sb) of
       Inl e \<Rightarrow> (Inl e, s1)
     | Inr hashed_data \<Rightarrow>
         let p = find_payload (ca_machine_id s1) (ce_now_ms env) sb hashed_data in
         (case persist_find fmt17g env p s1 of
            (out, s2) \<Rightarrow> (Inr (), announce_find env sb p out s2)))"

section \<open>Start-up\<close>

text \<open>
  Opening the journal (\<open>ensureSchema\<close>; a failure ends the program), the import of the fallback file,
  recovery and the first queue counts. The stream \<open>faults\<close> strikes the appends of the import.
\<close>

record boot_env =
  be_schema_fault :: sqlite_fault
  be_import_faults :: "nat \<Rightarrow> sqlite_fault"
  be_import_io :: import_io
  be_recover_fault :: sqlite_fault
  be_counts_fault :: sqlite_fault

definition on_journal :: "(db, 'a) step \<Rightarrow> (capture, 'a) step" where
  "on_journal m = (\<lambda>s. case m (ca_db s) of (r, d) \<Rightarrow> (r, s \<lparr> ca_db := d \<rparr>))"

definition import_sink :: "(string \<Rightarrow> double \<times> string) \<Rightarrow> boot_env \<Rightarrow> (capture, unit) step" where
  "import_sink strtod env = modify (\<lambda>s.
     case importInto append_find strtod (be_import_faults env) (be_import_io env) (ca_sink s) None (ca_db s) of
       (stats, d, file, archived) \<Rightarrow>
         let s1 = s \<lparr> ca_db := d, ca_sink := file \<rparr> in
         if file_present stats
         then tell_capture [CapConsole (if 0 < malformed stats then Error else Warn) ''JOURNAL''] s1 else s1)"

definition boot_journal :: "(string \<Rightarrow> double \<times> string) \<Rightarrow> boot_env \<Rightarrow> (capture, unit) step" where
  "boot_journal strtod env =
     seq_step (on_journal (ensureSchema (be_schema_fault env)))
     (seq_step (modify (tell_capture [CapConsole Info ''JOURNAL'']))
     (seq_step (import_sink strtod env)
     (seq_step (on_journal (recoverOnStartup (be_recover_fault env)))
     (bind_step (on_journal (counts (be_counts_fault env))) (\<lambda>c.
     seq_step (modify (\<lambda>s. s \<lparr> ca_queued_xnm := cnt_queued_xen11 c, ca_queued_xuni := cnt_queued_xuni c \<rparr>))
     (modify (tell_capture [CapConsole Info ''JOURNAL''])))))))"

section \<open>What the submission manager calls back\<close>

definition fatal_callback :: "string \<Rightarrow> capture \<Rightarrow> capture" where
  "fatal_callback why s = s \<lparr> ca_globals :=
     declareFatalDurabilityFailure (''submission drain thread halted: '' @ why) (ca_globals s) \<rparr>"

definition margin_callback :: "u32 \<Rightarrow> capture \<Rightarrow> capture" where
  "margin_callback kib s =
     (let m = to_signed 32 (uint kib); previous = g_margin (ca_globals s);
          s1 = s \<lparr> ca_globals := (ca_globals s) \<lparr> g_margin := m \<rparr> \<rparr> in
      if previous \<noteq> m then tell_capture [CapConsole Info ''MARGIN''] s1 else s1)"

definition difficulty_hint_callback :: "u32 \<Rightarrow> capture \<Rightarrow> capture" where
  "difficulty_hint_callback d s =
     (let m = to_signed 32 (uint d) in
      if g_difficulty (ca_globals s) \<noteq> m
      then tell_capture [CapConsole Info ''DIFFICULTY'']
             (s \<lparr> ca_globals := (ca_globals s) \<lparr> g_difficulty := m \<rparr> \<rparr>)
      else s)"

fun outcome_state :: "FindStatus \<Rightarrow> LastSubmissionState option" where
  "outcome_state Acked = Some AcceptedState"
| "outcome_state AcceptedUnconfirmed = Some UnconfirmedState"
| "outcome_state Pending = Some RetryState"
| "outcome_state ParkedDifficulty = Some ParkedState"
| "outcome_state ParkedXuniWindow = Some ParkedState"
| "outcome_state Quarantined = Some FailedState"
| "outcome_state Dead = Some FailedState"
| "outcome_state PermanentlyInvalid = Some FailedState"
| "outcome_state Submitting = None"

definition outcome_callback :: "sqlite_fault \<Rightarrow> Classification \<Rightarrow> capture \<Rightarrow> capture" where
  "outcome_callback fault c s =
     (let s1 = (case outcome_state (next_status c) of None \<Rightarrow> s
                | Some st \<Rightarrow> s \<lparr> ca_last_submission := st \<rparr>)
      in tell_capture [CapLog] (refresh_queued fault s1))"

section \<open>Lemmas\<close>

text \<open>The salt of a find is normalised by the hasher and not by the assembler; on a salt the
  assembler accepts this makes no difference.\<close>

lemma hex_nibble_tolower: "hex_nibble (tolower c) = hex_nibble c"
proof (cases "isupper c")
  case True
  then have "65 \<le> code c" "code c \<le> 90" by (simp_all add: isupper_def Let_def)
  with True show ?thesis by (simp add: tolower_def hex_nibble_def Let_def)
qed (simp add: tolower_def)

lemma hex_pairs_tolower: "hex_pairs (map tolower s) = hex_pairs s"
  by (induction s rule: hex_pairs.induct) (auto simp: hex_nibble_tolower split: option.splits)

lemma hexToBytes_normalize:
  assumes "hexToBytes s = Inr bytes"
  shows "hexToBytes (normalizeHex s) = Inr bytes"
proof -
  have "\<not> (2 \<le> length s \<and> s ! 0 = CHR ''0'' \<and> (s ! 1 = CHR ''x'' \<or> s ! 1 = CHR ''X''))"
  proof
    assume x: "2 \<le> length s \<and> s ! 0 = CHR ''0'' \<and> (s ! 1 = CHR ''x'' \<or> s ! 1 = CHR ''X'')"
    then obtain c d t where s: "s = c # d # t" by (cases s; cases "tl s") auto
    with x have "hex_nibble d = None" by (auto simp: hex_nibble_def code_def Let_def)
    with assms s show False by (auto simp: hexToBytes_def split: if_splits option.splits)
  qed
  then have "normalizeHex s = map tolower s" by (auto simp: normalizeHex_def)
  with assms show ?thesis by (simp add: hexToBytes_def hex_pairs_tolower split: if_splits)
qed

lemma assemblePhc_normalize:
  assumes "assemblePhc m s digest = Inr phc"
  shows "assemblePhc m (normalizeHex s) digest = Inr phc"
proof -
  obtain bytes where b: "hexToBytes s = Inr bytes" using assms by (auto simp: assemblePhc_def split: sum.splits)
  with assms show ?thesis by (simp add: assemblePhc_def hexToBytes_normalize [OF b])
qed

lemma tell_capture_simps [simp]:
  "ca_db (tell_capture evs s) = ca_db s" "ca_sink (tell_capture evs s) = ca_sink s"
  "ca_globals (tell_capture evs s) = ca_globals s" "ca_machine_id (tell_capture evs s) = ca_machine_id s"
  "ca_calls (tell_capture evs s) = ca_calls s" "ca_events (tell_capture evs s) = ca_events s @ evs"
  "ca_super_blocks (tell_capture evs s) = ca_super_blocks s"
  "ca_normal_blocks (tell_capture evs s) = ca_normal_blocks s"
  "ca_xuni_blocks (tell_capture evs s) = ca_xuni_blocks s"
  by (simp_all add: tell_capture_def)

lemma refresh_queued_simps [simp]:
  "ca_db (refresh_queued f s) = ca_db s" "ca_sink (refresh_queued f s) = ca_sink s"
  "ca_globals (refresh_queued f s) = ca_globals s" "ca_machine_id (refresh_queued f s) = ca_machine_id s"
  "ca_calls (refresh_queued f s) = ca_calls s" "ca_events (refresh_queued f s) = ca_events s"
  "ca_super_blocks (refresh_queued f s) = ca_super_blocks s"
  "ca_normal_blocks (refresh_queued f s) = ca_normal_blocks s"
  "ca_xuni_blocks (refresh_queued f s) = ca_xuni_blocks s"
  by (auto simp: refresh_queued_def split: sum.splits)

lemma count_find_simps [simp]:
  "ca_db (count_find k h s) = ca_db s" "ca_sink (count_find k h s) = ca_sink s"
  "ca_globals (count_find k h s) = ca_globals s" "ca_machine_id (count_find k h s) = ca_machine_id s"
  "ca_calls (count_find k h s) = ca_calls s" "ca_events (count_find k h s) = ca_events s"
  by (simp_all add: count_find_def)

definition blocks_counted :: "capture \<Rightarrow> int" where
  "blocks_counted s = ca_super_blocks s + ca_normal_blocks s + ca_xuni_blocks s"

lemma blocks_counted_simps [simp]:
  "blocks_counted (tell_capture evs s) = blocks_counted s"
  "blocks_counted (refresh_queued f s) = blocks_counted s"
  "blocks_counted (count_find k h s) = blocks_counted s + 1"
  by (simp_all add: blocks_counted_def count_find_def)

lemma announce_find_simps [simp]:
  "ca_db (announce_find env sb p out s) = ca_db s" "ca_sink (announce_find env sb p out s) = ca_sink s"
  "ca_globals (announce_find env sb p out s) = ca_globals s"
  "ca_machine_id (announce_find env sb p out s) = ca_machine_id s"
  "ca_calls (announce_find env sb p out s) = ca_calls s"
  "blocks_counted (announce_find env sb p out s) = blocks_counted s + (if durable out then 1 else 0)"
  by (simp_all add: announce_find_def Let_def)

lemma announce_find_events:
  "ca_events (announce_find env sb p out s) = ca_events s
     @ (if durable out \<and> ce_platform_running env
        then [CapReport (hash_to_verify p) (sb_key sb) (''0x'' @ sb_hexsalt sb) (sb_attempts sb) (sb_hashrate sb)]
        else [])
     @ [CapLog, CapConsole (find_level out) (kind_to_string (kind p))]
     @ (if ce_has_manager env then [CapNotify] else [])"
  by (simp add: announce_find_def Let_def)

text \<open>The write: into the journal, into the sink with the whole line, or nowhere and the miner stops.\<close>

definition sink_text :: "string option \<Rightarrow> string" where
  "sink_text file = (case file of None \<Rightarrow> [] | Some content \<Rightarrow> content)"

lemma persist_find_cases:
  assumes "persist_find fmt17g env p s = (out, u)"
  obtains
    (journal) i where "out = Journaled i" "append_find (ce_append_fault env) p (ca_db s) = (Inr i, ca_db u)"
      "ca_sink u = ca_sink s" "ca_globals u = ca_globals s" "ca_machine_id u = ca_machine_id s"
      "ca_calls u = ca_calls s" "blocks_counted u = blocks_counted s" "ca_events u = ca_events s"
  | (sink) e where "out = Sunk" "append_find (ce_append_fault env) p (ca_db s) = (Inl e, ca_db u)"
      "ca_sink u = Some (sink_text (ca_sink s) @ serialize fmt17g p)" "ca_globals u = ca_globals s"
      "ca_machine_id u = ca_machine_id s" "ca_calls u = ca_calls s" "blocks_counted u = blocks_counted s"
      "ca_events u = ca_events s @ [CapConsole Warn ''JOURNAL'', CapLog]"
  | (lost) e where "out = Lost" "append_find (ce_append_fault env) p (ca_db s) = (Inl e, ca_db u)"
      "g_fatal (ca_globals u)" "\<not> g_running (ca_globals u)"
      "ca_machine_id u = ca_machine_id s" "ca_calls u = ca_calls s" "blocks_counted u = blocks_counted s"
      "ca_events u = ca_events s @ [CapConsole Error ''JOURNAL'', CapLog]"
proof (cases "append_find (ce_append_fault env) p (ca_db s)")
  case (Pair a d)
  show thesis
  proof (cases a)
    case (Inr i)
    with Pair assms show thesis by (intro journal [of i]) (auto simp: persist_find_def blocks_counted_def)
  next
    case (Inl e)
    obtain b fl where b: "sink_append fmt17g (ce_sink_io env) p (ca_sink s) = (b, fl)" by fastforce
    show thesis
    proof (cases b)
      case True
      then have "fl = Some (sink_text (ca_sink s) @ serialize fmt17g p)"
        using b by (auto simp: sink_append_def sink_text_def Let_def split: if_splits)
      with True Inl Pair b assms show thesis
        by (intro sink [of e]) (auto simp: persist_find_def blocks_counted_def)
    next
      case False
      with Inl Pair b assms show thesis
        by (intro lost [of e]) (auto simp: persist_find_def blocks_counted_def declareFatalDurabilityFailure_def Let_def)
    qed
  qed
qed

lemma append_failed: "append_find f p d = (Inl e, d') \<Longrightarrow> d' = d \<and> f \<noteq> None"
  by (cases f) (auto simp: append_find_def Let_def find_None_iff split: if_splits option.splits)

lemma append_rows:
  assumes "append_find f p d = (Inr i, d')"
  shows "finds d' = finds d \<and> (\<exists>r\<in>set (finds d). col_key r = key p) \<or>
         finds d' = finds d @ [insert_row i p]"
  using assms by (cases f) (auto simp: append_find_def Let_def split: if_splits option.splits)

lemma submitCallback_refused:
  "assemblePhc (sb_memory_cost sb) (sb_hexsalt sb) (sb_hashed_pure sb) = Inl e \<Longrightarrow>
   submitCallback fmt17g envs sb s = (Inl e, s \<lparr> ca_calls := ca_calls s + 1 \<rparr>)"
  by (simp add: submitCallback_def)

lemma submitCallback_captured:
  assumes "assemblePhc (sb_memory_cost sb) (sb_hexsalt sb) (sb_hashed_pure sb) = Inr phc"
  obtains out u where
    "persist_find fmt17g (envs (ca_calls s))
       (find_payload (ca_machine_id s) (ce_now_ms (envs (ca_calls s))) sb phc)
       (s \<lparr> ca_calls := ca_calls s + 1 \<rparr>) = (out, u)"
    "submitCallback fmt17g envs sb s = (Inr (), announce_find (envs (ca_calls s)) sb
       (find_payload (ca_machine_id s) (ce_now_ms (envs (ca_calls s))) sb phc) out u)"
proof -
  obtain out u where p: "persist_find fmt17g (envs (ca_calls s))
       (find_payload (ca_machine_id s) (ce_now_ms (envs (ca_calls s))) sb phc)
       (s \<lparr> ca_calls := ca_calls s + 1 \<rparr>) = (out, u)" by fastforce
  then show thesis using assms by (intro that [OF p]) (simp add: submitCallback_def Let_def)
qed

lemma find_payload_simps [simp]:
  "key (find_payload mid now sb phc) = sb_key sb" "hash_to_verify (find_payload mid now sb phc) = phc"
  "account (find_payload mid now sb phc) = ''0x'' @ sb_hexsalt sb"
  "memory_cost (find_payload mid now sb phc) = sb_memory_cost sb"
  "hashes_per_second (find_payload mid now sb phc) = sb_hashrate sb"
  by (simp_all add: find_payload_def)


section \<open>No captured find is lost\<close>

text \<open>
  A history of one data directory: captures, restarts and any operation of the drain thread on the
  journal, in any order and with any faults. \<open>held\<close> is the set of keys that are on disk, in the
  journal or as a readable record of the sink file.
\<close>

datatype capture_input = ICapture submission | IBoot boot_env | IJournal sqlite_fault journal_event

fun capture_apply ::
  "(double \<Rightarrow> string) \<Rightarrow> (string \<Rightarrow> double \<times> string) \<Rightarrow> (nat \<Rightarrow> capture_env) \<Rightarrow> capture_input \<Rightarrow> capture \<Rightarrow> capture" where
  "capture_apply fmt17g strtod envs (ICapture sb) s = snd (submitCallback fmt17g envs sb s)"
| "capture_apply fmt17g strtod envs (IBoot env) s = snd (boot_journal strtod env s)"
| "capture_apply fmt17g strtod envs (IJournal f e) s = s \<lparr> ca_db := journal_apply (f, e) (ca_db s) \<rparr>"

definition held :: "(string \<Rightarrow> double \<times> string) \<Rightarrow> capture \<Rightarrow> string set" where
  "held strtod s = journal_keys (ca_db s) \<union> key ` set (sink_payloads strtod (sink_text (ca_sink s)))"

text \<open>The journal is well-formed and, unless a fatal failure was declared, the sink file is a
  sequence of whole records.\<close>

definition capture_inv :: "(double \<Rightarrow> string) \<Rightarrow> (string \<Rightarrow> double \<times> string) \<Rightarrow> capture \<Rightarrow> bool" where
  "capture_inv fmt17g strtod s =
     (journal_inv (ca_db s) \<and>
      (\<not> g_fatal (ca_globals s) \<longrightarrow>
         (\<exists>ps. (\<forall>p\<in>set ps. exact_rate fmt17g strtod (hashes_per_second p)) \<and>
               sink_text (ca_sink s) = concat (map (serialize fmt17g) ps))))"

definition capture_le :: "(string \<Rightarrow> double \<times> string) \<Rightarrow> capture \<Rightarrow> capture \<Rightarrow> bool" where
  "capture_le strtod s t =
     ((g_fatal (ca_globals s) \<longrightarrow> g_fatal (ca_globals t)) \<and>
      (\<not> g_fatal (ca_globals t) \<longrightarrow> held strtod s \<subseteq> held strtod t))"

definition exact_input :: "(double \<Rightarrow> string) \<Rightarrow> (string \<Rightarrow> double \<times> string) \<Rightarrow> capture_input \<Rightarrow> bool" where
  "exact_input fmt17g strtod i =
     (case i of ICapture sb \<Rightarrow> exact_rate fmt17g strtod (sb_hashrate sb) | _ \<Rightarrow> True)"

lemma journal_le_keys: "journal_le d d' \<Longrightarrow> journal_keys d \<subseteq> journal_keys d'"
  unfolding journal_le_def journal_keys_def same_find_def
  by (metis (no_types, lifting) image_subsetI in_set_conv_nth order_less_le_trans rev_image_eqI)

lemma append_keys:
  "journal_inv d \<Longrightarrow> append_find f p d = (Inr i, d') \<Longrightarrow>
   journal_inv d' \<and> journal_keys d' = insert (key p) (journal_keys d)"
  using cap.app_ok [of d f p] cap.app_keys [of d f p i d'] by simp

text \<open>One capture: the find is held afterwards, or the failure is declared.\<close>

lemma capture_event:
  assumes "capture_inv fmt17g strtod s" and "exact_rate fmt17g strtod (sb_hashrate sb)"
    and "assemblePhc (sb_memory_cost sb) (sb_hexsalt sb) (sb_hashed_pure sb) = Inr phc"
    and t_def: "t = snd (submitCallback fmt17g envs sb s)"
  shows "capture_inv fmt17g strtod t \<and> capture_le strtod s t \<and>
         (g_fatal (ca_globals t) \<or> sb_key sb \<in> held strtod t)"
proof -
  let ?env = "envs (ca_calls s)" and ?s = "s \<lparr> ca_calls := ca_calls s + 1 \<rparr>"
  let ?p = "find_payload (ca_machine_id s) (ce_now_ms ?env) sb phc"
  obtain out u where p: "persist_find fmt17g ?env ?p ?s = (out, u)"
    and c: "submitCallback fmt17g envs sb s = (Inr (), announce_find ?env sb ?p out u)"
    by (rule submitCallback_captured [OF assms(3)])
  have t: "t = announce_find ?env sb ?p out u" using c by (simp add: t_def)
  have inv: "journal_inv (ca_db s)" using assms(1) by (simp add: capture_inv_def)
  show ?thesis using p
  proof (cases rule: persist_find_cases)
    case (journal i)
    then have u: "journal_inv (ca_db u)" "journal_keys (ca_db u) = insert (sb_key sb) (journal_keys (ca_db s))"
      using append_keys [OF inv] by force+
    then show ?thesis using u journal(3,4) assms(1) by (auto simp: t capture_inv_def capture_le_def held_def)
  next
    case (sink e)
    have db: "ca_db u = ca_db s" using append_failed sink(2) by fastforce
    show ?thesis
    proof (cases "g_fatal (ca_globals s)")
      case True
      then show ?thesis using sink db inv by (simp add: t capture_inv_def capture_le_def)
    next
      case False
      then obtain ps where ps: "\<forall>p\<in>set ps. exact_rate fmt17g strtod (hashes_per_second p)"
        "sink_text (ca_sink s) = concat (map (serialize fmt17g) ps)"
        using assms(1) by (auto simp: capture_inv_def)
      then have qs: "\<forall>p\<in>set (ps @ [?p]). exact_rate fmt17g strtod (hashes_per_second p)"
        "sink_text (ca_sink u) = concat (map (serialize fmt17g) (ps @ [?p]))"
        using assms(2) sink(3) by (auto simp: sink_text_def)
      have "sink_payloads strtod (sink_text (ca_sink s)) = ps"
        unfolding ps(2) by (rule sink_payloads_concat) (use ps(1) in blast)
      moreover have "sink_payloads strtod (sink_text (ca_sink u)) = ps @ [?p]"
        unfolding qs(2) by (rule sink_payloads_concat) (use qs(1) in blast)
      ultimately have "held strtod u = insert (sb_key sb) (held strtod s)" by (simp add: held_def db)
      moreover have "capture_inv fmt17g strtod t"
        using qs inv db unfolding t capture_inv_def announce_find_simps by metis
      moreover have "held strtod t = held strtod u" by (simp add: t held_def)
      ultimately show ?thesis using False sink(4) by (auto simp: t capture_le_def)
    qed
  next
    case (lost e)
    then have "ca_db u = ca_db s" using append_failed by fastforce
    then show ?thesis using lost inv by (simp add: t capture_inv_def capture_le_def)
  qed
qed


text \<open>A restart: whatever fails on the way, what was held is held.\<close>

definition boot_le :: "(string \<Rightarrow> double \<times> string) \<Rightarrow> capture \<Rightarrow> capture \<Rightarrow> bool" where
  "boot_le strtod s t = (journal_inv (ca_db s) \<longrightarrow>
     journal_inv (ca_db t) \<and> ca_globals t = ca_globals s \<and> (ca_sink t = ca_sink s \<or> ca_sink t = None) \<and>
     journal_keys (ca_db s) \<subseteq> journal_keys (ca_db t) \<and> held strtod s \<subseteq> held strtod t)"

lemma boot_le_preorder: "reflp (boot_le strtod)" "transp (boot_le strtod)"
  by (auto simp: boot_le_def reflp_def transp_def)

lemma on_journal_keeps:
  assumes "journal_keeps m"
  shows "keeps (boot_le strtod) (on_journal m)"
proof -
  have "boot_le strtod s (s \<lparr> ca_db := snd (m (ca_db s)) \<rparr>)" for s
    using journal_keepsD [OF assms, of "ca_db s"] journal_le_keys [of "ca_db s"]
    by (auto simp: boot_le_def held_def)
  then show ?thesis by (simp add: keeps_def on_journal_def split: prod.splits) (metis snd_conv)
qed

lemma tell_capture_le: "boot_le strtod s (tell_capture evs s)"
  by (simp add: boot_le_def held_def)

lemma import_sink_keeps: "keeps (boot_le strtod) (import_sink strtod env)"
  unfolding import_sink_def
proof (rule keeps_modify)
  fix s :: capture
  obtain stats d fl ar where i: "importInto append_find strtod (be_import_faults env) (be_import_io env)
      (ca_sink s) None (ca_db s) = (stats, d, fl, ar)" by (metis prod_cases4)
  have "boot_le strtod s (s \<lparr> ca_db := d, ca_sink := fl \<rparr>)"
  proof (cases "ca_sink s")
    case None
    with i show ?thesis by (auto simp: importInto_def boot_le_def held_def)
  next
    case (Some content)
    show ?thesis unfolding boot_le_def
    proof
      assume "journal_inv (ca_db s)"
      from importInto_spec [OF this i [unfolded Some], where faults' = "be_import_faults env" and io' = "be_import_io env"] Some
      show "journal_inv (ca_db (s \<lparr>ca_db := d, ca_sink := fl\<rparr>)) \<and>
        ca_globals (s \<lparr>ca_db := d, ca_sink := fl\<rparr>) = ca_globals s \<and>
        (ca_sink (s \<lparr>ca_db := d, ca_sink := fl\<rparr>) = ca_sink s \<or> ca_sink (s \<lparr>ca_db := d, ca_sink := fl\<rparr>) = None) \<and>
        journal_keys (ca_db s) \<subseteq> journal_keys (ca_db (s \<lparr>ca_db := d, ca_sink := fl\<rparr>)) \<and>
        held strtod s \<subseteq> held strtod (s \<lparr>ca_db := d, ca_sink := fl\<rparr>)"
        by (auto simp: held_def sink_text_def)
    qed
  qed
  then have "boot_le strtod s (tell_capture evs (s \<lparr> ca_db := d, ca_sink := fl \<rparr>))" for evs
    by (rule transpD [OF boot_le_preorder(2)]) (rule tell_capture_le)
  with \<open>boot_le strtod s (s \<lparr> ca_db := d, ca_sink := fl \<rparr>)\<close>
  show "boot_le strtod s (case importInto append_find strtod (be_import_faults env) (be_import_io env)
      (ca_sink s) None (ca_db s) of (stats, d, file, archived) \<Rightarrow>
         let s1 = s \<lparr> ca_db := d, ca_sink := file \<rparr> in
         if file_present stats
         then tell_capture [CapConsole (if 0 < malformed stats then Error else Warn) ''JOURNAL''] s1 else s1)"
    unfolding i by (simp add: Let_def)
qed

lemma ensureSchema_keeps: "journal_keeps (ensureSchema f)"
  unfolding ensureSchema_def
  by (rule sqlite_keeps) (auto simp: journal_keeps_def journal_inv_def journal_le_def Let_def)

lemma counts_keeps: "journal_keeps (counts f)"
  unfolding counts_def
  by (rule sqlite_keeps, rule read_keeps) (auto split: sum.splits)

lemma boot_keeps: "keeps (boot_le strtod) (boot_journal strtod env)"
  unfolding boot_journal_def
  by (intro keep_intros boot_le_preorder on_journal_keeps import_sink_keeps ensureSchema_keeps
        recoverOnStartup_keeps counts_keeps tell_capture_le)
     (auto simp: boot_le_def held_def)


lemma refused_event:
  assumes "assemblePhc (sb_memory_cost sb) (sb_hexsalt sb) (sb_hashed_pure sb) = Inl e"
    and "capture_inv fmt17g strtod s" and t_def: "t = snd (submitCallback fmt17g envs sb s)"
  shows "capture_inv fmt17g strtod t \<and> capture_le strtod s t"
  using assms by (auto simp: submitCallback_refused capture_inv_def capture_le_def held_def)

lemma boot_event:
  assumes "capture_inv fmt17g strtod s"
  shows "capture_inv fmt17g strtod (snd (boot_journal strtod env s)) \<and>
         capture_le strtod s (snd (boot_journal strtod env s))"
proof -
  have b: "boot_le strtod s (snd (boot_journal strtod env s))" by (rule keepsD [OF boot_keeps])
  have "\<exists>ps. (\<forall>p\<in>set ps. exact_rate fmt17g strtod (hashes_per_second p)) \<and>
          sink_text None = concat (map (serialize fmt17g) ps)"
    by (rule exI [of _ "[]"]) (simp add: sink_text_def)
  with b assms show ?thesis by (auto simp: boot_le_def capture_inv_def capture_le_def)
qed

lemma journal_event:
  assumes "capture_inv fmt17g strtod s"
  shows "capture_inv fmt17g strtod (s \<lparr> ca_db := journal_apply (f, e) (ca_db s) \<rparr>) \<and>
         capture_le strtod s (s \<lparr> ca_db := journal_apply (f, e) (ca_db s) \<rparr>)"
  using assms jrn.event_inv [of "ca_db s" "(f, e)"] jrn.event_le [of "ca_db s" "(f, e)"]
    journal_le_keys [of "ca_db s" "journal_apply (f, e) (ca_db s)"]
  by (auto simp: capture_inv_def capture_le_def held_def)

interpretation capt: monotone_machine "capture_apply fmt17g strtod envs" "capture_inv fmt17g strtod"
    "exact_input fmt17g strtod" "capture_le strtod"
proof
  fix s t u :: capture and e
  show "capture_le strtod s s" by (simp add: capture_le_def)
  show "capture_le strtod s t \<Longrightarrow> capture_le strtod t u \<Longrightarrow> capture_le strtod s u"
    by (auto simp: capture_le_def)
  assume inv: "capture_inv fmt17g strtod s" and ok: "exact_input fmt17g strtod e"
  have "capture_inv fmt17g strtod (capture_apply fmt17g strtod envs e s) \<and>
        capture_le strtod s (capture_apply fmt17g strtod envs e s)"
  proof (cases e)
    case (ICapture sb)
    then have r: "exact_rate fmt17g strtod (sb_hashrate sb)" using ok by (simp add: exact_input_def)
    show ?thesis
      by (cases "assemblePhc (sb_memory_cost sb) (sb_hexsalt sb) (sb_hashed_pure sb)")
        (simp_all add: ICapture refused_event [OF _ inv refl] capture_event [OF inv r _ refl])
  qed (simp_all add: boot_event [OF inv] journal_event [OF inv])
  then show "capture_inv fmt17g strtod (capture_apply fmt17g strtod envs e s)"
    "capture_le strtod s (capture_apply fmt17g strtod envs e s)" by simp_all
qed

lemma append_none: "\<exists>i d'. append_find None p d = (Inr i, d')"
  by (auto simp: append_find_def Let_def find_None_iff split: option.splits)

lemma import_lines_clean: "fst (import_lines append_find strtod (\<lambda>_. None) ls stats d)"
proof (induction ls arbitrary: stats d)
  case (Cons l ls)
  then show ?case
    using append_none by (auto simp: Let_def split: option.splits prod.splits sum.splits) (metis prod.inject sum.distinct(1))
qed simp

text \<open>A restart whose import meets no fault brings everything into the journal, whatever follows.\<close>

lemma clean_boot:
  assumes "journal_inv (ca_db s)" and "fst (ensureSchema (be_schema_fault env) (ca_db s)) = Inr ()"
    and "be_import_faults env = (\<lambda>_. None)" and "readable (be_import_io env)" and "read_cut (be_import_io env) = None"
  shows "held strtod s \<subseteq> journal_keys (ca_db (snd (boot_journal strtod env s)))"
proof -
  obtain d where d: "ensureSchema (be_schema_fault env) (ca_db s) = (Inr (), d)"
    using assms(2) by (cases "ensureSchema (be_schema_fault env) (ca_db s)") simp
  define s1 where "s1 = tell_capture [CapConsole Info ''JOURNAL''] (s \<lparr> ca_db := d \<rparr>)"
  define s2 where "s2 = snd (import_sink strtod env s1)"
  have d_inv: "journal_inv d" "journal_keys (ca_db s) \<subseteq> journal_keys d"
    using journal_keepsD [OF ensureSchema_keeps assms(1), of "be_schema_fault env"] d
    by (auto dest: journal_le_keys)
  have step: "keeps (boot_le strtod) (seq_step (on_journal (recoverOnStartup (be_recover_fault env)))
     (bind_step (on_journal (counts (be_counts_fault env))) (\<lambda>c.
     seq_step (modify (\<lambda>s. s \<lparr> ca_queued_xnm := cnt_queued_xen11 c, ca_queued_xuni := cnt_queued_xuni c \<rparr>))
     (modify (tell_capture [CapConsole Info ''JOURNAL''])))))" (is "keeps _ ?rest")
    by (intro keep_intros boot_le_preorder on_journal_keeps recoverOnStartup_keeps counts_keeps tell_capture_le)
       (auto simp: boot_le_def held_def)
  have run: "boot_journal strtod env s = ?rest s2"
    by (simp add: boot_journal_def seq_step_def bind_step_def on_journal_def d modify_def s2_def s1_def import_sink_def)
  obtain stats e fl ar where i: "importInto append_find strtod (be_import_faults env) (be_import_io env)
      (ca_sink s) None d = (stats, e, fl, ar)" by (metis prod_cases4)
  have s2: "ca_db s2 = e"
    using i by (simp add: s2_def import_sink_def modify_def s1_def Let_def)
  have e: "journal_inv e \<and> journal_keys d \<subseteq> journal_keys e \<and>
      key ` set (sink_payloads strtod (sink_text (ca_sink s))) \<subseteq> journal_keys e"
  proof (cases "ca_sink s")
    case None
    with i d_inv show ?thesis by (simp add: importInto_def sink_text_def sink_payloads_nil)
  next
    case (Some content)
    obtain st dd where l: "import_lines append_find strtod (\<lambda>_. None) (getlines content)
        (no_stats \<lparr> file_present := True \<rparr>) d = (True, st, dd)"
      using import_lines_clean by (metis (full_types) prod_cases3 fst_conv)
    have "e = dd" using i assms(3-5) Some l by (auto simp: importInto_def split: if_splits)
    then show ?thesis using cap.import_lines_keys [OF d_inv(1) l] Some by (simp add: sink_payloads_def sink_text_def)
  qed
  have "journal_keys e \<subseteq> journal_keys (ca_db (snd (boot_journal strtod env s)))"
    using keepsD [OF step, of s2] e s2 unfolding run boot_le_def by blast
  then show ?thesis using e d_inv(2) by (auto simp: held_def)
qed


section \<open>Genuine rows\<close>

definition genuine_row :: "argon2_library \<Rightarrow> cpu_event list \<Rightarrow> find_row \<Rightarrow> bool" where
  "genuine_row argon2 es row =
     (\<exists>w tick now salt. CPass w tick now \<in> set es \<and>
        hexToBytes (wk_salt_hex (tk_work tick)) = Inr salt \<and>
        col_hash_to_verify row = encoded argon2 (tk_difficulty tick) salt (col_key row) \<and>
        col_m row = uint (tk_difficulty tick) \<and> col_account row = ''0x'' @ wk_salt_hex (tk_work tick) \<and>
        argon2 (tk_difficulty tick) salt (col_key row) \<noteq> None)"

lemma found_assembles:
  assumes "found_by argon2 tick sb"
    and "assemblePhc (sb_memory_cost sb) (sb_hexsalt sb) (sb_hashed_pure sb) = Inr phc"
  obtains salt where "hexToBytes (sb_hexsalt sb) = Inr salt" "argon2 (sb_memory_cost sb) salt (sb_key sb) \<noteq> None"
    "phc = encoded argon2 (sb_memory_cost sb) salt (sb_key sb)"
proof -
  obtain salt where s: "hexToBytes (sb_hexsalt sb) = Inr salt"
    using assms(2) by (auto simp: assemblePhc_def split: sum.splits)
  then have "hexToBytes (normalizeHex (sb_hexsalt sb)) = Inr salt" by (rule hexToBytes_normalize)
  with s assms show thesis
    by (intro that [of salt]) (auto simp: found_by_def Let_def dest: assemblePhc_normalize)
qed

text \<open>What the callback writes: every row it adds is the row of the submission.\<close>

lemma callback_rows:
  assumes "\<And>mid now phc i. assemblePhc (sb_memory_cost sb) (sb_hexsalt sb) (sb_hashed_pure sb) = Inr phc \<Longrightarrow>
      good (insert_row i (find_payload mid now sb phc))"
  shows "keeps (\<lambda>x y. (\<forall>row\<in>set (finds (ca_db x)). row \<in> old \<or> good row) \<longrightarrow>
           (\<forall>row\<in>set (finds (ca_db y)). row \<in> old \<or> good row)) (submitCallback fmt17g envs sb)"
  unfolding keeps_def
proof (intro allI impI)
  fix s :: capture
  assume I: "\<forall>row\<in>set (finds (ca_db s)). row \<in> old \<or> good row"
  show "\<forall>row\<in>set (finds (ca_db (snd (submitCallback fmt17g envs sb s)))). row \<in> old \<or> good row"
  proof (cases "assemblePhc (sb_memory_cost sb) (sb_hexsalt sb) (sb_hashed_pure sb)")
    case (Inl e)
    with I show ?thesis by (simp add: submitCallback_refused)
  next
    case (Inr phc)
    let ?env = "envs (ca_calls s)"
    let ?p = "find_payload (ca_machine_id s) (ce_now_ms ?env) sb phc"
    obtain out u where p: "persist_find fmt17g ?env ?p (s \<lparr> ca_calls := ca_calls s + 1 \<rparr>) = (out, u)"
      and c: "submitCallback fmt17g envs sb s = (Inr (), announce_find ?env sb ?p out u)"
      by (rule submitCallback_captured [OF Inr])
    note g = assms [OF Inr]
    show ?thesis using p
      by (cases rule: persist_find_cases) (use I g in \<open>auto simp: c dest!: append_rows append_failed\<close>)
  qed
qed

lemma callback_keeps_genuine:
  assumes "CPass w tick now \<in> set es" and "found_by argon2 tick sb"
  shows "keeps (\<lambda>x y. (\<forall>row\<in>set (finds (ca_db x)). row \<in> old \<or> genuine_row argon2 es row) \<longrightarrow>
           (\<forall>row\<in>set (finds (ca_db y)). row \<in> old \<or> genuine_row argon2 es row)) (submitCallback fmt17g envs sb)"
proof (rule callback_rows)
  fix mid now' phc i
  assume a: "assemblePhc (sb_memory_cost sb) (sb_hexsalt sb) (sb_hashed_pure sb) = Inr phc"
  obtain salt where "hexToBytes (sb_hexsalt sb) = Inr salt" "argon2 (sb_memory_cost sb) salt (sb_key sb) \<noteq> None"
    "phc = encoded argon2 (sb_memory_cost sb) salt (sb_key sb)"
    by (rule found_assembles [OF assms(2) a])
  then show "genuine_row argon2 es (insert_row i (find_payload mid now' sb phc))"
    using assms by (auto simp: genuine_row_def insert_row_def find_payload_def found_by_def Let_def
        intro!: exI [of _ w] exI [of _ tick] exI [of _ now])
qed

section \<open>Properties\<close>

text \<open>
  C12 (what the callback does with a find): a digest that does not assemble with the salt is refused
  with the error and nothing is stored. Otherwise the call returns and one of three things happened:
  the key is in the journal; SQLite failed, the journal is unchanged and exactly the record of the
  find was appended to the sink file; or both failed, then the fatal failure is declared and the
  miner is told to stop. Only in the first two cases the block is counted and, when the marketplace
  client runs, reported, and no row already in the journal is lost or changed.
\<close>

theorem find_capture_outcome:
  assumes "journal_inv (ca_db s)" and "submitCallback fmt17g envs sb s = (r, t)"
  shows "journal_inv (ca_db t) \<and> prefix (finds (ca_db s)) (finds (ca_db t)) \<and>
    (case assemblePhc (sb_memory_cost sb) (sb_hexsalt sb) (sb_hashed_pure sb) of
       Inl e \<Rightarrow> r = Inl e \<and> t = s \<lparr> ca_calls := ca_calls s + 1 \<rparr>
     | Inr phc \<Rightarrow>
         let env = envs (ca_calls s);
             p = find_payload (ca_machine_id s) (ce_now_ms env) sb phc;
             report = CapReport phc (sb_key sb) (''0x'' @ sb_hexsalt sb) (sb_attempts sb) (sb_hashrate sb);
             new = drop (length (ca_events s)) (ca_events t)
         in r = Inr () \<and>
            (sb_key sb \<in> journal_keys (ca_db t) \<and> ca_sink t = ca_sink s \<and>
               ca_globals t = ca_globals s \<and> blocks_counted t = blocks_counted s + 1 \<and>
               (report \<in> set new) = ce_platform_running env
             \<or> ce_append_fault env \<noteq> None \<and> ca_db t = ca_db s \<and>
               ca_sink t = Some (sink_text (ca_sink s) @ serialize fmt17g p) \<and>
               ca_globals t = ca_globals s \<and> blocks_counted t = blocks_counted s + 1 \<and>
               (report \<in> set new) = ce_platform_running env
             \<or> ce_append_fault env \<noteq> None \<and> ca_db t = ca_db s \<and>
               g_fatal (ca_globals t) \<and> \<not> g_running (ca_globals t) \<and>
               blocks_counted t = blocks_counted s \<and> report \<notin> set new))"
proof (cases "assemblePhc (sb_memory_cost sb) (sb_hexsalt sb) (sb_hashed_pure sb)")
  case (Inl e)
  with assms show ?thesis by (auto simp: submitCallback_refused)
next
  case (Inr phc)
  let ?env = "envs (ca_calls s)" and ?s = "s \<lparr> ca_calls := ca_calls s + 1 \<rparr>"
  let ?p = "find_payload (ca_machine_id s) (ce_now_ms ?env) sb phc"
  obtain out u where p: "persist_find fmt17g ?env ?p ?s = (out, u)"
    and c: "submitCallback fmt17g envs sb s = (Inr (), announce_find ?env sb ?p out u)"
    by (rule submitCallback_captured [OF Inr])
  have t: "t = announce_find ?env sb ?p out u" "r = Inr ()" using c assms(2) by simp_all
  have b: "blocks_counted ?s = blocks_counted s" by (simp add: blocks_counted_def)
  show ?thesis using p
  proof (cases rule: persist_find_cases)
    case (journal i)
    have "journal_inv (ca_db u)" "sb_key sb \<in> journal_keys (ca_db u)" "prefix (finds (ca_db s)) (finds (ca_db u))"
      using append_keys [of "ca_db s"] append_rows [of _ ?p "ca_db s"] assms(1) journal(2) by force+
    then show ?thesis
      using journal Inr b by (simp add: t Let_def announce_find_events durable_def find_level_def)
  next
    case (sink e)
    then have "ca_db u = ca_db s" "ce_append_fault ?env \<noteq> None"
      using append_failed by fastforce+
    then show ?thesis
      using sink Inr assms(1) b by (simp add: t Let_def announce_find_events durable_def find_level_def)
  next
    case (lost e)
    then have "ca_db u = ca_db s" "ce_append_fault ?env \<noteq> None"
      using append_failed by fastforce+
    then show ?thesis
      using lost Inr assms(1) b by (simp add: t Let_def announce_find_events durable_def find_level_def)
  qed
qed

definition sample_sb :: submission where
  "sample_sb = \<lparr> sb_hexsalt = ''00'', sb_key = ''k9'', sb_hashed_pure = ''XEN11'', sb_memory_cost = 8,
     sb_attempts = 5, sb_hashrate = 7, sb_source = ''CPU'' \<rparr>"

definition sample_env :: "sqlite_fault \<Rightarrow> capture_env" where
  "sample_env fault = \<lparr> ce_now_ms = 0, ce_append_fault = fault, ce_counts_fault = None, ce_sink_io = good_io,
     ce_platform_running = True, ce_has_manager = True \<rparr>"

definition sample_capture :: "db \<Rightarrow> capture" where
  "sample_capture d = \<lparr> ca_db = d, ca_sink = None, ca_globals = initial_globals, ca_machine_id = ''m1'',
     ca_queued_xnm = 0, ca_queued_xuni = 0, ca_last_submission = NoneYet, ca_super_blocks = 0,
     ca_normal_blocks = 0, ca_xuni_blocks = 0, ca_calls = 0, ca_events = [] \<rparr>"

lemma sample_assembles:
  "assemblePhc (sb_memory_cost sample_sb) (sb_hexsalt sample_sb) (sb_hashed_pure sample_sb)
     = Inr (phc_parameters 8 @ base64Encode [0] @ ''$XEN11'')"
  by (simp add: sample_sb_def assemblePhc_def hexToBytes_def hex_nibble_def code_def Let_def)

theorem find_capture_outcome_witness:
  "''k9'' \<in> journal_keys (ca_db (snd (submitCallback bits_fmt (\<lambda>_. sample_env None) sample_sb (sample_capture sample_db))))"
proof -
  have "journal_inv (ca_db (sample_capture sample_db))" by (simp add: sample_capture_def sample_db_inv)
  from find_capture_outcome [OF this surjective_pairing, of bits_fmt "\<lambda>_. sample_env None" sample_sb] sample_assembles
  show ?thesis by (simp add: Let_def sample_env_def sample_sb_def)
qed

text \<open>
  C2 (no captured find is lost across restarts): take any history of one data directory from a fresh
  installation on: captures, restarts and operations of the drain thread, with any SQLite, file and
  import failures. As long as no fatal failure was declared, every find whose callback returned
  normally is on disk, in the journal or as a readable record of the sink file; and the next restart
  whose import meets no fault puts all of them into the journal. The floating-point conversions have
  to be exact on the rates of the finds.
\<close>

theorem finds_survive_restarts:
  assumes "\<forall>i\<in>set (before @ ICapture sb # after). exact_input fmt17g strtod i"
    and "ca_db s = empty_db" and "ca_sink s = None"
    and "mid = fold (capture_apply fmt17g strtod envs) before s"
    and "fst (submitCallback fmt17g envs sb mid) = Inr ()"
    and "t = fold (capture_apply fmt17g strtod envs) (before @ ICapture sb # after) s"
    and "\<not> g_fatal (ca_globals t)"
  shows "sb_key sb \<in> held strtod t \<and>
    (fst (ensureSchema (be_schema_fault env) (ca_db t)) = Inr () \<and> be_import_faults env = (\<lambda>_. None) \<and>
     readable (be_import_io env) \<and> read_cut (be_import_io env) = None \<longrightarrow>
     held strtod t \<subseteq> journal_keys (ca_db (snd (boot_journal strtod env t))))"
proof -
  let ?run = "fold (capture_apply fmt17g strtod envs)" and ?after = "capture_apply fmt17g strtod envs (ICapture sb) mid"
  have "capture_inv fmt17g strtod s"
    using assms(2,3) by (auto simp: capture_inv_def journal_inv_def empty_db_def sink_text_def intro: exI [of _ "[]"])
  then have mid: "capture_inv fmt17g strtod mid"
    unfolding assms(4) using assms(1) by (intro capt.run_inv) auto
  obtain phc where phc: "assemblePhc (sb_memory_cost sb) (sb_hexsalt sb) (sb_hashed_pure sb) = Inr phc"
    using assms(5) submitCallback_refused
    by (cases "assemblePhc (sb_memory_cost sb) (sb_hexsalt sb) (sb_hashed_pure sb)") auto
  have rate: "exact_rate fmt17g strtod (sb_hashrate sb)" using assms(1) by (simp add: exact_input_def)
  have ev: "capture_inv fmt17g strtod ?after" "g_fatal (ca_globals ?after) \<or> sb_key sb \<in> held strtod ?after"
    using capture_event [OF mid rate phc refl] by auto
  have t: "t = ?run after ?after" by (simp add: assms(4,6))
  have "capture_inv fmt17g strtod t" "capture_le strtod ?after t"
    unfolding t using assms(1) by (intro capt.run_inv capt.run_le ev(1); simp)+
  then show ?thesis
    using ev(2) assms(7) clean_boot [of t env strtod] by (auto simp: capture_le_def capture_inv_def)
qed

theorem finds_survive_restarts_witness:
  "let t = capture_apply bits_fmt bits_strtod (\<lambda>_. sample_env (Some ''disk I/O error'')) (ICapture sample_sb)
             (sample_capture empty_db);
       env = \<lparr> be_schema_fault = None, be_import_faults = \<lambda>_. None,
               be_import_io = \<lparr> readable = True, read_cut = None, rename_ok = True \<rparr>,
               be_recover_fault = Some ''busy'', be_counts_fault = None \<rparr>
   in ''k9'' \<notin> journal_keys (ca_db t) \<and> ''k9'' \<in> journal_keys (ca_db (snd (boot_journal bits_strtod env t)))"
proof -
  let ?envs = "\<lambda>_. sample_env (Some ''disk I/O error'')" and ?s = "sample_capture empty_db"
  let ?t = "capture_apply bits_fmt bits_strtod ?envs (ICapture sample_sb) ?s"
  obtain out u where p: "persist_find bits_fmt (?envs (ca_calls ?s))
       (find_payload (ca_machine_id ?s) (ce_now_ms (?envs (ca_calls ?s))) sample_sb
         (phc_parameters 8 @ base64Encode [0] @ ''$XEN11'')) (?s \<lparr> ca_calls := ca_calls ?s + 1 \<rparr>) = (out, u)"
    and c: "submitCallback bits_fmt ?envs sample_sb ?s = (Inr (), announce_find (?envs (ca_calls ?s)) sample_sb
       (find_payload (ca_machine_id ?s) (ce_now_ms (?envs (ca_calls ?s))) sample_sb
         (phc_parameters 8 @ base64Encode [0] @ ''$XEN11'')) out u)"
    by (rule submitCallback_captured [OF sample_assembles])
  have u: "ca_db u = empty_db" "ca_globals u = initial_globals"
    using p by (auto simp: persist_find_def sample_env_def append_find_def sink_append_def good_io_def sample_capture_def Let_def)
  have e: "\<forall>i\<in>set ([] @ [ICapture sample_sb]). exact_input bits_fmt bits_strtod i"
    by (simp add: bits_exact sample_sb_def exact_input_def)
  have fresh: "ca_db ?s = empty_db" "ca_sink ?s = None" by (simp_all add: sample_capture_def)
  have ran: "fst (submitCallback bits_fmt ?envs sample_sb ?s) = Inr ()" "\<not> g_fatal (ca_globals ?t)"
    using c u by (simp_all add: initial_globals_def)
  have "sb_key sample_sb \<in> held bits_strtod ?t \<and>
    (fst (ensureSchema (be_schema_fault env) (ca_db ?t)) = Inr () \<and> be_import_faults env = (\<lambda>_. None) \<and>
     readable (be_import_io env) \<and> read_cut (be_import_io env) = None \<longrightarrow>
     held bits_strtod ?t \<subseteq> journal_keys (ca_db (snd (boot_journal bits_strtod env ?t))))" for env
    by (rule finds_survive_restarts [OF e fresh refl _ _ ran(2)]) (simp_all add: ran(1))
  moreover have "ca_db ?t = empty_db" using c u by simp
  moreover have "fst (ensureSchema None empty_db) = Inr ()" by (simp add: ensureSchema_def empty_db_def)
  ultimately show ?thesis
    by (auto simp: Let_def sample_sb_def journal_keys_def empty_db_def subset_iff simp del: capture_apply.simps)
qed

text \<open>
  C3 (the journal of a CPU miner holds genuine finds): run any number of CPU workers, in any
  interleaving, with the callback of the program. Every row in the journal that was not there at the
  start holds the PHC string the Argon2 library computes for the key of the row with the salt of a
  piece of work some worker was given, at the memory cost of the row, and the account is that salt.
\<close>

theorem cpu_journal_genuine:
  assumes "phc_library argon2" and "\<forall>e\<in>set es. cpu_backed argon2 e"
    and "row \<in> set (finds (ca_db (cw_outside
           (fold (cpu_apply wcfg aggregate (submitCallback fmt17g envs)) es (initial_workers s)))))"
    and "row \<notin> set (finds (ca_db s))"
  shows "genuine_row argon2 es row"
proof -
  let ?I = "\<lambda>c. \<forall>row\<in>set (finds (ca_db c)). row \<in> set (finds (ca_db s)) \<or> genuine_row argon2 es row"
  have "?I (cw_outside (fold (cpu_apply wcfg aggregate (submitCallback fmt17g envs)) es (initial_workers s)))"
    by (rule cpu_run_outside [OF assms(1)])
      (use assms(2) callback_keeps_genuine in \<open>auto simp: initial_workers_def\<close>)
  with assms(3,4) show ?thesis by blast
qed


theorem cpu_journal_genuine_witness:
  "\<exists>row \<in> set (finds (ca_db (cw_outside
           (fold (cpu_apply sample_cfg hd (submitCallback bits_fmt (\<lambda>_. sample_env None)))
              [CStart 0, CEnter 0 True 0, CPass 0 sample_tick 0] (initial_workers (sample_capture empty_db)))))).
     genuine_row phc_argon2 [CStart 0, CEnter 0 True 0, CPass 0 sample_tick 0] row"
proof -
  let ?es = "[CStart 0, CEnter 0 True 0, CPass 0 sample_tick 0]" and ?s = "sample_capture empty_db"
  let ?submit = "submitCallback bits_fmt (\<lambda>_. sample_env None)"
  obtain sb where sb: "cw_outside (fold (cpu_apply sample_cfg hd ?submit) ?es (initial_workers ?s)) = snd (?submit sb ?s)"
    "sb_hexsalt sb = wk_salt_hex sample_work" "sb_memory_cost sb = 8"
    using sample_run [of ?submit ?s] by blast
  have fresh: "finds (ca_db ?s) = []" by (simp add: sample_capture_def empty_db_def)
  obtain phc where "assemblePhc (sb_memory_cost sb) (sb_hexsalt sb) (sb_hashed_pure sb) = Inr phc"
    by (simp add: sb sample_work_def assemblePhc_def hexToBytes_def hex_nibble_def code_def Let_def)
  then have "finds (ca_db (snd (?submit sb ?s))) \<noteq> []"
    by (simp add: submitCallback_def persist_find_def sample_env_def append_find_def fresh Let_def)
  then obtain row where row: "row \<in> set (finds (ca_db (cw_outside
      (fold (cpu_apply sample_cfg hd ?submit) ?es (initial_workers ?s)))))"
    unfolding sb(1) by (meson hd_in_set)
  have "genuine_row phc_argon2 ?es row"
    by (rule cpu_journal_genuine [OF phc_argon2_phc _ row])
      (auto simp: fresh cpu_backed_def sample_tick_def)
  with row show ?thesis by blast
qed

end
