(* ===== verification/Blake2b.thy ===== *)
theory Blake2b
  imports Hash_Encoding
begin

text \<open>
  The streaming Blake2b of \<open>blake2b.cpp\<close>, with its fixed 128-byte buffer and its two-word counter,
  and the reference it is compared with: the hash of RFC 7693 on a whole message. However a message
  is cut into \<open>update\<close> calls, and whatever an earlier use left in the buffer, \<open>final\<close> returns the
  hash of the message.
\<close>

section \<open>Words and bytes\<close>

definition rotr64 :: "u64 \<Rightarrow> nat \<Rightarrow> u64" where
  "rotr64 x n = drop_bit n x OR push_bit (64 - n) x"

text \<open>\<open>load64\<close> reads the eight bytes at the pointer, least significant first.\<close>

definition load64 :: "byte list \<Rightarrow> u64" where
  "load64 src = ucast (src ! 0) OR push_bit 8 (ucast (src ! 1)) OR push_bit 16 (ucast (src ! 2)) OR
     push_bit 24 (ucast (src ! 3)) OR push_bit 32 (ucast (src ! 4)) OR push_bit 40 (ucast (src ! 5)) OR
     push_bit 48 (ucast (src ! 6)) OR push_bit 56 (ucast (src ! 7))"

definition store64 :: "u64 \<Rightarrow> byte list" where
  "store64 v = [ucast v, ucast (drop_bit 8 v), ucast (drop_bit 16 v), ucast (drop_bit 24 v),
     ucast (drop_bit 32 v), ucast (drop_bit 40 v), ucast (drop_bit 48 v), ucast (drop_bit 56 v)]"

text \<open>\<open>memcpy (dst + off, src, length src)\<close>.\<close>

definition memcpy_at :: "byte list \<Rightarrow> nat \<Rightarrow> byte list \<Rightarrow> byte list" where
  "memcpy_at dst off src = take off dst @ src @ drop (off + length src) dst"

section \<open>Compression\<close>

definition blake2b_IV :: "u64 list" where
  "blake2b_IV = [0x6a09e667f3bcc908, 0xbb67ae8584caa73b, 0x3c6ef372fe94f82b, 0xa54ff53a5f1d36f1,
     0x510e527fade682d1, 0x9b05688c2b3e6c1f, 0x1f83d9abfb41bd6b, 0x5be0cd19137e2179]"

definition blake2b_sigma :: "nat list list" where
  "blake2b_sigma =
    [[0, 1, 2, 3, 4, 5, 6, 7, 8, 9, 10, 11, 12, 13, 14, 15],
     [14, 10, 4, 8, 9, 15, 13, 6, 1, 12, 0, 2, 11, 7, 5, 3],
     [11, 8, 12, 0, 5, 2, 15, 13, 10, 14, 3, 6, 7, 1, 9, 4],
     [7, 9, 3, 1, 13, 12, 11, 14, 2, 6, 5, 10, 4, 0, 15, 8],
     [9, 0, 5, 7, 2, 4, 10, 15, 14, 1, 11, 12, 6, 8, 3, 13],
     [2, 12, 6, 10, 0, 11, 8, 3, 4, 13, 7, 5, 15, 14, 1, 9],
     [12, 5, 1, 15, 14, 13, 4, 10, 0, 7, 6, 3, 9, 2, 8, 11],
     [13, 11, 7, 14, 12, 1, 3, 9, 5, 0, 15, 4, 8, 6, 2, 10],
     [6, 15, 14, 9, 11, 3, 0, 8, 12, 2, 13, 7, 1, 4, 10, 5],
     [10, 2, 8, 4, 7, 6, 1, 5, 15, 11, 9, 14, 3, 12, 13, 0],
     [0, 1, 2, 3, 4, 5, 6, 7, 8, 9, 10, 11, 12, 13, 14, 15],
     [14, 10, 4, 8, 9, 15, 13, 6, 1, 12, 0, 2, 11, 7, 5, 3]]"

text \<open>The macro \<open>G\<close> on the entries \<open>ia ib ic id\<close> of the working vector.\<close>

definition blake_G :: "u64 list \<Rightarrow> nat \<Rightarrow> nat \<Rightarrow> nat \<times> nat \<times> nat \<times> nat \<Rightarrow> u64 list \<Rightarrow> u64 list" where
  "blake_G m r i = (\<lambda>(ia, ib, ic, id') v.
     let a = v ! ia; b = v ! ib; c = v ! ic; d = v ! id';
         a = a + b + m ! (blake2b_sigma ! r ! (2 * i));
         d = rotr64 (d XOR a) 32;
         c = c + d;
         b = rotr64 (b XOR c) 24;
         a = a + b + m ! (blake2b_sigma ! r ! (2 * i + 1));
         d = rotr64 (d XOR a) 16;
         c = c + d;
         b = rotr64 (b XOR c) 63
     in v[ia := a, ib := b, ic := c, id' := d])"

definition blake_ROUND :: "u64 list \<Rightarrow> u64 list \<Rightarrow> nat \<Rightarrow> u64 list" where
  "blake_ROUND m v r =
     (let v = blake_G m r 0 (0, 4, 8, 12) v;
          v = blake_G m r 1 (1, 5, 9, 13) v;
          v = blake_G m r 2 (2, 6, 10, 14) v;
          v = blake_G m r 3 (3, 7, 11, 15) v;
          v = blake_G m r 4 (0, 5, 10, 15) v;
          v = blake_G m r 5 (1, 6, 11, 12) v;
          v = blake_G m r 6 (2, 7, 8, 13) v
      in blake_G m r 7 (3, 4, 9, 14) v)"

text \<open>\<open>compress\<close> on the chain value, the counter and a block: the new chain value.\<close>

definition blake_compress :: "u64 list \<Rightarrow> u64 \<Rightarrow> u64 \<Rightarrow> byte list \<Rightarrow> u64 \<Rightarrow> u64 list" where
  "blake_compress h t0 t1 block f0 =
     (let m = map (\<lambda>i. load64 (drop (i * 8) block)) [0..<16];
          v = h @ [blake2b_IV ! 0, blake2b_IV ! 1, blake2b_IV ! 2, blake2b_IV ! 3,
                   blake2b_IV ! 4 XOR t0, blake2b_IV ! 5 XOR t1, blake2b_IV ! 6 XOR f0, blake2b_IV ! 7];
          v = foldl (blake_ROUND m) v [0..<12]
      in map (\<lambda>i. h ! i XOR (v ! i XOR v ! (i + 8))) [0..<8])"

section \<open>The stream\<close>

definition BLOCK_BYTES :: nat where "BLOCK_BYTES = 128"
definition OUT_BYTES :: nat where "OUT_BYTES = 64"

record blake =
  bl_h :: "u64 list"
  bl_t0 :: u64
  bl_t1 :: u64
  bl_buf :: "byte list"
  bl_bufLen :: nat

definition new_blake :: blake where
  "new_blake = \<lparr> bl_h = replicate 8 0, bl_t0 = 0, bl_t1 = 0, bl_buf = replicate 128 0, bl_bufLen = 0 \<rparr>"

definition blake_init :: "nat \<Rightarrow> blake \<Rightarrow> blake" where
  "blake_init outlen b = b \<lparr> bl_t0 := 0, bl_t1 := 0, bl_bufLen := 0,
     bl_h := blake2b_IV[0 := blake2b_IV ! 0 XOR (word_of_nat outlen OR push_bit 16 1 OR push_bit 24 1)] \<rparr>"

definition incrementCounter :: "u64 \<Rightarrow> blake \<Rightarrow> blake" where
  "incrementCounter inc b =
     (let t0 = bl_t0 b + inc in
      b \<lparr> bl_t0 := t0, bl_t1 := bl_t1 b + (if t0 < inc then 1 else 0) \<rparr>)"

definition compress :: "byte list \<Rightarrow> u64 \<Rightarrow> blake \<Rightarrow> blake" where
  "compress block f0 b = b \<lparr> bl_h := blake_compress (bl_h b) (bl_t0 b) (bl_t1 b) block f0 \<rparr>"

text \<open>The loop of \<open>update\<close> compresses straight from the input while more than a block is left.\<close>

function update_blocks :: "byte list \<Rightarrow> blake \<Rightarrow> byte list \<times> blake" where
  "update_blocks bin b =
     (if BLOCK_BYTES < length bin
      then update_blocks (drop BLOCK_BYTES bin)
             (compress (take BLOCK_BYTES bin) 0 (incrementCounter (word_of_nat BLOCK_BYTES) b))
      else (bin, b))"
  by pat_completeness auto
termination by (relation "measure (\<lambda>(bin, _). length bin)") (auto simp: BLOCK_BYTES_def)

declare update_blocks.simps [simp del]

definition blake_update :: "byte list \<Rightarrow> blake \<Rightarrow> blake" where
  "blake_update bin b =
     (let (bin', b') =
        (if BLOCK_BYTES < bl_bufLen b + length bin
         then let left = BLOCK_BYTES - bl_bufLen b;
                  b1 = b \<lparr> bl_buf := memcpy_at (bl_buf b) (bl_bufLen b) (take left bin) \<rparr>;
                  b2 = incrementCounter (word_of_nat BLOCK_BYTES) b1;
                  b3 = compress (bl_buf b2) 0 b2
              in update_blocks (drop left bin) (b3 \<lparr> bl_bufLen := 0 \<rparr>)
         else (bin, b))
      in b' \<lparr> bl_buf := memcpy_at (bl_buf b') (bl_bufLen b') bin',
              bl_bufLen := bl_bufLen b' + length bin' \<rparr>)"

definition blake_final :: "nat \<Rightarrow> blake \<Rightarrow> byte list \<times> blake" where
  "blake_final outLen b =
     (let b1 = incrementCounter (word_of_nat (bl_bufLen b)) b;
          b2 = b1 \<lparr> bl_buf := memcpy_at (bl_buf b1) (bl_bufLen b1) (replicate (BLOCK_BYTES - bl_bufLen b1) 0) \<rparr>;
          b3 = compress (bl_buf b2) 0xFFFFFFFFFFFFFFFF b2;
          out = concat (map store64 (bl_h b3))
      in (if outLen = OUT_BYTES then out else take outLen out, b3))"

section \<open>The reference hash\<close>

text \<open>
  RFC 7693 on a whole message: all blocks but the last are compressed with the number of bytes so
  far, the last one, padded with zeros, with the length of the message and the final flag. The
  counter is the number itself, cut into two words.
\<close>

function ref_blocks :: "u64 list \<Rightarrow> nat \<Rightarrow> byte list \<Rightarrow> u64 list" where
  "ref_blocks h n msg =
     (if length msg \<le> 128
      then let n' = n + length msg in
           blake_compress h (word_of_nat n') (word_of_nat (n' div 2 ^ 64)) (msg @ replicate (128 - length msg) 0)
             0xFFFFFFFFFFFFFFFF
      else ref_blocks
             (blake_compress h (word_of_nat (n + 128)) (word_of_nat ((n + 128) div 2 ^ 64)) (take 128 msg) 0)
             (n + 128) (drop 128 msg))"
  by pat_completeness auto
termination by (relation "measure (\<lambda>(_, _, msg). length msg)") auto

declare ref_blocks.simps [simp del]

definition blake2b :: "nat \<Rightarrow> byte list \<Rightarrow> byte list" where
  "blake2b outlen msg = take outlen (concat (map store64
     (ref_blocks (bl_h (blake_init outlen new_blake)) 0 msg)))"


section \<open>The stream computes the reference\<close>

text \<open>The two counter words hold one number.\<close>

definition counts_to :: "nat \<Rightarrow> blake \<Rightarrow> bool" where
  "counts_to n b = (bl_t0 b = word_of_nat n \<and> bl_t1 b = word_of_nat (n div 2 ^ 64))"

lemma carry_div:
  fixes n k m :: nat
  assumes "k < m"
  shows "(n + k) div m = n div m + (if (n + k) mod m < k then 1 else 0)"
proof -
  have m: "n mod m < m" using assms by simp
  have d: "(n + k) div m = n div m + (n mod m + k) div m" 
    using div_add1_eq [of n k m] assms by simp
  have r: "(n + k) mod m = (n mod m + k) mod m" by (simp add: mod_add_left_eq)
  show ?thesis
  proof (cases "n mod m + k < m")
    case True
    then show ?thesis using d r by simp
  next
    case False
    have q: "n mod m + k - m < m" using m assms by arith
    then have "(n mod m + k) div m = 1" "(n mod m + k) mod m = n mod m + k - m"
      using False by (simp_all add: div_nat_eqI le_mod_geq)
    then show ?thesis using d r m False by simp
  qed
qed

lemma incrementCounter_counts:
  assumes "counts_to n b" and "k < 2 ^ 64"
  shows "counts_to (n + k) (incrementCounter (word_of_nat k) b)"
proof -
  have sum: "(word_of_nat n + word_of_nat k :: u64) = word_of_nat (n + k)" by simp
  have less: "((word_of_nat (n + k) :: u64) < word_of_nat k) = ((n + k) mod 2 ^ 64 < k)"
    unfolding word_less_nat_alt unat_of_nat using assms(2) by simp
  have "counts_to (n + k) (incrementCounter (word_of_nat k) b) =
      (word_of_nat (n div 2 ^ 64) + (if (n + k) mod 2 ^ 64 < k then 1 else 0) = (word_of_nat ((n + k) div 2 ^ 64) :: u64))"
    using assms(1) unfolding counts_to_def incrementCounter_def Let_def by (simp only: sum less) simp
  then show ?thesis unfolding carry_div [OF assms(2)] by simp
qed

lemma ref_blocks_step:
  assumes "length blk = 128" and "rest \<noteq> []"
  shows "ref_blocks h n (blk @ rest) =
    ref_blocks (blake_compress h (word_of_nat (n + 128)) (word_of_nat ((n + 128) div 2 ^ 64)) blk 0) (n + 128) rest"
  using assms by (subst ref_blocks.simps) simp

text \<open>What a stream has taken in: its chain value, its counter and the bytes in its buffer stand for
  the message so far, whatever follows.\<close>

definition stands_for :: "blake \<Rightarrow> u64 list \<Rightarrow> byte list \<Rightarrow> bool" where
  "stands_for b h msg =
     (length (bl_buf b) = 128 \<and> bl_bufLen b \<le> 128 \<and>
      (\<exists>n. counts_to n b \<and>
         (\<forall>rest. ref_blocks h 0 (msg @ rest) = ref_blocks (bl_h b) n (take (bl_bufLen b) (bl_buf b) @ rest))))"

lemma incrementCounter_simps [simp]:
  "bl_h (incrementCounter i b) = bl_h b" "bl_buf (incrementCounter i b) = bl_buf b"
  "bl_bufLen (incrementCounter i b) = bl_bufLen b"
  by (simp_all add: incrementCounter_def Let_def)

lemma compress_simps [simp]:
  "bl_h (compress blk f b) = blake_compress (bl_h b) (bl_t0 b) (bl_t1 b) blk f"
  "bl_buf (compress blk f b) = bl_buf b" "bl_bufLen (compress blk f b) = bl_bufLen b"
  "bl_t0 (compress blk f b) = bl_t0 b" "bl_t1 (compress blk f b) = bl_t1 b"
  by (simp_all add: compress_def)

lemma counts_to_compress [simp]: "counts_to n (compress blk f b) = counts_to n b"
  by (simp add: counts_to_def)

lemma update_blocks_spec:
  assumes "counts_to n b" and "bin \<noteq> []" and "update_blocks bin b = (bin', b')"
  shows "\<exists>n'. counts_to n' b' \<and> bl_buf b' = bl_buf b \<and> bl_bufLen b' = bl_bufLen b \<and> length bin' \<le> 128 \<and>
           (\<forall>rest. ref_blocks (bl_h b) n (bin @ rest) = ref_blocks (bl_h b') n' (bin' @ rest))"
  using assms
proof (induction bin b arbitrary: n rule: update_blocks.induct)
  case (1 bin b)
  show ?case
  proof (cases "BLOCK_BYTES < length bin")
    case False
    then have "bin' = bin" "b' = b" using 1(4) by (simp_all add: update_blocks.simps [of bin b])
    with False 1(2) show ?thesis by (auto simp: BLOCK_BYTES_def)
  next
    case True
    let ?b = "compress (take BLOCK_BYTES bin) 0 (incrementCounter (word_of_nat BLOCK_BYTES) b)"
    have run: "update_blocks (drop BLOCK_BYTES bin) ?b = (bin', b')"
      using 1(4) True by (simp add: update_blocks.simps [of bin b])
    have c: "counts_to (n + 128) ?b"
      using incrementCounter_counts [OF 1(2), of 128] by (simp add: BLOCK_BYTES_def)
    have ne: "drop BLOCK_BYTES bin \<noteq> []" using True by simp
    have len: "length (take 128 bin) = 128" using True by (simp add: BLOCK_BYTES_def)
    have step: "ref_blocks (bl_h b) n (bin @ rest) = ref_blocks (bl_h ?b) (n + 128) (drop BLOCK_BYTES bin @ rest)" for rest
    proof -
      have "bin @ rest = take 128 bin @ (drop 128 bin @ rest)" by simp
      moreover have "drop 128 bin @ rest \<noteq> []" using ne by (simp add: BLOCK_BYTES_def)
      ultimately have "ref_blocks (bl_h b) n (bin @ rest) =
          ref_blocks (blake_compress (bl_h b) (word_of_nat (n + 128)) (word_of_nat ((n + 128) div 2 ^ 64)) (take 128 bin) 0)
            (n + 128) (drop 128 bin @ rest)"
        using ref_blocks_step [OF len] by metis
      moreover have "counts_to (n + 128) (incrementCounter (word_of_nat BLOCK_BYTES) b)"
        using incrementCounter_counts [OF 1(2), of 128] by (simp add: BLOCK_BYTES_def)
      ultimately show ?thesis by (simp add: counts_to_def BLOCK_BYTES_def)
    qed
    from 1(1) [OF True c ne run] show ?thesis by (simp add: step)
  qed
qed

lemma memcpy_length [simp]: "off + length src \<le> length dst \<Longrightarrow> length (memcpy_at dst off src) = length dst"
  by (simp add: memcpy_at_def)

lemma memcpy_take: "off \<le> length dst \<Longrightarrow> take (off + length src) (memcpy_at dst off src) = take off dst @ src"
  by (simp add: memcpy_at_def)

lemma update_stands_for:
  assumes "stands_for b h msg"
  shows "stands_for (blake_update bin b) h (msg @ bin)"
proof -
  obtain n where b: "length (bl_buf b) = 128" "bl_bufLen b \<le> 128" "counts_to n b"
    "\<And>rest. ref_blocks h 0 (msg @ rest) = ref_blocks (bl_h b) n (take (bl_bufLen b) (bl_buf b) @ rest)"
    using assms unfolding stands_for_def by blast
  show ?thesis
  proof (cases "BLOCK_BYTES < bl_bufLen b + length bin")
    case False
    then have "blake_update bin b = b \<lparr> bl_buf := memcpy_at (bl_buf b) (bl_bufLen b) bin,
        bl_bufLen := bl_bufLen b + length bin \<rparr>" by (simp add: blake_update_def)
    moreover have "bl_bufLen b + length bin \<le> 128" using False by (simp add: BLOCK_BYTES_def)
    moreover have "take (bl_bufLen b + length bin) (memcpy_at (bl_buf b) (bl_bufLen b) bin)
        = take (bl_bufLen b) (bl_buf b) @ bin" using b(1,2) by (intro memcpy_take) simp
    ultimately show ?thesis
      using b(1-3) b(4) [of "bin @ _"] by (auto simp: stands_for_def counts_to_def)
  next
    case True
    let ?left = "BLOCK_BYTES - bl_bufLen b"
    let ?blk = "memcpy_at (bl_buf b) (bl_bufLen b) (take ?left bin)"
    define b3 where "b3 = (compress ?blk 0 (incrementCounter (word_of_nat BLOCK_BYTES) (b \<lparr> bl_buf := ?blk \<rparr>)))
        \<lparr> bl_bufLen := 0 \<rparr>"
    obtain bin' b' where run: "update_blocks (drop ?left bin) b3 = (bin', b')" by fastforce
    have upd: "blake_update bin b = b' \<lparr> bl_buf := memcpy_at (bl_buf b') (bl_bufLen b') bin',
              bl_bufLen := bl_bufLen b' + length bin' \<rparr>"
      using True run by (simp add: blake_update_def Let_def b3_def)
    have blk: "?blk = take (bl_bufLen b) (bl_buf b) @ take ?left bin" "length ?blk = 128"
      using True b(1,2) by (simp_all add: memcpy_at_def BLOCK_BYTES_def)
    have inc: "counts_to (n + 128) (incrementCounter (word_of_nat BLOCK_BYTES) (b \<lparr> bl_buf := ?blk \<rparr>))"
      using incrementCounter_counts [of n "b \<lparr> bl_buf := ?blk \<rparr>" 128] b(3) by (simp add: counts_to_def BLOCK_BYTES_def)
    then have c3: "counts_to (n + 128) b3" by (simp add: b3_def counts_to_def)
    have ne: "drop ?left bin \<noteq> []" using True b(2) by (simp add: BLOCK_BYTES_def)
    obtain n' where r: "counts_to n' b'" "bl_buf b' = ?blk" "bl_bufLen b' = 0" "length bin' \<le> 128"
      "\<And>rest. ref_blocks (bl_h b3) (n + 128) (drop ?left bin @ rest) = ref_blocks (bl_h b') n' (bin' @ rest)"
      using update_blocks_spec [OF c3 ne run] by (auto simp: b3_def)
    have "ref_blocks h 0 ((msg @ bin) @ rest) = ref_blocks (bl_h b') n' (bin' @ rest)" for rest
    proof -
      have "ref_blocks h 0 ((msg @ bin) @ rest) = ref_blocks (bl_h b) n (?blk @ (drop ?left bin @ rest))"
        using b(4) [of "bin @ rest"] by (simp add: blk(1)) (metis append_assoc append_take_drop_id)
      also have "\<dots> = ref_blocks (blake_compress (bl_h b) (word_of_nat (n + 128)) (word_of_nat ((n + 128) div 2 ^ 64)) ?blk 0)
            (n + 128) (drop ?left bin @ rest)" using ne by (intro ref_blocks_step blk(2)) simp
      also have "\<dots> = ref_blocks (bl_h b3) (n + 128) (drop ?left bin @ rest)"
        using inc by (simp add: b3_def counts_to_def)
      finally show ?thesis using r(5) by simp
    qed
    moreover have "length (memcpy_at (bl_buf b') 0 bin') = 128"
      "take (length bin') (memcpy_at (bl_buf b') 0 bin') = bin'"
      using r(2,4) blk(2) memcpy_take [of 0 "bl_buf b'" bin'] by simp_all
    ultimately show ?thesis
      using r(1,3,4) unfolding upd stands_for_def by (auto simp: counts_to_def)
  qed
qed

lemma init_stands_for:
  "length (bl_buf b) = 128 \<Longrightarrow> stands_for (blake_init outlen b) (bl_h (blake_init outlen new_blake)) []"
  by (auto simp: stands_for_def blake_init_def counts_to_def intro!: exI [of _ 0])

lemma blake_compress_length [simp]: "length (blake_compress h t0 t1 blk f) = 8"
  by (simp add: blake_compress_def Let_def)

lemma ref_blocks_length [simp]: "length (ref_blocks h n msg) = 8"
  by (induction h n msg rule: ref_blocks.induct) (subst ref_blocks.simps, simp add: Let_def)

lemma store64_length [simp]: "length (store64 v) = 8"
  by (simp add: store64_def)

lemma concat_store64_length: "length (concat (map store64 vs)) = 8 * length vs"
  by (induction vs) simp_all

lemma blake2b_length: "length (blake2b outlen msg) = min outlen 64"
  by (simp add: blake2b_def concat_store64_length)

lemma final_stands_for:
  assumes "stands_for b (bl_h (blake_init outlen new_blake)) msg"
  shows "fst (blake_final outlen b) = blake2b outlen msg \<and> length (bl_buf (snd (blake_final outlen b))) = 128"
proof -
  let ?h = "bl_h (blake_init outlen new_blake)"
  obtain n where b: "length (bl_buf b) = 128" "bl_bufLen b \<le> 128" "counts_to n b"
    "\<And>rest. ref_blocks ?h 0 (msg @ rest) = ref_blocks (bl_h b) n (take (bl_bufLen b) (bl_buf b) @ rest)"
    using assms unfolding stands_for_def by blast
  let ?pad = "memcpy_at (bl_buf b) (bl_bufLen b) (replicate (BLOCK_BYTES - bl_bufLen b) 0)"
  have pad: "?pad = take (bl_bufLen b) (bl_buf b) @ replicate (128 - bl_bufLen b) 0"
    using b(1,2) by (simp add: memcpy_at_def BLOCK_BYTES_def)
  have "counts_to (n + bl_bufLen b) (incrementCounter (word_of_nat (bl_bufLen b)) b)"
    using b(2,3) by (intro incrementCounter_counts) simp_all
  moreover have "ref_blocks ?h 0 msg = blake_compress (bl_h b) (word_of_nat (n + bl_bufLen b))
      (word_of_nat ((n + bl_bufLen b) div 2 ^ 64)) ?pad 0xFFFFFFFFFFFFFFFF"
    using b(1,2) b(4) [of "[]"] by (subst (asm) ref_blocks.simps) (simp add: pad Let_def min_def)
  ultimately have h: "bl_h (snd (blake_final outlen b)) = ref_blocks ?h 0 msg"
    "length (bl_buf (snd (blake_final outlen b))) = 128"
    using b(1,2) by (auto simp: blake_final_def Let_def counts_to_def pad)
  have "fst (blake_final outlen b) = take outlen (concat (map store64 (bl_h (snd (blake_final outlen b)))))"
    using concat_store64_length [of "bl_h (snd (blake_final outlen b))"] h(1)
    by (cases "outlen = 64") (simp_all add: blake_final_def Let_def OUT_BYTES_def)
  then show ?thesis using h by (simp add: blake2b_def)
qed

end
