(* ===== verification/Argon2_Host.thy ===== *)
theory Argon2_Host
  imports Blake2b
begin

text \<open>
  The host side of Argon2 in \<open>argon2params.cpp\<close>: the long hash, the initial hash with its fast path,
  the two first blocks of each lane and the final digest, compared with the formulas of RFC 9106
  over the Blake2b of RFC 7693.
\<close>

section \<open>Parameters\<close>

definition store32 :: "u32 \<Rightarrow> byte list" where
  "store32 v = [ucast v, ucast (drop_bit 8 v), ucast (drop_bit 16 v), ucast (drop_bit 24 v)]"

definition ARGON2_BLOCK_SIZE :: nat where "ARGON2_BLOCK_SIZE = 1024"
definition ARGON2_SYNC_POINTS :: u64 where "ARGON2_SYNC_POINTS = 4"
definition ARGON2_PREHASH_DIGEST_LENGTH :: nat where "ARGON2_PREHASH_DIGEST_LENGTH = 64"
definition ARGON2_ID :: u32 where "ARGON2_ID = 2"
definition ARGON2_VERSION_13 :: u32 where "ARGON2_VERSION_13 = 0x13"

text \<open>The buffers behind the pointers \<open>secret\<close> and \<open>ad\<close> are byte lists; a null pointer with length
  zero is the empty list.\<close>

record Argon2Params =
  ap_type :: u32
  ap_version :: u32
  ap_secret :: "byte list"
  ap_ad :: "byte list"
  ap_salt :: string
  ap_outLen :: u32
  ap_secretLen :: u32
  ap_adLen :: u32
  ap_t_cost :: u32
  ap_m_cost :: u32
  ap_lanes :: u32
  ap_segmentBlocks :: u32

definition make_params ::
  "u32 \<Rightarrow> u32 \<Rightarrow> u64 \<Rightarrow> string \<Rightarrow> byte list \<Rightarrow> byte list \<Rightarrow> u64 \<Rightarrow> u64 \<Rightarrow> u64 \<Rightarrow> Argon2Params" where
  "make_params typ version outLen salt secret ad t_cost m_cost lanes =
     (let segments = lanes * ARGON2_SYNC_POINTS in
      \<lparr> ap_type = typ, ap_version = version, ap_secret = secret, ap_ad = ad, ap_salt = salt,
        ap_outLen = ucast outLen, ap_secretLen = word_of_nat (length secret), ap_adLen = word_of_nat (length ad),
        ap_t_cost = ucast t_cost, ap_m_cost = ucast m_cost, ap_lanes = ucast lanes,
        ap_segmentBlocks = ucast (max m_cost (2 * segments) div segments) \<rparr>)"

section \<open>The long hash\<close>

text \<open>\<open>digestLong\<close> uses one \<open>Blake2b\<close> object over and over; the loop carries it, the last 64 bytes
  computed and the output so far.\<close>

function digest_loop :: "nat \<Rightarrow> byte list \<Rightarrow> byte list \<Rightarrow> blake \<Rightarrow> byte list" where
  "digest_loop toProduce out out_buffer b =
     (if OUT_BYTES < toProduce
      then let (out_buffer', b') = blake_final OUT_BYTES (blake_update out_buffer (blake_init OUT_BYTES b))
           in digest_loop (toProduce - OUT_BYTES div 2) (out @ take (OUT_BYTES div 2) out_buffer') out_buffer' b'
      else out @ fst (blake_final toProduce (blake_update out_buffer (blake_init toProduce b))))"
  by pat_completeness auto
termination by (relation "measure (\<lambda>(n, _). n)") (auto simp: OUT_BYTES_def)

declare digest_loop.simps [simp del]

definition digestLong :: "nat \<Rightarrow> byte list \<Rightarrow> byte list" where
  "digestLong outLen input =
     (let outlen_bytes = store32 (word_of_nat outLen); b = new_blake in
      if outLen \<le> OUT_BYTES
      then fst (blake_final outLen (blake_update input (blake_update outlen_bytes (blake_init outLen b))))
      else
        let (out_buffer, b1) = blake_final OUT_BYTES
               (blake_update input (blake_update outlen_bytes (blake_init OUT_BYTES b)))
        in digest_loop (outLen - OUT_BYTES div 2) (take (OUT_BYTES div 2) out_buffer) out_buffer b1)"

section \<open>The initial hash\<close>

text \<open>\<open>std::stoi (text, nullptr, 16)\<close>: blanks, a sign, an optional \<open>0x\<close> and hexadecimal digits; it
  throws when there is no digit. The text here has at most two characters, so the value is in
  range.\<close>

fun hex_value :: "int \<Rightarrow> string \<Rightarrow> int" where
  "hex_value acc [] = acc"
| "hex_value acc (c # cs) = (case hex_nibble c of None \<Rightarrow> acc | Some n \<Rightarrow> hex_value (16 * acc + int n) cs)"

definition skip_0x :: "string \<Rightarrow> string" where
  "skip_0x t = (case t of
       c # x # d # rest \<Rightarrow>
         if c = CHR ''0'' \<and> (x = CHR ''x'' \<or> x = CHR ''X'') \<and> hex_nibble d \<noteq> None then d # rest else t
     | _ \<Rightarrow> t)"

definition stoi16 :: "string \<Rightarrow> int option" where
  "stoi16 t =
     (let t1 = dropWhile isspace t;
          neg = (t1 \<noteq> [] \<and> hd t1 = CHR ''-'');
          t2 = (if t1 \<noteq> [] \<and> (hd t1 = CHR ''-'' \<or> hd t1 = CHR ''+'') then tl t1 else t1);
          t3 = skip_0x t2
      in if t3 = [] \<or> hex_nibble (hd t3) = None then None
         else Some (if neg then - hex_value 0 t3 else hex_value 0 t3))"

fun hex_to_bytes :: "string \<Rightarrow> string + byte list" where
  "hex_to_bytes [] = Inr []"
| "hex_to_bytes [c] = (case stoi16 [c] of None \<Rightarrow> Inl ''stoi'' | Some v \<Rightarrow> Inr [word_of_int v])"
| "hex_to_bytes (c # d # rest) =
     (case stoi16 [c, d] of None \<Rightarrow> Inl ''stoi''
      | Some v \<Rightarrow> (case hex_to_bytes rest of Inl e \<Rightarrow> Inl e | Inr bytes \<Rightarrow> Inr (word_of_int v # bytes)))"

text \<open>Both branches of \<open>initialHash\<close>: with neither secret nor associated data the seven header words
  go in at once.\<close>

definition fold_update :: "byte list list \<Rightarrow> blake \<Rightarrow> blake" where
  "fold_update chunks b = fold blake_update chunks b"

definition initialHash :: "Argon2Params \<Rightarrow> byte list \<Rightarrow> string + byte list" where
  "initialHash p pwd =
     (let b = blake_init ARGON2_PREHASH_DIGEST_LENGTH new_blake; pwdLen = word_of_nat (length pwd) in
      if ap_secretLen p = 0 \<and> ap_adLen p = 0
      then
        let header = store32 (ap_lanes p) @ store32 (ap_outLen p) @ store32 (ap_m_cost p) @ store32 (ap_t_cost p) @
                     store32 (ap_version p) @ store32 (ap_type p) @ store32 pwdLen
        in case hex_to_bytes (ap_salt p) of Inl e \<Rightarrow> Inl e
           | Inr hexSalt \<Rightarrow>
               Inr (fst (blake_final ARGON2_PREHASH_DIGEST_LENGTH (fold_update
                 [header, pwd, store32 (word_of_nat (length hexSalt)), hexSalt,
                  store32 (ap_secretLen p) @ store32 (ap_adLen p)] b)))
      else
        case hex_to_bytes (ap_salt p) of Inl e \<Rightarrow> Inl e
        | Inr hexSalt \<Rightarrow>
            Inr (fst (blake_final ARGON2_PREHASH_DIGEST_LENGTH (fold_update
              [store32 (ap_lanes p), store32 (ap_outLen p), store32 (ap_m_cost p), store32 (ap_t_cost p),
               store32 (ap_version p), store32 (ap_type p), store32 pwdLen, pwd,
               store32 (word_of_nat (length hexSalt)), hexSalt,
               store32 (ap_secretLen p), take (unat (ap_secretLen p)) (ap_secret p),
               store32 (ap_adLen p), take (unat (ap_adLen p)) (ap_ad p)] b))))"

section \<open>First blocks and final digest\<close>

text \<open>The bytes written to \<open>memory\<close>: block 0 of every lane, then block 1 of every lane.\<close>

definition fillFirstBlocks :: "Argon2Params \<Rightarrow> byte list \<Rightarrow> string + byte list" where
  "fillFirstBlocks p pwd =
     (case initialHash p pwd of Inl e \<Rightarrow> Inl e
      | Inr initHash \<Rightarrow>
          let lane_block = (\<lambda>column l. digestLong ARGON2_BLOCK_SIZE (initHash @ store32 column @ store32 (word_of_nat l)));
              lanes = [0..<unat (ap_lanes p)]
          in Inr (concat (map (lane_block 0) lanes) @ concat (map (lane_block 1) lanes)))"

definition block_words :: "byte list \<Rightarrow> u64 list" where
  "block_words block = map (\<lambda>i. load64 (drop (i * 8) block)) [0..<ARGON2_BLOCK_SIZE div 8]"

text \<open>\<open>finalize\<close> reads the last block of every lane from \<open>memory\<close>.\<close>

definition argon2_finalize :: "Argon2Params \<Rightarrow> byte list \<Rightarrow> byte list" where
  "argon2_finalize p memory =
     (let outLen = unat (ap_outLen p) in
      if ap_lanes p = 1 then digestLong outLen (take ARGON2_BLOCK_SIZE memory)
      else
        let cursor = (\<lambda>l. block_words (drop (l * ARGON2_BLOCK_SIZE) memory));
            xored = foldl (\<lambda>acc l. map2 (XOR) acc (cursor l)) (cursor 0) [1..<unat (ap_lanes p)]
        in digestLong outLen (concat (map store64 xored)))"

section \<open>Reference formulas\<close>

text \<open>RFC 9106, section 3.3: the variable-length hash, with \<open>r = \<lceil>T/32\<rceil> - 2\<close>.\<close>

definition hash_chain :: "nat \<Rightarrow> byte list \<Rightarrow> nat \<Rightarrow> byte list" where
  "hash_chain T a i = (blake2b 64 ^^ i) (blake2b 64 (store32 (word_of_nat T) @ a))"

definition variable_hash :: "nat \<Rightarrow> byte list \<Rightarrow> byte list" where
  "variable_hash T a =
     (if T \<le> 64 then blake2b T (store32 (word_of_nat T) @ a)
      else let r = (T + 31) div 32 - 2 in
           concat (map (\<lambda>i. take 32 (hash_chain T a i)) [0..<r]) @ blake2b (T - 32 * r) (hash_chain T a (r - 1)))"

text \<open>RFC 9106, section 3.2: \<open>H0\<close> over the parameters, the password \<open>P\<close>, the salt \<open>S\<close>, the secret \<open>K\<close>
  and the associated data \<open>X\<close>, each with its length.\<close>

definition with_length :: "byte list \<Rightarrow> byte list" where
  "with_length x = store32 (word_of_nat (length x)) @ x"

definition argon2_H0 :: "u32 \<Rightarrow> u32 \<Rightarrow> u32 \<Rightarrow> u32 \<Rightarrow> u32 \<Rightarrow> u32 \<Rightarrow> byte list \<Rightarrow> byte list \<Rightarrow> byte list \<Rightarrow> byte list \<Rightarrow> byte list" where
  "argon2_H0 lanes tag_length m_cost passes version typ pwd salt secret ad =
     blake2b 64 (store32 lanes @ store32 tag_length @ store32 m_cost @ store32 passes @ store32 version @
       store32 typ @ with_length pwd @ with_length salt @ with_length secret @ with_length ad)"

section \<open>The host computes the reference\<close>

lemma update_chunks:
  assumes "length (bl_buf b) = 128"
  shows "stands_for (fold_update chunks (blake_init outlen b)) (bl_h (blake_init outlen new_blake)) (concat chunks)"
proof -
  have "stands_for (fold blake_update chunks c) h (msg @ concat chunks)" if "stands_for c h msg" for c h msg
    using that
  proof (induction chunks arbitrary: c msg)
    case (Cons x chunks)
    from Cons.IH [OF update_stands_for [OF Cons.prems, of x]] show ?case by simp
  qed simp
  from this [OF init_stands_for [OF assms]] show ?thesis by (simp add: fold_update_def)
qed

text \<open>Any use of the object: \<open>init\<close>, some \<open>update\<close> calls, \<open>final\<close>.\<close>

lemma blake_stream:
  assumes "length (bl_buf b) = 128"
  shows "fst (blake_final outlen (fold_update chunks (blake_init outlen b))) = blake2b outlen (concat chunks) \<and>
         length (bl_buf (snd (blake_final outlen (fold_update chunks (blake_init outlen b))))) = 128"
  using final_stands_for [OF update_chunks [OF assms]] by blast

lemma new_blake_buf: "length (bl_buf new_blake) = 128"
  by (simp add: new_blake_def)

lemma digest_loop_reference:
  assumes "length (bl_buf b) = 128" and "32 < n"
  shows "digest_loop n out v b =
    (let r = (n + 31) div 32 - 2 in
     out @ concat (map (\<lambda>i. take 32 ((blake2b 64 ^^ Suc i) v)) [0..<r]) @ blake2b (n - 32 * r) ((blake2b 64 ^^ r) v))"
  using assms
proof (induction n out v b rule: digest_loop.induct)
  case (1 n out v b)
  have one: "blake_update v (blake_init k b) = fold_update [v] (blake_init k b)" for k by (simp add: fold_update_def)
  show ?case
  proof (cases "64 < n")
    case False
    then have "(n + 31) div 32 - 2 = 0" using 1(3) by simp
    then show ?thesis
      using False 1(2) blake_stream [OF 1(2), of n "[v]"]
      by (simp add: digest_loop.simps [of n] OUT_BYTES_def one)
  next
    case True
    obtain v' b' where f: "blake_final 64 (blake_update v (blake_init 64 b)) = (v', b')" by fastforce
    have v': "v' = blake2b 64 v" "length (bl_buf b') = 128"
      using blake_stream [OF 1(2), of 64 "[v]"] f by (simp_all add: one)
    define r where "r = (n - 32 + 31) div 32 - 2"
    obtain m where m: "n = m + 65" using True less_iff_Suc_add [of 64 n] by auto
    then have "n + 31 = m + 3 * 32" "n - 32 + 31 = m + 2 * 32" by simp_all
    then have r: "(n + 31) div 32 - 2 = Suc r" unfolding r_def by (simp only: div_mult_self2 add.commute)
    have "digest_loop n out v b = digest_loop (n - 32) (out @ take 32 v') v' b'"
      using True f by (simp add: digest_loop.simps [of n] OUT_BYTES_def)
    also have "\<dots> = out @ take 32 v' @ concat (map (\<lambda>i. take 32 ((blake2b 64 ^^ Suc i) v')) [0..<r]) @
        blake2b (n - 32 - 32 * r) ((blake2b 64 ^^ r) v')"
      using 1(1) [of "(v', b')" v' b'] True f v'(2) by (simp add: OUT_BYTES_def r_def Let_def)
    also have "\<dots> = out @ concat (map (\<lambda>i. take 32 ((blake2b 64 ^^ Suc i) v)) [0..<Suc r]) @
        blake2b (n - 32 * Suc r) ((blake2b 64 ^^ Suc r) v)"
      unfolding v'(1) upt_conv_Cons [OF zero_less_Suc] map_Suc_upt [symmetric]
      by (simp add: funpow_swap1 comp_def)
    finally show ?thesis unfolding r Let_def .
  qed
qed


lemma digestLong_reference: "digestLong T a = variable_hash T a"
proof (cases "T \<le> 64")
  case True
  have "blake_update a (blake_update x b) = fold_update [x, a] b" for x b by (simp add: fold_update_def)
  then show ?thesis
    using True blake_stream [OF new_blake_buf, of T "[store32 (word_of_nat T), a]"]
    by (simp add: digestLong_def variable_hash_def OUT_BYTES_def Let_def)
next
  case False
  have two: "blake_update a (blake_update x b) = fold_update [x, a] b" for x b by (simp add: fold_update_def)
  obtain v b where f: "blake_final 64 (blake_update a (blake_update (store32 (word_of_nat T)) (blake_init 64 new_blake))) = (v, b)"
    by fastforce
  have v: "v = hash_chain T a 0" "length (bl_buf b) = 128"
    using blake_stream [OF new_blake_buf, of 64 "[store32 (word_of_nat T), a]"] f by (simp_all add: two hash_chain_def)
  obtain m where m: "T = m + 65" using False less_iff_Suc_add [of 64 T] by auto
  define r where "r = (T - 32 + 31) div 32 - 2"
  have "T + 31 = m + 3 * 32" "T - 32 + 31 = m + 2 * 32" using m by simp_all
  then have r: "(T + 31) div 32 - 2 = Suc r" unfolding r_def by (simp only: div_mult_self2 add.commute)
  have "digestLong T a = digest_loop (T - 32) (take 32 v) v b"
    using False f by (simp add: digestLong_def OUT_BYTES_def Let_def)
  also have "\<dots> = take 32 v @ concat (map (\<lambda>i. take 32 ((blake2b 64 ^^ Suc i) v)) [0..<r]) @
      blake2b (T - 32 - 32 * r) ((blake2b 64 ^^ r) v)"
    using digest_loop_reference [OF v(2), of "T - 32"] False unfolding Let_def r_def by simp
  also have "\<dots> = concat (map (\<lambda>i. take 32 (hash_chain T a i)) [0..<Suc r]) @ blake2b (T - 32 * Suc r) (hash_chain T a r)"
    unfolding v(1) upt_conv_Cons [OF zero_less_Suc] map_Suc_upt [symmetric]
    by (simp add: hash_chain_def funpow_swap1 comp_def)
  finally show ?thesis using False unfolding variable_hash_def r Let_def by simp
qed

lemma variable_hash_length: "length (variable_hash T a) = T"
proof (cases "T \<le> 64")
  case True
  then show ?thesis by (simp add: variable_hash_def blake2b_length)
next
  case False
  define r where "r = (T + 31) div 32 - 2"
  have chain: "length (hash_chain T a i) = 64" for i by (cases i) (simp_all add: hash_chain_def blake2b_length)
  have "length (concat (map (\<lambda>i. take 32 (hash_chain T a i)) [0..<r])) = 32 * r"
    by (simp add: length_concat comp_def chain sum_list_triv)
  moreover have "32 * r \<le> T" "T - 32 * r \<le> 64"
  proof -
    obtain m where m: "T = m + 65" using False less_iff_Suc_add [of 64 T] by auto
    then have "T + 31 = m + 3 * 32" by simp
    then have "r = m div 32 + 1" unfolding r_def by (simp only: div_mult_self2 add.commute)
    moreover have "32 * (m div 32) + m mod 32 = m" "m mod 32 < 32" by simp_all
    ultimately show "32 * r \<le> T" "T - 32 * r \<le> 64" using m by linarith+
  qed
  ultimately show ?thesis using False by (simp add: variable_hash_def r_def [symmetric] Let_def blake2b_length)
qed

lemma store32_length [simp]: "length (store32 v) = 4"
  by (simp add: store32_def)

lemma initialHash_reference:
  assumes "length secret < 2 ^ 32" and "length ad < 2 ^ 32"
  shows "initialHash (make_params typ version outLen salt secret ad t_cost m_cost lanes) pwd =
    (case hex_to_bytes salt of Inl e \<Rightarrow> Inl e
     | Inr s \<Rightarrow> Inr (argon2_H0 (ucast lanes) (ucast outLen) (ucast m_cost) (ucast t_cost) version typ pwd s secret ad))"
proof -
  have u: "unat (word_of_nat (length secret) :: u32) = length secret" "unat (word_of_nat (length ad) :: u32) = length ad"
    using assms by (simp_all add: unat_of_nat)
  have z: "(word_of_nat (length x) :: u32) = 0 \<longleftrightarrow> x = []" if "length x < 2 ^ 32" for x :: "byte list"
  proof -
    have "(word_of_nat (length x) :: u32) = 0 \<longleftrightarrow> unat (word_of_nat (length x) :: u32) = 0" by (simp add: unat_eq_0)
    then show ?thesis using that by (simp add: unat_of_nat)
  qed
  have s: "fst (blake_final 64 (fold_update chunks (blake_init 64 new_blake))) = blake2b 64 (concat chunks)" for chunks
    using blake_stream [OF new_blake_buf] by blast
  show ?thesis
    by (cases "secret = [] \<and> ad = []")
      (auto simp: initialHash_def make_params_def Let_def s argon2_H0_def with_length_def
          ARGON2_PREHASH_DIGEST_LENGTH_def u z [OF assms(1)] z [OF assms(2)] split: sum.splits)
qed

lemma nibble_stoi16:
  assumes "hex_nibble c = Some h" and "hex_nibble d = Some l"
  shows "stoi16 [c, d] = Some (16 * int h + int l)"
proof -
  have "\<not> isspace c" "c \<noteq> CHR ''-''" "c \<noteq> CHR ''+''"
    using assms(1) by (auto simp: hex_nibble_def isspace_def code_def Let_def split: if_splits)
  then show ?thesis using assms by (simp add: stoi16_def skip_0x_def Let_def)
qed

lemma hex_nibble_bound: "hex_nibble c = Some n \<Longrightarrow> n < 16"
  by (auto simp: hex_nibble_def Let_def split: if_splits)

lemma nibble_byte:
  assumes "h < 16" and "l < 16"
  shows "word_of_int (16 * int h + int l) = (push_bit 4 (word_of_nat h) OR word_of_nat l :: byte)"
proof -
  have "\<forall>h\<in>set [0..<16]. \<forall>l\<in>set [0..<16].
      word_of_int (16 * int h + int l) = (push_bit 4 (word_of_nat h) OR word_of_nat l :: byte)" by code_simp
  then show ?thesis using assms by simp
qed

text \<open>On hexadecimal text the salt is the one the PHC assembler decodes.\<close>

lemma hex_pairs_stoi:
  assumes "even (length s)" and "hex_pairs s = Inr bytes"
  shows "hex_to_bytes s = Inr bytes"
  using assms
proof (induction s arbitrary: bytes rule: hex_pairs.induct)
  case (1 c d rest)
  then obtain h l tail where hl: "hex_nibble c = Some h" "hex_nibble d = Some l" "hex_pairs rest = Inr tail"
    "bytes = (push_bit 4 (word_of_nat h) OR word_of_nat l) # tail"
    by (auto split: option.splits sum.splits)
  then show ?case
    using 1(1) [OF hl(1,2), of tail] 1(2) nibble_stoi16 [OF hl(1,2)]
      nibble_byte [OF hex_nibble_bound [OF hl(1)] hex_nibble_bound [OF hl(2)]] by simp
qed simp_all

lemma hexToBytes_stoi: "hexToBytes s = Inr bytes \<Longrightarrow> hex_to_bytes s = Inr bytes"
  by (rule hex_pairs_stoi) (auto simp: hexToBytes_def even_iff_mod_2_eq_zero split: if_splits)

section \<open>Properties\<close>



text \<open>
  C25 (the long hash): for every length the loop of \<open>digestLong\<close> ends with exactly that many bytes,
  which are the variable-length hash of RFC 9106, section 3.3.
\<close>

theorem digestLong_correct: "digestLong T a = variable_hash T a \<and> length (digestLong T a) = T"
  by (simp add: digestLong_reference variable_hash_length)

text \<open>
  C21 (first blocks): with a hexadecimal salt both branches of \<open>initialHash\<close> compute \<open>H0\<close> of RFC 9106
  over the salt the PHC string of a find carries, and \<open>fillFirstBlocks\<close> writes for every lane the
  blocks 0 and 1 that section 3.2 defines, 1024 bytes each.
\<close>

theorem first_blocks_reference:
  assumes "length secret < 2 ^ 32" and "length ad < 2 ^ 32" and "hexToBytes salt = Inr s"
    and "p = make_params typ version outLen salt secret ad t_cost m_cost lanes"
    and "h0 = argon2_H0 (ucast lanes) (ucast outLen) (ucast m_cost) (ucast t_cost) version typ pwd s secret ad"
  shows "initialHash p pwd = Inr h0 \<and>
    (\<exists>blocks. fillFirstBlocks p pwd = Inr (concat blocks) \<and> length blocks = 2 * unat (ap_lanes p) \<and>
       (\<forall>l < unat (ap_lanes p). \<forall>column < 2.
          blocks ! (column * unat (ap_lanes p) + l) =
            variable_hash 1024 (h0 @ store32 (word_of_nat column) @ store32 (word_of_nat l)) \<and>
          length (blocks ! (column * unat (ap_lanes p) + l)) = 1024))"
proof -
  have h0: "initialHash p pwd = Inr h0"
    using initialHash_reference [OF assms(1,2)] hexToBytes_stoi [OF assms(3)] assms(4,5) by simp
  let ?lane = "\<lambda>column l. variable_hash 1024 (h0 @ store32 column @ store32 (word_of_nat l))"
  let ?blocks = "map (?lane 0) [0..<unat (ap_lanes p)] @ map (?lane 1) [0..<unat (ap_lanes p)]"
  have "fillFirstBlocks p pwd = Inr (concat ?blocks)"
    by (simp add: fillFirstBlocks_def h0 Let_def digestLong_reference ARGON2_BLOCK_SIZE_def)
  moreover have "?blocks ! (column * unat (ap_lanes p) + l) = ?lane (word_of_nat column) l"
    if "l < unat (ap_lanes p)" "column < 2" for column l
  proof -
    have "column = 0 \<or> column = 1" using that(2) by linarith
    then show ?thesis using that(1) by (auto simp: nth_append)
  qed
  ultimately show ?thesis
    using h0 by (intro conjI exI [of _ ?blocks]) (simp_all add: variable_hash_length)
qed

theorem first_blocks_reference_witness:
  "initialHash (make_params ARGON2_ID ARGON2_VERSION_13 64 ''00ff'' [] [] 1 8 1) [1, 2, 3] =
     Inr (argon2_H0 1 64 8 1 ARGON2_VERSION_13 ARGON2_ID [1, 2, 3] [0, 255] [] [])"
proof -
  have "hexToBytes ''00ff'' = Inr [0, 255]" by code_simp
  from first_blocks_reference [OF _ _ this refl refl, of "[]" "[]" ARGON2_ID ARGON2_VERSION_13 64 1 8 1 "[1, 2, 3]"]
  show ?thesis by simp
qed

end
