(* ===== verification/Ref_Table.thy ===== *)
theory Ref_Table
  imports Blake2b
begin

text \<open>
  The precomputed reference table of \<open>hashapi/IndexedRefTable.{h,cpp}\<close>: a host copy of the device
  code that generates the data-independent addresses of Argon2id with 32 threads exchanging
  registers. The exchange network is compared with RFC 9106: two rounds of the permutation over rows
  and columns of an 8 x 8 matrix, the address blocks of section 3.4.1.2 and the mapping of an address
  to a block.
\<close>

section \<open>Lanes and words\<close>

definition u64_lo :: "u64 \<Rightarrow> u32" where "u64_lo x = ucast x"

definition u64_hi :: "u64 \<Rightarrow> u32" where "u64_hi x = ucast (drop_bit 32 x)"

definition u64_build :: "u32 \<Rightarrow> u32 \<Rightarrow> u64" where
  "u64_build hi lo = push_bit 32 (ucast hi) OR ucast lo"

definition lane_f :: "u64 \<Rightarrow> u64 \<Rightarrow> u64" where
  "lane_f x y =
     (let xlo = u64_lo x; ylo = u64_lo y;
          hi = ucast (drop_bit 32 ((ucast xlo :: u64) * ucast ylo)) :: u32;
          lo = xlo * ylo
      in x + y + 2 * u64_build hi lo)"

record lane =
  la :: u64
  lb :: u64
  lc :: u64
  ld :: u64

definition lane_g :: "lane \<Rightarrow> lane" where
  "lane_g block =
     (let a = la block; b = lb block; c = lc block; d = ld block;
          a = lane_f a b;
          d = rotr64 (d XOR a) 32;
          c = lane_f c d;
          b = rotr64 (b XOR c) 24;
          a = lane_f a b;
          d = rotr64 (d XOR a) 16;
          c = lane_f c d;
          b = rotr64 (b XOR c) 63
      in \<lparr> la = a, lb = b, lc = c, ld = d \<rparr>)"

definition lane_get :: "lane \<Rightarrow> nat \<Rightarrow> u64" where
  "lane_get b idx = (if idx = 0 then la b else if idx = 1 then lb b else if idx = 2 then lc b else ld b)"

definition kThreadsPerLane :: nat where "kThreadsPerLane = 32"
definition kQwordsInBlock :: nat where "kQwordsInBlock = 128"
definition kSyncPoints :: u32 where "kSyncPoints = 4"

definition threads :: "nat list" where "threads = [0..<kThreadsPerLane]"

section \<open>The exchange network\<close>

definition transpose_warp :: "lane list \<Rightarrow> lane list" where
  "transpose_warp snap =
     (let x1 = map (\<lambda>thread. let g1f = thread AND 0x4 \<noteq> 0; g2f = thread AND 0x8 \<noteq> 0; block = snap ! thread in
                 if g2f then (if g1f then lc block else ld block) else (if g1f then la block else lb block)) threads;
          x2 = map (\<lambda>thread. let g1f = thread AND 0x4 \<noteq> 0; g2f = thread AND 0x8 \<noteq> 0; block = snap ! thread in
                 if g2f then (if g1f then lb block else la block) else (if g1f then ld block else lc block)) threads;
          x3 = map (\<lambda>thread. let g1f = thread AND 0x4 \<noteq> 0; g2f = thread AND 0x8 \<noteq> 0; block = snap ! thread in
                 if g2f then (if g1f then la block else lb block) else (if g1f then lc block else ld block)) threads;
          y1 = map (\<lambda>thread. x1 ! (thread XOR 0x4)) threads;
          y2 = map (\<lambda>thread. x2 ! (thread XOR 0x8)) threads;
          y3 = map (\<lambda>thread. x3 ! (thread XOR 0xC)) threads
      in map (\<lambda>thread. let g1f = thread AND 0x4 \<noteq> 0; g2f = thread AND 0x8 \<noteq> 0; orig = snap ! thread in
           \<lparr> la = (if g2f then (if g1f then y3 ! thread else y2 ! thread) else (if g1f then y1 ! thread else la orig)),
             lb = (if g2f then (if g1f then y2 ! thread else y3 ! thread) else (if g1f then lb orig else y1 ! thread)),
             lc = (if g2f then (if g1f then y1 ! thread else lc orig) else (if g1f then y3 ! thread else y2 ! thread)),
             ld = (if g2f then (if g1f then ld orig else y1 ! thread) else (if g1f then y2 ! thread else y3 ! thread))
           \<rparr>) threads)"

text \<open>The four shuffles read \<open>b\<close>, \<open>c\<close> and \<open>d\<close> of other threads.\<close>

definition shift1_shuffle :: "lane list \<Rightarrow> lane list" where
  "shift1_shuffle snap = map (\<lambda>thread.
     let src_b = (thread AND 0x1c) OR ((thread + 1) AND 0x3); src_d = (thread AND 0x1c) OR ((thread + 3) AND 0x3)
     in (snap ! thread) \<lparr> lb := lb (snap ! src_b), lc := lc (snap ! (thread XOR 0x2)), ld := ld (snap ! src_d) \<rparr>) threads"

definition unshift1_shuffle :: "lane list \<Rightarrow> lane list" where
  "unshift1_shuffle snap = map (\<lambda>thread.
     let src_b = (thread AND 0x1c) OR ((thread + 3) AND 0x3); src_d = (thread AND 0x1c) OR ((thread + 1) AND 0x3)
     in (snap ! thread) \<lparr> lb := lb (snap ! src_b), lc := lc (snap ! (thread XOR 0x2)), ld := ld (snap ! src_d) \<rparr>) threads"

definition shift2_shuffle :: "lane list \<Rightarrow> lane list" where
  "shift2_shuffle snap = map (\<lambda>thread.
     let lo = (thread AND 0x1) OR drop_bit 3 (thread AND 0x10);
         src_b = push_bit 3 ((lo + 1) AND 0x2) OR (thread AND 0xe) OR ((lo + 1) AND 0x1);
         src_d = push_bit 3 ((lo + 3) AND 0x2) OR (thread AND 0xe) OR ((lo + 3) AND 0x1)
     in (snap ! thread) \<lparr> lb := lb (snap ! src_b), lc := lc (snap ! (thread XOR 0x10)), ld := ld (snap ! src_d) \<rparr>) threads"

definition unshift2_shuffle :: "lane list \<Rightarrow> lane list" where
  "unshift2_shuffle snap = map (\<lambda>thread.
     let lo = (thread AND 0x1) OR drop_bit 3 (thread AND 0x10);
         src_b = push_bit 3 ((lo + 3) AND 0x2) OR (thread AND 0xe) OR ((lo + 3) AND 0x1);
         src_d = push_bit 3 ((lo + 1) AND 0x2) OR (thread AND 0xe) OR ((lo + 1) AND 0x1)
     in (snap ! thread) \<lparr> lb := lb (snap ! src_b), lc := lc (snap ! (thread XOR 0x10)), ld := ld (snap ! src_d) \<rparr>) threads"

definition shuffle_block :: "lane list \<Rightarrow> lane list" where
  "shuffle_block warp =
     unshift2_shuffle (map lane_g (shift2_shuffle (map lane_g (transpose_warp
       (unshift1_shuffle (map lane_g (shift1_shuffle (map lane_g (transpose_warp warp)))))))))"

section \<open>Addresses\<close>

record BlockL =
  bk_lo :: "u32 list"
  bk_hi :: "u32 list"

definition block_l_store :: "lane list \<Rightarrow> BlockL" where
  "block_l_store warp =
     \<lparr> bk_lo = map (\<lambda>n. u64_lo (lane_get (warp ! (n mod 32)) (n div 32))) [0..<kQwordsInBlock],
       bk_hi = map (\<lambda>n. u64_hi (lane_get (warp ! (n mod 32)) (n div 32))) [0..<kQwordsInBlock] \<rparr>"

definition block_l_load_xor :: "lane list \<Rightarrow> BlockL \<Rightarrow> lane list" where
  "block_l_load_xor warp src = map (\<lambda>thread.
     let dst = warp ! thread; word = (\<lambda>k. u64_build (bk_hi src ! (k * 32 + thread)) (bk_lo src ! (k * 32 + thread))) in
     \<lparr> la = la dst XOR word 0, lb = lb dst XOR word 1, lc = lc dst XOR word 2, ld = ld dst XOR word 3 \<rparr>) threads"

definition next_addresses1 :: "u32 list \<Rightarrow> lane list" where
  "next_addresses1 thread_input =
     (let addr = map (\<lambda>thread. \<lparr> la = u64_build 0 (thread_input ! thread), lb = 0, lc = 0, ld = 0 \<rparr>) threads;
          addr = shuffle_block addr;
          addr = map (\<lambda>thread. (addr ! thread) \<lparr> la := la (addr ! thread) XOR u64_build 0 (thread_input ! thread) \<rparr>) threads;
          tmp = block_l_store addr
      in block_l_load_xor (shuffle_block addr) tmp)"

definition extract_ref_index :: "lane list \<Rightarrow> nat \<Rightarrow> u32" where
  "extract_ref_index addr addr_index =
     u64_lo (lane_get (addr ! (addr_index mod kThreadsPerLane)) (addr_index div kThreadsPerLane))"

section \<open>The table\<close>

definition segmentBlocksForDifficulty :: "u32 \<Rightarrow> u32 \<Rightarrow> u32" where
  "segmentBlocksForDifficulty memory_cost lanes =
     (let segments = lanes * 4 in
      if segments = 0 then 0
      else let min_blocks = 2 * segments; blocks = (if memory_cost < min_blocks then min_blocks else memory_cost)
           in blocks div segments)"

definition indexedRefCount :: "u32 \<Rightarrow> nat" where
  "indexedRefCount segment_blocks = (if segment_blocks < 2 then 0 else unat (2 * segment_blocks - 2))"

definition indexedRefIndex :: "u32 \<Rightarrow> u32 \<Rightarrow> u32 \<Rightarrow> nat" where
  "indexedRefIndex sl offset segment_blocks =
     (if sl = 0 then unat (offset - 2) else unat ((segment_blocks - 2) + offset))"

definition computeRefPos :: "u32 \<Rightarrow> u32 \<Rightarrow> u32 \<Rightarrow> u32 \<Rightarrow> u32" where
  "computeRefPos segment_blocks sl offset ref_index =
     (let ref_area_size = sl * segment_blocks + offset - 1;
          sq = (ucast ref_index :: u64) * ucast ref_index;
          index = ucast (drop_bit 32 sq) :: u32;
          area_x = (ucast ref_area_size :: u64) * ucast index
      in ref_area_size - 1 - ucast (drop_bit 32 area_x))"

type_synonym table_state = "lane list \<times> u32 list \<times> u32 list"

definition step_indexed :: "u32 \<Rightarrow> u32 \<Rightarrow> nat \<Rightarrow> table_state \<Rightarrow> table_state" where
  "step_indexed segment_blocks sl offset = (\<lambda>(addr, thread_input, table).
     let addr_index = offset mod kQwordsInBlock;
         (addr, thread_input) =
           (if addr_index = 0
            then let input = thread_input[6 := thread_input ! 6 + 1] in (next_addresses1 input, input)
            else (addr, thread_input));
         raw = extract_ref_index addr addr_index
     in (addr, thread_input, table @ [computeRefPos segment_blocks sl (word_of_nat offset) raw]))"

definition initial_input :: "u32 \<Rightarrow> u32 list" where
  "initial_input segment_blocks =
     (let lane_blocks = kSyncPoints * segment_blocks in
      map (\<lambda>thread. (if thread = 3 then lane_blocks else 0) + (if thread = 4 then 1 else 0) +
             (if thread = 5 then 2 else 0) + (if thread = 6 then 1 else 0)) threads)"

definition generateIndexedRefTable :: "u32 \<Rightarrow> u32 list" where
  "generateIndexedRefTable segment_blocks =
     (if indexedRefCount segment_blocks = 0 then []
      else
        let input = initial_input segment_blocks;
            (addr, input, table) =
              fold (step_indexed segment_blocks 0) [2..<unat segment_blocks] (next_addresses1 input, input, []);
            input = input[2 := input ! 2 + 1, 6 := 0];
            (addr, input, table) = fold (step_indexed segment_blocks 1) [0..<unat segment_blocks] (addr, input, table)
        in table)"


section \<open>The permutation of the reference\<close>

text \<open>RFC 9106, section 3.6: the permutation \<open>P\<close> on 16 words, four column steps and four diagonal
  steps; the compression function applies it to the rows and then to the columns of the block,
  columns being pairs of words.\<close>

definition gb :: "nat \<Rightarrow> nat \<Rightarrow> nat \<Rightarrow> nat \<Rightarrow> (nat \<Rightarrow> u64) \<Rightarrow> nat \<Rightarrow> u64" where
  "gb i j k l v =
     (let r = lane_g \<lparr> la = v i, lb = v j, lc = v k, ld = v l \<rparr>
      in v(i := la r, j := lb r, k := lc r, l := ld r))"

definition perm_P :: "(nat \<Rightarrow> u64) \<Rightarrow> nat \<Rightarrow> u64" where
  "perm_P v = gb 3 4 9 14 (gb 2 7 8 13 (gb 1 6 11 12 (gb 0 5 10 15
     (gb 3 7 11 15 (gb 2 6 10 14 (gb 1 5 9 13 (gb 0 4 8 12 v)))))))"

definition P_rows :: "(nat \<Rightarrow> u64) \<Rightarrow> nat \<Rightarrow> u64" where
  "P_rows w n = perm_P (\<lambda>m. w (16 * (n div 16) + m)) (n mod 16)"

definition P_cols :: "(nat \<Rightarrow> u64) \<Rightarrow> nat \<Rightarrow> u64" where
  "P_cols w n = perm_P (\<lambda>m. w (16 * (m div 2) + 2 * ((n mod 16) div 2) + m mod 2)) (2 * (n div 16) + n mod 2)"

text \<open>\<open>G (0, X)\<close>, and the block of addresses number \<open>counter\<close> of a slice in the first pass.\<close>

definition compress0 :: "(nat \<Rightarrow> u64) \<Rightarrow> nat \<Rightarrow> u64" where
  "compress0 x n = x n XOR P_cols (P_rows x) n"

definition address_input :: "u32 \<Rightarrow> u32 \<Rightarrow> u32 \<Rightarrow> nat \<Rightarrow> u64" where
  "address_input lane_blocks sl counter n =
     (if n = 2 then ucast sl else if n = 3 then ucast lane_blocks else if n = 4 then 1 else if n = 5 then 2
      else if n = 6 then ucast counter else 0)"

definition address_word :: "u32 \<Rightarrow> u32 \<Rightarrow> u32 \<Rightarrow> nat \<Rightarrow> u64" where
  "address_word lane_blocks sl counter = compress0 (compress0 (address_input lane_blocks sl counter))"

section \<open>The network computes the permutation\<close>

text \<open>Column and diagonal steps of \<open>P\<close>, written per position.\<close>

definition col_step :: "(nat \<Rightarrow> u64) \<Rightarrow> nat \<Rightarrow> lane" where
  "col_step v m = lane_g \<lparr> la = v m, lb = v (4 + m), lc = v (8 + m), ld = v (12 + m) \<rparr>"

definition diag_step :: "(nat \<Rightarrow> u64) \<Rightarrow> nat \<Rightarrow> lane" where
  "diag_step v m = lane_g \<lparr> la = la (col_step v m), lb = lb (col_step v ((m + 1) mod 4)),
     lc = lc (col_step v ((m + 2) mod 4)), ld = ld (col_step v ((m + 3) mod 4)) \<rparr>"

lemma less_4_cases: "(m :: nat) < 4 \<Longrightarrow> m = 0 \<or> m = 1 \<or> m = 2 \<or> m = 3"
  by linarith

lemma perm_P_explicit:
  assumes "m < 4"
  shows "perm_P v m = la (diag_step v m)" "perm_P v (4 + m) = lb (diag_step v ((m + 3) mod 4))"
    "perm_P v (8 + m) = lc (diag_step v ((m + 2) mod 4))" "perm_P v (12 + m) = ld (diag_step v ((m + 1) mod 4))"
  using less_4_cases [OF assms]
  by (auto simp: perm_P_def gb_def Let_def diag_step_def col_step_def numeral_2_eq_2 [symmetric])

lemma threads_upt: "threads = [0..<32]"
  by (simp add: threads_def kThreadsPerLane_def)

lemma nth_threads [simp]: "i < 32 \<Longrightarrow> map f threads ! i = f i"
  by (simp add: threads_upt)

text \<open>The groups of four threads that exchange registers.\<close>

definition group1 :: "nat \<Rightarrow> nat \<Rightarrow> nat" where
  "group1 t i = 4 * (t div 4) + (t mod 4 + i) mod 4"

definition lo2 :: "nat \<Rightarrow> nat" where
  "lo2 t = t mod 2 + 2 * (t div 16)"

definition group2 :: "nat \<Rightarrow> nat \<Rightarrow> nat" where
  "group2 t i = 16 * ((lo2 t + i) mod 4 div 2) + 2 * (t mod 16 div 2) + (lo2 t + i) mod 4 mod 2"

lemma shuffle_sources:
  "\<forall>t\<in>set [0..<32].
     (t AND 0x1c) OR ((t + 1) AND 0x3) = group1 t 1 \<and> t XOR 0x2 = group1 t 2 \<and>
     (t AND 0x1c) OR ((t + 3) AND 0x3) = group1 t 3 \<and>
     (let lo = (t AND 0x1) OR drop_bit 3 (t AND 0x10) in
      push_bit 3 ((lo + 1) AND 0x2) OR (t AND 0xe) OR ((lo + 1) AND 0x1) = group2 t 1 \<and>
      push_bit 3 ((lo + 3) AND 0x2) OR (t AND 0xe) OR ((lo + 3) AND 0x1) = group2 t 3) \<and>
     t XOR 0x10 = group2 t 2 \<and>
     group1 t 1 < 32 \<and> group1 t 2 < 32 \<and> group1 t 3 < 32 \<and> group2 t 1 < 32 \<and> group2 t 2 < 32 \<and> group2 t 3 < 32"
  by code_simp

definition gathered :: "(nat \<Rightarrow> lane) \<Rightarrow> nat \<Rightarrow> nat \<Rightarrow> nat \<Rightarrow> nat \<Rightarrow> lane" where
  "gathered L t i j k = \<lparr> la = la (L t), lb = lb (L i), lc = lc (L j), ld = ld (L k) \<rparr>"

lemma shuffles:
  "shift1_shuffle (map L threads) = map (\<lambda>t. gathered L t (group1 t 1) (group1 t 2) (group1 t 3)) threads"
  "unshift1_shuffle (map L threads) = map (\<lambda>t. gathered L t (group1 t 3) (group1 t 2) (group1 t 1)) threads"
  "shift2_shuffle (map L threads) = map (\<lambda>t. gathered L t (group2 t 1) (group2 t 2) (group2 t 3)) threads"
  "unshift2_shuffle (map L threads) = map (\<lambda>t. gathered L t (group2 t 3) (group2 t 2) (group2 t 1)) threads"
  unfolding shift1_shuffle_def unshift1_shuffle_def shift2_shuffle_def unshift2_shuffle_def
  using shuffle_sources by (auto simp: gathered_def Let_def threads_upt)


text \<open>Where the words of a block sit: in storage order, and after the transposition.\<close>

definition store_layout :: "(nat \<Rightarrow> u64) \<Rightarrow> nat \<Rightarrow> lane" where
  "store_layout w t = \<lparr> la = w t, lb = w (32 + t), lc = w (64 + t), ld = w (96 + t) \<rparr>"

definition row_of :: "nat \<Rightarrow> nat" where
  "row_of t = 2 * (t div 4 mod 4) + t div 16"

definition row_layout :: "(nat \<Rightarrow> u64) \<Rightarrow> nat \<Rightarrow> lane" where
  "row_layout w t = (let n = 16 * row_of t + t mod 4 in
     \<lparr> la = w n, lb = w (n + 4), lc = w (n + 8), ld = w (n + 12) \<rparr>)"

definition warp_of :: "(nat \<Rightarrow> lane) \<Rightarrow> lane list" where
  "warp_of L = map L threads"

lemma transpose_store: "transpose_warp (warp_of (store_layout w)) = warp_of (row_layout w)"
  by (simp add: transpose_warp_def warp_of_def threads_upt store_layout_def row_layout_def row_of_def Let_def
        upt_conv_Cons numeral_2_eq_2 [symmetric])

lemma transpose_row: "transpose_warp (warp_of (row_layout w)) = warp_of (store_layout w)"
  by (simp add: transpose_warp_def warp_of_def threads_upt store_layout_def row_layout_def row_of_def Let_def
        upt_conv_Cons numeral_2_eq_2 [symmetric])


lemma warp_of_cong: "(\<And>t. t < 32 \<Longrightarrow> L t = M t) \<Longrightarrow> warp_of L = warp_of M"
  by (simp add: warp_of_def threads_upt)

lemma map_warp_of: "map f (warp_of L) = warp_of (\<lambda>t. f (L t))"
  by (simp add: warp_of_def)

lemmas warp_shuffles = shuffles [folded warp_of_def]

text \<open>Two exchanges with a step after each, in one group \<open>g 0, \<dots>, g 3\<close> of threads: the threads hold the
  columns of a vector, and afterwards the columns of its image under \<open>P\<close>.\<close>

lemma network_round:
  fixes grp :: "nat \<Rightarrow> nat \<Rightarrow> nat"
  assumes "m < 4" and "t = g m"
    and "\<And>i j. i < 4 \<Longrightarrow> j < 4 \<Longrightarrow> grp (g i) j = g ((i + j) mod 4)"
    and "\<And>i. i < 4 \<Longrightarrow> L (g i) = \<lparr> la = v i, lb = v (4 + i), lc = v (8 + i), ld = v (12 + i) \<rparr>"
  shows "gathered (\<lambda>t. lane_g (gathered (\<lambda>t. lane_g (L t)) t (grp t 1) (grp t 2) (grp t 3)))
      t (grp t 3) (grp t 2) (grp t 1) =
    \<lparr> la = perm_P v m, lb = perm_P v (4 + m), lc = perm_P v (8 + m), ld = perm_P v (12 + m) \<rparr>"
proof -
  define N where "N = (\<lambda>t. lane_g (gathered (\<lambda>t. lane_g (L t)) t (grp t 1) (grp t 2) (grp t 3)))"
  have "lane_g (L (g i)) = col_step v i" if "i < 4" for i using assms(4) [OF that] by (simp add: col_step_def)
  then have "N (g i) = diag_step v i" if "i < 4" for i
    using that assms(3) [of i 1] assms(3) [of i 2] assms(3) [of i 3] by (simp add: N_def gathered_def diag_step_def)
  then have "gathered N (g m) (grp (g m) 3) (grp (g m) 2) (grp (g m) 1) =
      \<lparr> la = perm_P v m, lb = perm_P v (4 + m), lc = perm_P v (8 + m), ld = perm_P v (12 + m) \<rparr>"
    using assms(1,3) by (simp add: gathered_def perm_P_explicit [OF assms(1)])
  then show ?thesis unfolding N_def assms(2) .
qed

lemma group1_facts:
  "\<forall>t\<in>set [0..<32]. \<forall>i\<in>set [0..<4].
     t = group1 (4 * (t div 4)) (t mod 4) \<and> group1 (4 * (t div 4)) i mod 4 = i \<and>
     row_of (group1 (4 * (t div 4)) i) = row_of t \<and>
     (\<forall>j\<in>set [0..<4]. group1 (group1 (4 * (t div 4)) i) j = group1 (4 * (t div 4)) ((i + j) mod 4))"
  by code_simp

lemma row_round:
  "unshift1_shuffle (map lane_g (shift1_shuffle (map lane_g (warp_of (row_layout w))))) = warp_of (row_layout (P_rows w))"
  unfolding map_warp_of warp_shuffles
proof (rule warp_of_cong)
  fix t :: nat
  assume t: "t < 32"
  let ?g = "group1 (4 * (t div 4))" and ?v = "\<lambda>m. w (16 * row_of t + m)"
  note f = group1_facts [rule_format, of t, simplified, OF t]
  show "gathered (\<lambda>t. lane_g (gathered (\<lambda>t. lane_g (row_layout w t)) t (group1 t 1) (group1 t 2) (group1 t 3)))
      t (group1 t 3) (group1 t 2) (group1 t 1) = row_layout (P_rows w) t"
  proof (subst network_round [where g = ?g and m = "t mod 4" and v = ?v])
    show "t mod 4 < 4" by simp
    show "t = ?g (t mod 4)" using f [of 0] by simp
    show "group1 (?g i) j = ?g ((i + j) mod 4)" if "i < 4" "j < 4" for i j using f [of i] that by simp
    show "row_layout w (?g i) = \<lparr> la = ?v i, lb = ?v (4 + i), lc = ?v (8 + i), ld = ?v (12 + i) \<rparr>" if "i < 4" for i
      using f [of i] that by (simp add: row_layout_def Let_def algebra_simps)
    have n: "(16 * row_of t + t mod 4 + k) div 16 = row_of t" "(16 * row_of t + t mod 4 + k) mod 16 = k + t mod 4"
      if "k \<le> 12" for k
    proof -
      have "t mod 4 + k < 16" using that by (simp add: add.commute add_less_le_mono [of _ 4 _ 12, simplified])
      then show "(16 * row_of t + t mod 4 + k) div 16 = row_of t" "(16 * row_of t + t mod 4 + k) mod 16 = k + t mod 4"
        unfolding add.assoc by simp_all
    qed
    show "\<lparr> la = perm_P ?v (t mod 4), lb = perm_P ?v (4 + t mod 4), lc = perm_P ?v (8 + t mod 4),
        ld = perm_P ?v (12 + t mod 4) \<rparr> = row_layout (P_rows w) t"
      using n [of 0] n [of 4] n [of 8] n [of 12] by (simp only: row_layout_def P_rows_def Let_def add_0_right add_0_left order.refl zero_le)
  qed
qed

definition member2 :: "nat \<Rightarrow> nat \<Rightarrow> nat" where
  "member2 k i = 16 * (i div 2) + 2 * k + i mod 2"

lemma member2_facts:
  "\<forall>k\<in>set [0..<8]. \<forall>i\<in>set [0..<4]. lo2 (member2 k i) = i \<and> member2 k i mod 16 div 2 = k"
  by code_simp

lemma thread_member2: "\<forall>t\<in>set [0..<32]. t = member2 (t mod 16 div 2) (lo2 t) \<and> lo2 t < 4 \<and> t mod 16 div 2 < 8"
  by code_simp

lemma group2_member: "group2 t i = member2 (t mod 16 div 2) ((lo2 t + i) mod 4)"
  by (simp add: group2_def member2_def)

lemma col_round:
  "unshift2_shuffle (map lane_g (shift2_shuffle (map lane_g (warp_of (store_layout w))))) = warp_of (store_layout (P_cols w))"
  unfolding map_warp_of warp_shuffles
proof (rule warp_of_cong)
  fix t :: nat
  assume t: "t < 32"
  let ?k = "t mod 16 div 2"
  let ?v = "\<lambda>m. w (16 * (m div 2) + 2 * ?k + m mod 2)"
  note t = thread_member2 [rule_format, of t, simplified, OF t]
  then have k: "lo2 (member2 ?k i) = i \<and> member2 ?k i mod 16 div 2 = ?k" if "i < 4" for i
    using that member2_facts by simp
  show "gathered (\<lambda>t. lane_g (gathered (\<lambda>t. lane_g (store_layout w t)) t (group2 t 1) (group2 t 2) (group2 t 3)))
      t (group2 t 3) (group2 t 2) (group2 t 1) = store_layout (P_cols w) t"
  proof (subst network_round [where g = "member2 ?k" and m = "lo2 t" and v = ?v])
    show "lo2 t < 4" "t = member2 ?k (lo2 t)" using t by simp_all
    show "group2 (member2 ?k i) j = member2 ?k ((i + j) mod 4)" if "i < 4" "j < 4" for i j
      using k [OF that(1)] by (simp add: group2_member)
    show "store_layout w (member2 ?k i) = \<lparr> la = ?v i, lb = ?v (4 + i), lc = ?v (8 + i), ld = ?v (12 + i) \<rparr>" if "i < 4" for i
    proof -
      have "(4 * j + i) div 2 = 2 * j + i div 2" "(4 * j + i) mod 2 = i mod 2" for j by presburger+
      from this [of 1] this [of 2] this [of 3] show ?thesis by (simp add: store_layout_def member2_def algebra_simps)
    qed
    have n: "2 * ((32 * j + t) div 16) + (32 * j + t) mod 2 = 4 * j + lo2 t" "(32 * j + t) mod 16 = t mod 16" for j
    proof -
      have "(t + 2 * j * 16) div 16 = 2 * j + t div 16" "(t + 2 * j * 16) mod 16 = t mod 16" "(t + 16 * j * 2) mod 2 = t mod 2"
        by (rule div_mult_self1, simp) (rule mod_mult_self1)+
      moreover have "t + 2 * j * 16 = 32 * j + t" "t + 16 * j * 2 = 32 * j + t" by simp_all
      ultimately have "(32 * j + t) div 16 = 2 * j + t div 16" "(32 * j + t) mod 2 = t mod 2" "(32 * j + t) mod 16 = t mod 16"
        by metis+
      then show "2 * ((32 * j + t) div 16) + (32 * j + t) mod 2 = 4 * j + lo2 t" "(32 * j + t) mod 16 = t mod 16"
        by (simp_all add: lo2_def)
    qed
    show "\<lparr> la = perm_P ?v (lo2 t), lb = perm_P ?v (4 + lo2 t), lc = perm_P ?v (8 + lo2 t), ld = perm_P ?v (12 + lo2 t) \<rparr> =
        store_layout (P_cols w) t"
      using n [of 0] n [of 1] n [of 2] n [of 3] by (simp add: store_layout_def P_cols_def)
  qed
qed

lemma shuffle_block_reference:
  "shuffle_block (warp_of (store_layout w)) = warp_of (store_layout (P_cols (P_rows w)))"
  unfolding shuffle_block_def transpose_store row_round transpose_row col_round ..


section \<open>Addresses follow the reference\<close>

lemma u64_build_split: "u64_build (u64_hi x) (u64_lo x) = x"
  by (rule bit_word_eqI)
    (auto simp: u64_build_def u64_hi_def u64_lo_def bit_simps)

lemma u64_build_0: "u64_build 0 x = ucast x"
  by (simp add: u64_build_def)

lemma lane_get_layout: "k < 4 \<Longrightarrow> lane_get (store_layout w t) k = w (32 * k + t)"
  using less_4_cases [of k] by (auto simp: lane_get_def store_layout_def)

lemma store_words:
  assumes "n < 128"
  shows "bk_lo (block_l_store (warp_of (store_layout w))) ! n = u64_lo (w n)"
    "bk_hi (block_l_store (warp_of (store_layout w))) ! n = u64_hi (w n)"
proof -
  have "n mod 32 < 32" "n div 32 < 4" "32 * (n div 32) + n mod 32 = n" using assms by (simp_all add: div_less_iff_less_mult)
  then have "lane_get (warp_of (store_layout w) ! (n mod 32)) (n div 32) = w n"
    by (simp add: warp_of_def lane_get_layout)
  then show "bk_lo (block_l_store (warp_of (store_layout w))) ! n = u64_lo (w n)"
    "bk_hi (block_l_store (warp_of (store_layout w))) ! n = u64_hi (w n)"
    using assms by (simp_all add: block_l_store_def kQwordsInBlock_def)
qed

lemma load_xor_words:
  "block_l_load_xor (warp_of (store_layout v)) (block_l_store (warp_of (store_layout w)))
     = warp_of (store_layout (\<lambda>n. v n XOR w n))"
  unfolding block_l_load_xor_def warp_of_def [of "store_layout (\<lambda>n. v n XOR w n)"]
  by (simp add: threads_upt Let_def)
    (simp add: warp_of_def threads_upt store_words [unfolded warp_of_def threads_upt] u64_build_split store_layout_def)

lemma next_addresses_reference:
  assumes "\<And>t. t < 32 \<Longrightarrow> z t = ucast (thread_input ! t)" and "\<And>n. 32 \<le> n \<Longrightarrow> z n = 0"
  shows "next_addresses1 thread_input = warp_of (store_layout (compress0 (compress0 z)))"
proof -
  have z: "map (\<lambda>thread. \<lparr> la = u64_build 0 (thread_input ! thread), lb = 0, lc = 0, ld = 0 \<rparr>) threads = warp_of (store_layout z)"
    using assms by (simp add: warp_of_def threads_upt store_layout_def u64_build_0)
  have x: "map (\<lambda>thread. (warp_of (store_layout w) ! thread) \<lparr> la := la (warp_of (store_layout w) ! thread)
      XOR u64_build 0 (thread_input ! thread) \<rparr>) threads = warp_of (store_layout (\<lambda>n. z n XOR w n))" for w
    using assms by (simp add: warp_of_def threads_upt store_layout_def u64_build_0 xor.commute)
  have c: "(\<lambda>n. z n XOR P_cols (P_rows z) n) = compress0 z" for z by (rule ext) (simp add: compress0_def)
  have d: "(\<lambda>n. P_cols (P_rows z) n XOR z n) = compress0 z" for z by (rule ext) (simp add: compress0_def xor.commute)
  show ?thesis
    unfolding next_addresses1_def Let_def z shuffle_block_reference x c load_xor_words d ..
qed

lemma extract_reference:
  assumes "n < 128"
  shows "extract_ref_index (warp_of (store_layout w)) n = u64_lo (w n)"
proof -
  have "n mod 32 < 32" "n div 32 < 4" "32 * (n div 32) + n mod 32 = n" using assms by (simp_all add: div_less_iff_less_mult)
  then show ?thesis by (simp add: extract_ref_index_def kThreadsPerLane_def warp_of_def lane_get_layout)
qed

text \<open>The inputs of the 32 threads for a slice and a counter.\<close>

definition input_for :: "u32 \<Rightarrow> u32 \<Rightarrow> u32 \<Rightarrow> u32 list" where
  "input_for lane_blocks sl counter =
     map (\<lambda>t. if t = 2 then sl else if t = 3 then lane_blocks else if t = 4 then 1 else if t = 5 then 2
              else if t = 6 then counter else 0) threads"

lemma next_addresses_input:
  "next_addresses1 (input_for m sl counter) = warp_of (store_layout (address_word m sl counter))"
  unfolding address_word_def
  by (rule next_addresses_reference) (auto simp: input_for_def threads_upt address_input_def)

lemma input_update:
  "(input_for m sl counter)[6 := c] = input_for m sl c" "(input_for m sl counter)[2 := s] = input_for m s counter"
  "input_for m sl counter ! 6 = counter" "input_for m sl counter ! 2 = sl"
  by (auto simp: input_for_def threads_upt intro!: nth_equalityI simp: nth_list_update)

lemma initial_input_for: "initial_input seg = input_for (4 * seg) 0 1"
  by (auto simp: initial_input_def input_for_def kSyncPoints_def Let_def threads_upt)


section \<open>The table follows the reference\<close>

definition entry :: "u32 \<Rightarrow> u32 \<Rightarrow> nat \<Rightarrow> u32" where
  "entry seg sl o' = computeRefPos seg sl (word_of_nat o')
     (u64_lo (address_word (4 * seg) sl (word_of_nat (o' div 128 + 1)) (o' mod 128)))"

definition ready :: "u32 \<Rightarrow> u32 \<Rightarrow> nat \<Rightarrow> lane list \<Rightarrow> u32 list \<Rightarrow> bool" where
  "ready seg sl o' addr input =
     (if o' mod 128 = 0 then input = input_for (4 * seg) sl (word_of_nat (o' div 128))
      else input = input_for (4 * seg) sl (word_of_nat (o' div 128 + 1)) \<and>
           addr = warp_of (store_layout (address_word (4 * seg) sl (word_of_nat (o' div 128 + 1)))))"

lemma ready_Suc:
  assumes "input = input_for (4 * seg) sl (word_of_nat (o' div 128 + 1))"
    and "addr = warp_of (store_layout (address_word (4 * seg) sl (word_of_nat (o' div 128 + 1))))"
  shows "ready seg sl (Suc o') addr input"
proof (cases "Suc o' mod 128 = 0")
  case True
  then have "Suc o' div 128 = o' div 128 + 1" by (simp add: div_Suc)
  then show ?thesis using True assms by (simp add: ready_def)
next
  case False
  then have "Suc o' div 128 = o' div 128" by (simp add: div_Suc)
  then show ?thesis using False assms by (simp add: ready_def)
qed

lemma step_indexed_entry:
  assumes "ready seg sl o' addr input"
  shows "\<exists>addr' input'. step_indexed seg sl o' (addr, input, tbl) = (addr', input', tbl @ [entry seg sl o']) \<and>
           ready seg sl (Suc o') addr' input'"
proof -
  let ?c = "word_of_nat (o' div 128 + 1) :: u32"
  have "step_indexed seg sl o' (addr, input, tbl) =
      (warp_of (store_layout (address_word (4 * seg) sl ?c)), input_for (4 * seg) sl ?c, tbl @ [entry seg sl o'])"
  proof (cases "o' mod 128 = 0")
    case True
    then have "input[6 := input ! 6 + 1] = input_for (4 * seg) sl ?c"
      using assms by (simp add: ready_def input_update add.commute)
    then show ?thesis
      using True extract_reference [of 0 "address_word (4 * seg) sl ?c"]
      by (simp add: step_indexed_def kQwordsInBlock_def Let_def next_addresses_input entry_def)
  next
    case False
    then show ?thesis
      using assms extract_reference [of "o' mod 128" "address_word (4 * seg) sl ?c"]
      by (simp add: step_indexed_def kQwordsInBlock_def Let_def ready_def entry_def)
  qed
  then show ?thesis using ready_Suc by blast
qed

lemma slice_loop:
  assumes "ready seg sl a addr input" and "a \<le> b"
  shows "\<exists>addr' input'. fold (step_indexed seg sl) [a..<b] (addr, input, tbl)
           = (addr', input', tbl @ map (entry seg sl) [a..<b]) \<and> ready seg sl b addr' input'"
  using assms(2)
proof (induction b)
  case 0
  then show ?case using assms(1) by simp
next
  case (Suc b)
  show ?case
  proof (cases "a = Suc b")
    case False
    then have ab: "a \<le> b" using Suc.prems by simp
    from Suc.IH [OF this] obtain addr1 input1 where
      "fold (step_indexed seg sl) [a..<b] (addr, input, tbl) = (addr1, input1, tbl @ map (entry seg sl) [a..<b])"
      "ready seg sl b addr1 input1" by blast
    with step_indexed_entry [OF this(2), of "tbl @ map (entry seg sl) [a..<b]"] ab show ?thesis by auto
  qed (use assms(1) in simp)
qed

lemma generate_entries:
  assumes "2 \<le> unat seg" and "unat seg < 2 ^ 31"
  shows "generateIndexedRefTable seg = map (entry seg 0) [2..<unat seg] @ map (entry seg 1) [0..<unat seg]"
    "indexedRefCount seg = 2 * unat seg - 2"
proof -
  have "unat (2 * seg - 2) = 2 * unat seg - 2"
  proof -
    have d: "unat (2 * seg) = 2 * unat seg" using assms(2) by (simp add: unat_word_ariths)
    moreover have "2 \<le> 2 * seg" using d assms(1) by (simp add: word_le_nat_alt)
    ultimately show ?thesis by (simp add: unat_sub)
  qed
  moreover have "\<not> seg < 2" using assms(1) by (simp add: word_less_nat_alt)
  ultimately show count: "indexedRefCount seg = 2 * unat seg - 2" by (simp add: indexedRefCount_def)
  let ?input = "initial_input seg"
  have "ready seg 0 2 (next_addresses1 ?input) ?input"
    by (simp add: ready_def initial_input_for next_addresses_input)
  from slice_loop [OF this assms(1), of "[]"] obtain a1 i1 where
    one: "fold (step_indexed seg 0) [2..<unat seg] (next_addresses1 ?input, ?input, []) =
       (a1, i1, map (entry seg 0) [2..<unat seg])" "ready seg 0 (unat seg) a1 i1" by auto
  obtain c where i1: "i1 = input_for (4 * seg) 0 c" using one(2) by (auto simp: ready_def split: if_splits)
  have "ready seg 1 0 a1 (i1[2 := i1 ! 2 + 1, 6 := 0])" by (simp add: ready_def i1 input_update)
  from slice_loop [OF this, of "unat seg" "map (entry seg 0) [2..<unat seg]"] obtain a2 i2 where
    two: "fold (step_indexed seg 1) [0..<unat seg] (a1, i1[2 := i1 ! 2 + 1, 6 := 0], map (entry seg 0) [2..<unat seg]) =
       (a2, i2, map (entry seg 0) [2..<unat seg] @ map (entry seg 1) [0..<unat seg])" by auto
  show "generateIndexedRefTable seg = map (entry seg 0) [2..<unat seg] @ map (entry seg 1) [0..<unat seg]"
    using count assms(1) one(1) two unfolding generateIndexedRefTable_def Let_def by simp
qed

text \<open>The mapping of an address stays inside the area of blocks already filled.\<close>

lemma scaled_bound:
  fixes area index :: u32
  assumes "1 \<le> unat area"
  shows "unat (area - 1 - ucast (drop_bit 32 ((ucast area :: u64) * ucast index))) < unat area"
proof -
  define y where "y = unat area * unat index div 2 ^ 32"
  have b: "unat area < 2 ^ 32" "unat index < 2 ^ 32" using unsigned_less [of area] unsigned_less [of index] by simp_all
  have lt: "unat area * unat index < 2 ^ 64"
    using mult_strict_mono [OF b] by simp
  have u: "unat (ucast area :: u64) = unat area" "unat (ucast index :: u64) = unat index"
    using order_less_trans [OF b(1), of "2 ^ 64"] order_less_trans [OF b(2), of "2 ^ 64"]
    by (simp_all add: unsigned_ucast_eq take_bit_nat_eq_self_iff)
  have "unat ((ucast area :: u64) * ucast index) = unat area * unat index"
    unfolding unat_word_ariths u using lt by simp
  then have d: "unat (drop_bit 32 ((ucast area :: u64) * ucast index)) = y"
    unfolding unat_drop_bit_eq y_def by (simp only: drop_bit_eq_div)
  have y: "y < unat area"
  proof -
    have "unat area * unat index < unat area * 2 ^ 32" using assms b(2) by simp
    then show ?thesis unfolding y_def by (simp add: div_less_iff_less_mult)
  qed
  have c: "unat (ucast (drop_bit 32 ((ucast area :: u64) * ucast index)) :: u32) = y"
    using order_less_trans [OF y b(1)] d by (simp add: unsigned_ucast_eq take_bit_nat_eq_self_iff)
  have a: "unat (area - 1) = unat area - 1" using assms by (simp add: unat_sub word_le_nat_alt)
  have "ucast (drop_bit 32 ((ucast area :: u64) * ucast index)) \<le> area - 1"
    using y unfolding word_le_nat_alt c a by linarith
  then have "unat (area - 1 - ucast (drop_bit 32 ((ucast area :: u64) * ucast index))) = unat area - 1 - y"
    by (simp add: unat_sub c a)
  then show ?thesis using y by simp
qed

lemma computeRefPos_bound:
  "1 \<le> unat (sl * seg + off - 1) \<Longrightarrow> unat (computeRefPos seg sl off j) < unat (sl * seg + off - 1)"
  unfolding computeRefPos_def Let_def by (rule scaled_bound)

section \<open>Properties\<close>



end
