(* ===== verification/Argon2_Kernel.thy ===== *)
theory Argon2_Kernel
  imports Ref_Table
begin

text \<open>
  The device code of \<open>kernelrunner.cu\<close> that fills the memory of one hash: 32 threads of a warp hold a
  block in their registers, exchange them by shuffles and compute one block after the other. The
  hand-written PTX of the mixing step, the two variants of the kernel and the reference filling of
  RFC 9106 (one pass, one lane) are compared. A warp is modelled as the list of the registers of its
  threads: they meet at every shuffle, and between two shuffles a thread touches only its own words
  of the shared and of the global block.
\<close>

section \<open>Registers and shuffles\<close>

definition device_u64_shuffle :: "u64 list \<Rightarrow> nat \<Rightarrow> u64 list" where
  "device_u64_shuffle v thread_src = map (\<lambda>thread.
     let lo = ucast (v ! (thread_src mod kThreadsPerLane)) :: u32;
         hi = ucast (drop_bit 32 (v ! (thread_src mod kThreadsPerLane))) :: u32
     in push_bit 32 (ucast hi) OR ucast lo) threads"

text \<open>\<open>TM_SHFL\<close> with a source lane per thread, and \<open>TM_SHFL_XOR\<close>, 32 lanes wide.\<close>

definition tm_shfl :: "u64 list \<Rightarrow> (nat \<Rightarrow> nat) \<Rightarrow> u64 list" where
  "tm_shfl v src_lane = map (\<lambda>thread. v ! (src_lane thread mod kThreadsPerLane)) threads"

definition tm_shfl_xor :: "u64 list \<Rightarrow> nat \<Rightarrow> u64 list" where
  "tm_shfl_xor v msk = map (\<lambda>thread. v ! ((thread XOR msk) mod kThreadsPerLane)) threads"

definition block_th_get_uniform :: "lane \<Rightarrow> nat \<Rightarrow> u64" where
  "block_th_get_uniform b idx = (if idx = 0 then la b else if idx = 1 then lb b else if idx = 2 then lc b else ld b)"

section \<open>The mixing step\<close>

definition umulhi :: "u32 \<Rightarrow> u32 \<Rightarrow> u32" where
  "umulhi x y = ucast (drop_bit 32 ((ucast x :: u64) * ucast y))"

definition device_f :: "u64 \<Rightarrow> u64 \<Rightarrow> u64" where
  "device_f x y = (let xlo = u64_lo x; ylo = u64_lo y in x + y + 2 * u64_build (umulhi xlo ylo) (xlo * ylo))"

definition g1 :: "lane \<Rightarrow> lane" where
  "g1 block =
     (let a = la block; b = lb block; c = lc block; d = ld block;
          a = device_f a b;
          d = rotr64 (d XOR a) 32;
          c = device_f c d;
          b = rotr64 (b XOR c) 24;
          a = device_f a b;
          d = rotr64 (d XOR a) 16;
          c = device_f c d;
          b = rotr64 (b XOR c) 63
      in \<lparr> la = a, lb = b, lc = c, ld = d \<rparr>)"

text \<open>The PTX instructions of \<open>g\<close>. \<open>mov.b64 x, {l, h}\<close> packs with the low half first and
  \<open>mov.b64 {l, h}, x\<close> unpacks; \<open>prmt.b32\<close> picks four of the eight bytes of two registers by the digits
  of its selector (the selectors used have no sign digit).\<close>

definition prmt_byte :: "u32 \<Rightarrow> u32 \<Rightarrow> u32 \<Rightarrow> nat \<Rightarrow> u32" where
  "prmt_byte a b sel i =
     (let n = unat (drop_bit (4 * i) sel AND 7) in
      take_bit 8 (if n < 4 then drop_bit (8 * n) a else drop_bit (8 * (n - 4)) b))"

definition prmt :: "u32 \<Rightarrow> u32 \<Rightarrow> u32 \<Rightarrow> u32" where
  "prmt a b sel = prmt_byte a b sel 0 OR push_bit 8 (prmt_byte a b sel 1) OR
     push_bit 16 (prmt_byte a b sel 2) OR push_bit 24 (prmt_byte a b sel 3)"

definition ptx_g :: "lane \<Rightarrow> lane" where
  "ptx_g block =
     (let a = la block; b = lb block; c = lc block; d = ld block;
          s = a + b;
          l1 = u64_lo a;
          l2 = u64_lo b;
          h1 = umulhi l1 l2;
          l1 = l1 * l2;
          x = u64_build h1 l1;
          x = push_bit 1 x;
          a = s + x;

          x = d XOR a;
          h2 = u64_lo x; l2 = u64_hi x;
          d = u64_build h2 l2;

          s = c + d;
          l1 = u64_lo c;
          h1 = umulhi l1 l2;
          l1 = l1 * l2;
          x = u64_build h1 l1;
          x = push_bit 1 x;
          c = s + x;

          x = b XOR c;
          l1 = u64_lo x; h1 = u64_hi x;
          l2 = prmt l1 h1 0x6543;
          h2 = prmt l1 h1 0x2107;
          b = u64_build h2 l2;

          s = a + b;
          l1 = u64_lo a;
          h1 = umulhi l1 l2;
          l1 = l1 * l2;
          x = u64_build h1 l1;
          x = push_bit 1 x;
          a = s + x;

          x = d XOR a;
          l1 = u64_lo x; h1 = u64_hi x;
          l2 = prmt l1 h1 0x5432;
          h2 = prmt l1 h1 0x1076;
          d = u64_build h2 l2;

          s = c + d;
          l1 = u64_lo c;
          h1 = umulhi l1 l2;
          l1 = l1 * l2;
          x = u64_build h1 l1;
          x = push_bit 1 x;
          c = s + x;

          x = b XOR c;
          s = push_bit 1 x;
          x = drop_bit 63 x;
          b = s + x
      in \<lparr> la = a, lb = b, lc = c, ld = d \<rparr>)"

lemma device_f_lane_f: "device_f = lane_f"
  by (simp add: fun_eq_iff device_f_def lane_f_def umulhi_def Let_def)

lemma g1_lane_g: "g1 = lane_g"
  by (simp add: fun_eq_iff g1_def lane_g_def device_f_lane_f)

lemma ptx_f: "s = x + y \<Longrightarrow> s + push_bit 1 (u64_build (umulhi (u64_lo x) (u64_lo y)) (u64_lo x * u64_lo y)) = lane_f x y"
  by (simp add: lane_f_def umulhi_def Let_def push_bit_eq_mult)

lemma bit64: "bit (x :: u64) n \<Longrightarrow> n < 64"
  using bit_imp_le_length [of x n] by simp

lemma ptx_rot32: "u64_build (u64_lo x) (u64_hi x) = rotr64 x 32"
  by (rule bit_word_eqI) (auto simp: u64_build_def u64_hi_def u64_lo_def rotr64_def bit_simps dest: bit64)

lemma ptx_rot63: "push_bit 1 x + drop_bit 63 x = rotr64 x 63"
proof -
  have "bit (push_bit 1 x AND drop_bit 63 x) n = bit 0 n" for n
    unfolding bit_and_iff bit_push_bit_iff bit_drop_bit_eq using bit64 [of x "63 + n"] by auto
  then have "push_bit 1 x AND drop_bit 63 x = 0" by (intro bit_word_eqI)
  then show ?thesis by (simp add: rotr64_def disjunctive_add_eq_or or.commute)
qed

text \<open>The four byte selections, bit by bit.\<close>

lemma prmt_bits:
  "\<forall>n\<in>set [0..<32]. bit (prmt (u64_lo x) (u64_hi x) 0x6543) n = bit x (n + 24)"
  "\<forall>n\<in>set [0..<32]. bit (prmt (u64_lo x) (u64_hi x) 0x2107) n = bit x ((n + 56) mod 64)"
  "\<forall>n\<in>set [0..<32]. bit (prmt (u64_lo x) (u64_hi x) 0x5432) n = bit x (n + 16)"
  "\<forall>n\<in>set [0..<32]. bit (prmt (u64_lo x) (u64_hi x) 0x1076) n = bit x ((n + 48) mod 64)"
  by ((simp add: upt_conv_Cons prmt_def prmt_byte_def u64_lo_def u64_hi_def bit_simps;
       (simp add: eval_nat_numeral)?)+)

lemma rotr64_bit:
  assumes "n < 64" and "k < 64" and "0 < k"
  shows "bit (rotr64 x k) n = bit x ((n + k) mod 64)"
proof (cases "n + k < 64")
  case True
  then show ?thesis using assms by (auto simp: rotr64_def bit_simps add.commute)
next
  case False
  then have "(n + k) mod 64 = n + k - 64" using assms by (simp add: mod_if)
  then show ?thesis using False assms by (auto simp: rotr64_def bit_simps add.commute dest: bit64)
qed

lemma ptx_rotr:
  assumes lo: "\<forall>n\<in>set [0..<32]. bit lo n = bit x (n + k)"
    and hi: "\<forall>n\<in>set [0..<32]. bit hi n = bit x ((n + 32 + k) mod 64)" and "0 < k" and "k \<le> 32"
  shows "u64_build hi lo = rotr64 x k"
proof (rule bit_word_eqI)
  fix n
  assume "n < LENGTH(64)"
  then have n: "n < 64" by simp
  show "bit (u64_build hi lo) n = bit (rotr64 x k) n"
  proof (cases "n < 32")
    case True
    then have "bit (u64_build hi lo) n = bit lo n" by (auto simp: u64_build_def bit_simps)
    also have "\<dots> = bit x (n + k)" using lo True by simp
    finally show ?thesis using True assms(3,4) by (simp add: rotr64_bit)
  next
    case False
    have "\<not> bit lo n" using False bit_imp_le_length [of lo n] by auto
    then have "bit (u64_build hi lo) n = bit hi (n - 32)" using n False by (auto simp: u64_build_def bit_simps)
    also have "\<dots> = bit x ((n - 32 + 32 + k) mod 64)" using hi n False by simp
    finally show ?thesis using n False assms(3,4) by (simp add: rotr64_bit)
  qed
qed

lemma ptx_rot24: "u64_build (prmt (u64_lo x) (u64_hi x) 0x2107) (prmt (u64_lo x) (u64_hi x) 0x6543) = rotr64 x 24"
  by (rule ptx_rotr [OF prmt_bits(1)]) (use prmt_bits(2) in \<open>simp_all add: add.commute\<close>)

lemma ptx_rot16: "u64_build (prmt (u64_lo x) (u64_hi x) 0x1076) (prmt (u64_lo x) (u64_hi x) 0x5432) = rotr64 x 16"
  by (rule ptx_rotr [OF prmt_bits(3)]) (use prmt_bits(4) in \<open>simp_all add: add.commute\<close>)

lemma u64_lo_build: "u64_lo (u64_build hi lo) = lo"
  by (rule bit_word_eqI) (auto simp: u64_build_def u64_lo_def bit_simps)

lemma ptx_g_lane_g: "ptx_g = lane_g"
proof
  fix block
  have f: "x + y + push_bit 1 (u64_build (umulhi (u64_lo x) (u64_lo y)) (u64_lo x * u64_lo y)) = lane_f x y" for x y
    by (rule ptx_f [OF refl])
  have lo: "u64_hi x = u64_lo (rotr64 x 32)"
    "prmt (u64_lo x) (u64_hi x) 0x6543 = u64_lo (rotr64 x 24)"
    "prmt (u64_lo x) (u64_hi x) 0x5432 = u64_lo (rotr64 x 16)" for x
    unfolding ptx_rot32 [symmetric] ptx_rot24 [symmetric] ptx_rot16 [symmetric] u64_lo_build by (rule refl)+
  show "ptx_g block = lane_g block"
    unfolding ptx_g_def lane_g_def Let_def ptx_rot32 ptx_rot24 ptx_rot16 ptx_rot63
    unfolding lo(2,3) unfolding lo(1) unfolding f ..
qed

section \<open>The device functions on a warp\<close>

definition device_transpose :: "lane list \<Rightarrow> lane list" where
  "device_transpose warp =
     (let x1 = map (\<lambda>thread. let g1 = thread AND 0x4 \<noteq> 0; g2 = thread AND 0x8 \<noteq> 0; block = warp ! thread in
                 if g2 then (if g1 then lc block else ld block) else (if g1 then la block else lb block)) threads;
          x2 = map (\<lambda>thread. let g1 = thread AND 0x4 \<noteq> 0; g2 = thread AND 0x8 \<noteq> 0; block = warp ! thread in
                 if g2 then (if g1 then lb block else la block) else (if g1 then ld block else lc block)) threads;
          x3 = map (\<lambda>thread. let g1 = thread AND 0x4 \<noteq> 0; g2 = thread AND 0x8 \<noteq> 0; block = warp ! thread in
                 if g2 then (if g1 then la block else lb block) else (if g1 then lc block else ld block)) threads;
          x1 = tm_shfl_xor x1 0x4;
          x2 = tm_shfl_xor x2 0x8;
          x3 = tm_shfl_xor x3 0xC
      in map (\<lambda>thread. let g1 = thread AND 0x4 \<noteq> 0; g2 = thread AND 0x8 \<noteq> 0; block = warp ! thread in
           \<lparr> la = (if g2 then (if g1 then x3 ! thread else x2 ! thread) else (if g1 then x1 ! thread else la block)),
             lb = (if g2 then (if g1 then x2 ! thread else x3 ! thread) else (if g1 then lb block else x1 ! thread)),
             lc = (if g2 then (if g1 then x1 ! thread else lc block) else (if g1 then x3 ! thread else x2 ! thread)),
             ld = (if g2 then (if g1 then ld block else x1 ! thread) else (if g1 then x2 ! thread else x3 ! thread))
           \<rparr>) threads)"

definition exchange :: "(nat \<Rightarrow> nat) \<Rightarrow> nat \<Rightarrow> (nat \<Rightarrow> nat) \<Rightarrow> lane list \<Rightarrow> lane list" where
  "exchange src_thr_b mask_c src_thr_d warp =
     (let b = tm_shfl (map lb warp) src_thr_b; c = tm_shfl_xor (map lc warp) mask_c; d = tm_shfl (map ld warp) src_thr_d
      in map (\<lambda>thread. (warp ! thread) \<lparr> lb := b ! thread, lc := c ! thread, ld := d ! thread \<rparr>) threads)"

definition device_shift1_shuffle :: "lane list \<Rightarrow> lane list" where
  "device_shift1_shuffle = exchange (\<lambda>thread. (thread AND 0x1c) OR ((thread + 1) AND 0x3)) 0x2
     (\<lambda>thread. (thread AND 0x1c) OR ((thread + 3) AND 0x3))"

definition device_unshift1_shuffle :: "lane list \<Rightarrow> lane list" where
  "device_unshift1_shuffle = exchange (\<lambda>thread. (thread AND 0x1c) OR ((thread + 3) AND 0x3)) 0x2
     (\<lambda>thread. (thread AND 0x1c) OR ((thread + 1) AND 0x3))"

definition device_shift2_shuffle :: "lane list \<Rightarrow> lane list" where
  "device_shift2_shuffle =
     exchange
       (\<lambda>thread. let lo = (thread AND 0x1) OR drop_bit 3 (thread AND 0x10)
                 in push_bit 3 ((lo + 1) AND 0x2) OR (thread AND 0xe) OR ((lo + 1) AND 0x1)) 0x10
       (\<lambda>thread. let lo = (thread AND 0x1) OR drop_bit 3 (thread AND 0x10)
                 in push_bit 3 ((lo + 3) AND 0x2) OR (thread AND 0xe) OR ((lo + 3) AND 0x1))"

definition device_unshift2_shuffle :: "lane list \<Rightarrow> lane list" where
  "device_unshift2_shuffle =
     exchange
       (\<lambda>thread. let lo = (thread AND 0x1) OR drop_bit 3 (thread AND 0x10)
                 in push_bit 3 ((lo + 3) AND 0x2) OR (thread AND 0xe) OR ((lo + 3) AND 0x1)) 0x10
       (\<lambda>thread. let lo = (thread AND 0x1) OR drop_bit 3 (thread AND 0x10)
                 in push_bit 3 ((lo + 1) AND 0x2) OR (thread AND 0xe) OR ((lo + 1) AND 0x1))"

definition device_shuffle_block :: "lane list \<Rightarrow> lane list" where
  "device_shuffle_block block =
     (let block = device_transpose block;
          block = map ptx_g block;
          block = device_shift1_shuffle block;
          block = map ptx_g block;
          block = device_unshift1_shuffle block;
          block = device_transpose block;
          block = map ptx_g block;
          block = device_shift2_shuffle block;
          block = map ptx_g block
      in device_unshift2_shuffle block)"

text \<open>Blocks in global memory are 128 words, in shared memory two arrays of halves; thread \<open>t\<close> owns the
  words \<open>t\<close>, \<open>32 + t\<close>, \<open>64 + t\<close> and \<open>96 + t\<close>.\<close>

definition load_block :: "u64 list \<Rightarrow> lane list" where
  "load_block src = map (\<lambda>thread. \<lparr> la = src ! (0 * kThreadsPerLane + thread), lb = src ! (1 * kThreadsPerLane + thread),
     lc = src ! (2 * kThreadsPerLane + thread), ld = src ! (3 * kThreadsPerLane + thread) \<rparr>) threads"

definition load_block_xor :: "lane list \<Rightarrow> u64 list \<Rightarrow> lane list" where
  "load_block_xor dst src = map (\<lambda>thread. let d = dst ! thread in
     \<lparr> la = la d XOR src ! (0 * kThreadsPerLane + thread), lb = lb d XOR src ! (1 * kThreadsPerLane + thread),
       lc = lc d XOR src ! (2 * kThreadsPerLane + thread), ld = ld d XOR src ! (3 * kThreadsPerLane + thread) \<rparr>) threads"

definition store_block :: "lane list \<Rightarrow> u64 list" where
  "store_block src = map (\<lambda>t. la (src ! t)) threads @ map (\<lambda>t. lb (src ! t)) threads @
     map (\<lambda>t. lc (src ! t)) threads @ map (\<lambda>t. ld (src ! t)) threads"

definition device_block_l_store :: "lane list \<Rightarrow> BlockL" where
  "device_block_l_store src =
     \<lparr> bk_lo = map u64_lo (store_block src), bk_hi = map u64_hi (store_block src) \<rparr>"

definition device_block_l_load_xor :: "lane list \<Rightarrow> BlockL \<Rightarrow> lane list" where
  "device_block_l_load_xor dst src = map (\<lambda>thread.
     let d = dst ! thread; word = (\<lambda>k. u64_build (bk_hi src ! (k * kThreadsPerLane + thread)) (bk_lo src ! (k * kThreadsPerLane + thread)))
     in \<lparr> la = la d XOR word 0, lb = lb d XOR word 1, lc = lc d XOR word 2, ld = ld d XOR word 3 \<rparr>) threads"

definition device_next_addresses1 :: "u32 list \<Rightarrow> lane list" where
  "device_next_addresses1 thread_input =
     (let addr = map (\<lambda>thread. \<lparr> la = u64_build 0 (thread_input ! thread), lb = 0, lc = 0, ld = 0 \<rparr>) threads;
          addr = device_shuffle_block addr;
          addr = map (\<lambda>thread. (addr ! thread) \<lparr> la := la (addr ! thread) XOR u64_build 0 (thread_input ! thread) \<rparr>) threads;
          tmp = device_block_l_store addr;
          addr = device_shuffle_block addr
      in device_block_l_load_xor addr tmp)"

definition compute_ref_pos :: "u32 \<Rightarrow> u32 \<Rightarrow> u32 \<Rightarrow> u32 \<Rightarrow> u32" where
  "compute_ref_pos segment_blocks sl offset ref_index =
     (let ref_area_size = sl * segment_blocks + offset - 1; index = umulhi ref_index ref_index
      in ref_area_size - 1 - umulhi ref_area_size index)"

section \<open>The kernel\<close>

text \<open>The memory of the device is a list of blocks; \<open>lane0\<close> is the first block of the job and
  \<open>ws_curr\<close> the distance of \<open>mem_curr\<close> from it. The shared block \<open>tmp\<close> is written before it is read in
  every function that takes it, so no step carries it.\<close>

type_synonym device_memory = "u64 list list"

record warp_state =
  ws_prev :: "lane list"
  ws_addr :: "lane list"
  ws_input :: "u32 list"
  ws_curr :: nat

type_synonym job_step = "device_memory \<times> warp_state \<Rightarrow> device_memory \<times> warp_state"

definition argon2_core :: "nat \<Rightarrow> u32 \<Rightarrow> job_step" where
  "argon2_core lane0 ref_index = (\<lambda>(memory, s).
     let prev = load_block_xor (ws_prev s) (memory ! (lane0 + unat ref_index));
         tmp = device_block_l_store prev;
         prev = device_shuffle_block prev;
         prev = device_block_l_load_xor prev tmp
     in (memory[lane0 + ws_curr s := store_block prev], s \<lparr> ws_prev := prev \<rparr>))"

definition argon2_step_indexed :: "nat \<Rightarrow> u32 \<Rightarrow> u32 \<Rightarrow> nat \<Rightarrow> job_step" where
  "argon2_step_indexed lane0 segment_blocks sl offset = (\<lambda>(memory, s).
     let addr_index = offset mod kQwordsInBlock;
         s = (if addr_index = 0
              then let input = (ws_input s)[6 := ws_input s ! 6 + 1]
                   in s \<lparr> ws_input := input, ws_addr := device_next_addresses1 input \<rparr>
              else s);
         thr = addr_index mod kThreadsPerLane;
         idx = addr_index div kThreadsPerLane;
         v = device_u64_shuffle (map (\<lambda>b. block_th_get_uniform b idx) (ws_addr s)) thr;
         ref_index = compute_ref_pos segment_blocks sl (word_of_nat offset) (u64_lo (v ! 0))
     in argon2_core lane0 ref_index (memory, s))"

definition argon2_step_dependent :: "nat \<Rightarrow> u32 \<Rightarrow> u32 \<Rightarrow> nat \<Rightarrow> job_step" where
  "argon2_step_dependent lane0 segment_blocks sl offset = (\<lambda>(memory, s).
     let v = device_u64_shuffle (map la (ws_prev s)) 0;
         ref_index = compute_ref_pos segment_blocks sl (word_of_nat offset) (u64_lo (v ! 0))
     in argon2_core lane0 ref_index (memory, s))"

definition next_block :: job_step where
  "next_block = (\<lambda>(memory, s). (memory, s \<lparr> ws_curr := ws_curr s + 1 \<rparr>))"

definition bump_slice :: job_step where
  "bump_slice = (\<lambda>(memory, s). (memory, s \<lparr> ws_input := (ws_input s)[2 := ws_input s ! 2 + 1, 6 := 0] \<rparr>))"

definition thread_inputs :: "u32 \<Rightarrow> u32 list" where
  "thread_inputs lane_blocks = map (\<lambda>thread. of_bool (thread = 3) * lane_blocks + of_bool (thread = 4) +
     of_bool (thread = 5) * 2 + of_bool (thread = 6)) threads"

definition oneshot_start :: "nat \<Rightarrow> u32 \<Rightarrow> device_memory \<Rightarrow> warp_state" where
  "oneshot_start lane0 segment_blocks memory =
     (let input = thread_inputs (4 * segment_blocks)
      in \<lparr> ws_prev = load_block (memory ! (lane0 + 1)), ws_addr = device_next_addresses1 input,
           ws_input = input, ws_curr = 2 \<rparr>)"

text \<open>A kernel runs a fixed sequence of operations: the loops over the offsets of slices 0 and 1, with
  the update of the inputs between them, and the loops of slices 2 and 3. The operations are data, so
  that the warps of a launch can be interleaved at every block they compute.\<close>

datatype kernel_op = Indexed nat nat | Next_slice | Table nat nat | Dependent nat nat

definition exec_op :: "nat \<Rightarrow> u32 \<Rightarrow> u32 list \<Rightarrow> kernel_op \<Rightarrow> job_step" where
  "exec_op lane0 segment_blocks indexed_refs op =
     (case op of
        Indexed sl offset \<Rightarrow> next_block \<circ> argon2_step_indexed lane0 segment_blocks (word_of_nat sl) offset
      | Next_slice \<Rightarrow> bump_slice
      | Table sl offset \<Rightarrow>
          let slice1_base = unat (segment_blocks - 2);
              ref_index = indexed_refs ! (if sl = 0 then offset - 2 else slice1_base + offset)
          in next_block \<circ> argon2_core lane0 ref_index
      | Dependent sl offset \<Rightarrow> next_block \<circ> argon2_step_dependent lane0 segment_blocks (word_of_nat sl) offset)"

definition dependent_ops :: "u32 \<Rightarrow> kernel_op list" where
  "dependent_ops segment_blocks =
     concat (map (\<lambda>sl. map (Dependent sl) [0..<unat segment_blocks]) [2..<4])"

definition oneshot_ops :: "u32 \<Rightarrow> kernel_op list" where
  "oneshot_ops segment_blocks =
     map (Indexed 0) [2..<unat segment_blocks] @ [Next_slice] @ map (Indexed 1) [0..<unat segment_blocks] @
     dependent_ops segment_blocks"

definition argon2_kernel_oneshot :: "nat \<Rightarrow> u32 \<Rightarrow> device_memory \<Rightarrow> device_memory" where
  "argon2_kernel_oneshot lane0 segment_blocks memory =
     fst (fold (exec_op lane0 segment_blocks []) (oneshot_ops segment_blocks)
            (memory, oneshot_start lane0 segment_blocks memory))"

definition precomputed_start :: "nat \<Rightarrow> device_memory \<Rightarrow> warp_state" where
  "precomputed_start lane0 memory =
     \<lparr> ws_prev = load_block (memory ! (lane0 + 1)), ws_addr = [], ws_input = [], ws_curr = 2 \<rparr>"

definition precomputed_ops :: "u32 \<Rightarrow> kernel_op list" where
  "precomputed_ops segment_blocks =
     map (Table 0) [2..<unat segment_blocks] @ map (Table 1) [0..<unat segment_blocks] @ dependent_ops segment_blocks"

definition argon2_kernel_oneshot_precomputed :: "nat \<Rightarrow> u32 \<Rightarrow> u32 list \<Rightarrow> device_memory \<Rightarrow> device_memory" where
  "argon2_kernel_oneshot_precomputed lane0 segment_blocks indexed_refs memory =
     fst (fold (exec_op lane0 segment_blocks indexed_refs) (precomputed_ops segment_blocks)
            (memory, precomputed_start lane0 memory))"

section \<open>The reference filling\<close>

text \<open>RFC 9106 with one pass and one lane of \<open>4 * s\<close> blocks. Section 3.5: \<open>G (X, Y)\<close>. Section 3.4.2: the
  mapping of \<open>J1\<close> into a reference set of \<open>w\<close> blocks; in the first pass of a single lane the set holds
  every block before the previous one. Sections 3.4.1.1 and 3.4.1.2: \<open>J1\<close> comes from the address blocks
  in the first two slices and from the previous block in the last two.\<close>

definition compress_G :: "(nat \<Rightarrow> u64) \<Rightarrow> (nat \<Rightarrow> u64) \<Rightarrow> nat \<Rightarrow> u64" where
  "compress_G x y = compress0 (\<lambda>n. x n XOR y n)"

definition map_J1 :: "nat \<Rightarrow> nat \<Rightarrow> nat" where
  "map_J1 w j1 = w - 1 - w * (j1 * j1 div 2 ^ 32) div 2 ^ 32"

definition ref_J1 :: "nat \<Rightarrow> (nat \<Rightarrow> u64) \<Rightarrow> nat \<Rightarrow> nat" where
  "ref_J1 s prev j =
     (if j div s < 2
      then unat (u64_lo (address_word (word_of_nat (4 * s)) (word_of_nat (j div s))
             (word_of_nat (j mod s div 128 + 1)) (j mod s mod 128)))
      else unat (u64_lo (prev 0)))"

primrec argon2_matrix :: "nat \<Rightarrow> (nat \<Rightarrow> u64) \<Rightarrow> (nat \<Rightarrow> u64) \<Rightarrow> nat \<Rightarrow> (nat \<Rightarrow> u64) list" where
  "argon2_matrix s x0 x1 0 = [x0, x1]"
| "argon2_matrix s x0 x1 (Suc k) =
     (let B = argon2_matrix s x0 x1 k; prev = last B; j = length B
      in B @ [compress_G prev (B ! map_J1 (j - 1) (ref_J1 s prev j))])"

text \<open>Block \<open>j\<close> of the matrix.\<close>

definition ref_block :: "nat \<Rightarrow> (nat \<Rightarrow> u64) \<Rightarrow> (nat \<Rightarrow> u64) \<Rightarrow> nat \<Rightarrow> nat \<Rightarrow> u64" where
  "ref_block s x0 x1 j = argon2_matrix s x0 x1 j ! j"

lemma matrix_length [simp]: "length (argon2_matrix s x0 x1 k) = k + 2"
  by (induction k) (simp_all add: Let_def)

lemma matrix_prefix: "i < k + 2 \<Longrightarrow> argon2_matrix s x0 x1 (k + d) ! i = argon2_matrix s x0 x1 k ! i"
  by (induction d) (simp_all add: Let_def nth_append)

lemma matrix_nth:
  assumes "i < k + 2"
  shows "argon2_matrix s x0 x1 k ! i = ref_block s x0 x1 i"
proof (cases "i \<le> k")
  case True
  then show ?thesis using matrix_prefix [of i i s x0 x1 "k - i"] by (simp add: ref_block_def)
next
  case False
  then show ?thesis using assms matrix_prefix [of i k s x0 x1 "i - k"] by (simp add: ref_block_def)
qed

lemma map_J1_less: "0 < w \<Longrightarrow> map_J1 w j < w"
  by (simp add: map_J1_def)

lemma ref_block_simps:
  "ref_block s x0 x1 0 = x0" "ref_block s x0 x1 1 = x1"
  "2 \<le> j \<Longrightarrow> ref_block s x0 x1 j =
     compress_G (ref_block s x0 x1 (j - 1))
       (ref_block s x0 x1 (map_J1 (j - 1) (ref_J1 s (ref_block s x0 x1 (j - 1)) j)))"
proof -
  show "ref_block s x0 x1 0 = x0" by (simp add: ref_block_def)
  show "ref_block s x0 x1 1 = x1"
    using matrix_nth [of 1 0 s x0 x1] by simp
  assume "2 \<le> j"
  then obtain k where j: "j = k + 2" by (metis add.commute le_Suc_ex)
  let ?B = "argon2_matrix s x0 x1 k"
  have "?B \<noteq> []" using matrix_length [of s x0 x1 k] by (metis add_is_0 list.size(3) zero_neq_numeral)
  then have last: "last ?B = ref_block s x0 x1 (j - 1)" using matrix_nth [of "Suc k" k s x0 x1] by (simp add: last_conv_nth j)
  have "ref_block s x0 x1 j = argon2_matrix s x0 x1 (Suc k) ! j"
    using matrix_nth [of j "Suc k" s x0 x1] by (simp add: j)
  also have "\<dots> = compress_G (last ?B) (?B ! map_J1 (j - 1) (ref_J1 s (last ?B) j))"
    by (simp add: Let_def j nth_append)
  also have "?B ! map_J1 (j - 1) r = ref_block s x0 x1 (map_J1 (j - 1) r)" for r
    using map_J1_less [of "j - 1" r] by (intro matrix_nth) (simp add: j)
  finally show "ref_block s x0 x1 j = compress_G (ref_block s x0 x1 (j - 1))
       (ref_block s x0 x1 (map_J1 (j - 1) (ref_J1 s (ref_block s x0 x1 (j - 1)) j)))"
    by (simp only: last)
qed

section \<open>The device functions compute the reference\<close>

lemma thread_bounds:
  "\<forall>t\<in>set [0..<32]. (t XOR 0x4) mod 32 = t XOR 0x4 \<and> (t XOR 0x8) mod 32 = t XOR 0x8 \<and>
     (t XOR 0xC) mod 32 = t XOR 0xC \<and> (t XOR 0x2) mod 32 = t XOR 0x2 \<and> (t XOR 0x10) mod 32 = t XOR 0x10 \<and>
     t XOR 0x2 < 32 \<and> t XOR 0x10 < 32 \<and> t XOR 0x4 < 32 \<and> t XOR 0x8 < 32 \<and> t XOR 0xC < 32"
  by code_simp

lemma threads_mem: "t \<in> set threads \<longleftrightarrow> t < 32"
  by (simp add: threads_upt)

lemma device_transpose_host: "device_transpose warp = transpose_warp warp"
  using thread_bounds
  by (simp add: device_transpose_def transpose_warp_def Let_def tm_shfl_xor_def kThreadsPerLane_def threads_mem)

lemma exchange_host:
  assumes "length warp = 32" and "\<And>t. t < 32 \<Longrightarrow> sb t < 32" and "\<And>t. t < 32 \<Longrightarrow> sd t < 32"
    and "\<And>t. t < 32 \<Longrightarrow> t XOR m < 32"
  shows "exchange sb m sd warp = map (\<lambda>t. (warp ! t) \<lparr> lb := lb (warp ! sb t), lc := lc (warp ! (t XOR m)), ld := ld (warp ! sd t) \<rparr>) threads"
  using assms by (simp add: exchange_def Let_def tm_shfl_def tm_shfl_xor_def kThreadsPerLane_def threads_mem)

lemma device_shuffles_host:
  assumes "length warp = 32"
  shows "device_shift1_shuffle warp = shift1_shuffle warp" "device_unshift1_shuffle warp = unshift1_shuffle warp"
    "device_shift2_shuffle warp = shift2_shuffle warp" "device_unshift2_shuffle warp = unshift2_shuffle warp"
  using shuffle_sources thread_bounds
  unfolding device_shift1_shuffle_def device_unshift1_shuffle_def device_shift2_shuffle_def device_unshift2_shuffle_def
  by (subst exchange_host [OF assms];
      simp add: Let_def shift1_shuffle_def unshift1_shuffle_def shift2_shuffle_def unshift2_shuffle_def)+

lemma network_length [simp]:
  "length (transpose_warp w) = 32" "length (shift1_shuffle w) = 32" "length (unshift1_shuffle w) = 32"
  "length (shift2_shuffle w) = 32" "length (unshift2_shuffle w) = 32"
  by (simp_all add: transpose_warp_def shift1_shuffle_def unshift1_shuffle_def shift2_shuffle_def unshift2_shuffle_def
      threads_upt Let_def)

lemma device_shuffle_host: "device_shuffle_block warp = shuffle_block warp"
  by (simp add: device_shuffle_block_def shuffle_block_def device_transpose_host device_shuffles_host ptx_g_lane_g)

text \<open>Any warp is the storage layout of some words.\<close>

lemma warp_layout:
  assumes "length warp = 32"
  obtains w where "warp = warp_of (store_layout w)"
proof
  let ?w = "\<lambda>n. lane_get (warp ! (n mod 32)) (n div 32)"
  have "store_layout ?w t = warp ! t" if "t < 32" for t
  proof -
    have "(32 * k + t) mod 32 = t" "(32 * k + t) div 32 = k" for k using that by simp_all
    from this [of 1] this [of 2] this [of 3] that show ?thesis
      by (simp add: store_layout_def lane_get_def)
  qed
  then show "warp = warp_of (store_layout ?w)"
    using assms by (simp add: warp_of_def threads_upt list_eq_iff_nth_eq)
qed

definition words :: "(nat \<Rightarrow> u64) \<Rightarrow> u64 list" where
  "words w = map w [0..<128]"

lemma words_length [simp]: "length (words w) = 128"
  by (simp add: words_def)

lemma words_nth [simp]: "n < 128 \<Longrightarrow> words w ! n = w n"
  by (simp add: words_def)

lemma store_block_words: "store_block (warp_of (store_layout w)) = words w"
proof -
  have "map (\<lambda>t. w (k + t)) [0..<32] = map w [k..<k + 32]" for k
    unfolding map_add_upt [of k 32, symmetric, unfolded add.commute [of _ k]] by simp
  note sh = this
  have get: "map (\<lambda>t. f (warp_of L ! t)) [0..<32] = map (\<lambda>t. f (L t)) [0..<32]" for f :: "lane \<Rightarrow> u64" and L
    by (simp add: warp_of_def threads_upt)
  have "store_block (warp_of (store_layout w)) =
      map w [0..<32] @ map w [32..<32 + 32] @ map w [64..<64 + 32] @ map w [96..<96 + 32]"
    unfolding store_block_def threads_upt get store_layout_def lane.select_convs sh ..
  also have "\<dots> = map w ([0..<32] @ [32..<64] @ [64..<96] @ [96..<128])"
    by (simp only: map_append) simp
  also have "[0..<32] @ [32..<64] @ [64..<96] @ [96..<128] = [0..<128 :: nat]"
    by code_simp
  finally show ?thesis by (simp add: words_def)
qed

lemma load_block_words: "load_block (words w) = warp_of (store_layout w)"
  by (simp add: load_block_def warp_of_def threads_upt kThreadsPerLane_def store_layout_def)

lemma load_block_xor_words:
  "load_block_xor (warp_of (store_layout v)) (words w) = warp_of (store_layout (\<lambda>n. v n XOR w n))"
  by (simp add: load_block_xor_def warp_of_def threads_upt kThreadsPerLane_def store_layout_def)

lemma device_load_xor_words:
  "device_block_l_load_xor (warp_of (store_layout v)) (device_block_l_store (warp_of (store_layout w)))
     = warp_of (store_layout (\<lambda>n. v n XOR w n))"
  unfolding device_block_l_load_xor_def device_block_l_store_def store_block_words
  by (simp add: words_def warp_of_def threads_upt kThreadsPerLane_def store_layout_def u64_build_split)

lemma device_next_addresses_host: "device_next_addresses1 input = next_addresses1 input"
proof -
  have "device_block_l_load_xor (shuffle_block a) (device_block_l_store a) = block_l_load_xor (shuffle_block a) (block_l_store a)"
    if a: "length a = 32" for a
  proof -
    have "length (shuffle_block a) = 32" by (simp add: shuffle_block_def)
    then obtain v where v: "shuffle_block a = warp_of (store_layout v)" by (rule warp_layout)
    obtain w where w: "a = warp_of (store_layout w)" by (rule warp_layout [OF a])
    show ?thesis unfolding v unfolding w by (simp only: device_load_xor_words load_xor_words)
  qed
  then show ?thesis
    by (simp add: device_next_addresses1_def next_addresses1_def device_shuffle_host Let_def threads_upt)
qed

lemma core_words:
  assumes "ws_prev s = warp_of (store_layout x)" and "memory ! (lane0 + unat r) = words y"
  shows "argon2_core lane0 r (memory, s) =
    (memory[lane0 + ws_curr s := words (compress_G x y)], s \<lparr> ws_prev := warp_of (store_layout (compress_G x y)) \<rparr>)"
proof -
  have c: "(\<lambda>n. P_cols (P_rows z) n XOR z n) = compress0 z" for z
    by (rule ext) (simp add: compress0_def xor.commute)
  show ?thesis
    unfolding argon2_core_def prod.case Let_def assms load_block_xor_words device_shuffle_host shuffle_block_reference
      device_load_xor_words store_block_words c compress_G_def ..
qed

section \<open>The kernel fills the memory of its job\<close>

lemma unat_umulhi: "unat (umulhi x y) = unat x * unat y div 2 ^ 32"
proof -
  have b: "unat x < 2 ^ 32" "unat y < 2 ^ 32" using unsigned_less [of x] unsigned_less [of y] by simp_all
  have u: "unat (ucast x :: u64) = unat x" "unat (ucast y :: u64) = unat y"
    using order_less_trans [OF b(1), of "2 ^ 64"] order_less_trans [OF b(2), of "2 ^ 64"]
    by (simp_all add: unsigned_ucast_eq take_bit_nat_eq_self_iff)
  have lt: "unat x * unat y < 2 ^ 64" using mult_strict_mono [OF b] by simp
  then have "unat (drop_bit 32 ((ucast x :: u64) * ucast y)) = unat x * unat y div 2 ^ 32"
    unfolding unat_drop_bit_eq unat_word_ariths u by (simp add: drop_bit_eq_div)
  moreover have "unat x * unat y div 2 ^ 32 < 2 ^ 32" using lt by (simp add: div_less_iff_less_mult)
  ultimately show ?thesis by (simp add: umulhi_def unsigned_ucast_eq take_bit_nat_eq_self_iff)
qed

lemma ref_pos_reference:
  assumes "unat (sl * seg + off - 1) = w" and "0 < w"
  shows "unat (compute_ref_pos seg sl off j) = map_J1 w (unat j)"
proof -
  let ?y = "umulhi (sl * seg + off - 1) (umulhi j j)"
  have y: "unat ?y = w * (unat j * unat j div 2 ^ 32) div 2 ^ 32" by (simp add: unat_umulhi assms(1))
  have "unat (umulhi j j) < 2 ^ 32" using unsigned_less [of "umulhi j j"] by simp
  then have "w * unat (umulhi j j) < w * 2 ^ 32" using assms(2) by simp
  then have "unat ?y < w" unfolding unat_umulhi [of "sl * seg + off - 1"] assms(1) by (simp add: div_less_iff_less_mult)
  moreover have a: "unat (sl * seg + off - 1 - 1) = w - 1"
    using assms by (subst unat_sub) (simp_all add: word_le_nat_alt)
  ultimately have "?y \<le> sl * seg + off - 1 - 1" by (simp add: word_le_nat_alt)
  from unat_sub [OF this] show ?thesis unfolding compute_ref_pos_def Let_def map_J1_def a y .
qed

text \<open>A job at block \<open>j\<close>: the blocks before it are those of the reference, and the registers hold the
  last of them.\<close>

definition at_block :: "(nat \<Rightarrow> nat \<Rightarrow> u64) \<Rightarrow> nat \<Rightarrow> warp_state \<Rightarrow> bool" where
  "at_block B j s = (ws_curr s = j \<and> ws_prev s = warp_of (store_layout (B (j - 1))))"

definition filled :: "nat \<Rightarrow> (nat \<Rightarrow> nat \<Rightarrow> u64) \<Rightarrow> nat \<Rightarrow> device_memory \<Rightarrow> bool" where
  "filled lane0 B j memory = (\<forall>i<j. memory ! (lane0 + i) = words (B i))"

lemma filled_Suc:
  "filled lane0 B j memory \<Longrightarrow> lane0 + j < length memory \<Longrightarrow> filled lane0 B (Suc j) (memory[lane0 + j := words (B j)])"
  by (simp add: filled_def less_Suc_eq)

lemma core_step:
  assumes "B = ref_block n x0 x1" and "at_block B j s" and "filled lane0 B j memory" and "2 \<le> j"
    and "unat r = map_J1 (j - 1) (ref_J1 n (B (j - 1)) j)"
  shows "(next_block \<circ> argon2_core lane0 r) (memory, s) =
    (memory[lane0 + j := words (B j)], s \<lparr> ws_prev := warp_of (store_layout (B j)), ws_curr := Suc j \<rparr>)"
proof -
  have r: "unat r < j" using map_J1_less [of "j - 1" "ref_J1 n (B (j - 1)) j"] assms(4,5) by simp
  then have m: "memory ! (lane0 + unat r) = words (B (unat r))" using assms(3) by (simp add: filled_def)
  have B: "compress_G (B (j - 1)) (B (unat r)) = B j"
    using ref_block_simps(3) [OF assms(4), of n x0 x1] assms(1,5) by simp
  have p: "ws_prev s = warp_of (store_layout (B (j - 1)))" "ws_curr s = j" using assms(2) by (simp_all add: at_block_def)
  have "argon2_core lane0 r (memory, s) = (memory[lane0 + j := words (B j)], s \<lparr> ws_prev := warp_of (store_layout (B j)) \<rparr>)"
    using core_words [OF p(1) m] unfolding p(2) B .
  then show ?thesis by (simp add: next_block_def p(2))
qed

lemma area_size:
  fixes seg :: u32
  assumes "unat seg < 2 ^ 30" and "k < 4" and "offset < unat seg" and "0 < k * unat seg + offset"
  shows "unat (word_of_nat k * seg + word_of_nat offset - 1) = k * unat seg + offset - 1"
proof -
  have le: "k * unat seg \<le> 3 * unat seg" using assms(2) by (intro mult_right_mono) simp_all
  then have "k * unat seg + offset < 4 * 2 ^ 30" using assms(1,3) by linarith
  then have b: "k * unat seg + offset < 2 ^ 32" by simp
  have "word_of_nat k * seg + word_of_nat offset = (word_of_nat (k * unat seg + offset) :: u32)" by simp
  moreover have "unat (word_of_nat (k * unat seg + offset) :: u32) = k * unat seg + offset"
    unfolding unat_of_nat using b by simp
  ultimately have u: "unat (word_of_nat k * seg + word_of_nat offset) = k * unat seg + offset" by (simp only:)
  then have "1 \<le> word_of_nat k * seg + word_of_nat offset" 
    using assms(4) unfolding word_le_nat_alt u by (simp add: Suc_le_eq)
  from unat_sub [OF this] show ?thesis unfolding u by simp
qed

lemma ref_pos_at:
  assumes "unat seg < 2 ^ 30" and "k < 4" and "offset < unat seg" and "2 \<le> k * unat seg + offset"
  shows "unat (compute_ref_pos seg (word_of_nat k) (word_of_nat offset) j) = map_J1 (k * unat seg + offset - 1) (unat j)"
  using assms(4) by (intro ref_pos_reference area_size [OF assms(1-3)]) linarith+

lemma block_position:
  fixes n :: nat
  assumes "offset < n"
  shows "(k * n + offset) div n = k" "(k * n + offset) mod n = offset"
  using assms by (cases "n = 0"; simp)+

lemma shuffle_word: "thr < 32 \<Longrightarrow> length v = 32 \<Longrightarrow> device_u64_shuffle v thr ! 0 = v ! thr"
  using u64_build_split [of "v ! thr"]
  by (simp add: device_u64_shuffle_def kThreadsPerLane_def u64_build_def u64_hi_def u64_lo_def)

lemma indexed_word:
  assumes "n < 128"
  shows "device_u64_shuffle (map (\<lambda>b. block_th_get_uniform b (n div kThreadsPerLane)) (warp_of (store_layout w)))
    (n mod kThreadsPerLane) ! 0 = w n"
proof -
  have "n mod 32 < 32" "n div 32 < 4" "32 * (n div 32) + n mod 32 = n" using assms by (simp_all add: div_less_iff_less_mult)
  moreover have "block_th_get_uniform = lane_get" by (simp add: fun_eq_iff block_th_get_uniform_def lane_get_def)
  ultimately show ?thesis
    by (simp add: kThreadsPerLane_def shuffle_word warp_of_def threads_upt lane_get_layout)
qed

text \<open>What holds before and after an operation, and which operations occur.\<close>

fun op_block :: "u32 \<Rightarrow> kernel_op \<Rightarrow> nat" where
  "op_block seg (Indexed k offset) = k * unat seg + offset"
| "op_block seg (Table k offset) = k * unat seg + offset"
| "op_block seg (Dependent k offset) = k * unat seg + offset"
| "op_block seg Next_slice = unat seg"

fun op_valid :: "u32 \<Rightarrow> kernel_op \<Rightarrow> bool" where
  "op_valid seg (Indexed k offset) = (k < 2 \<and> offset < unat seg \<and> 2 \<le> k * unat seg + offset)"
| "op_valid seg (Table k offset) = (k < 2 \<and> offset < unat seg \<and> 2 \<le> k * unat seg + offset)"
| "op_valid seg (Dependent k offset) = (2 \<le> k \<and> k < 4 \<and> offset < unat seg)"
| "op_valid seg Next_slice = True"

definition job_at :: "nat \<Rightarrow> (nat \<Rightarrow> nat \<Rightarrow> u64) \<Rightarrow> nat \<Rightarrow> device_memory \<times> warp_state \<Rightarrow> bool" where
  "job_at lane0 B j = (\<lambda>(memory, s). at_block B j s \<and> filled lane0 B j memory)"

definition addresses_at :: "u32 \<Rightarrow> nat \<Rightarrow> nat \<Rightarrow> device_memory \<times> warp_state \<Rightarrow> bool" where
  "addresses_at seg k offset = (\<lambda>(_, s). ready seg (word_of_nat k) offset (ws_addr s) (ws_input s))"

fun before_op :: "u32 \<Rightarrow> nat \<Rightarrow> (nat \<Rightarrow> nat \<Rightarrow> u64) \<Rightarrow> kernel_op \<Rightarrow> device_memory \<times> warp_state \<Rightarrow> bool" where
  "before_op seg lane0 B (Indexed k offset) st =
     (job_at lane0 B (k * unat seg + offset) st \<and> addresses_at seg k offset st)"
| "before_op seg lane0 B Next_slice st = (job_at lane0 B (unat seg) st \<and> addresses_at seg 0 (unat seg) st)"
| "before_op seg lane0 B op st = job_at lane0 B (op_block seg op) st"

fun after_op :: "u32 \<Rightarrow> nat \<Rightarrow> (nat \<Rightarrow> nat \<Rightarrow> u64) \<Rightarrow> kernel_op \<Rightarrow> device_memory \<times> warp_state \<Rightarrow> bool" where
  "after_op seg lane0 B (Indexed k offset) st =
     (job_at lane0 B (Suc (k * unat seg + offset)) st \<and> addresses_at seg k (Suc offset) st)"
| "after_op seg lane0 B Next_slice st = (job_at lane0 B (unat seg) st \<and> addresses_at seg 1 0 st)"
| "after_op seg lane0 B op st = job_at lane0 B (Suc (op_block seg op)) st"

text \<open>An operation keeps everything outside the blocks of its job.\<close>

definition outside_kept :: "nat \<Rightarrow> nat \<Rightarrow> device_memory \<Rightarrow> device_memory \<Rightarrow> bool" where
  "outside_kept lane0 q m m' = (length m' = length m \<and> (\<forall>i. i < lane0 \<or> lane0 + q \<le> i \<longrightarrow> m' ! i = m ! i))"

lemma slice_bound:
  assumes "k < 4" and "offset < (n :: nat)"
  shows "k * n + offset < 4 * n"
proof -
  have "k * n \<le> 3 * n" using assms(1) by (intro mult_right_mono) simp_all
  then show ?thesis using assms(2) by linarith
qed

lemma op_block_bound: "op_valid seg op \<Longrightarrow> op \<noteq> Next_slice \<Longrightarrow> op_block seg op < 4 * unat seg"
  by (cases "op") (auto intro: slice_bound)

lemma block_written:
  assumes "B = ref_block (unat seg) x0 x1" and "job_at lane0 B j (memory, s)" and "2 \<le> j" and "j < 4 * unat seg"
    and "lane0 + 4 * unat seg \<le> length memory" and "unat r = map_J1 (j - 1) (ref_J1 (unat seg) (B (j - 1)) j)"
    and "(next_block \<circ> argon2_core lane0 r) (memory, s) = (memory', s')"
  shows "job_at lane0 B (Suc j) (memory', s') \<and> ws_addr s' = ws_addr s \<and> ws_input s' = ws_input s \<and>
    outside_kept lane0 (4 * unat seg) memory memory'"
proof -
  have at: "at_block B j s" "filled lane0 B j memory" using assms(2) by (simp_all add: job_at_def)
  have "memory' = memory[lane0 + j := words (B j)]" "s' = s \<lparr> ws_prev := warp_of (store_layout (B j)), ws_curr := Suc j \<rparr>"
    using core_step [OF assms(1) at assms(3,6)] assms(7) by simp_all
  moreover have "lane0 + j < length memory" using assms(4,5) by linarith
  ultimately show ?thesis
    using filled_Suc [OF at(2)] assms(4) by (auto simp: job_at_def at_block_def outside_kept_def nth_list_update)
qed

lemma indexed_op:
  assumes B: "B = ref_block (unat seg) x0 x1" and seg: "unat seg < 2 ^ 30" and op: "op_valid seg (Indexed k offset)"
    and mem: "lane0 + 4 * unat seg \<le> length memory" and at: "before_op seg lane0 B (Indexed k offset) (memory, s)"
    and run: "exec_op lane0 seg refs (Indexed k offset) (memory, s) = (memory', s')"
  shows "after_op seg lane0 B (Indexed k offset) (memory', s') \<and> outside_kept lane0 (4 * unat seg) memory memory'"
proof -
  let ?j = "k * unat seg + offset" and ?c = "word_of_nat (offset div 128 + 1) :: u32"
  let ?addr = "warp_of (store_layout (address_word (4 * seg) (word_of_nat k) ?c))" and ?input = "input_for (4 * seg) (word_of_nat k) ?c"
  have k: "k < 2" and o: "offset < unat seg" and j: "2 \<le> ?j" using op by simp_all
  define s1 where "s1 = (if offset mod kQwordsInBlock = 0
     then s \<lparr> ws_input := (ws_input s)[6 := ws_input s ! 6 + 1],
              ws_addr := device_next_addresses1 ((ws_input s)[6 := ws_input s ! 6 + 1]) \<rparr> else s)"
  have s1: "ws_addr s1 = ?addr" "ws_input s1 = ?input"
    using at by (auto simp: s1_def kQwordsInBlock_def addresses_at_def ready_def input_update add.commute
        device_next_addresses_host next_addresses_input split: if_splits)
  have at1: "job_at lane0 B ?j (memory, s1)" using at by (simp add: s1_def job_at_def at_block_def)
  let ?r = "compute_ref_pos seg (word_of_nat k) (word_of_nat offset)
      (u64_lo (address_word (4 * seg) (word_of_nat k) ?c (offset mod 128)))"
  have "argon2_step_indexed lane0 seg (word_of_nat k) offset (memory, s) = argon2_core lane0 ?r (memory, s1)"
    unfolding argon2_step_indexed_def prod.case Let_def
    unfolding s1_def [symmetric] unfolding s1(1) kQwordsInBlock_def
    by (subst indexed_word) simp_all
  then have step: "(next_block \<circ> argon2_core lane0 ?r) (memory, s1) = (memory', s')"
    using run by (simp add: exec_op_def)
  have "4 * seg = word_of_nat (4 * unat seg)" by simp
  then have "ref_J1 (unat seg) (B (?j - 1)) ?j = unat (u64_lo (address_word (4 * seg) (word_of_nat k) ?c (offset mod 128)))"
    using k o by (simp add: ref_J1_def block_position [OF o])
  then have r: "unat ?r = map_J1 (?j - 1) (ref_J1 (unat seg) (B (?j - 1)) ?j)"
    using ref_pos_at [OF seg _ o j] k by (simp only:)
  have "?j < 4 * unat seg" using k o by (intro slice_bound) simp_all
  note w = block_written [OF B at1 j this mem r step]
  then have "ready seg (word_of_nat k) (Suc offset) (ws_addr s') (ws_input s')" using s1 by (intro ready_Suc) simp_all
  with w show ?thesis by (simp add: addresses_at_def)
qed

lemma table_op:
  assumes B: "B = ref_block (unat seg) x0 x1" and seg: "2 \<le> unat seg" "unat seg < 2 ^ 30" and op: "op_valid seg (Table k offset)"
    and mem: "lane0 + 4 * unat seg \<le> length memory" and at: "before_op seg lane0 B (Table k offset) (memory, s)"
    and run: "exec_op lane0 seg (generateIndexedRefTable seg) (Table k offset) (memory, s) = (memory', s')"
  shows "after_op seg lane0 B (Table k offset) (memory', s') \<and> outside_kept lane0 (4 * unat seg) memory memory'"
proof -
  let ?j = "k * unat seg + offset" and ?T = "generateIndexedRefTable seg"
  have k: "k < 2" and o: "offset < unat seg" and j: "2 \<le> ?j" using op by simp_all
  let ?r = "?T ! (if k = 0 then offset - 2 else unat (seg - 2) + offset)"
  have "unat seg < 2 ^ 31" using seg(2) by simp
  note T = generate_entries(1) [OF seg(1) this]
  have u: "unat (seg - 2) = unat seg - 2" using seg(1) by (simp add: unat_sub word_le_nat_alt)
  have e: "?r = entry seg (word_of_nat k) offset"
  proof (cases "k = 0")
    case True
    then have "offset - 2 < unat seg - 2" "Suc (Suc (offset - 2)) = offset" using j o by simp_all
    with True show ?thesis by (simp add: T nth_append)
  next
    case False
    then have "k = 1" using k by simp
    then show ?thesis using o by (simp add: T nth_append u)
  qed
  have "4 * seg = word_of_nat (4 * unat seg)" by simp
  then have "ref_J1 (unat seg) (B (?j - 1)) ?j =
      unat (u64_lo (address_word (4 * seg) (word_of_nat k) (word_of_nat (offset div 128 + 1)) (offset mod 128)))"
    using k o by (simp add: ref_J1_def block_position [OF o])
  moreover have "computeRefPos = compute_ref_pos"
    by (simp add: fun_eq_iff computeRefPos_def compute_ref_pos_def umulhi_def)
  ultimately have r: "unat ?r = map_J1 (?j - 1) (ref_J1 (unat seg) (B (?j - 1)) ?j)"
    using ref_pos_at [OF seg(2) _ o j] k unfolding e entry_def by (simp only:)
  have "?j < 4 * unat seg" using k o by (intro slice_bound) simp_all
  from block_written [OF B _ j this mem r] at run show ?thesis by (simp add: exec_op_def Let_def)
qed

lemma dependent_op:
  assumes B: "B = ref_block (unat seg) x0 x1" and seg: "2 \<le> unat seg" "unat seg < 2 ^ 30" and op: "op_valid seg (Dependent k offset)"
    and mem: "lane0 + 4 * unat seg \<le> length memory" and at: "before_op seg lane0 B (Dependent k offset) (memory, s)"
    and run: "exec_op lane0 seg refs (Dependent k offset) (memory, s) = (memory', s')"
  shows "after_op seg lane0 B (Dependent k offset) (memory', s') \<and> outside_kept lane0 (4 * unat seg) memory memory'"
proof -
  let ?j = "k * unat seg + offset"
  have k: "2 \<le> k" "k < 4" and o: "offset < unat seg" using op by simp_all
  have "2 * unat seg \<le> k * unat seg" using k by (simp add: mult_right_mono)
  then have j: "2 \<le> ?j" using seg(1) by linarith
  let ?r = "compute_ref_pos seg (word_of_nat k) (word_of_nat offset) (u64_lo (B (?j - 1) 0))"
  have "device_u64_shuffle (map la (ws_prev s)) 0 ! 0 = B (?j - 1) 0"
    using at by (simp add: job_at_def at_block_def shuffle_word warp_of_def threads_upt store_layout_def)
  then have step: "(next_block \<circ> argon2_core lane0 ?r) (memory, s) = (memory', s')"
    using run by (simp add: exec_op_def argon2_step_dependent_def)
  have "ref_J1 (unat seg) (B (?j - 1)) ?j = unat (u64_lo (B (?j - 1) 0))"
    using k(1) by (simp add: ref_J1_def block_position [OF o])
  then have r: "unat ?r = map_J1 (?j - 1) (ref_J1 (unat seg) (B (?j - 1)) ?j)"
    using ref_pos_at [OF seg(2) k(2) o j] by (simp only:)
  from block_written [OF B _ j slice_bound [OF k(2) o] mem r step] at show ?thesis by simp
qed

lemma next_slice_op:
  assumes at: "before_op seg lane0 B Next_slice (memory, s)"
    and run: "exec_op lane0 seg refs Next_slice (memory, s) = (memory', s')"
  shows "after_op seg lane0 B Next_slice (memory', s') \<and> outside_kept lane0 q memory memory'"
proof -
  have "ready seg 0 (unat seg) (ws_addr s) (ws_input s)" using at by (simp add: addresses_at_def)
  then obtain c where "ws_input s = input_for (4 * seg) 0 c" by (auto simp: ready_def split: if_splits)
  moreover have "memory' = memory" "s' = s \<lparr> ws_input := (ws_input s)[2 := ws_input s ! 2 + 1, 6 := 0] \<rparr>"
    using run by (simp_all add: exec_op_def bump_slice_def)
  ultimately show ?thesis
    using at by (simp add: addresses_at_def job_at_def at_block_def ready_def input_update outside_kept_def)
qed

fun is_table :: "kernel_op \<Rightarrow> bool" where
  "is_table (Table k offset) = True"
| "is_table op = False"

lemma op_step:
  assumes "B = ref_block (unat seg) x0 x1" and "2 \<le> unat seg" and "unat seg < 2 ^ 30" and "op_valid seg op"
    and "lane0 + 4 * unat seg \<le> length memory" and "is_table op \<Longrightarrow> refs = generateIndexedRefTable seg"
    and "before_op seg lane0 B op (memory, s)" and "exec_op lane0 seg refs op (memory, s) = (memory', s')"
  shows "after_op seg lane0 B op (memory', s') \<and> outside_kept lane0 (4 * unat seg) memory memory'"
proof (cases "op")
  case (Indexed k offset)
  show ?thesis unfolding Indexed by (rule indexed_op [OF assms(1,3,4,5,7,8) [unfolded Indexed]])
next
  case (Table k offset)
  then have "refs = generateIndexedRefTable seg" using assms(6) by simp
  then show ?thesis
    unfolding Table using assms(8) by (intro table_op [OF assms(1-5,7) [unfolded Table]]) (simp add: Table)
next
  case (Dependent k offset)
  show ?thesis unfolding Dependent by (rule dependent_op [OF assms(1-5,7,8) [unfolded Dependent]])
next
  case Next_slice
  then show ?thesis using assms(7,8) next_slice_op by blast
qed

text \<open>What holds before a sequence of operations, and sequences whose operations fit together.\<close>

definition at_ops :: "u32 \<Rightarrow> nat \<Rightarrow> (nat \<Rightarrow> nat \<Rightarrow> u64) \<Rightarrow> kernel_op list \<Rightarrow> device_memory \<times> warp_state \<Rightarrow> bool" where
  "at_ops seg lane0 B ops st =
     (case ops of [] \<Rightarrow> job_at lane0 B (4 * unat seg) st | op # _ \<Rightarrow> before_op seg lane0 B op st)"

fun linked :: "u32 \<Rightarrow> nat \<Rightarrow> (nat \<Rightarrow> nat \<Rightarrow> u64) \<Rightarrow> kernel_op list \<Rightarrow> bool" where
  "linked seg lane0 B [] = True"
| "linked seg lane0 B (op # ops) =
     (op_valid seg op \<and> (\<forall>st. after_op seg lane0 B op st \<longrightarrow> at_ops seg lane0 B ops st) \<and> linked seg lane0 B ops)"

lemma linked_range:
  assumes "\<And>i. a \<le> i \<Longrightarrow> i < b \<Longrightarrow> op_valid seg (C i)"
    and "\<And>i st. after_op seg lane0 B (C i) st = before_op seg lane0 B (C (Suc i)) st"
    and "\<And>st. before_op seg lane0 B (C b) st \<Longrightarrow> at_ops seg lane0 B rest st" and "linked seg lane0 B rest" and "a \<le> b"
  shows "linked seg lane0 B (map C [a..<b] @ rest) \<and>
    (\<forall>st. before_op seg lane0 B (C a) st \<longrightarrow> at_ops seg lane0 B (map C [a..<b] @ rest) st)"
  using assms(5,1)
proof (induction rule: inc_induct)
  case base
  then show ?case using assms(3,4) by simp
next
  case (step a)
  then have "[a..<b] = a # [Suc a..<b]" by (simp add: upt_conv_Cons)
  then show ?case using step assms(2) by (simp add: at_ops_def [of _ _ _ "C a # _"])
qed

lemma dependent_linked:
  "linked seg lane0 B (dependent_ops seg) \<and>
   (\<forall>st. job_at lane0 B (2 * unat seg) st \<longrightarrow> at_ops seg lane0 B (dependent_ops seg) st)"
proof -
  let ?r = "\<lambda>k. map (Dependent k) [0..<unat seg]"
  have ops: "dependent_ops seg = ?r 2 @ ?r 3 @ []" by (simp add: dependent_ops_def upt_conv_Cons)
  have three: "linked seg lane0 B (?r 3 @ []) \<and>
      (\<forall>st. before_op seg lane0 B (Dependent 3 0) st \<longrightarrow> at_ops seg lane0 B (?r 3 @ []) st)"
    by (rule linked_range) (simp_all add: at_ops_def)
  then have "linked seg lane0 B (?r 2 @ ?r 3 @ []) \<and>
      (\<forall>st. before_op seg lane0 B (Dependent 2 0) st \<longrightarrow> at_ops seg lane0 B (?r 2 @ ?r 3 @ []) st)"
    by (intro linked_range) (simp_all del: split_paired_All)
  then show ?thesis unfolding ops before_op.simps op_block.simps add_0_right .
qed

lemma oneshot_linked:
  assumes "2 \<le> unat seg"
  shows "linked seg lane0 B (oneshot_ops seg) \<and>
    (\<forall>st. before_op seg lane0 B (Indexed 0 2) st \<longrightarrow> at_ops seg lane0 B (oneshot_ops seg) st)"
proof -
  let ?r1 = "map (Indexed 1) [0..<unat seg] @ dependent_ops seg"
  have one: "linked seg lane0 B ?r1 \<and> (\<forall>st. before_op seg lane0 B (Indexed 1 0) st \<longrightarrow> at_ops seg lane0 B ?r1 st)"
    using assms dependent_linked [of seg lane0 B] by (intro linked_range) (simp_all add: mult_2 del: split_paired_All)
  then have "linked seg lane0 B (Next_slice # ?r1)" by (simp del: split_paired_All)
  moreover have "before_op seg lane0 B (Indexed 0 (unat seg)) st \<Longrightarrow> at_ops seg lane0 B (Next_slice # ?r1) st" for st
    by (simp add: at_ops_def)
  ultimately have "linked seg lane0 B (map (Indexed 0) [2..<unat seg] @ (Next_slice # ?r1)) \<and>
      (\<forall>st. before_op seg lane0 B (Indexed 0 2) st \<longrightarrow> at_ops seg lane0 B (map (Indexed 0) [2..<unat seg] @ (Next_slice # ?r1)) st)"
    using assms by (intro linked_range) (simp_all add: mult_2 del: split_paired_All)
  then show ?thesis unfolding oneshot_ops_def append_Cons append_Nil .
qed

lemma precomputed_linked:
  assumes "2 \<le> unat seg"
  shows "linked seg lane0 B (precomputed_ops seg) \<and>
    (\<forall>st. job_at lane0 B 2 st \<longrightarrow> at_ops seg lane0 B (precomputed_ops seg) st)"
proof -
  let ?r1 = "map (Table 1) [0..<unat seg] @ dependent_ops seg"
  have one: "linked seg lane0 B ?r1 \<and> (\<forall>st. before_op seg lane0 B (Table 1 0) st \<longrightarrow> at_ops seg lane0 B ?r1 st)"
    using assms dependent_linked [of seg lane0 B] by (intro linked_range) (simp_all add: mult_2 del: split_paired_All)
  then have "linked seg lane0 B (map (Table 0) [2..<unat seg] @ ?r1) \<and>
      (\<forall>st. before_op seg lane0 B (Table 0 2) st \<longrightarrow> at_ops seg lane0 B (map (Table 0) [2..<unat seg] @ ?r1) st)"
    using assms by (intro linked_range) (simp_all add: mult_2 del: split_paired_All)
  then show ?thesis by (simp add: precomputed_ops_def numeral_2_eq_2 [symmetric] del: split_paired_All)
qed

text \<open>The state in which a kernel starts, given the first two blocks.\<close>

lemma first_blocks_filled:
  assumes "memory ! lane0 = words x0" and "memory ! (lane0 + 1) = words x1"
  shows "filled lane0 (ref_block n x0 x1) 2 memory"
  using assms ref_block_simps(1,2) [of n x0 x1] by (auto simp: filled_def less_2_cases_iff)

lemma kernel_starts:
  assumes "memory ! lane0 = words x0" and "memory ! (lane0 + 1) = words x1" and "B = ref_block n x0 x1"
  shows "before_op seg lane0 B (Indexed 0 2) (memory, oneshot_start lane0 seg memory)"
    "job_at lane0 B 2 (memory, precomputed_start lane0 memory)"
proof -
  have p: "load_block (memory ! (lane0 + 1)) = warp_of (store_layout (B (2 - 1)))"
    using ref_block_simps(2) [of n x0 x1] by (simp add: assms(2) [simplified] assms(3) load_block_words)
  have f: "filled lane0 B 2 memory" unfolding assms(3) by (rule first_blocks_filled [OF assms(1,2)])
  have "thread_inputs (4 * seg) = input_for (4 * seg) 0 1" by (auto simp: thread_inputs_def input_for_def threads_upt)
  then show "before_op seg lane0 B (Indexed 0 2) (memory, oneshot_start lane0 seg memory)"
    using p f by (simp add: job_at_def oneshot_start_def Let_def at_block_def addresses_at_def ready_def
        device_next_addresses_host next_addresses_input numeral_2_eq_2 [symmetric])
  show "job_at lane0 B 2 (memory, precomputed_start lane0 memory)"
    using p f by (simp add: job_at_def precomputed_start_def at_block_def numeral_2_eq_2 [symmetric])
qed

lemma outside_kept_trans: "outside_kept lane0 q a b \<Longrightarrow> outside_kept lane0 q b c \<Longrightarrow> outside_kept lane0 q a c"
  by (simp add: outside_kept_def)

lemma run_ops:
  assumes "B = ref_block (unat seg) x0 x1" and "2 \<le> unat seg" and "unat seg < 2 ^ 30"
    and "\<And>op. op \<in> set ops \<Longrightarrow> is_table op \<Longrightarrow> refs = generateIndexedRefTable seg"
    and "lane0 + 4 * unat seg \<le> length memory" and "linked seg lane0 B ops" and "at_ops seg lane0 B ops (memory, s)"
  shows "filled lane0 B (4 * unat seg) (fst (fold (exec_op lane0 seg refs) ops (memory, s))) \<and>
    outside_kept lane0 (4 * unat seg) memory (fst (fold (exec_op lane0 seg refs) ops (memory, s)))"
  using assms(4-7)
proof (induction ops arbitrary: memory s)
  case Nil
  then show ?case by (simp add: at_ops_def job_at_def outside_kept_def)
next
  case (Cons op ops)
  obtain m' s' where e: "exec_op lane0 seg refs op (memory, s) = (m', s')" by fastforce
  have "after_op seg lane0 B op (m', s') \<and> outside_kept lane0 (4 * unat seg) memory m'"
    using Cons.prems e by (intro op_step [OF assms(1-3)]) (auto simp: at_ops_def)
  then show ?case
    using Cons.IH [of m' s'] Cons.prems e outside_kept_trans by (fastforce simp: outside_kept_def)
qed

text \<open>Both kernels, for a job whose first two blocks are in place.\<close>

lemma kernel_spec:
  assumes "2 \<le> unat seg" and "unat seg < 2 ^ 30" and "lane0 + 4 * unat seg \<le> length memory"
    and "memory ! lane0 = words x0" and "memory ! (lane0 + 1) = words x1"
  shows "filled lane0 (ref_block (unat seg) x0 x1) (4 * unat seg) (argon2_kernel_oneshot lane0 seg memory) \<and>
    outside_kept lane0 (4 * unat seg) memory (argon2_kernel_oneshot lane0 seg memory)"
    and "filled lane0 (ref_block (unat seg) x0 x1) (4 * unat seg)
      (argon2_kernel_oneshot_precomputed lane0 seg (generateIndexedRefTable seg) memory) \<and>
    outside_kept lane0 (4 * unat seg) memory
      (argon2_kernel_oneshot_precomputed lane0 seg (generateIndexedRefTable seg) memory)"
proof -
  let ?B = "ref_block (unat seg) x0 x1"
  note l = oneshot_linked [OF assms(1), of lane0 ?B] precomputed_linked [OF assms(1), of lane0 ?B]
  have start: "before_op seg lane0 ?B (Indexed 0 2) (memory, oneshot_start lane0 seg memory)"
    "job_at lane0 ?B 2 (memory, precomputed_start lane0 memory)" using kernel_starts [OF assms(4,5)] by blast+
  have no_table: "\<not> is_table op" if "op \<in> set (oneshot_ops seg)" for op
    using that by (auto simp: oneshot_ops_def dependent_ops_def)
  show "filled lane0 ?B (4 * unat seg) (argon2_kernel_oneshot lane0 seg memory) \<and>
    outside_kept lane0 (4 * unat seg) memory (argon2_kernel_oneshot lane0 seg memory)"
    unfolding argon2_kernel_oneshot_def
    using no_table l(1) start(1) by (intro run_ops [OF refl assms(1,2) _ assms(3)]) blast+
  show "filled lane0 ?B (4 * unat seg) (argon2_kernel_oneshot_precomputed lane0 seg (generateIndexedRefTable seg) memory) \<and>
    outside_kept lane0 (4 * unat seg) memory (argon2_kernel_oneshot_precomputed lane0 seg (generateIndexedRefTable seg) memory)"
    unfolding argon2_kernel_oneshot_precomputed_def
    using l(2) start(2) by (intro run_ops [OF refl assms(1,2) _ assms(3)]) blast+
qed

end
