(* ===== verification/Kernel_Launch.thy ===== *)
theory Kernel_Launch
  imports Argon2_Kernel Hash_Api
begin

text \<open>
  A launch of the kernel: the grid of \<open>hashapi/OneshotLaunch.h\<close> and the warps that run in it. The
  warps of a launch run in any interleaving, block by block; each works on the memory of its own job,
  so every interleaving leaves the same memory, the reference filling of every job, and every fair
  one completes.
\<close>

section \<open>The shape of a launch\<close>

definition kDefaultWarpsPerBlock :: u32 where "kDefaultWarpsPerBlock = 1"
definition kOneshotSharedBytesPerWarp :: u64 where "kOneshotSharedBytesPerWarp = 1024"

definition resolveWarpsPerBlock :: "u64 \<Rightarrow> u32" where
  "resolveWarpsPerBlock requested =
     (if requested = 0 then kDefaultWarpsPerBlock
      else if kMaxWarpsPerBlock < requested then 0
      else ucast requested)"

record OneshotLaunch =
  ol_warps_per_block :: u32
  ol_grid :: u32
  ol_threads :: u32
  ol_shared_bytes :: u32

definition makeOneshotLaunch :: "u64 \<Rightarrow> u32 \<Rightarrow> OneshotLaunch" where
  "makeOneshotLaunch batch_size warps_per_block =
     (let warps = (if warps_per_block = 0 then kDefaultWarpsPerBlock else warps_per_block);
          launch = \<lparr> ol_warps_per_block = warps, ol_grid = 0, ol_threads = 0, ol_shared_bytes = 0 \<rparr>
      in if batch_size = 0 \<or> warps = 0 then launch
         else launch \<lparr> ol_grid := ucast ((batch_size + ucast warps - 1) div ucast warps),
                       ol_threads := warps * word_of_nat kThreadsPerLane,
                       ol_shared_bytes := ucast (ucast warps * kOneshotSharedBytesPerWarp) \<rparr>)"

definition oneshotJobId :: "u32 \<Rightarrow> u32 \<Rightarrow> u32 \<Rightarrow> u64" where
  "oneshotJobId block_idx thread_idx warps_per_block =
     (let warps = (if warps_per_block = 0 then kDefaultWarpsPerBlock else warps_per_block);
          warp = thread_idx div word_of_nat kThreadsPerLane
      in ucast block_idx * ucast warps + ucast warp)"

definition oneshotLane :: "u32 \<Rightarrow> u32" where
  "oneshotLane thread_idx = thread_idx mod word_of_nat kThreadsPerLane"

section \<open>The warps of a launch\<close>

text \<open>The job of a thread as the kernel computes it, and the jobs of a launch: one for every warp of the
  grid that does not return at once.\<close>

definition kernel_job_id :: "u32 \<Rightarrow> u32 \<Rightarrow> u32 \<Rightarrow> u32" where
  "kernel_job_id block_idx thread_idx warps_per_block =
     (let warp = thread_idx div word_of_nat kThreadsPerLane in block_idx * warps_per_block + warp)"

definition launch_jobs :: "OneshotLaunch \<Rightarrow> u32 \<Rightarrow> nat list" where
  "launch_jobs launch batch_size =
     map unat (filter (\<lambda>job_id. job_id < batch_size)
       (concat (map (\<lambda>b. map (\<lambda>w. kernel_job_id (word_of_nat b) (word_of_nat (w * kThreadsPerLane)) (ol_warps_per_block launch))
          [0..<unat (ol_threads launch) div kThreadsPerLane]) [0..<unat (ol_grid launch)])))"

definition job_base :: "u32 \<Rightarrow> nat \<Rightarrow> nat" where
  "job_base segment_blocks job_id = job_id * unat (4 * segment_blocks)"

text \<open>The launch with its warps one after the other, with the addresses computed by the warp
  (\<open>None\<close>) or read from a table.\<close>

definition run_launch :: "u32 \<Rightarrow> u32 list option \<Rightarrow> nat list \<Rightarrow> device_memory \<Rightarrow> device_memory" where
  "run_launch segment_blocks refs jobs memory =
     fold (\<lambda>job m. case refs of
         None \<Rightarrow> argon2_kernel_oneshot (job_base segment_blocks job) segment_blocks m
       | Some table \<Rightarrow> argon2_kernel_oneshot_precomputed (job_base segment_blocks job) segment_blocks table m) jobs memory"

text \<open>The launch with its warps interleaved: a warp that is scheduled starts, executes its next
  operation, or has returned already.\<close>

record grid =
  gr_memory :: device_memory
  gr_warps :: "nat \<Rightarrow> (kernel_op list \<times> warp_state) option"

definition start_warp :: "u32 \<Rightarrow> u32 list option \<Rightarrow> nat \<Rightarrow> device_memory \<Rightarrow> kernel_op list \<times> warp_state" where
  "start_warp segment_blocks refs lane0 memory =
     (case refs of
        None \<Rightarrow> (oneshot_ops segment_blocks, oneshot_start lane0 segment_blocks memory)
      | Some _ \<Rightarrow> (precomputed_ops segment_blocks, precomputed_start lane0 memory))"

definition warp_turn :: "u32 \<Rightarrow> u32 list option \<Rightarrow> nat \<Rightarrow> grid \<Rightarrow> grid" where
  "warp_turn segment_blocks refs job g =
     (let lane0 = job_base segment_blocks job in
      case gr_warps g job of
        None \<Rightarrow> g \<lparr> gr_warps := (gr_warps g)(job \<mapsto> start_warp segment_blocks refs lane0 (gr_memory g)) \<rparr>
      | Some ([], s) \<Rightarrow> g
      | Some (op # ops, s) \<Rightarrow>
          let (memory, s') = exec_op lane0 segment_blocks (case refs of None \<Rightarrow> [] | Some table \<Rightarrow> table) op (gr_memory g, s)
          in g \<lparr> gr_memory := memory, gr_warps := (gr_warps g)(job \<mapsto> (ops, s')) \<rparr>)"

definition launched :: "device_memory \<Rightarrow> grid" where
  "launched memory = \<lparr> gr_memory = memory, gr_warps = (\<lambda>_. None) \<rparr>"

section \<open>Every job has exactly one warp\<close>

lemma grid_upt: "concat (map (\<lambda>b. map (\<lambda>w. b * W + w) [0..<W]) [0..<G]) = [0..<G * (W :: nat)]"
proof (induction G)
  case (Suc G)
  have "map (\<lambda>w. G * W + w) [0..<W] = [G * W..<G * W + W]"
    using map_add_upt [of "G * W" W] by (simp add: add.commute)
  then show ?case using Suc upt_add_eq_append [of 0 "G * W" W] by (simp add: add.commute)
qed simp

lemma filter_less_upt: "n \<le> (m :: nat) \<Longrightarrow> filter (\<lambda>i. i < n) [0..<m] = [0..<n]"
proof -
  assume "n \<le> m"
  then have "[0..<m] = [0..<n] @ [n..<m]" using upt_add_eq_append [of 0 n "m - n"] by simp
  then show ?thesis by (simp add: filter_empty_conv)
qed

lemma ceil_div:
  fixes b W :: nat
  assumes "0 < W"
  shows "b \<le> (b + W - 1) div W * W" "(b + W - 1) div W * W \<le> b + W - 1"
proof -
  have "(b + W - 1) div W * W + (b + W - 1) mod W = b + W - 1" "(b + W - 1) mod W < W" using assms by simp_all
  then show "b \<le> (b + W - 1) div W * W" "(b + W - 1) div W * W \<le> b + W - 1" by linarith+
qed

lemma launch_shape:
  assumes "1 \<le> unat w" and "unat w \<le> 16" and "0 < b" and "b + 16 < 2 ^ 32"
  shows "ol_warps_per_block (makeOneshotLaunch (word_of_nat b) w) = w"
    and "unat (ol_grid (makeOneshotLaunch (word_of_nat b) w)) = (b + unat w - 1) div unat w"
    and "unat (ol_threads (makeOneshotLaunch (word_of_nat b) w)) div kThreadsPerLane = unat w"
proof -
  have ub: "unat (word_of_nat b :: u64) = b" unfolding unat_of_nat using assms(4) by simp
  have uw: "unat (ucast w :: u64) = unat w"
    using order_le_less_trans [OF assms(2), of "2 ^ 64"] by (simp add: unsigned_ucast_eq take_bit_nat_eq_self_iff)
  have nz: "w \<noteq> 0" "(word_of_nat b :: u64) \<noteq> 0" using assms(1,3) ub by auto
  have sum: "unat (word_of_nat b + ucast w - 1 :: u64) = b + unat w - 1"
  proof -
    have "unat (word_of_nat b + ucast w :: u64) = b + unat w"
      unfolding unat_word_ariths ub uw using assms(2,4) by simp
    moreover from this have "1 \<le> (word_of_nat b + ucast w :: u64)" unfolding word_le_nat_alt using assms(3) by simp
    ultimately show ?thesis by (simp only: unat_sub unsigned_1)
  qed
  have lt: "(b + unat w - 1) div unat w < 2 ^ 32"
    using div_le_dividend [of "b + unat w - 1" "unat w"] assms(2,4) by linarith
  show "ol_warps_per_block (makeOneshotLaunch (word_of_nat b) w) = w"
    using nz by (simp add: makeOneshotLaunch_def Let_def)
  have "unat ((word_of_nat b + ucast w - 1) div ucast w :: u64) = (b + unat w - 1) div unat w"
    unfolding unat_div sum uw ..
  then have "unat (ucast ((word_of_nat b + ucast w - 1) div ucast w :: u64) :: u32) = (b + unat w - 1) div unat w"
    unfolding unsigned_ucast_eq using lt by (simp add: take_bit_nat_eq_self_iff)
  then show "unat (ol_grid (makeOneshotLaunch (word_of_nat b) w)) = (b + unat w - 1) div unat w"
    using nz by (simp add: makeOneshotLaunch_def Let_def)
  have "unat (w * 32) = unat w * 32" unfolding unat_word_ariths using assms(2) by simp
  then show "unat (ol_threads (makeOneshotLaunch (word_of_nat b) w)) div kThreadsPerLane = unat w"
    using nz by (simp add: makeOneshotLaunch_def Let_def kThreadsPerLane_def)
qed

lemma launch_covers:
  assumes "1 \<le> unat w" and "unat w \<le> 16" and "0 < b" and "b + 16 < 2 ^ 32"
  shows "launch_jobs (makeOneshotLaunch (word_of_nat b) w) (word_of_nat b) = [0..<b]"
proof -
  define W where "W = unat w"
  define G where "G = (b + W - 1) div W"
  have W: "0 < W" "W \<le> 16" using assms(1,2) by (simp_all add: W_def)
  have GW: "b \<le> G * W" "G * W < 2 ^ 32" using ceil_div [OF W(1), of b] W assms(4) unfolding G_def by linarith+
  have id: "kernel_job_id (word_of_nat bi) (word_of_nat (wi * kThreadsPerLane)) w = word_of_nat (bi * W + wi)" if "wi < W" for bi wi
  proof -
    have "unat (word_of_nat (wi * 32) :: u32) = wi * 32" unfolding unat_of_nat using that W(2) by simp
    then have "unat (word_of_nat (wi * 32) div 32 :: u32) = wi" unfolding unat_div by simp
    moreover have "unat (word_of_nat wi :: u32) = wi" unfolding unat_of_nat using that W(2) by simp
    ultimately have "(word_of_nat (wi * 32) div 32 :: u32) = word_of_nat wi" by (simp add: word_unat_eq_iff)
    then show ?thesis by (simp add: kernel_job_id_def kThreadsPerLane_def W_def)
  qed
  have "concat (map (\<lambda>bi. map (\<lambda>wi. kernel_job_id (word_of_nat bi) (word_of_nat (wi * kThreadsPerLane)) w) [0..<W]) [0..<G])
      = map word_of_nat (concat (map (\<lambda>bi. map (\<lambda>wi. bi * W + wi) [0..<W]) [0..<G]))"
    unfolding map_concat map_map by (rule arg_cong [of _ _ concat]) (use id in simp)
  then have "launch_jobs (makeOneshotLaunch (word_of_nat b) w) (word_of_nat b) =
      map unat (filter (\<lambda>j. j < word_of_nat b) (map word_of_nat [0..<G * W] :: u32 list))"
    unfolding launch_jobs_def launch_shape [OF assms] by (simp only: grid_upt W_def [symmetric] G_def [symmetric])
  also have "\<dots> = filter (\<lambda>j. j < b) [0..<G * W]"
  proof -
    have u: "unat (word_of_nat j :: u32) = j" if "j < 2 ^ 32" for j unfolding unat_of_nat using that by simp
    have "map unat (filter (\<lambda>j. j < word_of_nat b) (map word_of_nat js :: u32 list)) = filter (\<lambda>j. j < b) js"
      if "\<forall>j\<in>set js. j < 2 ^ 32" for js
      using that u assms(4) by (induction js) (simp_all add: word_less_nat_alt)
    then show ?thesis using GW(2) by simp
  qed
  finally show ?thesis using GW(1) by (simp add: filter_less_upt)
qed

text \<open>The helper of the host computes the same job, without the wrap-around of the device.\<close>

lemma oneshotJobId_kernel:
  assumes "1 \<le> unat w" and "unat block_idx * unat w + unat (thread_idx div 32) < 2 ^ 32"
  shows "oneshotJobId block_idx thread_idx w = ucast (kernel_job_id block_idx thread_idx w)"
proof -
  have up: "unat (ucast x :: u64) = unat x" for x :: u32
    using order_less_trans [OF unsigned_less [of x], of "2 ^ 64"]
    by (simp add: unsigned_ucast_eq take_bit_nat_eq_self_iff)
  have "unat (block_idx * w + thread_idx div 32) = unat block_idx * unat w + unat (thread_idx div 32)"
    using assms(2) by (simp add: unat_word_ariths mod_add_left_eq)
  moreover have "unat (ucast block_idx * ucast w + ucast (thread_idx div 32) :: u64) = unat block_idx * unat w + unat (thread_idx div 32)"
    using assms(2) by (simp add: unat_word_ariths up mod_add_left_eq)
  moreover have "w \<noteq> 0" using assms(1) by auto
  ultimately show ?thesis
    by (simp add: oneshotJobId_def kernel_job_id_def kThreadsPerLane_def word_unat_eq_iff up)
qed

section \<open>Every interleaving fills every job\<close>

text \<open>The turns a warp still needs.\<close>

definition turns_left :: "u32 \<Rightarrow> u32 list option \<Rightarrow> grid \<Rightarrow> nat \<Rightarrow> nat" where
  "turns_left seg refs g job =
     (case gr_warps g job of
        None \<Rightarrow> 1 + length (case refs of None \<Rightarrow> oneshot_ops seg | Some _ \<Rightarrow> precomputed_ops seg)
      | Some (ops, _) \<Rightarrow> length ops)"

lemma turn_counts:
  "turns_left seg refs (warp_turn seg refs i g) j = (if i = j then turns_left seg refs g j - 1 else turns_left seg refs g j)"
  by (auto simp: warp_turn_def turns_left_def start_warp_def Let_def split: option.splits list.splits prod.splits)

lemma schedule_counts: "turns_left seg refs (fold (warp_turn seg refs) js g) j = turns_left seg refs g j - count_list js j"
  by (induction js arbitrary: g) (simp_all add: turn_counts)

lemma program_lengths:
  assumes "2 \<le> unat seg"
  shows "length (oneshot_ops seg) = 4 * unat seg - 1" "length (precomputed_ops seg) = 4 * unat seg - 2"
proof -
  have "length (dependent_ops seg) = 2 * unat seg" by (simp add: dependent_ops_def upt_conv_Cons)
  then show "length (oneshot_ops seg) = 4 * unat seg - 1" "length (precomputed_ops seg) = 4 * unat seg - 2"
    using assms by (simp_all add: oneshot_ops_def precomputed_ops_def)
qed

lemma all_returned:
  assumes "2 \<le> unat seg" and "gr_warps g j = None" and "4 * unat seg \<le> count_list js j"
  shows "\<exists>s. gr_warps (fold (warp_turn seg refs) js g) j = Some ([], s)"
proof -
  have "turns_left seg refs g j \<le> 4 * unat seg"
    using assms(1,2) program_lengths [OF assms(1)] by (auto simp: turns_left_def split: option.splits)
  then have "turns_left seg refs (fold (warp_turn seg refs) js g) j = 0" using assms(3) by (simp add: schedule_counts)
  then show ?thesis by (auto simp: turns_left_def split: option.splits)
qed

text \<open>What holds of every job at any moment of the launch.\<close>

definition job_ref :: "u32 \<Rightarrow> device_memory \<Rightarrow> nat \<Rightarrow> nat \<Rightarrow> nat \<Rightarrow> u64" where
  "job_ref seg memory job = ref_block (unat seg) (\<lambda>n. memory ! job_base seg job ! n) (\<lambda>n. memory ! (job_base seg job + 1) ! n)"

definition job_inv :: "u32 \<Rightarrow> u32 list option \<Rightarrow> device_memory \<Rightarrow> grid \<Rightarrow> nat \<Rightarrow> bool" where
  "job_inv seg refs memory g job =
     (let lane0 = job_base seg job; B = job_ref seg memory job in
      case gr_warps g job of
        None \<Rightarrow> gr_memory g ! lane0 = memory ! lane0 \<and> gr_memory g ! (lane0 + 1) = memory ! (lane0 + 1)
      | Some (ops, s) \<Rightarrow> linked seg lane0 B ops \<and> at_ops seg lane0 B ops (gr_memory g, s) \<and>
          (\<forall>op\<in>set ops. is_table op \<longrightarrow> refs \<noteq> None))"

definition grid_inv :: "u32 \<Rightarrow> u32 list option \<Rightarrow> nat \<Rightarrow> device_memory \<Rightarrow> grid \<Rightarrow> bool" where
  "grid_inv seg refs b memory g =
     (2 \<le> unat seg \<and> unat seg < 2 ^ 30 \<and> (\<forall>table. refs = Some table \<longrightarrow> table = generateIndexedRefTable seg) \<and>
      b * (4 * unat seg) \<le> length memory \<and>
      (\<forall>j<b. length (memory ! job_base seg j) = 128 \<and> length (memory ! (job_base seg j + 1)) = 128) \<and>
      outside_kept 0 (b * (4 * unat seg)) memory (gr_memory g) \<and> (\<forall>j<b. job_inv seg refs memory g j))"

lemma job_base_eq: "unat seg < 2 ^ 30 \<Longrightarrow> job_base seg j = j * (4 * unat seg)"
  unfolding job_base_def unat_word_ariths by simp

lemma words_block: "length b = 128 \<Longrightarrow> words (\<lambda>n. b ! n) = b"
  by (simp add: words_def list_eq_iff_nth_eq)

lemma job_at_outside:
  assumes "job_at lane0 B j (m, s)" and "outside_kept lane1 q m m'" and "lane0 + j \<le> lane1 \<or> lane1 + q \<le> lane0"
  shows "job_at lane0 B j (m', s)"
proof -
  have "m' ! (lane0 + i) = m ! (lane0 + i)" if "i < j" for i using assms(2,3) that by (auto simp: outside_kept_def)
  then show ?thesis using assms(1) by (simp add: job_at_def filled_def)
qed

lemma at_ops_outside:
  assumes "at_ops seg lane0 B ops (m, s)" and "linked seg lane0 B ops" and "outside_kept lane1 q m m'"
    and "lane0 + 4 * unat seg \<le> lane1 \<or> lane1 + q \<le> lane0"
  shows "at_ops seg lane0 B ops (m', s)"
proof (cases ops)
  case Nil
  then show ?thesis using assms job_at_outside by (auto simp: at_ops_def)
next
  case (Cons op rest)
  have b: "op_block seg op \<le> 4 * unat seg" using assms(2) op_block_bound [of seg op] Cons by (cases "op") auto
  have "before_op seg lane0 B op (m, s) \<Longrightarrow> before_op seg lane0 B op (m', s)"
    using job_at_outside [of lane0 B "op_block seg op" m s lane1 q m'] assms(3,4) b
    by (cases "op") (auto simp: addresses_at_def)
  then show ?thesis using assms(1) Cons by (simp add: at_ops_def)
qed

lemma regions_apart:
  fixes i j q :: nat
  assumes "i \<noteq> j"
  shows "j * q + q \<le> i * q \<or> i * q + q \<le> j * q"
proof (cases "j < i")
  case True
  then have "Suc j * q \<le> i * q" by (intro mult_right_mono) simp_all
  then show ?thesis by simp
next
  case False
  then have "Suc i * q \<le> j * q" using assms by (intro mult_right_mono) simp_all
  then show ?thesis by simp
qed

lemma turn_own:
  assumes inv: "grid_inv seg refs b memory g" and i: "i < b"
  shows "job_inv seg refs memory (warp_turn seg refs i g) i \<and>
    outside_kept (job_base seg i) (4 * unat seg) (gr_memory g) (gr_memory (warp_turn seg refs i g))"
proof -
  let ?l = "job_base seg i" and ?B = "job_ref seg memory i"
  have seg: "2 \<le> unat seg" "unat seg < 2 ^ 30" and len: "length (gr_memory g) = length memory"
    and tab: "\<And>table. refs = Some table \<Longrightarrow> table = generateIndexedRefTable seg" and job: "job_inv seg refs memory g i"
    and blk: "length (memory ! ?l) = 128" "length (memory ! (?l + 1)) = 128"
    using inv i by (auto simp: grid_inv_def outside_kept_def)
  have same: "outside_kept ?l (4 * unat seg) m m" for m by (simp add: outside_kept_def)
  consider (start) "gr_warps g i = None" | (idle) s where "gr_warps g i = Some ([], s)"
    | (run) op ops s where "gr_warps g i = Some (op # ops, s)" by (metis list.exhaust not_None_eq surj_pair)
  then show ?thesis
  proof cases
    case start
    then have "gr_memory g ! ?l = words (\<lambda>n. memory ! ?l ! n)" "gr_memory g ! (?l + 1) = words (\<lambda>n. memory ! (?l + 1) ! n)"
      using job blk by (simp_all add: job_inv_def Let_def words_block)
    note k = kernel_starts [OF this, of ?B "unat seg", unfolded job_ref_def, OF refl, folded job_ref_def]
    have "(\<forall>op\<in>set (oneshot_ops seg). \<not> is_table op)" by (auto simp: oneshot_ops_def dependent_ops_def)
    then show ?thesis
      using start k same oneshot_linked [OF seg(1), of ?l ?B] precomputed_linked [OF seg(1), of ?l ?B]
      by (auto simp: warp_turn_def job_inv_def start_warp_def Let_def split: option.splits simp del: before_op.simps)
  next
    case idle
    then show ?thesis using job same by (simp add: warp_turn_def)
  next
    case run
    let ?refs = "case refs of None \<Rightarrow> [] | Some table \<Rightarrow> table"
    have st: "linked seg ?l ?B (op # ops)" "at_ops seg ?l ?B (op # ops) (gr_memory g, s)" "is_table op \<Longrightarrow> refs \<noteq> None"
      "\<forall>op\<in>set ops. is_table op \<longrightarrow> refs \<noteq> None"
      using job run by (auto simp: job_inv_def Let_def)
    obtain m' s' where e: "exec_op ?l seg ?refs op (gr_memory g, s) = (m', s')" by fastforce
    have "?l + 4 * unat seg \<le> length memory"
    proof -
      have "Suc i * (4 * unat seg) \<le> b * (4 * unat seg)" using i by (intro mult_right_mono) simp_all
      then show ?thesis using inv by (simp add: job_base_eq [OF seg(2)] grid_inv_def)
    qed
    then have "after_op seg ?l ?B op (m', s') \<and> outside_kept ?l (4 * unat seg) (gr_memory g) m'"
      using st(1-3) tab len e unfolding job_ref_def
      by (intro op_step [OF refl seg]) (auto simp: at_ops_def split: option.splits)
    then show ?thesis using st run e by (simp add: warp_turn_def job_inv_def Let_def)
  qed
qed

lemma turn_other:
  assumes inv: "grid_inv seg refs b memory g" and i: "i < b" and j: "j < b" "i \<noteq> j"
  shows "job_inv seg refs memory (warp_turn seg refs i g) j"
proof -
  let ?g = "warp_turn seg refs i g" and ?l = "job_base seg j"
  have seg: "unat seg < 2 ^ 30" "2 \<le> unat seg" and job: "job_inv seg refs memory g j" using inv j by (simp_all add: grid_inv_def)
  have w: "gr_warps ?g j = gr_warps g j"
    using j(2) by (auto simp: warp_turn_def Let_def split: option.splits list.splits prod.splits)
  have out: "outside_kept (job_base seg i) (4 * unat seg) (gr_memory g) (gr_memory ?g)" using turn_own [OF inv i] by simp
  have apart: "?l + 4 * unat seg \<le> job_base seg i \<or> job_base seg i + 4 * unat seg \<le> ?l"
    using regions_apart [OF j(2)] by (simp add: job_base_eq [OF seg(1)])
  show ?thesis
  proof (cases "gr_warps g j")
    case None
    have "gr_memory ?g ! (?l + k) = gr_memory g ! (?l + k)" if "k < 2" for k
      using out apart seg(2) that by (auto simp: outside_kept_def)
    from this [of 0] this [of 1] show ?thesis using job None w by (simp add: job_inv_def Let_def)
  next
    case (Some x)
    then show ?thesis using job w at_ops_outside [OF _ _ out apart] by (cases x) (simp add: job_inv_def Let_def)
  qed
qed

text \<open>The launch is a machine whose events are the turns of its warps; it keeps everything behind the
  memory of the batch.\<close>

interpretation launch: monotone_machine "warp_turn seg refs" "grid_inv seg refs b memory" "\<lambda>j. j < b"
    "\<lambda>g g'. outside_kept 0 (b * (4 * unat seg)) (gr_memory g) (gr_memory g')" for seg refs b memory
proof
  fix g g' g'' :: grid and i :: nat
  let ?out = "\<lambda>g g'. outside_kept 0 (b * (4 * unat seg)) (gr_memory g) (gr_memory g')"
  show "?out g g" by (simp add: outside_kept_def)
  show "?out g g' \<Longrightarrow> ?out g' g'' \<Longrightarrow> ?out g g''" by (rule outside_kept_trans)
  assume inv: "grid_inv seg refs b memory g" and i: "i < b"
  have "Suc i * (4 * unat seg) \<le> b * (4 * unat seg)" using i by (intro mult_right_mono) simp_all
  then show out: "?out g (warp_turn seg refs i g)"
    using turn_own [OF inv i] inv by (auto simp: outside_kept_def grid_inv_def job_base_eq)
  have "job_inv seg refs memory (warp_turn seg refs i g) j" if "j < b" for j
    using turn_own [OF inv i] turn_other [OF inv i that] by (cases "i = j") simp_all
  then show "grid_inv seg refs b memory (warp_turn seg refs i g)"
    using inv outside_kept_trans [OF _ out] by (simp add: grid_inv_def)
qed

text \<open>The memory after a launch, job by job.\<close>

definition launch_result :: "u32 \<Rightarrow> nat \<Rightarrow> device_memory \<Rightarrow> device_memory \<Rightarrow> bool" where
  "launch_result seg b memory m =
     (outside_kept 0 (b * (4 * unat seg)) memory m \<and>
      (\<forall>j<b. filled (job_base seg j) (job_ref seg memory j) (4 * unat seg) m))"

lemma launch_result_unique:
  assumes "unat seg < 2 ^ 30" and "0 < unat seg" and "launch_result seg b memory m" and "launch_result seg b memory m'"
  shows "m = m'"
proof (rule nth_equalityI)
  show "length m = length m'" using assms(3,4) by (simp add: launch_result_def outside_kept_def)
  fix i
  assume "i < length m"
  show "m ! i = m' ! i"
  proof (cases "i < b * (4 * unat seg)")
    case True
    let ?j = "i div (4 * unat seg)" and ?k = "i mod (4 * unat seg)"
    have "?j < b" "?k < 4 * unat seg" using True assms(2) by (simp_all add: div_less_iff_less_mult)
    moreover have "job_base seg ?j + ?k = i" unfolding job_base_eq [OF assms(1)] by (rule div_mult_mod_eq)
    ultimately have "?j < b" "?k < 4 * unat seg" "job_base seg ?j + ?k = i" by simp_all
    then show ?thesis using assms(3,4) unfolding launch_result_def filled_def by metis
  next
    case False
    then show ?thesis using assms(3,4) by (simp add: launch_result_def outside_kept_def)
  qed
qed

lemma launched_inv:
  assumes "2 \<le> unat seg" and "unat seg < 2 ^ 30" and "refs \<in> {None, Some (generateIndexedRefTable seg)}"
    and "b * (4 * unat seg) \<le> length memory"
    and "\<forall>j<b. length (memory ! job_base seg j) = 128 \<and> length (memory ! (job_base seg j + 1)) = 128"
  shows "grid_inv seg refs b memory (launched memory)"
  using assms by (auto simp: grid_inv_def launched_def job_inv_def outside_kept_def Let_def)

lemma schedule_result:
  assumes inv: "grid_inv seg refs b memory (launched memory)" and js: "\<forall>j\<in>set js. j < b"
    and fair: "\<forall>j<b. 4 * unat seg \<le> count_list js j"
  shows "launch_result seg b memory (gr_memory (fold (warp_turn seg refs) js (launched memory)))"
proof -
  let ?g = "fold (warp_turn seg refs) js (launched memory)"
  have g: "grid_inv seg refs b memory ?g" using js by (intro launch.run_inv [OF inv]) simp
  have seg: "2 \<le> unat seg" using inv by (simp add: grid_inv_def)
  have "filled (job_base seg j) (job_ref seg memory j) (4 * unat seg) (gr_memory ?g)" if "j < b" for j
  proof -
    have "4 * unat seg \<le> count_list js j" "gr_warps (launched memory) j = None" using fair that by (simp_all add: launched_def)
    then obtain s where "gr_warps ?g j = Some ([], s)" using all_returned [OF seg, of "launched memory"] by blast
    then show ?thesis using g that by (auto simp: grid_inv_def job_inv_def Let_def at_ops_def job_at_def)
  qed
  then show ?thesis using g by (simp add: launch_result_def grid_inv_def)
qed

text \<open>The warps one after the other.\<close>

lemma run_launch_result:
  assumes seg: "2 \<le> unat seg" "unat seg < 2 ^ 30" and refs: "refs \<in> {None, Some (generateIndexedRefTable seg)}"
    and len: "b * (4 * unat seg) \<le> length memory"
    and blocks: "\<forall>j<b. length (memory ! job_base seg j) = 128 \<and> length (memory ! (job_base seg j + 1)) = 128"
  shows "launch_result seg b memory (run_launch seg refs [0..<b] memory)"
proof -
  let ?q = "4 * unat seg"
  have "outside_kept 0 (c * ?q) memory (run_launch seg refs [0..<c] memory) \<and>
      (\<forall>j<c. filled (job_base seg j) (job_ref seg memory j) ?q (run_launch seg refs [0..<c] memory))" if "c \<le> b" for c
    using that
  proof (induction c)
    case 0
    then show ?case by (simp add: run_launch_def outside_kept_def)
  next
    case (Suc c)
    let ?m = "run_launch seg refs [0..<c] memory" and ?l = "job_base seg c"
    let ?m' = "run_launch seg refs [0..<Suc c] memory"
    have IH: "outside_kept 0 (c * ?q) memory ?m" "\<forall>j<c. filled (job_base seg j) (job_ref seg memory j) ?q ?m"
      using Suc by simp_all
    have l: "?l = c * ?q" by (rule job_base_eq [OF seg(2)])
    have "Suc c * ?q \<le> b * ?q" using Suc.prems by (intro mult_right_mono) simp_all
    then have lm: "?l + ?q \<le> length ?m" using len IH(1) by (simp add: l outside_kept_def)
    have "?m ! ?l = words (\<lambda>n. memory ! ?l ! n)" "?m ! (?l + 1) = words (\<lambda>n. memory ! (?l + 1) ! n)"
      using IH(1) Suc.prems blocks by (simp_all add: words_block outside_kept_def l [symmetric])
    note k = kernel_spec [OF seg lm this, folded job_ref_def]
    have "?m' = (case refs of None \<Rightarrow> argon2_kernel_oneshot ?l seg ?m | Some table \<Rightarrow> argon2_kernel_oneshot_precomputed ?l seg table ?m)"
      by (cases refs) (simp_all add: run_launch_def)
    then have s: "filled ?l (job_ref seg memory c) ?q ?m'" "outside_kept ?l ?q ?m ?m'"
      using k refs by auto
    have "filled (job_base seg j) (job_ref seg memory j) ?q ?m'" if "j < Suc c" for j
    proof (cases "j = c")
      case False
      then have "Suc j * ?q \<le> c * ?q" using that by (intro mult_right_mono) simp_all
      then have "?m' ! (job_base seg j + i) = ?m ! (job_base seg j + i)" if "i < ?q" for i
        using s(2) that by (simp add: outside_kept_def l job_base_eq [OF seg(2), of j])
      then show ?thesis using IH(2) False \<open>j < Suc c\<close> by (simp add: filled_def)
    qed (use s(1) in simp)
    then show ?case using IH(1) s(2) by (auto simp: outside_kept_def l)
  qed
  then show ?thesis by (simp add: launch_result_def)
qed

section \<open>Properties\<close>

text \<open>
  C6 (every launch fills every job): the grid of \<open>makeOneshotLaunch\<close> has exactly one warp for every
  job of the batch, whatever the number of warps per block. However the warps are interleaved block by
  block, once each has had its turns the device memory holds for every job the blocks RFC 9106
  prescribes for one pass and one lane, from the first two blocks of the job, and nothing else has
  changed; running the warps one after the other gives the same memory, and so does the kernel that
  reads its references from the table of the host.
\<close>

theorem launch_fills_argon2:
  assumes "2 \<le> unat seg" and "unat seg < 2 ^ 30" and "refs \<in> {None, Some (generateIndexedRefTable seg)}"
    and "1 \<le> unat warps" and "unat warps \<le> 16" and "0 < b" and "b + 16 < 2 ^ 32"
    and "b * (4 * unat seg) \<le> length memory"
    and "\<forall>j<b. length (memory ! job_base seg j) = 128 \<and> length (memory ! (job_base seg j + 1)) = 128"
    and "jobs = launch_jobs (makeOneshotLaunch (word_of_nat b) warps) (word_of_nat b)"
    and "set js \<subseteq> set jobs" and "\<forall>j\<in>set jobs. 4 * unat seg \<le> count_list js j"
    and "after = gr_memory (fold (warp_turn seg refs) js (launched memory))"
  shows "jobs = [0..<b] \<and> after = run_launch seg refs jobs memory \<and> length after = length memory \<and>
    (\<forall>j<b. \<forall>i<4 * unat seg. after ! (job_base seg j + i) =
       map (argon2_matrix (unat seg) (\<lambda>n. memory ! job_base seg j ! n) (\<lambda>n. memory ! (job_base seg j + 1) ! n)
              (4 * unat seg) ! i) [0..<128]) \<and>
    (\<forall>i. b * (4 * unat seg) \<le> i \<longrightarrow> after ! i = memory ! i)"
proof -
  have jobs: "jobs = [0..<b]" unfolding assms(10) by (rule launch_covers [OF assms(4-7)])
  have r: "launch_result seg b memory after"
    unfolding assms(13) using assms(11,12) jobs
    by (intro schedule_result launched_inv [OF assms(1-3,8,9)]) auto
  have "after = run_launch seg refs jobs memory"
    unfolding jobs using r run_launch_result [OF assms(1-3,8,9)] assms(1) by (intro launch_result_unique [OF assms(2)]) simp_all
  moreover have "after ! (job_base seg j + i) =
       map (argon2_matrix (unat seg) (\<lambda>n. memory ! job_base seg j ! n) (\<lambda>n. memory ! (job_base seg j + 1) ! n)
              (4 * unat seg) ! i) [0..<128]" if "j < b" "i < 4 * unat seg" for j i
    using r that matrix_nth [of i "4 * unat seg"] by (simp add: launch_result_def filled_def job_ref_def words_def)
  moreover have "length after = length memory" "\<forall>i. b * (4 * unat seg) \<le> i \<longrightarrow> after ! i = memory ! i"
    using r by (simp_all add: launch_result_def outside_kept_def)
  ultimately show ?thesis using jobs by blast
qed

theorem launch_fills_argon2_witness:
  "gr_memory (fold (warp_turn 2 None) [0, 0, 0, 0, 0, 0, 0, 0] (launched (replicate 8 (replicate 128 0)))) =
     run_launch 2 None [0] (replicate 8 (replicate 128 0)) \<and>
   launch_jobs (makeOneshotLaunch 1 4) 1 = [0]"
proof -
  let ?m = "replicate 8 (replicate 128 0) :: device_memory"
  have "launch_jobs (makeOneshotLaunch 1 4) 1 = [0]" by code_simp
  moreover have "\<forall>j<1. length (?m ! job_base 2 j) = 128 \<and> length (?m ! (job_base 2 j + 1)) = 128"
    by (simp add: job_base_def)
  ultimately show ?thesis
    using launch_fills_argon2 [OF _ _ _ _ _ _ _ _ _ refl _ _ refl, of 2 None 4 1 ?m "[0, 0, 0, 0, 0, 0, 0, 0]"] by simp
qed



end
