(* ===== verification/Device_First_Blocks.thy ===== *)
theory Device_First_Blocks
  imports Argon2_Host Kernel_Launch
begin

text \<open>
  The first two blocks of every job computed on the device: the Blake2b of \<open>kernelrunner.cu\<close>, which
  keeps 32-bit lengths and starts from uninitialised buffers, the long hash, the initial hash and the
  kernel \<open>argon2_first_blocks_kernel\<close>. They simulate the host functions of \<open>Argon2_Host\<close>, so the
  device prepares the blocks the host would have copied in.
\<close>

section \<open>Blake2b on the device\<close>

definition device_store32 :: "u32 \<Rightarrow> byte list" where
  "device_store32 v = [ucast v, ucast (drop_bit 8 v), ucast (drop_bit 16 v), ucast (drop_bit 24 v)]"

definition device_store64 :: "u64 \<Rightarrow> byte list" where
  "device_store64 v = [ucast v, ucast (drop_bit 8 v), ucast (drop_bit 16 v), ucast (drop_bit 24 v),
     ucast (drop_bit 32 v), ucast (drop_bit 40 v), ucast (drop_bit 48 v), ucast (drop_bit 56 v)]"

definition device_load64 :: "byte list \<Rightarrow> u64" where
  "device_load64 src = ucast (src ! 0) OR push_bit 8 (ucast (src ! 1)) OR push_bit 16 (ucast (src ! 2)) OR
     push_bit 24 (ucast (src ! 3)) OR push_bit 32 (ucast (src ! 4)) OR push_bit 40 (ucast (src ! 5)) OR
     push_bit 48 (ucast (src ! 6)) OR push_bit 56 (ucast (src ! 7))"

definition blake2b_iv_device :: "u64 list" where
  "blake2b_iv_device = [0x6a09e667f3bcc908, 0xbb67ae8584caa73b, 0x3c6ef372fe94f82b, 0xa54ff53a5f1d36f1,
     0x510e527fade682d1, 0x9b05688c2b3e6c1f, 0x1f83d9abfb41bd6b, 0x5be0cd19137e2179]"

definition blake2b_sigma_device :: "nat list list" where
  "blake2b_sigma_device =
    [[0, 1, 2, 3, 4, 5, 6, 7, 8, 9, 10, 11, 12, 13, 14, 15],
     [14, 10, 4, 8, 9, 15, 13, 6, 1, 12, 0, 2, 11, 7, 5, 3],
     [11, 8, 12, 0, 5, 2, 15, 13, 10, 14, 3, 6, 7, 1, 9, 4],
     [7, 9, 3, 1, 13, 12, 11, 14, 2, 6, 5, 10, 4, 0, 15, 8],
     [9, 0, 5, 7, 2, 4, 10, 15, 14, 1, 11, 12, 6, 8, 3, 13],
     [2, 12, 6, 10, 0, 11, 8, 3, 4, 13, 7, 5, 15, 14, 1, 9],
     [12, 5, 1, 15, 14, 13, 4, 10, 0, 7, 6, 3, 9, 2, 8, 11],
     [13, 11, 7, 14, 12, 1, 3, 9, 5, 0, 15, 4, 8, 6, 2, 10],
     [6, 15, 14, 9, 11, 3, 0, 8, 12, 2, 13, 7, 1, 4, 10, 5],
     [10, 2, 8, 4, 7, 6, 1, 5, 15, 11, 9, 14, 3, 12, 13, 0],
     [0, 1, 2, 3, 4, 5, 6, 7, 8, 9, 10, 11, 12, 13, 14, 15],
     [14, 10, 4, 8, 9, 15, 13, 6, 1, 12, 0, 2, 11, 7, 5, 3]]"

definition device_blake_g :: "u64 list \<Rightarrow> nat \<Rightarrow> nat \<Rightarrow> nat \<times> nat \<times> nat \<times> nat \<Rightarrow> u64 list \<Rightarrow> u64 list" where
  "device_blake_g m r i = (\<lambda>(ia, ib, ic, id') v.
     let a = v ! ia; b = v ! ib; c = v ! ic; d = v ! id';
         a = a + b + m ! (blake2b_sigma_device ! r ! (2 * i));
         d = rotr64 (d XOR a) 32;
         c = c + d;
         b = rotr64 (b XOR c) 24;
         a = a + b + m ! (blake2b_sigma_device ! r ! (2 * i + 1));
         d = rotr64 (d XOR a) 16;
         c = c + d;
         b = rotr64 (b XOR c) 63
     in v[ia := a, ib := b, ic := c, id' := d])"

definition device_blake_round :: "u64 list \<Rightarrow> u64 list \<Rightarrow> nat \<Rightarrow> u64 list" where
  "device_blake_round m v r =
     (let v = device_blake_g m r 0 (0, 4, 8, 12) v;
          v = device_blake_g m r 1 (1, 5, 9, 13) v;
          v = device_blake_g m r 2 (2, 6, 10, 14) v;
          v = device_blake_g m r 3 (3, 7, 11, 15) v;
          v = device_blake_g m r 4 (0, 5, 10, 15) v;
          v = device_blake_g m r 5 (1, 6, 11, 12) v;
          v = device_blake_g m r 6 (2, 7, 8, 13) v
      in device_blake_g m r 7 (3, 4, 9, 14) v)"

record Blake2bDeviceState =
  dv_h :: "u64 list"
  dv_t0 :: u64
  dv_t1 :: u64
  dv_buf :: "byte list"
  dv_buf_len :: u32

definition device_blake2b_compress :: "byte list \<Rightarrow> u64 \<Rightarrow> Blake2bDeviceState \<Rightarrow> Blake2bDeviceState" where
  "device_blake2b_compress block f0 state =
     (let m = map (\<lambda>i. device_load64 (drop (i * 8) block)) [0..<16];
          v = dv_h state @ blake2b_iv_device;
          v = v[12 := v ! 12 XOR dv_t0 state];
          v = v[13 := v ! 13 XOR dv_t1 state];
          v = v[14 := v ! 14 XOR f0];
          v = foldl (device_blake_round m) v [0..<12]
      in state \<lparr> dv_h := map (\<lambda>i. dv_h state ! i XOR (v ! i XOR v ! (i + 8))) [0..<8] \<rparr>)"

definition device_blake2b_increment_counter :: "u64 \<Rightarrow> Blake2bDeviceState \<Rightarrow> Blake2bDeviceState" where
  "device_blake2b_increment_counter inc state =
     (let t0 = dv_t0 state + inc in
      state \<lparr> dv_t0 := t0, dv_t1 := dv_t1 state + (if t0 < inc then 1 else 0) \<rparr>)"

definition device_blake2b_init :: "u32 \<Rightarrow> Blake2bDeviceState \<Rightarrow> Blake2bDeviceState" where
  "device_blake2b_init out_len state = state \<lparr> dv_t0 := 0, dv_t1 := 0, dv_buf_len := 0,
     dv_h := blake2b_iv_device[0 := blake2b_iv_device ! 0 XOR (ucast out_len OR push_bit 16 1 OR push_bit 24 1)] \<rparr>"

text \<open>The loop of \<open>device_blake2b_update\<close> over whole blocks, on the pointer and the bytes left.\<close>

function device_update_blocks :: "byte list \<Rightarrow> u32 \<Rightarrow> Blake2bDeviceState \<Rightarrow> byte list \<times> u32 \<times> Blake2bDeviceState" where
  "device_update_blocks inp input_len state =
     (if 128 < input_len
      then device_update_blocks (drop 128 inp) (input_len - 128)
             (device_blake2b_compress (take 128 inp) 0 (device_blake2b_increment_counter 128 state))
      else (inp, input_len, state))"
  by pat_completeness auto
termination
  by (relation "measure (\<lambda>(_, n, _). unat n)") (simp_all add: unat_sub word_less_nat_alt word_le_nat_alt)

declare device_update_blocks.simps [simp del]

definition device_blake2b_update :: "byte list \<Rightarrow> u32 \<Rightarrow> Blake2bDeviceState \<Rightarrow> Blake2bDeviceState" where
  "device_blake2b_update inp input_len state =
     (let (inp', input_len', state') =
        (if 128 < dv_buf_len state + input_len
         then let have' = dv_buf_len state; left = 128 - have';
                  s1 = state \<lparr> dv_buf := memcpy_at (dv_buf state) (unat have') (take (unat left) inp) \<rparr>;
                  s2 = device_blake2b_increment_counter 128 s1;
                  s3 = device_blake2b_compress (dv_buf s2) 0 s2
              in device_update_blocks (drop (unat left) inp) (input_len - left) (s3 \<lparr> dv_buf_len := 0 \<rparr>)
         else (inp, input_len, state))
      in state' \<lparr> dv_buf := memcpy_at (dv_buf state') (unat (dv_buf_len state')) (take (unat input_len') inp'),
                  dv_buf_len := dv_buf_len state' + input_len' \<rparr>)"

definition device_blake2b_final :: "u32 \<Rightarrow> Blake2bDeviceState \<Rightarrow> byte list \<times> Blake2bDeviceState" where
  "device_blake2b_final out_len state =
     (let s1 = device_blake2b_increment_counter (ucast (dv_buf_len state)) state;
          s2 = s1 \<lparr> dv_buf := memcpy_at (dv_buf s1) (unat (dv_buf_len s1)) (replicate (128 - unat (dv_buf_len s1)) 0) \<rparr>;
          s3 = device_blake2b_compress (dv_buf s2) 0xFFFFFFFFFFFFFFFF s2;
          buffer = concat (map device_store64 (dv_h s3))
      in (take (unat out_len) buffer, s3))"

section \<open>Hashes and first blocks on the device\<close>

function device_digest_loop :: "u32 \<Rightarrow> byte list \<Rightarrow> byte list \<Rightarrow> Blake2bDeviceState \<Rightarrow> byte list" where
  "device_digest_loop to_produce out out_buffer blake =
     (if 64 < to_produce
      then let (out_buffer', blake') = device_blake2b_final 64 (device_blake2b_update out_buffer 64 (device_blake2b_init 64 blake))
           in device_digest_loop (to_produce - 32) (out @ take 32 out_buffer') out_buffer' blake'
      else out @ fst (device_blake2b_final to_produce (device_blake2b_update out_buffer 64 (device_blake2b_init to_produce blake))))"
  by pat_completeness auto
termination
  by (relation "measure (\<lambda>(n, _). unat n)") (simp_all add: unat_sub word_less_nat_alt word_le_nat_alt)

declare device_digest_loop.simps [simp del]

text \<open>The local \<open>blake\<close> of the functions below is not initialised: it starts as the argument \<open>junk\<close>.\<close>

definition device_digest_long :: "Blake2bDeviceState \<Rightarrow> u32 \<Rightarrow> byte list \<Rightarrow> u32 \<Rightarrow> byte list" where
  "device_digest_long junk out_len inp input_len =
     (let out_len_bytes = device_store32 out_len in
      if out_len \<le> 64
      then fst (device_blake2b_final out_len (device_blake2b_update inp input_len
             (device_blake2b_update out_len_bytes 4 (device_blake2b_init out_len junk))))
      else
        let (out_buffer, blake) = device_blake2b_final 64 (device_blake2b_update inp input_len
               (device_blake2b_update out_len_bytes 4 (device_blake2b_init 64 junk)))
        in device_digest_loop (out_len - 32) (take 32 out_buffer) out_buffer blake)"

definition device_initial_hash ::
  "Blake2bDeviceState \<Rightarrow> byte list \<Rightarrow> u32 \<Rightarrow> byte list \<Rightarrow> u32 \<Rightarrow> u32 \<Rightarrow> u32 \<Rightarrow> u32 \<Rightarrow> u32 \<Rightarrow> u32 \<Rightarrow> u32 \<Rightarrow> byte list" where
  "device_initial_hash junk password password_len salt salt_len output_len memory_cost time_cost version typ lanes =
     (let blake = device_blake2b_init 64 junk;
          header = device_store32 lanes @ device_store32 output_len @ device_store32 memory_cost @
                   device_store32 time_cost @ device_store32 version @ device_store32 typ @ device_store32 password_len;
          blake = device_blake2b_update header 28 blake;
          blake = device_blake2b_update password password_len blake;
          blake = device_blake2b_update (device_store32 salt_len) 4 blake;
          blake = device_blake2b_update salt salt_len blake;
          blake = device_blake2b_update (device_store32 0) 4 blake;
          blake = device_blake2b_update (device_store32 0) 4 blake
      in fst (device_blake2b_final 64 blake))"

text \<open>The parameters of a launch of the first-block kernel, as \<open>prepareInputBlocksOnDevice\<close> keeps them.\<close>

record first_block_args =
  fb_key_length :: u32
  fb_salt_length :: u32
  fb_output_length :: u32
  fb_memory_cost :: u32
  fb_time_cost :: u32
  fb_version :: u32
  fb_type :: u32
  fb_lanes :: u32

definition device_words :: "byte list \<Rightarrow> u64 list" where
  "device_words bytes = map (\<lambda>i. device_load64 (drop (i * 8) bytes)) [0..<128]"

definition argon2_first_blocks_kernel ::
  "Blake2bDeviceState \<Rightarrow> byte list \<Rightarrow> byte list \<Rightarrow> first_block_args \<Rightarrow> u32 \<Rightarrow> nat \<Rightarrow> device_memory \<Rightarrow> device_memory" where
  "argon2_first_blocks_kernel junk keys salt args segment_blocks job_id memory =
     (let password = take (unat (fb_key_length args)) (drop (job_id * unat (fb_key_length args)) keys);
          init_hash = device_initial_hash junk password (fb_key_length args) salt (fb_salt_length args)
            (fb_output_length args) (fb_memory_cost args) (fb_time_cost args) (fb_version args) (fb_type args) (fb_lanes args);
          lane_blocks = 4 * segment_blocks;
          output = job_id * unat lane_blocks;
          block = (\<lambda>column. device_digest_long junk 1024 (init_hash @ device_store32 column @ device_store32 0) 72)
      in memory[output := device_words (block 0), output + 1 := device_words (block 1)])"

definition first_block_jobs :: "nat \<Rightarrow> nat list" where
  "first_block_jobs batch_size =
     (let threadsPerBlock = 128; grid = (batch_size + threadsPerBlock - 1) div threadsPerBlock
      in filter (\<lambda>job_id. job_id < batch_size)
           (concat (map (\<lambda>b. map (\<lambda>t. b * threadsPerBlock + t) [0..<threadsPerBlock]) [0..<grid])))"

definition run_first_blocks ::
  "Blake2bDeviceState \<Rightarrow> byte list \<Rightarrow> byte list \<Rightarrow> first_block_args \<Rightarrow> u32 \<Rightarrow> nat \<Rightarrow> device_memory \<Rightarrow> device_memory" where
  "run_first_blocks junk keys salt args segment_blocks batch_size memory =
     fold (argon2_first_blocks_kernel junk keys salt args segment_blocks) (first_block_jobs batch_size) memory"

section \<open>The device simulates the host\<close>

definition on_host :: "Blake2bDeviceState \<Rightarrow> blake" where
  "on_host d = \<lparr> bl_h = dv_h d, bl_t0 = dv_t0 d, bl_t1 = dv_t1 d, bl_buf = dv_buf d, bl_bufLen = unat (dv_buf_len d) \<rparr>"

text \<open>A state between two calls.\<close>

definition device_ok :: "Blake2bDeviceState \<Rightarrow> bool" where
  "device_ok d = (length (dv_h d) = 8 \<and> length (dv_buf d) = 128 \<and> unat (dv_buf_len d) \<le> 128)"

lemma device_tables: "blake2b_iv_device = blake2b_IV" "blake2b_sigma_device = blake2b_sigma"
  "device_load64 = load64" "device_store64 = store64" "device_store32 = store32"
  by (simp_all add: fun_eq_iff blake2b_iv_device_def blake2b_IV_def blake2b_sigma_device_def blake2b_sigma_def
      device_load64_def load64_def device_store64_def store64_def device_store32_def store32_def)

lemma device_round_host: "device_blake_round = blake_ROUND"
proof -
  have "device_blake_g = blake_G"
    by (intro ext) (simp add: device_blake_g_def blake_G_def device_tables)
  then show ?thesis by (simp add: fun_eq_iff device_blake_round_def blake_ROUND_def)
qed

lemma compress_host:
  assumes "length (dv_h d) = 8"
  shows "on_host (device_blake2b_compress block f0 d) = compress block f0 (on_host d)"
    and "length (dv_h (device_blake2b_compress block f0 d)) = 8"
    and "dv_buf_len (device_blake2b_compress block f0 d) = dv_buf_len d"
    and "dv_buf (device_blake2b_compress block f0 d) = dv_buf d"
proof -
  obtain h0 h1 h2 h3 h4 h5 h6 h7 where h: "dv_h d = [h0, h1, h2, h3, h4, h5, h6, h7]"
    using assms by (auto simp: length_Suc_conv eval_nat_numeral)
  show "on_host (device_blake2b_compress block f0 d) = compress block f0 (on_host d)"
    by (simp add: device_blake2b_compress_def compress_def blake_compress_def on_host_def Let_def device_round_host
        device_tables h blake2b_IV_def)
qed (simp_all add: device_blake2b_compress_def Let_def)

lemma increment_host:
  "on_host (device_blake2b_increment_counter k d) = incrementCounter k (on_host d)"
  "dv_h (device_blake2b_increment_counter k d) = dv_h d" "dv_buf (device_blake2b_increment_counter k d) = dv_buf d"
  "dv_buf_len (device_blake2b_increment_counter k d) = dv_buf_len d"
  by (simp_all add: device_blake2b_increment_counter_def incrementCounter_def on_host_def Let_def)

lemma init_host:
  assumes "length (dv_buf d) = 128"
  shows "on_host (device_blake2b_init n d) = blake_init (unat n) (on_host d)" and "device_ok (device_blake2b_init n d)"
proof -
  have "(word_of_nat (unat n) :: u64) = ucast n" by simp
  then show "on_host (device_blake2b_init n d) = blake_init (unat n) (on_host d)"
    by (simp add: device_blake2b_init_def blake_init_def on_host_def device_tables)
  show "device_ok (device_blake2b_init n d)"
    using assms by (simp add: device_ok_def device_blake2b_init_def blake2b_iv_device_def)
qed

lemma on_host_update: "on_host (d \<lparr> dv_buf := b \<rparr>) = on_host d \<lparr> bl_buf := b \<rparr>"
  "on_host (d \<lparr> dv_buf_len := 0 \<rparr>) = on_host d \<lparr> bl_bufLen := 0 \<rparr>"
  by (simp_all add: on_host_def)

lemma update_blocks_host:
  assumes "length (dv_h d) = 8" and "unat n = length inp"
  shows "case device_update_blocks inp n d of (inp', n', d') \<Rightarrow>
    update_blocks inp (on_host d) = (inp', on_host d') \<and> unat n' = length inp' \<and> length inp' \<le> 128 \<and>
    length (dv_h d') = 8 \<and> dv_buf d' = dv_buf d \<and> dv_buf_len d' = dv_buf_len d"
  using assms
proof (induction inp n d rule: device_update_blocks.induct)
  case (1 inp n d)
  show ?case
  proof (cases "128 < n")
    case True
    then have n: "128 < length inp" "unat (n - 128) = length inp - 128"
      using 1(3) by (simp_all add: word_less_nat_alt unat_sub word_le_nat_alt)
    let ?d = "device_blake2b_compress (take 128 inp) 0 (device_blake2b_increment_counter 128 d)"
    have "on_host ?d = compress (take 128 inp) 0 (incrementCounter 128 (on_host d))" "length (dv_h ?d) = 8"
      "dv_buf ?d = dv_buf d" "dv_buf_len ?d = dv_buf_len d"
      using 1(2) by (simp_all add: compress_host increment_host)
    with 1(1) [OF True] n show ?thesis
      using True by (simp add: device_update_blocks.simps [of inp] update_blocks.simps [of inp] BLOCK_BYTES_def split: prod.splits)
  next
    case False
    then have "\<not> 128 < length inp" using 1(3) by (simp add: word_less_nat_alt)
    then show ?thesis
      using False 1(2,3) by (simp add: device_update_blocks.simps [of inp] update_blocks.simps [of inp] BLOCK_BYTES_def)
  qed
qed

lemma update_host:
  assumes ok: "device_ok d" and len: "length inp + 128 < 2 ^ 32" and n: "n = word_of_nat (length inp)"
  shows "on_host (device_blake2b_update inp n d) = blake_update inp (on_host d)" and "device_ok (device_blake2b_update inp n d)"
proof -
  have un: "unat n = length inp" unfolding n unat_of_nat using len by simp
  have d: "length (dv_h d) = 8" "length (dv_buf d) = 128" "unat (dv_buf_len d) \<le> 128" using ok by (simp_all add: device_ok_def)
  have sum: "unat (dv_buf_len d + n) = unat (dv_buf_len d) + length inp"
    unfolding unat_word_ariths un using d(3) len by simp
  have "on_host (device_blake2b_update inp n d) = blake_update inp (on_host d) \<and> device_ok (device_blake2b_update inp n d)"
  proof (cases "128 < unat (dv_buf_len d) + length inp")
    case False
    then have "\<not> 128 < dv_buf_len d + n" by (simp add: word_less_nat_alt sum)
    then show ?thesis
      using False d sum by (simp add: device_blake2b_update_def blake_update_def on_host_def BLOCK_BYTES_def un device_ok_def)
  next
    case True
    then have w: "128 < dv_buf_len d + n" by (simp add: word_less_nat_alt sum)
    let ?left = "128 - unat (dv_buf_len d)"
    have left: "unat (128 - dv_buf_len d) = ?left" using d(3) by (simp add: unat_sub word_le_nat_alt)
    have "128 - dv_buf_len d \<le> n" using True d(3) by (simp add: word_le_nat_alt left un)
    then have rest: "unat (n - (128 - dv_buf_len d)) = length (drop ?left inp)" by (simp add: unat_sub left un)
    let ?blk = "memcpy_at (dv_buf d) (unat (dv_buf_len d)) (take ?left inp)"
    define d3 where "d3 = (device_blake2b_compress ?blk 0 (device_blake2b_increment_counter 128 (d \<lparr> dv_buf := ?blk \<rparr>))) \<lparr> dv_buf_len := 0 \<rparr>"
    define b3 where "b3 = (compress ?blk 0 (incrementCounter 128 (on_host d \<lparr> bl_buf := ?blk \<rparr>))) \<lparr> bl_bufLen := 0 \<rparr>"
    have b3: "on_host d3 = b3" "length (dv_h d3) = 8" "dv_buf d3 = ?blk" "dv_buf_len d3 = 0"
      using d(1) by (simp_all add: d3_def b3_def on_host_update compress_host increment_host)
    obtain inp' n' d' where run: "device_update_blocks (drop ?left inp) (n - (128 - dv_buf_len d)) d3 = (inp', n', d')"
      by (metis prod_cases3)
    have r: "update_blocks (drop ?left inp) b3 = (inp', on_host d')" "unat n' = length inp'" "length inp' \<le> 128"
      "length (dv_h d') = 8" "dv_buf d' = ?blk" "dv_buf_len d' = 0"
      using update_blocks_host [OF b3(2) rest] run b3 by simp_all
    have blk: "length ?blk = 128" using True d by (simp add: memcpy_at_def)
    have "device_blake2b_update inp n d = d' \<lparr> dv_buf := memcpy_at ?blk 0 inp', dv_buf_len := n' \<rparr>"
      using w run r by (simp add: device_blake2b_update_def Let_def left d3_def increment_host)
    moreover have "blake_update inp (on_host d) = on_host d' \<lparr> bl_buf := memcpy_at ?blk 0 inp', bl_bufLen := length inp' \<rparr>"
      using True r b3 by (simp add: blake_update_def Let_def BLOCK_BYTES_def on_host_def b3_def)
    ultimately show ?thesis using r blk by (simp add: on_host_def device_ok_def)
  qed
  then show "on_host (device_blake2b_update inp n d) = blake_update inp (on_host d)" "device_ok (device_blake2b_update inp n d)"
    by simp_all
qed

lemma final_host:
  assumes "device_ok d"
  shows "fst (device_blake2b_final n d) = fst (blake_final (unat n) (on_host d))"
    and "dv_buf (snd (device_blake2b_final n d)) = bl_buf (snd (blake_final (unat n) (on_host d)))"
proof -
  have d: "length (dv_h d) = 8" using assms by (simp add: device_ok_def)
  have w: "(ucast (dv_buf_len d) :: u64) = word_of_nat (unat (dv_buf_len d))" by simp
  let ?s1 = "device_blake2b_increment_counter (ucast (dv_buf_len d)) d"
  let ?pad = "memcpy_at (dv_buf d) (unat (dv_buf_len d)) (replicate (128 - unat (dv_buf_len d)) 0)"
  define s3 where "s3 = device_blake2b_compress ?pad 0xFFFFFFFFFFFFFFFF (?s1 \<lparr> dv_buf := ?pad \<rparr>)"
  have dev: "device_blake2b_final n d = (take (unat n) (concat (map store64 (dv_h s3))), s3)"
    by (simp add: device_blake2b_final_def Let_def s3_def increment_host device_tables)
  have h: "on_host s3 = compress ?pad 0xFFFFFFFFFFFFFFFF ((incrementCounter (word_of_nat (unat (dv_buf_len d))) (on_host d)) \<lparr> bl_buf := ?pad \<rparr>)"
    "length (dv_h s3) = 8"
    using d by (simp_all add: s3_def compress_host increment_host on_host_update w del: of_nat_unat)
  have host: "blake_final (unat n) (on_host d) =
      (if unat n = 64 then concat (map store64 (dv_h s3)) else take (unat n) (concat (map store64 (dv_h s3))), on_host s3)"
  proof -
    have "bl_h (on_host s3) = dv_h s3" "bl_buf (on_host d) = dv_buf d" "bl_bufLen (on_host d) = unat (dv_buf_len d)"
      by (simp_all add: on_host_def)
    then show ?thesis unfolding blake_final_def Let_def OUT_BYTES_def BLOCK_BYTES_def by (simp add: h(1) [symmetric] del: of_nat_unat)
  qed
  have "length (concat (map store64 (dv_h s3))) = 64" using h(2) concat_store64_length [of "dv_h s3"] by simp
  then show "fst (device_blake2b_final n d) = fst (blake_final (unat n) (on_host d))"
    unfolding dev host by simp
  show "dv_buf (snd (device_blake2b_final n d)) = bl_buf (snd (blake_final (unat n) (on_host d)))"
    unfolding dev host by (simp add: on_host_def)
qed

text \<open>Any use of the state on the device: \<open>init\<close>, some updates, \<open>final\<close>.\<close>

definition device_updates :: "byte list list \<Rightarrow> Blake2bDeviceState \<Rightarrow> Blake2bDeviceState" where
  "device_updates chunks d = fold (\<lambda>c. device_blake2b_update c (word_of_nat (length c))) chunks d"

lemma device_stream:
  assumes "length (dv_buf d) = 128" and "\<forall>c\<in>set chunks. length c + 128 < 2 ^ 32"
  shows "fst (device_blake2b_final n (device_updates chunks (device_blake2b_init n d))) = blake2b (unat n) (concat chunks)"
    and "length (dv_buf (snd (device_blake2b_final n (device_updates chunks (device_blake2b_init n d))))) = 128"
proof -
  have u: "on_host (device_updates chunks e) = fold_update chunks (on_host e) \<and> device_ok (device_updates chunks e)"
    if "device_ok e" for e
    using that assms(2)
  proof (induction chunks arbitrary: e)
    case (Cons c chunks)
    have "length c + 128 < 2 ^ 32" using Cons.prems(2) by simp
    note h = update_host [OF Cons.prems(1) this refl]
    show ?case using Cons.IH [OF h(2)] Cons.prems(2) h(1) by (simp add: device_updates_def fold_update_def)
  qed (simp add: device_updates_def fold_update_def)
  note i = init_host [OF assms(1), of n]
  have "length (bl_buf (on_host d)) = 128" using assms(1) by (simp add: on_host_def)
  note b = blake_stream [OF this, of "unat n" chunks]
  show "fst (device_blake2b_final n (device_updates chunks (device_blake2b_init n d))) = blake2b (unat n) (concat chunks)"
    "length (dv_buf (snd (device_blake2b_final n (device_updates chunks (device_blake2b_init n d))))) = 128"
    using u [OF i(2)] i(1) b by (simp_all add: final_host)
qed

lemma device_digest_loop_host:
  assumes "length (dv_buf d) = 128" and "length (bl_buf b) = 128" and "length v = 64" and "32 < unat n"
  shows "device_digest_loop n out v d = digest_loop (unat n) out v b"
  using assms
proof (induction n out v d arbitrary: b rule: device_digest_loop.induct)
  case (1 n out v d)
  have v: "\<forall>c\<in>set [v]. length c + 128 < 2 ^ 32" using 1(4) by simp
  have one: "device_blake2b_update v 64 e = device_updates [v] e" for e
    using 1(4) by (simp add: device_updates_def)
  have host: "blake_update v e = fold_update [v] e" for e by (simp add: fold_update_def)
  show ?case
  proof (cases "64 < n")
    case True
    then have n: "64 < unat n" "unat (n - 32) = unat n - 32" by (simp_all add: word_less_nat_alt unat_sub word_le_nat_alt)
    obtain v' d' where f: "device_blake2b_final 64 (device_blake2b_update v 64 (device_blake2b_init 64 d)) = (v', d')" by fastforce
    obtain w b' where g: "blake_final 64 (blake_update v (blake_init 64 b)) = (w, b')" by fastforce
    have "v' = blake2b 64 v" "length (dv_buf d') = 128"
      using device_stream [OF 1(2) v, of 64] f by (simp_all add: one)
    moreover have "w = blake2b 64 v" "length (bl_buf b') = 128"
      using blake_stream [OF 1(3), of 64 "[v]"] g by (simp_all add: host)
    ultimately show ?thesis
      using 1(1) [OF True f [symmetric] refl, of b'] True f g n
      by (simp add: device_digest_loop.simps [of n] digest_loop.simps [of "unat n"] OUT_BYTES_def blake2b_length)
  next
    case False
    then have "\<not> 64 < unat n" by (simp add: word_less_nat_alt)
    then show ?thesis
      using False device_stream [OF 1(2) v, of n] blake_stream [OF 1(3), of "unat n" "[v]"]
      by (simp add: device_digest_loop.simps [of n] digest_loop.simps [of "unat n"] OUT_BYTES_def one host)
  qed
qed

lemma device_digest_reference:
  assumes "length (dv_buf junk) = 128" and "length inp + 128 < 2 ^ 32"
  shows "device_digest_long junk n inp (word_of_nat (length inp)) = variable_hash (unat n) inp"
proof -
  let ?c = "[store32 n, inp]"
  have c: "\<forall>c\<in>set ?c. length c + 128 < 2 ^ 32" using assms(2) by simp
  have two: "device_blake2b_update inp (word_of_nat (length inp)) (device_blake2b_update (device_store32 n) 4 e) = device_updates ?c e" for e
    by (simp add: device_updates_def device_tables)
  have host: "blake_update inp (blake_update (store32 n) e) = fold_update ?c e" for e by (simp add: fold_update_def)
  have w: "(word_of_nat (unat n) :: u32) = n" by simp
  have "device_digest_long junk n inp (word_of_nat (length inp)) = digestLong (unat n) inp"
  proof (cases "n \<le> 64")
    case True
    then have "unat n \<le> 64" by (simp add: word_le_nat_alt)
    then show ?thesis
      using True device_stream [OF assms(1) c, of n] blake_stream [OF new_blake_buf, of "unat n" ?c]
      by (simp add: device_digest_long_def digestLong_def OUT_BYTES_def two host w Let_def)
  next
    case False
    then have n: "\<not> unat n \<le> 64" "unat (n - 32) = unat n - 32" by (simp_all add: word_le_nat_alt unat_sub)
    obtain v d where f: "device_blake2b_final 64 (device_updates ?c (device_blake2b_init 64 junk)) = (v, d)" by fastforce
    obtain v' b where g: "blake_final 64 (fold_update ?c (blake_init 64 new_blake)) = (v', b)" by fastforce
    have "v = blake2b 64 (concat ?c)" "length (dv_buf d) = 128" using device_stream [OF assms(1) c, of 64] f by simp_all
    moreover have "v' = blake2b 64 (concat ?c)" "length (bl_buf b) = 128"
      using blake_stream [OF new_blake_buf, of 64 ?c] g by simp_all
    ultimately have v: "v' = v" "length v = 64" "length (dv_buf d) = 128" "length (bl_buf b) = 128" by (simp_all add: blake2b_length)
    have "device_digest_long junk n inp (word_of_nat (length inp)) = device_digest_loop (n - 32) (take 32 v) v d"
      using False f by (simp add: device_digest_long_def two Let_def)
    also have "\<dots> = digest_loop (unat n - 32) (take 32 v) v b"
      using device_digest_loop_host [OF v(3,4,2), of "n - 32"] n by simp
    also have "\<dots> = digestLong (unat n) inp"
      using n(1) g v(1) by (simp add: digestLong_def OUT_BYTES_def host w Let_def)
    finally show ?thesis .
  qed
  then show ?thesis by (simp add: digestLong_reference)
qed

lemma device_initial_reference:
  assumes "length (dv_buf junk) = 128" and "length pwd + 128 < 2 ^ 32" and "length salt + 128 < 2 ^ 32"
  shows "device_initial_hash junk pwd (word_of_nat (length pwd)) salt (word_of_nat (length salt)) out m_cost t_cost version typ lanes =
    argon2_H0 lanes out m_cost t_cost version typ pwd salt [] []"
proof -
  let ?h = "store32 lanes @ store32 out @ store32 m_cost @ store32 t_cost @ store32 version @ store32 typ @
    store32 (word_of_nat (length pwd))"
  let ?c = "[?h, pwd, store32 (word_of_nat (length salt)), salt, store32 0, store32 0]"
  have "\<forall>c\<in>set ?c. length c + 128 < 2 ^ 32" using assms(2,3) by simp
  from device_stream(1) [OF assms(1) this, of 64] show ?thesis
    by (simp add: device_initial_hash_def device_tables device_updates_def Let_def argon2_H0_def with_length_def)
qed

text \<open>The two blocks the host writes for a password.\<close>

definition first_block :: "u32 \<Rightarrow> byte list \<Rightarrow> byte list" where
  "first_block column h0 = variable_hash 1024 (h0 @ store32 column @ store32 0)"

lemma host_first_blocks:
  assumes "hexToBytes salt_hex = Inr salt" and "p = make_params typ version outLen salt_hex [] [] t_cost m_cost 1"
    and "h0 = argon2_H0 1 (ap_outLen p) (ap_m_cost p) (ap_t_cost p) version typ pwd salt [] []"
  shows "fillFirstBlocks p pwd = Inr (first_block 0 h0 @ first_block 1 h0)"
proof -
  have "hex_to_bytes salt_hex = Inr salt" using assms(1) by (rule hexToBytes_stoi)
  then have "initialHash p pwd = Inr h0"
    using initialHash_reference [of "[]" "[]" "typ" version outLen salt_hex t_cost m_cost 1 pwd] assms(2,3)
    by (simp add: make_params_def Let_def)
  moreover have "ap_lanes p = 1" using assms(2) by (simp add: make_params_def Let_def)
  ultimately show ?thesis
    by (simp add: fillFirstBlocks_def Let_def first_block_def digestLong_reference ARGON2_BLOCK_SIZE_def)
qed

lemma fold_slots:
  fixes u v :: "nat \<Rightarrow> u64 list"
  assumes "2 \<le> q" and "b * q \<le> length m" and "F = (\<lambda>b. fold (\<lambda>j m. m[j * q := u j, j * q + 1 := v j]) [0..<b] m)"
  shows "length (F b) = length m \<and>
    (\<forall>i<length m. F b ! i = (if i < b * q \<and> i mod q = 0 then u (i div q)
                              else if i < b * q \<and> i mod q = 1 then v (i div q) else m ! i))"
  using assms(2)
proof (induction b)
  case 0
  then show ?case by (simp add: assms(3))
next
  case (Suc b)
  then have IH: "length (F b) = length m"
    "\<And>i. i < length m \<Longrightarrow> F b ! i = (if i < b * q \<and> i mod q = 0 then u (i div q)
                              else if i < b * q \<and> i mod q = 1 then v (i div q) else m ! i)" by simp_all
  have F: "F (Suc b) = (F b)[b * q := u b, b * q + 1 := v b]" by (simp add: assms(3))
  have "F (Suc b) ! i = (if i < Suc b * q \<and> i mod q = 0 then u (i div q)
      else if i < Suc b * q \<and> i mod q = 1 then v (i div q) else m ! i)" if i: "i < length m" for i
  proof -
    have b0: "i = b * q \<Longrightarrow> i mod q = 0 \<and> i div q = b" "i = b * q + 1 \<Longrightarrow> i mod q = 1 \<and> i div q = b"
      using block_position [of 0 q b] block_position [of 1 q b] assms(1) by simp_all
    have b1: "i mod q \<noteq> 0 \<and> i mod q \<noteq> 1" if "b * q + 1 < i" "i < b * q + q"
    proof -
      have "i = b * q + (i - b * q)" "i - b * q < q" using that by simp_all
      then have "i mod q = i - b * q" by (metis mod_less mod_mult_self3)
      then show ?thesis using that by simp
    qed
    consider "i < b * q" | "i = b * q" | "i = b * q + 1" | "b * q + 1 < i" "i < b * q + q" | "b * q + q \<le> i" by linarith
    then show ?thesis
      using i b0 b1 assms(1) IH by cases (simp_all add: F nth_list_update)
  qed
  then show ?case by (simp add: F IH(1))
qed

lemma first_block_jobs_upt: "first_block_jobs b = [0..<b]"
proof -
  have "b \<le> (b + 128 - 1) div 128 * 128" by (rule ceil_div(1)) simp
  then show ?thesis unfolding first_block_jobs_def Let_def grid_upt by (rule filter_less_upt)
qed

lemma flat_keys:
  assumes "\<forall>k\<in>set keys. length k = n" and "j < length keys"
  shows "take n (drop (j * n) (concat keys)) = keys ! j"
  using assms
proof (induction keys arbitrary: j)
  case (Cons k keys)
  then show ?case by (cases j) (simp_all add: add.commute)
qed simp

lemma run_first_blocks_result:
  assumes junk: "length (dv_buf junk) = 128" and seg: "1 \<le> unat seg" "unat seg < 2 ^ 30"
    and keys: "\<forall>k\<in>set keys. length k = kl" "kl + 128 < 2 ^ 32" and salt: "length salt + 128 < 2 ^ 32"
    and mem: "length keys * (4 * unat seg) \<le> length memory"
    and args: "args = \<lparr> fb_key_length = word_of_nat kl, fb_salt_length = word_of_nat (length salt), fb_output_length = out,
      fb_memory_cost = m_cost, fb_time_cost = t_cost, fb_version = version, fb_type = typ, fb_lanes = lanes \<rparr>"
    and h0: "\<And>j. h0 j = argon2_H0 lanes out m_cost t_cost version typ (keys ! j) salt [] []"
  shows "length (run_first_blocks junk (concat keys) salt args seg (length keys) memory) = length memory"
    and "j < length keys \<Longrightarrow> run_first_blocks junk (concat keys) salt args seg (length keys) memory ! job_base seg j =
      block_words (first_block 0 (h0 j))"
    and "j < length keys \<Longrightarrow> run_first_blocks junk (concat keys) salt args seg (length keys) memory ! (job_base seg j + 1) =
      block_words (first_block 1 (h0 j))"
    and "i < length memory \<Longrightarrow> length keys * (4 * unat seg) \<le> i \<or> 2 \<le> i mod (4 * unat seg) \<Longrightarrow>
      run_first_blocks junk (concat keys) salt args seg (length keys) memory ! i = memory ! i"
proof -
  let ?q = "4 * unat seg"
  let ?u = "\<lambda>c j. block_words (first_block c (h0 j))"
  have len: "length (h0 j) = 64" for j by (simp add: h0 argon2_H0_def blake2b_length)
  have ukl: "unat (word_of_nat kl :: u32) = kl" unfolding unat_of_nat using keys(2) by simp
  have q: "unat (4 * seg) = ?q" using seg(2) unfolding unat_word_ariths by simp
  have dw: "device_words = block_words" by (simp add: fun_eq_iff device_words_def block_words_def device_tables ARGON2_BLOCK_SIZE_def)
  have kern: "argon2_first_blocks_kernel junk (concat keys) salt args seg j m = m[j * ?q := ?u 0 j, j * ?q + 1 := ?u 1 j]"
    if "j < length keys" for j m
  proof -
    have k: "length (keys ! j) = kl" using keys(1) that by simp
    have "device_initial_hash junk (keys ! j) (word_of_nat kl) salt (word_of_nat (length salt)) out m_cost t_cost version typ lanes = h0 j"
      using device_initial_reference [OF junk _ salt, of "keys ! j"] keys(2) by (simp add: k h0)
    moreover have "device_digest_long junk 1024 (h0 j @ store32 c @ store32 0) 72 = first_block c (h0 j)" for c
      using device_digest_reference [OF junk, of "h0 j @ store32 c @ store32 0" 1024] by (simp add: len first_block_def)
    ultimately show ?thesis
      using flat_keys [OF keys(1) that]
      by (simp add: argon2_first_blocks_kernel_def args ukl Let_def device_tables q dw)
  qed
  have run: "run_first_blocks junk (concat keys) salt args seg (length keys) memory =
      fold (\<lambda>j m. m[j * ?q := ?u 0 j, j * ?q + 1 := ?u 1 j]) [0..<length keys] memory"
    unfolding run_first_blocks_def first_block_jobs_upt by (rule fold_cong) (simp_all add: kern fun_eq_iff)
  have "2 \<le> ?q" using seg(1) by simp
  note r = fold_slots [OF this mem refl, of "?u 0" "?u 1", folded run]
  show "length (run_first_blocks junk (concat keys) salt args seg (length keys) memory) = length memory" using r by simp
  have at: "run_first_blocks junk (concat keys) salt args seg (length keys) memory ! (job_base seg j + k) =
      (if k = 0 then ?u 0 j else ?u 1 j)" if "j < length keys" "k < 2" for j k
  proof -
    have "Suc j * ?q \<le> length keys * ?q" using that by (intro mult_right_mono) simp_all
    then have i: "j * ?q + k < length keys * ?q" using that(2) seg(1) by simp
    have "(j * ?q + k) mod ?q = k" "(j * ?q + k) div ?q = j" using that(2) seg(1) by simp_all
    then show ?thesis using r i mem that(2) by (auto simp: job_base_eq [OF seg(2)])
  qed
  show "run_first_blocks junk (concat keys) salt args seg (length keys) memory ! job_base seg j = ?u 0 j" if "j < length keys"
    using at [OF that, of 0] by simp
  show "run_first_blocks junk (concat keys) salt args seg (length keys) memory ! (job_base seg j + 1) = ?u 1 j" if "j < length keys"
    using at [OF that, of 1] by simp
  show "run_first_blocks junk (concat keys) salt args seg (length keys) memory ! i = memory ! i"
    if "i < length memory" "length keys * ?q \<le> i \<or> 2 \<le> i mod ?q"
    using that r by auto
qed

section \<open>Property\<close>

text \<open>
  C7 (first blocks on the device): for keys of one length and a hexadecimal salt, whatever the
  uninitialised buffers and the device memory held, the first-block kernel leaves in the first two
  blocks of every job the words of exactly the bytes \<open>fillFirstBlocks\<close> computes on the host for the
  key of that job, and changes no other block.
\<close>

theorem device_first_blocks_match_host:
  assumes "length (dv_buf junk) = 128" and "1 \<le> unat seg" and "unat seg < 2 ^ 30"
    and "\<forall>k\<in>set keys. length k = kl" and "kl + 128 < 2 ^ 32" and "length salt + 128 < 2 ^ 32"
    and "length keys * (4 * unat seg) \<le> length memory" and "hexToBytes salt_hex = Inr salt"
    and "p = make_params typ version outLen salt_hex [] [] t_cost m_cost 1"
    and "args = \<lparr> fb_key_length = word_of_nat kl, fb_salt_length = word_of_nat (length salt), fb_output_length = ap_outLen p,
      fb_memory_cost = ap_m_cost p, fb_time_cost = ap_t_cost p, fb_version = version, fb_type = typ, fb_lanes = 1 \<rparr>"
    and "after = run_first_blocks junk (concat keys) salt args seg (length keys) memory"
  shows "length after = length memory \<and>
    (\<forall>j<length keys. \<exists>bytes. fillFirstBlocks p (keys ! j) = Inr bytes \<and> length bytes = 2048 \<and>
       after ! job_base seg j = block_words bytes \<and> after ! (job_base seg j + 1) = block_words (drop 1024 bytes)) \<and>
    (\<forall>i<length memory. length keys * (4 * unat seg) \<le> i \<or> 2 \<le> i mod (4 * unat seg) \<longrightarrow> after ! i = memory ! i)"
proof -
  define h0 where "h0 j = argon2_H0 1 (ap_outLen p) (ap_m_cost p) (ap_t_cost p) version typ (keys ! j) salt [] []" for j
  note r = run_first_blocks_result [OF assms(1-7,10) h0_def, folded assms(11)]
  have len: "length (first_block c h) = 1024" for c h by (simp add: first_block_def variable_hash_length)
  have w: "block_words (b @ rest) = block_words b" if "length b = 1024" for b rest
  proof -
    have "load64 (drop (i * 8) (b @ rest)) = load64 (drop (i * 8) b)" if "i < 128" for i
      using that \<open>length b = 1024\<close> by (simp add: load64_def nth_append)
    then show ?thesis by (simp add: block_words_def ARGON2_BLOCK_SIZE_def)
  qed
  have "\<exists>bytes. fillFirstBlocks p (keys ! j) = Inr bytes \<and> length bytes = 2048 \<and>
       after ! job_base seg j = block_words bytes \<and> after ! (job_base seg j + 1) = block_words (drop 1024 bytes)"
    if "j < length keys" for j
    using host_first_blocks [OF assms(8,9) h0_def] r(2,3) [OF that] len w by simp
  then show ?thesis using r(1,4) by blast
qed

theorem device_first_blocks_match_host_witness:
  "\<exists>bytes. fillFirstBlocks (make_params ARGON2_ID ARGON2_VERSION_13 64 ''00ff'' [] [] 1 8 1) [7] = Inr bytes \<and>
     run_first_blocks \<lparr> dv_h = [], dv_t0 = 5, dv_t1 = 0, dv_buf = replicate 128 9, dv_buf_len = 3 \<rparr> [7] [0, 255]
       \<lparr> fb_key_length = 1, fb_salt_length = 2, fb_output_length = 64, fb_memory_cost = 8, fb_time_cost = 1,
         fb_version = ARGON2_VERSION_13, fb_type = ARGON2_ID, fb_lanes = 1 \<rparr> 2 1 (replicate 8 []) ! 0 = block_words bytes"
proof -
  have "hexToBytes ''00ff'' = Inr [0, 255]" by code_simp
  from device_first_blocks_match_host [OF _ _ _ _ _ _ _ this refl refl refl,
      of "\<lparr> dv_h = [], dv_t0 = 5, dv_t1 = 0, dv_buf = replicate 128 9, dv_buf_len = 3 \<rparr>" 2 "[[7]]" 1 "replicate 8 []"
        ARGON2_ID ARGON2_VERSION_13 64 1 8]
  show ?thesis by (fastforce simp: make_params_def Let_def job_base_def)
qed

end
