(* ===== verification/Kernel_Runner.thy ===== *)
theory Kernel_Runner
  imports Device_First_Blocks
begin

text \<open>
  The host side of the device: \<open>KernelRunner\<close> of \<open>kernelrunner.cu\<close>, which owns the buffers of a batch
  and runs the kernels over them, and \<open>CudaBackend.cpp\<close>, which keeps one runner. Every call of the
  CUDA runtime that the code checks takes its outcome from a list: \<open>Some\<close> message is an error, which
  \<open>CudaException::check\<close> turns into an exception. Work queued on the stream takes effect where it is
  queued, and an error of it shows at a later call. A dereferenced null pointer, an access outside a
  buffer or an exception that leaves a thread sets \<open>cu_crashed\<close>. The contents of uninitialised memory
  and of the kernel's stack are arguments. Times measured with events are left out.
\<close>

section \<open>State\<close>

datatype gpu_event = EvStart | EvEnd | EvCopyStart | EvCopyEnd | EvFirstBlockStart | EvFirstBlockEnd
  | EvKernelStart | EvKernelEnd

text \<open>A null pointer is \<open>None\<close>, or the empty list for the two host buffers; \<open>kr_events\<close> are the event
  handles that are not null. The parameters of the next launch of the first-block kernel are
  \<open>kr_first_block_args\<close>.\<close>

record KernelRunner =
  kr_type :: u32
  kr_version :: u32
  kr_passes :: u32
  kr_lanes :: u32
  kr_segmentBlocks :: u32
  kr_allocatedSegmentBlocks :: u32
  kr_batchSize :: u64
  kr_events :: "gpu_event list"
  kr_stream :: bool
  kr_memory :: "device_memory option"
  kr_refs :: "u32 list option"
  kr_deviceKeys :: "byte list option"
  kr_deviceSalt :: "byte list option"
  kr_deviceKeysCapacity :: u64
  kr_deviceSaltCapacity :: u64
  kr_deviceFirstBlocksReady :: bool
  kr_first_block_args :: first_block_args
  kr_lastUsedDeviceFirstBlocks :: bool
  kr_blocksIn :: "byte list"
  kr_blocksOut :: "byte list"
  kr_warpsPerBlock :: u32
  kr_precomputedRefs :: bool
  kr_refsSegmentBlocks :: u32

record cuda =
  cu_deviceIndex :: int
  cu_runner :: "KernelRunner option"
  cu_warpsPerBlock :: u32
  cu_precomputedRefs :: bool
  cu_calls :: "string option list"
  cu_crashed :: bool

text \<open>What the program finds in uninitialised memory: word \<open>k\<close> of block \<open>i\<close> of a new allocation, and the
  stack of a kernel.\<close>

record gpu_env =
  ge_fresh :: "nat \<Rightarrow> nat \<Rightarrow> u64"
  ge_stack :: Blake2bDeviceState

definition new_runner :: "u32 \<Rightarrow> u32 \<Rightarrow> u32 \<Rightarrow> u32 \<Rightarrow> u32 \<Rightarrow> u64 \<Rightarrow> KernelRunner" where
  "new_runner typ version passes lanes segmentBlocks batchSize =
     \<lparr> kr_type = typ, kr_version = version, kr_passes = passes, kr_lanes = lanes, kr_segmentBlocks = segmentBlocks,
       kr_allocatedSegmentBlocks = segmentBlocks, kr_batchSize = batchSize, kr_events = [], kr_stream = False,
       kr_memory = None, kr_refs = None, kr_deviceKeys = None, kr_deviceSalt = None, kr_deviceKeysCapacity = 0,
       kr_deviceSaltCapacity = 0, kr_deviceFirstBlocksReady = False,
       kr_first_block_args = \<lparr> fb_key_length = 0, fb_salt_length = 0, fb_output_length = 0, fb_memory_cost = 0,
         fb_time_cost = 0, fb_version = 0, fb_type = 0, fb_lanes = 0 \<rparr>,
       kr_lastUsedDeviceFirstBlocks = False, kr_blocksIn = [], kr_blocksOut = [],
       kr_warpsPerBlock = kDefaultWarpsPerBlock, kr_precomputedRefs = False, kr_refsSegmentBlocks = 0 \<rparr>"

section \<open>Calls of the runtime\<close>

definition invalid_value :: string where "invalid_value = ''invalid argument''"

text \<open>\<open>CudaException::check (call)\<close>; a call with a handle or pointer the runtime rejects is not legal.\<close>

definition cuda_check :: "bool \<Rightarrow> (cuda, unit) step" where
  "cuda_check legal = (\<lambda>s.
     case cu_calls s of
       [] \<Rightarrow> (if legal then Inr () else Inl invalid_value, s)
     | outcome # calls \<Rightarrow>
         (case outcome of Some e \<Rightarrow> Inl e | None \<Rightarrow> if legal then Inr () else Inl invalid_value,
          s \<lparr> cu_calls := calls \<rparr>))"

definition crash :: "(cuda, 'a) step" where
  "crash = (\<lambda>s. (Inl ''crash'', s \<lparr> cu_crashed := True \<rparr>))"

text \<open>The runner behind \<open>runner_\<close>, which is \<open>this\<close> in the members of \<open>KernelRunner\<close>.\<close>

definition self :: "(cuda, KernelRunner) step" where
  "self = (\<lambda>s. case cu_runner s of None \<Rightarrow> crash s | Some r \<Rightarrow> (Inr r, s))"

definition self_modify :: "(KernelRunner \<Rightarrow> KernelRunner) \<Rightarrow> (cuda, unit) step" where
  "self_modify f = (\<lambda>s. case cu_runner s of None \<Rightarrow> crash s | Some r \<Rightarrow> (Inr (), s \<lparr> cu_runner := Some (f r) \<rparr>))"

definition cudaEventRecord :: "gpu_event \<Rightarrow> (cuda, unit) step" where
  "cudaEventRecord ev = bind_step self (\<lambda>r. cuda_check (ev \<in> set (kr_events r)))"

definition cudaEventElapsedTime :: "gpu_event \<Rightarrow> gpu_event \<Rightarrow> (cuda, unit) step" where
  "cudaEventElapsedTime ev ev' = bind_step self (\<lambda>r. cuda_check (ev \<in> set (kr_events r) \<and> ev' \<in> set (kr_events r)))"

definition fresh_blocks :: "gpu_env \<Rightarrow> nat \<Rightarrow> device_memory" where
  "fresh_blocks env n = map (\<lambda>i. map (ge_fresh env i) [0..<128]) [0..<n]"

definition fresh_bytes :: "gpu_env \<Rightarrow> nat \<Rightarrow> byte list" where
  "fresh_bytes env n = map (\<lambda>i. ucast (ge_fresh env 0 i)) [0..<n]"

section \<open>KernelRunner\<close>

definition kr_setWarpsPerBlock :: "u32 \<Rightarrow> (cuda, unit) step" where
  "kr_setWarpsPerBlock warps =
     self_modify (\<lambda>r. r \<lparr> kr_warpsPerBlock :=
       (if warps = 0 then kDefaultWarpsPerBlock
        else if kMaxWarpsPerBlock < ucast warps then ucast kMaxWarpsPerBlock
        else warps) \<rparr>)"

definition kr_setPrecomputedRefs :: "bool \<Rightarrow> (cuda, unit) step" where
  "kr_setPrecomputedRefs enabled = self_modify (\<lambda>r. r \<lparr> kr_precomputedRefs := enabled \<rparr>)"

definition ensurePrecomputedRefs :: "gpu_env \<Rightarrow> (cuda, unit) step" where
  "ensurePrecomputedRefs env =
     bind_step self (\<lambda>r.
     if \<not> kr_precomputedRefs r then ret ()
     else if kr_refs r \<noteq> None \<and> kr_refsSegmentBlocks r = kr_segmentBlocks r then ret ()
     else
       seq_step (when_step (kr_refs r \<noteq> None)
         (seq_step (cuda_check True) (self_modify (\<lambda>r. r \<lparr> kr_refs := None, kr_refsSegmentBlocks := 0 \<rparr>))))
       (let table = generateIndexedRefTable (kr_segmentBlocks r) in
        if table = [] then ret ()
        else
          seq_step (cuda_check True)
          (seq_step (self_modify (\<lambda>r. r \<lparr> kr_refs := Some (map (\<lambda>i. ucast (ge_fresh env 0 i)) [0..<length table]) \<rparr>))
          (seq_step (cuda_check True)
          (self_modify (\<lambda>r. r \<lparr> kr_refs := Some table, kr_refsSegmentBlocks := kr_segmentBlocks r \<rparr>))))))"

definition kr_init :: "gpu_env \<Rightarrow> u64 \<Rightarrow> (cuda, unit) step" where
  "kr_init env batchSize =
     seq_step (self_modify (\<lambda>r. r \<lparr> kr_batchSize := batchSize, kr_allocatedSegmentBlocks := kr_segmentBlocks r,
       kr_blocksIn := replicate (unat (batchSize * 1 * 2 * word_of_nat ARGON2_BLOCK_SIZE)) 0,
       kr_blocksOut := replicate (unat (batchSize * 1 * word_of_nat ARGON2_BLOCK_SIZE)) 0 \<rparr>))
     (bind_step self (\<lambda>r.
      let memorySize = batchSize * 1 * ucast (kr_allocatedSegmentBlocks r) * ARGON2_SYNC_POINTS * word_of_nat ARGON2_BLOCK_SIZE in
      seq_step (cuda_check True)
      (seq_step (self_modify (\<lambda>r. r \<lparr> kr_memory := Some (fresh_blocks env (unat memorySize div ARGON2_BLOCK_SIZE)) \<rparr>))
      (seq_step (for_each (\<lambda>ev. seq_step (cuda_check True) (self_modify (\<lambda>r. r \<lparr> kr_events := kr_events r @ [ev] \<rparr>)))
         [EvStart, EvEnd, EvCopyStart, EvCopyEnd, EvFirstBlockStart, EvFirstBlockEnd, EvKernelStart, EvKernelEnd])
      (seq_step (cuda_check True)
      (self_modify (\<lambda>r. r \<lparr> kr_stream := True \<rparr>)))))))"

definition canReuse :: "u32 \<Rightarrow> u32 \<Rightarrow> u32 \<Rightarrow> u32 \<Rightarrow> u32 \<Rightarrow> u64 \<Rightarrow> KernelRunner \<Rightarrow> bool" where
  "canReuse typ version passes lanes segmentBlocks batchSize r =
     (kr_type r = typ \<and> kr_version r = version \<and> kr_passes r = passes \<and> kr_lanes r = lanes \<and>
      kr_batchSize r = batchSize \<and> segmentBlocks \<le> kr_allocatedSegmentBlocks r)"

definition reconfigure :: "u32 \<Rightarrow> u32 \<Rightarrow> u32 \<Rightarrow> u32 \<Rightarrow> u32 \<Rightarrow> u64 \<Rightarrow> (cuda, unit) step" where
  "reconfigure typ version passes lanes segmentBlocks batchSize =
     self_modify (\<lambda>r. r \<lparr> kr_type := typ, kr_version := version, kr_passes := passes, kr_lanes := lanes,
       kr_segmentBlocks := segmentBlocks, kr_batchSize := batchSize, kr_deviceFirstBlocksReady := False,
       kr_lastUsedDeviceFirstBlocks := False, kr_refsSegmentBlocks := 0 \<rparr>)"

text \<open>The offsets of \<open>getInputMemory\<close> and \<open>getOutputMemory\<close> in their buffers.\<close>

definition getInputMemory :: "u64 \<Rightarrow> u64" where
  "getInputMemory jobId = (let copySize = 1 * 2 * word_of_nat ARGON2_BLOCK_SIZE in jobId * copySize)"

definition getOutputMemory :: "u64 \<Rightarrow> u64" where
  "getOutputMemory jobId = (let copySize = 1 * word_of_nat ARGON2_BLOCK_SIZE in jobId * copySize)"

definition jobSize :: "KernelRunner \<Rightarrow> u64" where
  "jobSize r = ucast (kr_lanes r) * ucast (kr_segmentBlocks r) * ARGON2_SYNC_POINTS * word_of_nat ARGON2_BLOCK_SIZE"

text \<open>The device memory is a list of blocks of 128 words, so a row of the two-dimensional copies is a
  run of blocks.\<close>

definition copyInputBlocks :: "(cuda, unit) step" where
  "copyInputBlocks =
     bind_step self (\<lambda>r.
     let pitch = unat (jobSize r) div ARGON2_BLOCK_SIZE; copySize = 1 * 2 * ARGON2_BLOCK_SIZE; height = unat (kr_batchSize r) in
     seq_step (cuda_check (kr_memory r \<noteq> None))
     (case kr_memory r of None \<Rightarrow> crash
      | Some m \<Rightarrow>
          if height * pitch \<le> length m \<and> height * copySize \<le> length (kr_blocksIn r)
          then self_modify (\<lambda>r. r \<lparr> kr_memory := Some (fold (\<lambda>j m. m
                 [j * pitch := block_words (drop (j * copySize) (kr_blocksIn r)),
                  j * pitch + 1 := block_words (drop (j * copySize + ARGON2_BLOCK_SIZE) (kr_blocksIn r))]) [0..<height] m) \<rparr>)
          else crash))"

definition block_bytes :: "u64 list \<Rightarrow> byte list" where
  "block_bytes block = concat (map store64 block)"

definition copyOutputBlocks :: "(cuda, unit) step" where
  "copyOutputBlocks =
     bind_step self (\<lambda>r.
     let pitch = unat (jobSize r) div ARGON2_BLOCK_SIZE; lanes = unat (kr_lanes r); height = unat (kr_batchSize r) in
     seq_step (cuda_check (kr_memory r \<noteq> None))
     (case kr_memory r of None \<Rightarrow> crash
      | Some m \<Rightarrow>
          if height * pitch \<le> length m \<and> lanes \<le> pitch \<and> height * (lanes * ARGON2_BLOCK_SIZE) \<le> length (kr_blocksOut r)
          then self_modify (\<lambda>r. r \<lparr> kr_blocksOut := memcpy_at (kr_blocksOut r) 0
                 (concat (map (\<lambda>j. concat (map (\<lambda>l. block_bytes (m ! (j * pitch + (pitch - lanes) + l))) [0..<lanes])) [0..<height])) \<rparr>)
          else crash))"

definition BLAKE2B_OUT_BYTES :: u32 where "BLAKE2B_OUT_BYTES = 64"

definition password_bytes :: "string \<Rightarrow> byte list" where
  "password_bytes password = map of_char password"

text \<open>One of the two buffers of \<open>prepareInputBlocksOnDevice\<close> is grown: freed, if it was there, and
  allocated anew.\<close>

definition grow_keys :: "gpu_env \<Rightarrow> u64 \<Rightarrow> (cuda, unit) step" where
  "grow_keys env keyBytes =
     bind_step self (\<lambda>r. when_step (kr_deviceKeysCapacity r < keyBytes)
       (seq_step (when_step (kr_deviceKeys r \<noteq> None)
          (seq_step (cuda_check True) (self_modify (\<lambda>r. r \<lparr> kr_deviceKeys := None \<rparr>))))
       (seq_step (cuda_check True)
       (self_modify (\<lambda>r. r \<lparr> kr_deviceKeys := Some (fresh_bytes env (unat keyBytes)), kr_deviceKeysCapacity := keyBytes \<rparr>)))))"

definition grow_salt :: "gpu_env \<Rightarrow> u64 \<Rightarrow> (cuda, unit) step" where
  "grow_salt env saltBytes =
     bind_step self (\<lambda>r. when_step (kr_deviceSaltCapacity r < saltBytes)
       (seq_step (when_step (kr_deviceSalt r \<noteq> None)
          (seq_step (cuda_check True) (self_modify (\<lambda>r. r \<lparr> kr_deviceSalt := None \<rparr>))))
       (seq_step (cuda_check True)
       (self_modify (\<lambda>r. r \<lparr> kr_deviceSalt := Some (fresh_bytes env (unat saltBytes)), kr_deviceSaltCapacity := saltBytes \<rparr>)))))"

definition copy_keys :: "byte list \<Rightarrow> (cuda, unit) step" where
  "copy_keys flatKeys =
     bind_step self (\<lambda>r. seq_step (cuda_check (kr_deviceKeys r \<noteq> None))
       (case kr_deviceKeys r of None \<Rightarrow> crash
        | Some d \<Rightarrow> if length flatKeys \<le> length d
            then self_modify (\<lambda>r. r \<lparr> kr_deviceKeys := Some (memcpy_at d 0 flatKeys) \<rparr>) else crash))"

definition copy_salt :: "byte list \<Rightarrow> (cuda, unit) step" where
  "copy_salt saltBytes =
     bind_step self (\<lambda>r. seq_step (cuda_check (kr_deviceSalt r \<noteq> None))
       (case kr_deviceSalt r of None \<Rightarrow> crash
        | Some d \<Rightarrow> if length saltBytes \<le> length d
            then self_modify (\<lambda>r. r \<lparr> kr_deviceSalt := Some (memcpy_at d 0 saltBytes) \<rparr>) else crash))"

definition kr_prepareInputBlocksOnDevice ::
  "gpu_env \<Rightarrow> string list \<Rightarrow> byte list \<Rightarrow> u32 \<Rightarrow> u32 \<Rightarrow> u32 \<Rightarrow> u32 \<Rightarrow> u32 \<Rightarrow> u32 \<Rightarrow> (cuda, bool) step" where
  "kr_prepareInputBlocksOnDevice env passwords saltBytes outputLength memoryCost timeCost version typ lanes =
     seq_step (self_modify (\<lambda>r. r \<lparr> kr_deviceFirstBlocksReady := False \<rparr>))
     (bind_step self (\<lambda>r.
      if passwords = [] \<or> word_of_nat (length passwords) \<noteq> kr_batchSize r \<or> outputLength \<noteq> BLAKE2B_OUT_BYTES \<or>
         timeCost \<noteq> 1 \<or> lanes \<noteq> 1 \<or> saltBytes = [] \<or> 2 ^ 32 - 1 < length saltBytes
      then ret False
      else
        let keyLength = length (hd passwords) in
        if keyLength = 0 \<or> 2 ^ 32 - 1 < keyLength then ret False
        else if \<exists>p\<in>set passwords. length p \<noteq> keyLength then ret False
        else
          let flatKeys = concat (map password_bytes passwords) in
          seq_step (grow_keys env (word_of_nat keyLength * word_of_nat (length passwords)))
          (seq_step (grow_salt env (word_of_nat (length saltBytes)))
          (seq_step (copy_keys flatKeys)
          (seq_step (copy_salt saltBytes)
          (seq_step (self_modify (\<lambda>r. r \<lparr> kr_deviceFirstBlocksReady := True,
             kr_first_block_args := \<lparr> fb_key_length = word_of_nat keyLength,
               fb_salt_length = word_of_nat (length saltBytes), fb_output_length = outputLength,
               fb_memory_cost = memoryCost, fb_time_cost = timeCost, fb_version = version, fb_type = typ,
               fb_lanes = lanes \<rparr> \<rparr>))
          (ret True)))))))"

text \<open>The kernels read \<open>keys\<close> and \<open>salt\<close> up to the lengths they are given.\<close>

definition runDeviceFirstBlockKernel :: "gpu_env \<Rightarrow> (cuda, unit) step" where
  "runDeviceFirstBlockKernel env =
     bind_step self (\<lambda>r.
     let args = kr_first_block_args r; height = unat (kr_batchSize r);
         keyBytes = height * unat (fb_key_length args); saltLength = unat (fb_salt_length args) in
     case (kr_memory r, kr_deviceKeys r, kr_deviceSalt r) of
       (Some m, Some keys, Some salt) \<Rightarrow>
         if height * (4 * unat (kr_segmentBlocks r)) \<le> length m \<and> keyBytes \<le> length keys \<and> saltLength \<le> length salt
         then self_modify (\<lambda>r. r \<lparr> kr_memory := Some (run_first_blocks (ge_stack env) (take keyBytes keys)
                (take saltLength salt) args (kr_segmentBlocks r) height m) \<rparr>)
         else crash
     | _ \<Rightarrow> crash)"

definition runKernelOneshot :: "(cuda, unit) step" where
  "runKernelOneshot =
     bind_step self (\<lambda>r.
     let launch = makeOneshotLaunch (kr_batchSize r) (kr_warpsPerBlock r);
         jobs = launch_jobs launch (ucast (kr_batchSize r));
         table = (if kr_precomputedRefs r then kr_refs r else None) in
     case kr_memory r of
       None \<Rightarrow> crash
     | Some m \<Rightarrow>
         if unat (kr_batchSize r) * (4 * unat (kr_segmentBlocks r)) \<le> length m \<and>
            (case table of None \<Rightarrow> True | Some t \<Rightarrow> indexedRefCount (kr_segmentBlocks r) \<le> length t)
         then self_modify (\<lambda>r. r \<lparr> kr_memory := Some (run_launch (kr_segmentBlocks r) table jobs m) \<rparr>)
         else crash)"

definition kr_run :: "gpu_env \<Rightarrow> (cuda, unit) step" where
  "kr_run env =
     seq_step (cudaEventRecord EvStart)
     (seq_step (cudaEventRecord EvCopyStart)
     (bind_step self (\<lambda>r.
      let useDeviceFirstBlocks = kr_deviceFirstBlocksReady r in
      seq_step (self_modify (\<lambda>r. r \<lparr> kr_lastUsedDeviceFirstBlocks := useDeviceFirstBlocks \<rparr>))
      (seq_step (if useDeviceFirstBlocks
         then seq_step (cudaEventRecord EvCopyEnd)
              (seq_step (cudaEventRecord EvFirstBlockStart)
              (seq_step (runDeviceFirstBlockKernel env)
              (seq_step (cuda_check True)
              (cudaEventRecord EvFirstBlockEnd))))
         else seq_step copyInputBlocks
              (seq_step (cudaEventRecord EvCopyEnd)
              (seq_step (cudaEventRecord EvFirstBlockStart)
              (cudaEventRecord EvFirstBlockEnd))))
      (seq_step (self_modify (\<lambda>r. r \<lparr> kr_deviceFirstBlocksReady := False \<rparr>))
      (seq_step (cudaEventRecord EvKernelStart)
      (seq_step (ensurePrecomputedRefs env)
      (seq_step runKernelOneshot
      (seq_step (cuda_check True)
      (seq_step (cudaEventRecord EvKernelEnd)
      (seq_step copyOutputBlocks
      (cudaEventRecord EvEnd))))))))))))"

definition kr_finish :: "(cuda, unit) step" where
  "kr_finish = seq_step (cuda_check True) (cudaEventElapsedTime EvKernelStart EvKernelEnd)"

definition kr_getLastHostToDeviceMs :: "(cuda, unit) step" where
  "kr_getLastHostToDeviceMs = cudaEventElapsedTime EvCopyStart EvCopyEnd"

definition kr_getLastGpuFirstBlockMs :: "(cuda, unit) step" where
  "kr_getLastGpuFirstBlockMs =
     bind_step self (\<lambda>r. if \<not> kr_lastUsedDeviceFirstBlocks r then ret ()
       else cudaEventElapsedTime EvFirstBlockStart EvFirstBlockEnd)"

definition kr_getLastDeviceToHostMs :: "(cuda, unit) step" where
  "kr_getLastDeviceToHostMs = cudaEventElapsedTime EvKernelEnd EvEnd"

section \<open>CudaBackend\<close>

definition activate :: "(cuda, unit) step" where
  "activate = cuda_check True"

definition cuda_init :: "gpu_env \<Rightarrow> u64 \<Rightarrow> u32 \<Rightarrow> u32 \<Rightarrow> u32 \<Rightarrow> u32 \<Rightarrow> u32 \<Rightarrow> (cuda, unit) step" where
  "cuda_init env batchSize typ version passes lanes segmentBlocks =
     bind_step (gets cu_runner) (\<lambda>runner.
     if (case runner of None \<Rightarrow> False | Some r \<Rightarrow> canReuse typ version passes lanes segmentBlocks batchSize r)
     then reconfigure typ version passes lanes segmentBlocks batchSize
     else
       seq_step (modify (\<lambda>s. s \<lparr> cu_runner := Some (new_runner typ version passes lanes segmentBlocks batchSize) \<rparr>))
       (kr_init env batchSize))"

definition releaseBuffers :: "cuda \<Rightarrow> cuda" where
  "releaseBuffers s = s \<lparr> cu_runner := None \<rparr>"

definition prepareInputBlocksOnDevice ::
  "gpu_env \<Rightarrow> string list \<Rightarrow> byte list \<Rightarrow> u32 \<Rightarrow> u32 \<Rightarrow> u32 \<Rightarrow> u32 \<Rightarrow> u32 \<Rightarrow> u32 \<Rightarrow> (cuda, bool) step" where
  "prepareInputBlocksOnDevice env passwords saltBytes outputLength memoryCost timeCost version typ lanes =
     bind_step (gets cu_runner) (\<lambda>runner.
     if runner = None then ret False
     else kr_prepareInputBlocksOnDevice env passwords saltBytes outputLength memoryCost timeCost version typ lanes)"

definition setWarpsPerBlock :: "u32 \<Rightarrow> (cuda, unit) step" where
  "setWarpsPerBlock warps =
     modify (\<lambda>s. s \<lparr> cu_warpsPerBlock :=
       (if warps = 0 then 1 else if kMaxWarpsPerBlock < ucast warps then ucast kMaxWarpsPerBlock else warps) \<rparr>)"

definition setPrecomputedRefs :: "bool \<Rightarrow> (cuda, unit) step" where
  "setPrecomputedRefs enabled = modify (\<lambda>s. s \<lparr> cu_precomputedRefs := enabled \<rparr>)"

definition cuda_run :: "gpu_env \<Rightarrow> (cuda, unit) step" where
  "cuda_run env =
     bind_step (gets (\<lambda>s. s)) (\<lambda>s.
     when_step (cu_runner s \<noteq> None)
       (seq_step (kr_setWarpsPerBlock (cu_warpsPerBlock s))
       (seq_step (kr_setPrecomputedRefs (cu_precomputedRefs s))
       (kr_run env))))"

definition getLastHostToDeviceMs :: "(cuda, unit) step" where
  "getLastHostToDeviceMs = bind_step (gets cu_runner) (\<lambda>runner. when_step (runner \<noteq> None) kr_getLastHostToDeviceMs)"

definition getLastGpuFirstBlockMs :: "(cuda, unit) step" where
  "getLastGpuFirstBlockMs = bind_step (gets cu_runner) (\<lambda>runner. when_step (runner \<noteq> None) kr_getLastGpuFirstBlockMs)"

definition getLastDeviceToHostMs :: "(cuda, unit) step" where
  "getLastDeviceToHostMs = bind_step (gets cu_runner) (\<lambda>runner. when_step (runner \<noteq> None) kr_getLastDeviceToHostMs)"

section \<open>Rules for the calls\<close>

lemma unat_ucast64: "unat (ucast (w :: u32) :: u64) = unat w"
  by (simp add: unsigned_ucast_eq take_bit_nat_eq_self_iff) (rule order_less_trans [OF unsigned_less], simp)

text \<open>
  A step of the host, as long as no call fails, takes a given runner to a given one and leaves the
  rest of the state alone: \<open>on q c r s\<close> says that \<open>s\<close> has the runner \<open>r\<close>, the other
  members of \<open>c\<close> and some outcomes of calls to come, all of them good if \<open>q\<close> holds. \<open>trip\<close> is the triple for a step: it ends like that, or with an
  exception, which a run whose calls are all good does not have; it never crashes.
\<close>

definition quiet :: "string option list \<Rightarrow> bool" where
  "quiet calls = (\<forall>c\<in>set calls. c = None)"

definition on :: "bool \<Rightarrow> cuda \<Rightarrow> KernelRunner \<Rightarrow> cuda \<Rightarrow> bool" where
  "on q c r s = (cu_runner s = Some r \<and> \<not> cu_crashed s \<and> (q \<longrightarrow> quiet (cu_calls s)) \<and>
     cu_deviceIndex s = cu_deviceIndex c \<and> cu_warpsPerBlock s = cu_warpsPerBlock c \<and>
     cu_precomputedRefs s = cu_precomputedRefs c)"

definition failed :: "bool \<Rightarrow> string \<Rightarrow> cuda \<Rightarrow> bool" where
  "failed q e s = (\<not> q \<and> \<not> cu_crashed s)"

definition trip :: "bool \<Rightarrow> cuda \<Rightarrow> KernelRunner \<Rightarrow> (cuda, 'a) step \<Rightarrow> 'a \<Rightarrow> KernelRunner \<Rightarrow> bool" where
  "trip q c r m a r' = (\<forall>s. on q c r s \<longrightarrow> wp m (\<lambda>x t. x = a \<and> on q c r' t) (failed q) s)"

lemma trip_ret: "trip q c r (ret a) a r"
  by (simp add: trip_def wp_ret)

lemma trip_bind: "trip q c r m a r1 \<Longrightarrow> trip q c r1 (f a) b r2 \<Longrightarrow> trip q c r (bind_step m f) b r2"
  unfolding trip_def wp_bind by (blast intro: wp_conseq)

lemma trip_seq: "trip q c r m a r1 \<Longrightarrow> trip q c r1 n b r2 \<Longrightarrow> trip q c r (seq_step m n) b r2"
  unfolding seq_step_def by (rule trip_bind)

lemma trip_check: "legal \<Longrightarrow> trip q c r (cuda_check legal) () r"
  by (auto simp: trip_def on_def failed_def wp_def cuda_check_def quiet_def split: list.splits option.splits)

lemma trip_self: "trip q c r self r r"
  by (auto simp: trip_def on_def wp_def self_def)

lemma trip_modify: "f r = r' \<Longrightarrow> trip q c r (self_modify f) () r'"
  by (auto simp: trip_def on_def wp_def self_modify_def)

lemma trip_when: "(b \<Longrightarrow> trip q c r m () r1) \<Longrightarrow> trip q c r (when_step b m) () (if b then r1 else r)"
  by (auto simp: when_step_def trip_ret)

lemma trip_event: "ev \<in> set (kr_events r) \<Longrightarrow> trip q c r (cudaEventRecord ev) () r"
  unfolding cudaEventRecord_def by (rule trip_bind [OF trip_self]) (rule trip_check)

lemma trip_elapsed: "ev \<in> set (kr_events r) \<Longrightarrow> ev' \<in> set (kr_events r) \<Longrightarrow> trip q c r (cudaEventElapsedTime ev ev') () r"
  unfolding cudaEventElapsedTime_def by (rule trip_bind [OF trip_self], rule trip_check) simp

lemmas trip_rules = trip_ret trip_bind trip_seq trip_check trip_self trip_event trip_elapsed

section \<open>The members of KernelRunner\<close>

text \<open>A runner whose \<open>init\<close> succeeded: its buffers have the sizes of the batch, and the table on the device,
  if it is marked for the present segment size, is that of the host.\<close>

definition refs_ok :: "KernelRunner \<Rightarrow> bool" where
  "refs_ok r = (\<forall>t. kr_refs r = Some t \<and> kr_refsSegmentBlocks r = kr_segmentBlocks r \<longrightarrow> t = generateIndexedRefTable (kr_segmentBlocks r))"

definition sizes_ok :: "KernelRunner \<Rightarrow> bool" where
  "sizes_ok r =
     (0 < unat (kr_batchSize r) \<and> unat (kr_batchSize r) + 16 < 2 ^ 32 \<and> kr_lanes r = 1 \<and>
      2 \<le> unat (kr_segmentBlocks r) \<and> unat (kr_segmentBlocks r) < 2 ^ 30 \<and>
      kr_segmentBlocks r \<le> kr_allocatedSegmentBlocks r \<and>
      length (kr_blocksIn r) = unat (kr_batchSize r) * 2048 \<and> length (kr_blocksOut r) = unat (kr_batchSize r) * 1024 \<and>
      set (kr_events r) = UNIV)"

definition memory_ok :: "KernelRunner \<Rightarrow> device_memory \<Rightarrow> bool" where
  "memory_ok r m = (kr_memory r = Some m \<and>
     length m = unat (kr_batchSize r) * (4 * unat (kr_allocatedSegmentBlocks r)))"

definition buffer_ok :: "byte list option \<Rightarrow> u64 \<Rightarrow> bool" where
  "buffer_ok buffer capacity = (case buffer of None \<Rightarrow> capacity = 0 | Some d \<Rightarrow> length d = unat capacity)"

definition runner_ok :: "KernelRunner \<Rightarrow> bool" where
  "runner_ok r = (sizes_ok r \<and> (\<exists>m. memory_ok r m) \<and> refs_ok r \<and>
     buffer_ok (kr_deviceKeys r) (kr_deviceKeysCapacity r) \<and> buffer_ok (kr_deviceSalt r) (kr_deviceSaltCapacity r))"

lemma event_ok: "sizes_ok r \<Longrightarrow> ev \<in> set (kr_events r)"
  by (simp add: sizes_ok_def)

lemma memory_fits:
  assumes "sizes_ok r" and "memory_ok r m"
  shows "unat (kr_batchSize r) * (4 * unat (kr_segmentBlocks r)) \<le> length m"
proof -
  have "unat (kr_segmentBlocks r) \<le> unat (kr_allocatedSegmentBlocks r)"
    using assms(1) by (simp add: sizes_ok_def word_le_nat_alt)
  then show ?thesis using assms(2) by (simp add: memory_ok_def mult_le_mono2)
qed

lemma pitch_eq: "sizes_ok r \<Longrightarrow> unat (jobSize r) div ARGON2_BLOCK_SIZE = 4 * unat (kr_segmentBlocks r)"
proof -
  assume a: "sizes_ok r"
  have "unat (ucast (kr_segmentBlocks r) * 4096 :: u64) = unat (kr_segmentBlocks r) * 4096"
    unfolding unat_word_ariths unat_ucast64 using a by (simp add: sizes_ok_def)
  then show ?thesis using a
    by (simp add: jobSize_def sizes_ok_def ARGON2_SYNC_POINTS_def ARGON2_BLOCK_SIZE_def mult.assoc)
qed

text \<open>The memory with the first blocks of every job in place, from the host buffer or from the keys on the
  device.\<close>

definition host_input :: "KernelRunner \<Rightarrow> device_memory \<Rightarrow> device_memory" where
  "host_input r m = fold (\<lambda>j m. m[j * (4 * unat (kr_segmentBlocks r)) := block_words (drop (j * 2048) (kr_blocksIn r)),
     j * (4 * unat (kr_segmentBlocks r)) + 1 := block_words (drop (j * 2048 + 1024) (kr_blocksIn r))])
     [0..<unat (kr_batchSize r)] m"

lemma trip_copy_input:
  assumes "sizes_ok r" and "memory_ok r m"
  shows "trip q c r copyInputBlocks () (r \<lparr> kr_memory := Some (host_input r m) \<rparr>)"
proof -
  have m: "kr_memory r = Some m" using assms(2) by (simp add: memory_ok_def)
  have "length (kr_blocksIn r) = unat (kr_batchSize r) * 2048" using assms(1) by (simp add: sizes_ok_def)
  then show ?thesis
    unfolding copyInputBlocks_def
    by (intro trip_bind [OF trip_self])
       (auto simp: m Let_def pitch_eq [OF assms(1), unfolded ARGON2_BLOCK_SIZE_def] memory_fits [OF assms] ARGON2_BLOCK_SIZE_def host_input_def
         intro!: trip_seq [OF trip_check] trip_modify)
qed

definition keys_ready :: "KernelRunner \<Rightarrow> byte list \<Rightarrow> byte list \<Rightarrow> bool" where
  "keys_ready r keys salt = (\<exists>dk ds. kr_deviceKeys r = Some dk \<and> kr_deviceSalt r = Some ds \<and>
     unat (kr_batchSize r) * unat (fb_key_length (kr_first_block_args r)) \<le> length dk \<and>
     keys = take (unat (kr_batchSize r) * unat (fb_key_length (kr_first_block_args r))) dk \<and>
     unat (fb_salt_length (kr_first_block_args r)) \<le> length ds \<and>
     salt = take (unat (fb_salt_length (kr_first_block_args r))) ds)"

lemma trip_first_blocks:
  assumes "sizes_ok r" and "memory_ok r m" and "keys_ready r keys salt"
  shows "trip q c r (runDeviceFirstBlockKernel env) () (r \<lparr> kr_memory := Some (run_first_blocks (ge_stack env)
    keys salt (kr_first_block_args r) (kr_segmentBlocks r) (unat (kr_batchSize r)) m) \<rparr>)"
  using assms(3) memory_fits [OF assms(1,2)] assms(2) unfolding runDeviceFirstBlockKernel_def keys_ready_def
  by (intro trip_bind [OF trip_self]) (auto simp: memory_ok_def Let_def intro!: trip_modify)

definition launch_table :: "KernelRunner \<Rightarrow> u32 list option" where
  "launch_table r = (if kr_precomputedRefs r then kr_refs r else None)"

lemma trip_refs:
  assumes "refs_ok r"
  shows "\<exists>t n. trip q c r (ensurePrecomputedRefs env) () (r \<lparr> kr_refs := t, kr_refsSegmentBlocks := n \<rparr>) \<and>
    refs_ok (r \<lparr> kr_refs := t, kr_refsSegmentBlocks := n \<rparr>) \<and>
    launch_table (r \<lparr> kr_refs := t, kr_refsSegmentBlocks := n \<rparr>) \<in> {None, Some (generateIndexedRefTable (kr_segmentBlocks r))}"
proof -
  let ?r = "\<lambda>t n. r \<lparr> kr_refs := t, kr_refsSegmentBlocks := n \<rparr>"
  let ?table = "generateIndexedRefTable (kr_segmentBlocks r)"
  consider "\<not> kr_precomputedRefs r" | "kr_refs r \<noteq> None" "kr_refsSegmentBlocks r = kr_segmentBlocks r"
    | "kr_precomputedRefs r" "\<not> (kr_refs r \<noteq> None \<and> kr_refsSegmentBlocks r = kr_segmentBlocks r)" by blast
  then show ?thesis
  proof cases
    case 1
    then have "trip q c r (ensurePrecomputedRefs env) () r"
      unfolding ensurePrecomputedRefs_def by (intro trip_bind [OF trip_self]) (simp add: trip_ret)
    moreover have "?r (kr_refs r) (kr_refsSegmentBlocks r) = r" by simp
    ultimately show ?thesis using 1 assms
      by (intro exI [of _ "kr_refs r"] exI [of _ "kr_refsSegmentBlocks r"]) (simp add: launch_table_def)
  next
    case 2
    then have "trip q c r (ensurePrecomputedRefs env) () r"
      unfolding ensurePrecomputedRefs_def by (intro trip_bind [OF trip_self]) (simp add: trip_ret)
    moreover have "launch_table r \<in> {None, Some ?table}" using 2 assms by (auto simp: launch_table_def refs_ok_def)
    moreover have "?r (kr_refs r) (kr_refsSegmentBlocks r) = r" by simp
    ultimately show ?thesis using assms by metis
  next
    case 3
    define r1 where "r1 = (if kr_refs r \<noteq> None then ?r None 0 else r)"
    have free: "trip q c r (when_step (kr_refs r \<noteq> None) (seq_step (cuda_check True)
        (self_modify (\<lambda>r. r \<lparr> kr_refs := None, kr_refsSegmentBlocks := 0 \<rparr>)))) () r1"
      unfolding r1_def by (rule trip_when, rule trip_seq [OF trip_check]) (simp_all add: trip_modify)
    define t n where "t = (if ?table = [] then None else Some ?table)"
      and "n = (if ?table = [] then kr_refsSegmentBlocks r1 else kr_segmentBlocks r)"
    have "trip q c r (ensurePrecomputedRefs env) () (?r t n)"
      unfolding ensurePrecomputedRefs_def
    proof (rule trip_bind [OF trip_self], simp only: 3 if_False not_True_eq_False, rule trip_seq [OF free])
      show "trip q c r1 (let table = ?table in if table = [] then ret () else
          seq_step (cuda_check True)
          (seq_step (self_modify (\<lambda>r. r \<lparr> kr_refs := Some (map (\<lambda>i. ucast (ge_fresh env 0 i)) [0..<length table]) \<rparr>))
          (seq_step (cuda_check True)
          (self_modify (\<lambda>r. r \<lparr> kr_refs := Some table, kr_refsSegmentBlocks := kr_segmentBlocks r \<rparr>))))) () (?r t n)"
      proof (cases "?table = []")
        case True
        then have "?r t n = r1" by (auto simp: t_def n_def r1_def)
        with True show ?thesis by (simp add: trip_ret)
      next
        case False
        then show ?thesis
          unfolding Let_def if_not_P [OF False]
          by (intro trip_seq [OF trip_check] trip_seq [OF trip_modify [OF refl]] trip_modify)
             (auto simp: t_def n_def r1_def)
      qed
    qed
    moreover have "refs_ok (?r t n)" by (simp add: refs_ok_def t_def n_def)
    moreover have "launch_table (?r t n) \<in> {None, Some ?table}" by (simp add: launch_table_def t_def)
    ultimately show ?thesis by blast
  qed
qed

lemma launch_word: "sizes_ok r \<Longrightarrow> launch_jobs (makeOneshotLaunch (kr_batchSize r) w) (ucast (kr_batchSize r)) = [0..<unat (kr_batchSize r)]"
  if "1 \<le> unat w" "unat w \<le> 16"
  using launch_covers [OF that, of "unat (kr_batchSize r)"] by (simp add: sizes_ok_def)

lemma trip_oneshot:
  assumes "sizes_ok r" and "memory_ok r m" and "1 \<le> unat (kr_warpsPerBlock r)" and "unat (kr_warpsPerBlock r) \<le> 16"
    and "launch_table r \<in> {None, Some (generateIndexedRefTable (kr_segmentBlocks r))}"
  shows "trip q c r runKernelOneshot () (r \<lparr> kr_memory :=
    Some (run_launch (kr_segmentBlocks r) (launch_table r) [0..<unat (kr_batchSize r)] m) \<rparr>)"
proof -
  have "length (generateIndexedRefTable (kr_segmentBlocks r)) = indexedRefCount (kr_segmentBlocks r)"
    using assms(1) by (simp add: generate_entries sizes_ok_def)
  then have fits: "case launch_table r of None \<Rightarrow> True | Some t \<Rightarrow> indexedRefCount (kr_segmentBlocks r) \<le> length t"
    using assms(5) by auto
  have m: "kr_memory r = Some m" using assms(2) by (simp add: memory_ok_def)
  show ?thesis
    unfolding runKernelOneshot_def launch_table_def [symmetric]
    by (rule trip_bind [OF trip_self])
       (simp add: m Let_def launch_word [OF assms(3,4,1)] memory_fits [OF assms(1,2)] fits trip_modify)
qed

definition output_blocks :: "KernelRunner \<Rightarrow> device_memory \<Rightarrow> byte list" where
  "output_blocks r m = concat (map (\<lambda>j. block_bytes (m ! (j * (4 * unat (kr_segmentBlocks r)) +
     (4 * unat (kr_segmentBlocks r) - 1)))) [0..<unat (kr_batchSize r)])"

lemma block_bytes_length: "length b = 128 \<Longrightarrow> length (block_bytes b) = 1024"
proof -
  have "length (concat (map store64 b)) = 8 * length b" by (induction b) (simp_all add: store64_def)
  then show "length b = 128 \<Longrightarrow> ?thesis" by (simp add: block_bytes_def)
qed

lemma concat_length: "(\<And>x. x \<in> set xs \<Longrightarrow> length (f x) = k) \<Longrightarrow> length (concat (map f xs)) = length xs * k"
  by (induction xs) simp_all

lemma trip_copy_output:
  assumes "sizes_ok r" and "memory_ok r m"
    and "\<And>j. j < unat (kr_batchSize r) \<Longrightarrow>
      length (m ! (j * (4 * unat (kr_segmentBlocks r)) + (4 * unat (kr_segmentBlocks r) - 1))) = 128"
  shows "trip q c r copyOutputBlocks () (r \<lparr> kr_blocksOut := output_blocks r m \<rparr>)"
proof -
  have m: "kr_memory r = Some m" using assms(2) by (simp add: memory_ok_def)
  have l: "kr_lanes r = 1" "length (kr_blocksOut r) = unat (kr_batchSize r) * 1024" "2 \<le> unat (kr_segmentBlocks r)"
    using assms(1) by (simp_all add: sizes_ok_def)
  have "length (output_blocks r m) = unat (kr_batchSize r) * 1024"
    unfolding output_blocks_def using assms(3) by (subst concat_length [where k = 1024]) (simp_all add: block_bytes_length)
  then have "memcpy_at (kr_blocksOut r) 0 (output_blocks r m) = output_blocks r m"
    using l by (simp add: memcpy_at_def)
  then show ?thesis
    unfolding copyOutputBlocks_def
    by (intro trip_bind [OF trip_self])
       (use l in \<open>auto simp: m Let_def pitch_eq [OF assms(1), unfolded ARGON2_BLOCK_SIZE_def] memory_fits [OF assms(1,2)]
         ARGON2_BLOCK_SIZE_def output_blocks_def intro!: trip_seq [OF trip_check] trip_modify\<close>)
qed

text \<open>What a run keeps: the shape of the runner.\<close>

definition same_shape :: "KernelRunner \<Rightarrow> KernelRunner \<Rightarrow> bool" where
  "same_shape r r' = (kr_type r' = kr_type r \<and> kr_version r' = kr_version r \<and> kr_passes r' = kr_passes r \<and>
     kr_segmentBlocks r' = kr_segmentBlocks r \<and> kr_allocatedSegmentBlocks r' = kr_allocatedSegmentBlocks r \<and>
     kr_batchSize r' = kr_batchSize r)"

lemma trip_run:
  assumes ok: "runner_ok r" and warps: "1 \<le> unat (kr_warpsPerBlock r)" "unat (kr_warpsPerBlock r) \<le> 16"
    and ready: "kr_deviceFirstBlocksReady r \<Longrightarrow> keys_ready r keys salt" and m: "memory_ok r m"
    and m1: "m1 = (if kr_deviceFirstBlocksReady r then run_first_blocks (ge_stack env) keys salt (kr_first_block_args r)
        (kr_segmentBlocks r) (unat (kr_batchSize r)) m else host_input r m)"
    and len: "length m1 = length m"
    and blocks: "\<forall>j<unat (kr_batchSize r). length (m1 ! job_base (kr_segmentBlocks r) j) = 128 \<and>
        length (m1 ! (job_base (kr_segmentBlocks r) j + 1)) = 128"
  shows "\<exists>r'. trip q c r (kr_run env) () r' \<and> runner_ok r' \<and> same_shape r r' \<and> \<not> kr_deviceFirstBlocksReady r' \<and>
    kr_blocksOut r' = concat (map (\<lambda>j. block_bytes (words (job_ref (kr_segmentBlocks r) m1 j (4 * unat (kr_segmentBlocks r) - 1))))
      [0..<unat (kr_batchSize r)])"
proof -
  let ?seg = "kr_segmentBlocks r" and ?b = "unat (kr_batchSize r)"
  have sz: "sizes_ok r" and refs: "refs_ok r" using ok by (simp_all add: runner_ok_def)
  define r1 where "r1 = r \<lparr> kr_lastUsedDeviceFirstBlocks := kr_deviceFirstBlocksReady r \<rparr>"
  define r2 where "r2 = r1 \<lparr> kr_memory := Some m1 \<rparr>"
  define r3 where "r3 = r2 \<lparr> kr_deviceFirstBlocksReady := False \<rparr>"
  have r1: "sizes_ok r1" "memory_ok r1 m" and r2: "sizes_ok r2" and r3: "sizes_ok r3" "refs_ok r3" "memory_ok r3 m1"
    using sz refs m len by (simp_all add: sizes_ok_def memory_ok_def refs_ok_def r1_def r2_def r3_def)
  obtain t n where tn: "trip q c r3 (ensurePrecomputedRefs env) () (r3 \<lparr> kr_refs := t, kr_refsSegmentBlocks := n \<rparr>)"
      "refs_ok (r3 \<lparr> kr_refs := t, kr_refsSegmentBlocks := n \<rparr>)"
      "launch_table (r3 \<lparr> kr_refs := t, kr_refsSegmentBlocks := n \<rparr>) \<in> {None, Some (generateIndexedRefTable (kr_segmentBlocks r3))}"
    using trip_refs [OF r3(2)] by metis
  define r4 where "r4 = r3 \<lparr> kr_refs := t, kr_refsSegmentBlocks := n \<rparr>"
  note tn = tn [folded r4_def]
  define m2 where "m2 = run_launch ?seg (launch_table r4) [0..<?b] m1"
  define r5 where "r5 = r4 \<lparr> kr_memory := Some m2 \<rparr>"
  have seg: "kr_segmentBlocks r3 = ?seg" "kr_segmentBlocks r4 = ?seg" "kr_batchSize r4 = kr_batchSize r"
    "kr_warpsPerBlock r4 = kr_warpsPerBlock r" "kr_segmentBlocks r5 = ?seg" "kr_batchSize r5 = kr_batchSize r"
    by (simp_all add: r1_def r2_def r3_def r4_def r5_def)
  have segs: "2 \<le> unat ?seg" "unat ?seg < 2 ^ 30" using sz by (simp_all add: sizes_ok_def)
  have fits: "?b * (4 * unat ?seg) \<le> length m1" using memory_fits [OF sz m] len by simp
  have res: "launch_result ?seg ?b m1 m2" unfolding m2_def
    by (rule run_launch_result [OF segs _ fits blocks]) (use tn(3) seg(1) in simp)
  then have len2: "length m2 = length m1" by (simp add: launch_result_def outside_kept_def)
  have last: "m2 ! (j * (4 * unat ?seg) + (4 * unat ?seg - 1)) = words (job_ref ?seg m1 j (4 * unat ?seg - 1))" if "j < ?b" for j
  proof -
    have "4 * unat ?seg - 1 < 4 * unat ?seg" using segs(1) by linarith
    then show ?thesis using res that unfolding launch_result_def filled_def job_base_eq [OF segs(2)] by blast
  qed
  have r45: "sizes_ok r4" "memory_ok r4 m1" "sizes_ok r5" "memory_ok r5 m2" "refs_ok r5"
    using r3 tn(2) len2 by (simp_all add: sizes_ok_def memory_ok_def refs_ok_def r4_def r5_def)
  define r6 where "r6 = r5 \<lparr> kr_blocksOut := output_blocks r5 m2 \<rparr>"
  have out: "output_blocks r5 m2 = concat (map (\<lambda>j. block_bytes (words (job_ref ?seg m1 j (4 * unat ?seg - 1)))) [0..<?b])"
    unfolding output_blocks_def seg by (rule arg_cong [where f = concat], rule map_cong) (simp_all add: last [unfolded One_nat_def])
  have "length (output_blocks r5 m2) = ?b * 1024"
    unfolding out by (subst concat_length [where k = 1024]) (simp_all add: block_bytes_length words_def)
  then have r6: "sizes_ok r6" "memory_ok r6 m2" "refs_ok r6"
    using r45 by (simp_all add: r6_def sizes_ok_def memory_ok_def refs_ok_def seg)
  have first: "trip q c r1 (if kr_deviceFirstBlocksReady r
         then seq_step (cudaEventRecord EvCopyEnd) (seq_step (cudaEventRecord EvFirstBlockStart)
              (seq_step (runDeviceFirstBlockKernel env) (seq_step (cuda_check True) (cudaEventRecord EvFirstBlockEnd))))
         else seq_step copyInputBlocks (seq_step (cudaEventRecord EvCopyEnd)
              (seq_step (cudaEventRecord EvFirstBlockStart) (cudaEventRecord EvFirstBlockEnd)))) () r2"
  proof (cases "kr_deviceFirstBlocksReady r")
    case True
    then have "keys_ready r1 keys salt" using ready by (simp add: keys_ready_def r1_def)
    from trip_first_blocks [OF r1 this] True have "trip q c r1 (runDeviceFirstBlockKernel env) () r2"
      by (simp add: r2_def m1 r1_def)
    then have "trip q c r1 (seq_step (runDeviceFirstBlockKernel env) (seq_step (cuda_check True) (cudaEventRecord EvFirstBlockEnd))) () r2"
      by (rule trip_seq) (rule trip_seq [OF trip_check [OF TrueI] trip_event [OF event_ok [OF r2]]])
    then show ?thesis unfolding if_P [OF True] by (intro trip_seq [OF trip_event] event_ok r1)
  next
    case False
    from trip_copy_input [OF r1] False have "trip q c r1 copyInputBlocks () r2"
      by (simp add: r2_def m1 host_input_def r1_def)
    then show ?thesis unfolding if_not_P [OF False] by (rule trip_seq) (intro trip_seq [OF trip_event] trip_event event_ok r2)
  qed
  have launch: "trip q c r4 runKernelOneshot () r5"
    using trip_oneshot [OF r45(1,2), of q c] tn(3) warps unfolding r5_def m2_def by (simp add: seg)
  have "trip q c r5 copyOutputBlocks () r6"
    unfolding r6_def by (rule trip_copy_output [OF r45(3,4)]) (simp add: seg last [unfolded One_nat_def] words_def)
  then have "trip q c r5 (seq_step (cuda_check True) (seq_step (cudaEventRecord EvKernelEnd)
      (seq_step copyOutputBlocks (cudaEventRecord EvEnd)))) () r6"
    by (intro trip_seq [OF trip_check [OF TrueI]] trip_seq [OF trip_event [OF event_ok [OF r45(3)]]])
       (rule trip_seq [OF _ trip_event [OF event_ok [OF r6(1)]]])
  note tail = trip_seq [OF trip_event [OF event_ok [OF r3(1)]] trip_seq [OF tn(1) trip_seq [OF launch this]]]
  have mods: "trip q c r (self_modify (\<lambda>ra. ra \<lparr> kr_lastUsedDeviceFirstBlocks := kr_deviceFirstBlocksReady r \<rparr>)) () r1"
    "trip q c r2 (self_modify (\<lambda>r. r \<lparr> kr_deviceFirstBlocksReady := False \<rparr>)) () r3"
    by (rule trip_modify, simp add: r1_def, rule trip_modify, simp add: r3_def)
  have "trip q c r (kr_run env) () r6"
    unfolding kr_run_def Let_def
    by (rule trip_seq [OF trip_event [OF event_ok [OF sz]]], rule trip_seq [OF trip_event [OF event_ok [OF sz]]],
        rule trip_bind [OF trip_self], rule trip_seq [OF mods(1)], rule trip_seq [OF first], rule trip_seq [OF mods(2)], rule tail)
  moreover have "runner_ok r6" "same_shape r r6" "\<not> kr_deviceFirstBlocksReady r6"
    using r6 ok by (simp_all add: runner_ok_def same_shape_def r6_def r5_def r4_def r3_def r2_def r1_def memory_ok_def)
  ultimately show ?thesis using out by (auto simp: r6_def)
qed

lemma trip_events:
  "trip q c r (for_each (\<lambda>ev. seq_step (cuda_check True) (self_modify (\<lambda>r. r \<lparr> kr_events := kr_events r @ [ev] \<rparr>))) evs) ()
     (r \<lparr> kr_events := kr_events r @ evs \<rparr>)"
proof (induction evs arbitrary: r)
  case Nil
  have "r \<lparr> kr_events := kr_events r @ [] \<rparr> = r" by simp
  then show ?case using trip_ret [of q c r "()"] by simp
next
  case (Cons ev evs)
  have "trip q c r (seq_step (cuda_check True) (self_modify (\<lambda>r. r \<lparr> kr_events := kr_events r @ [ev] \<rparr>))) ()
      (r \<lparr> kr_events := kr_events r @ [ev] \<rparr>)"
    by (rule trip_seq [OF trip_check [OF TrueI] trip_modify]) simp
  from trip_seq [OF this Cons.IH] show ?case by simp
qed

definition batch_fits :: "nat \<Rightarrow> nat \<Rightarrow> bool" where
  "batch_fits b seg = (0 < b \<and> b + 16 < 2 ^ 32 \<and> 2 \<le> seg \<and> seg < 2 ^ 30 \<and> b * seg * 4096 < 2 ^ 64)"

lemma memory_size:
  assumes "batch_fits (unat b) (unat seg)"
  shows "unat (b * 1 * ucast (seg :: u32) * ARGON2_SYNC_POINTS * word_of_nat ARGON2_BLOCK_SIZE :: u64) div ARGON2_BLOCK_SIZE =
    unat b * (4 * unat seg)"
    and "unat (b * 1 * 2 * word_of_nat ARGON2_BLOCK_SIZE :: u64) = unat b * 2048"
    and "unat (b * 1 * word_of_nat ARGON2_BLOCK_SIZE :: u64) = unat b * 1024"
proof -
  have "unat (b * ucast seg :: u64) = unat b * unat seg"
    unfolding unat_word_ariths unat_ucast64 using assms by (simp add: batch_fits_def)
  then have "unat (b * ucast seg * 4096 :: u64) = unat b * unat seg * 4096"
    unfolding unat_word_ariths(2) [of _ 4096] using assms by (simp add: batch_fits_def)
  then show "unat (b * 1 * ucast (seg :: u32) * ARGON2_SYNC_POINTS * word_of_nat ARGON2_BLOCK_SIZE :: u64) div ARGON2_BLOCK_SIZE =
    unat b * (4 * unat seg)" by (simp add: ARGON2_SYNC_POINTS_def ARGON2_BLOCK_SIZE_def mult.assoc)
  show "unat (b * 1 * 2 * word_of_nat ARGON2_BLOCK_SIZE :: u64) = unat b * 2048"
    "unat (b * 1 * word_of_nat ARGON2_BLOCK_SIZE :: u64) = unat b * 1024"
    using assms by (simp_all add: ARGON2_BLOCK_SIZE_def batch_fits_def mult.assoc unat_word_ariths)
qed

lemma trip_init:
  assumes "batch_fits (unat b) (unat seg)"
  shows "\<exists>r. trip q c (new_runner typ version passes 1 seg b) (kr_init env b) () r \<and> runner_ok r \<and>
    kr_segmentBlocks r = seg \<and> kr_batchSize r = b \<and> \<not> kr_deviceFirstBlocksReady r"
proof -
  let ?r = "new_runner typ version passes 1 seg b"
  let ?evs = "[EvStart, EvEnd, EvCopyStart, EvCopyEnd, EvFirstBlockStart, EvFirstBlockEnd, EvKernelStart, EvKernelEnd]"
  note size = memory_size [OF assms]
  define r1 where "r1 = ?r \<lparr> kr_batchSize := b, kr_allocatedSegmentBlocks := seg,
      kr_blocksIn := replicate (unat b * 2048) 0, kr_blocksOut := replicate (unat b * 1024) 0 \<rparr>"
  define r2 where "r2 = r1 \<lparr> kr_memory := Some (fresh_blocks env (unat b * (4 * unat seg))) \<rparr>"
  define r3 where "r3 = r2 \<lparr> kr_events := kr_events r2 @ ?evs \<rparr>"
  have seg: "kr_segmentBlocks ?r = seg" "kr_allocatedSegmentBlocks r1 = seg" by (simp_all add: new_runner_def r1_def)
  have m: "trip q c ?r (self_modify (\<lambda>r. r \<lparr> kr_batchSize := b, kr_allocatedSegmentBlocks := kr_segmentBlocks r,
       kr_blocksIn := replicate (unat (b * 1 * 2 * word_of_nat ARGON2_BLOCK_SIZE)) 0,
       kr_blocksOut := replicate (unat (b * 1 * word_of_nat ARGON2_BLOCK_SIZE)) 0 \<rparr>)) () r1"
    "trip q c r1 (self_modify (\<lambda>r. r \<lparr> kr_memory := Some (fresh_blocks env (unat b * (4 * unat seg))) \<rparr>)) () r2"
    "trip q c r3 (self_modify (\<lambda>r. r \<lparr> kr_stream := True \<rparr>)) () (r3 \<lparr> kr_stream := True \<rparr>)"
    by (rule trip_modify, unfold size, simp add: r1_def seg, rule trip_modify, simp add: r2_def, rule trip_modify, simp)
  have evs: "trip q c r2 (for_each (\<lambda>ev. seq_step (cuda_check True) (self_modify (\<lambda>r. r \<lparr> kr_events := kr_events r @ [ev] \<rparr>))) ?evs) () r3"
    unfolding r3_def by (rule trip_events)
  have "trip q c ?r (kr_init env b) () (r3 \<lparr> kr_stream := True \<rparr>)"
    unfolding kr_init_def Let_def
    by (rule trip_seq [OF m(1)], rule trip_bind [OF trip_self], unfold seg size, rule trip_seq [OF trip_check [OF TrueI]],
        rule trip_seq [OF m(2)], rule trip_seq [OF evs], rule trip_seq [OF trip_check [OF TrueI]], rule m(3))
  moreover have "ev \<in> set ?evs" for ev by (cases ev) simp_all
  then have "set ?evs = UNIV" by blast
  then have "sizes_ok (r3 \<lparr> kr_stream := True \<rparr>)"
    using assms by (simp add: sizes_ok_def r3_def r2_def r1_def new_runner_def batch_fits_def)
  moreover have "memory_ok (r3 \<lparr> kr_stream := True \<rparr>) (fresh_blocks env (unat b * (4 * unat seg)))"
    by (simp add: memory_ok_def r3_def r2_def r1_def new_runner_def fresh_blocks_def)
  ultimately show ?thesis
    by (intro exI [of _ "r3 \<lparr> kr_stream := True \<rparr>"])
       (auto simp: runner_ok_def refs_ok_def buffer_ok_def r3_def r2_def r1_def new_runner_def)
qed

text \<open>\<open>CudaBackend::init\<close> leaves a runner of the shape asked for, new or reused.\<close>

lemma wp_init:
  assumes "batch_fits (unat b) (unat seg)" and "\<not> cu_crashed s" and "q \<longrightarrow> quiet (cu_calls s)"
    and "\<And>r. cu_runner s = Some r \<Longrightarrow> runner_ok r"
  shows "wp (cuda_init env b typ version passes 1 seg)
    (\<lambda>_ t. \<exists>r. on q s r t \<and> runner_ok r \<and> kr_segmentBlocks r = seg \<and> kr_batchSize r = b \<and> \<not> kr_deviceFirstBlocksReady r)
    (failed q) s"
proof (cases "\<exists>r. cu_runner s = Some r \<and> canReuse typ version passes 1 seg b r")
  case True
  then obtain r where r: "cu_runner s = Some r" "canReuse typ version passes 1 seg b r" by blast
  have "seg \<noteq> 0" using assms(1) by (auto simp: batch_fits_def)
  then show ?thesis using r assms(1-3) assms(4) [OF r(1)]
    by (auto simp: cuda_init_def reconfigure_def wp_simps wp_def self_modify_def gets_def bind_step_def on_def runner_ok_def sizes_ok_def
        memory_ok_def refs_ok_def canReuse_def batch_fits_def)
next
  case False
  let ?r = "new_runner typ version passes 1 seg b"
  obtain r where r: "trip q s ?r (kr_init env b) () r" "runner_ok r" "kr_segmentBlocks r = seg" "kr_batchSize r = b"
    "\<not> kr_deviceFirstBlocksReady r" using trip_init [OF assms(1)] by metis
  have "on q s ?r (s \<lparr> cu_runner := Some ?r \<rparr>)" using assms(2,3) by (simp add: on_def)
  with r(1) have "wp (kr_init env b) (\<lambda>x t. x = () \<and> on q s r t) (failed q) (s \<lparr> cu_runner := Some ?r \<rparr>)"
    unfolding trip_def by blast
  then have "wp (kr_init env b) (\<lambda>_ t. \<exists>r. on q s r t \<and> runner_ok r \<and> kr_segmentBlocks r = seg \<and> kr_batchSize r = b \<and>
      \<not> kr_deviceFirstBlocksReady r) (failed q) (s \<lparr> cu_runner := Some ?r \<rparr>)"
    by (rule wp_conseq) (use r in auto)
  with False show ?thesis by (auto simp: cuda_init_def wp_simps split: option.splits)
qed

text \<open>Growing and filling one of the two buffers.\<close>

lemma trip_grow_keys:
  assumes "buffer_ok (kr_deviceKeys r) (kr_deviceKeysCapacity r)" and "0 < n"
  shows "\<exists>d k. trip q c r (grow_keys env n) () (r \<lparr> kr_deviceKeys := Some d, kr_deviceKeysCapacity := k \<rparr>) \<and>
    length d = unat k \<and> unat n \<le> length d"
proof (cases "kr_deviceKeysCapacity r < n")
  case True
  define r1 where "r1 = (if kr_deviceKeys r \<noteq> None then r \<lparr> kr_deviceKeys := None \<rparr> else r)"
  let ?d = "fresh_bytes env (unat n)"
  have "trip q c r (when_step (kr_deviceKeys r \<noteq> None) (seq_step (cuda_check True)
      (self_modify (\<lambda>r. r \<lparr> kr_deviceKeys := None \<rparr>)))) () r1"
    unfolding r1_def by (rule trip_when, rule trip_seq [OF trip_check [OF TrueI]]) (simp add: trip_modify)
  moreover have "trip q c r1 (self_modify (\<lambda>r. r \<lparr> kr_deviceKeys := Some ?d, kr_deviceKeysCapacity := n \<rparr>)) ()
      (r \<lparr> kr_deviceKeys := Some ?d, kr_deviceKeysCapacity := n \<rparr>)" by (rule trip_modify) (simp add: r1_def)
  ultimately have "trip q c r (grow_keys env n) () (r \<lparr> kr_deviceKeys := Some ?d, kr_deviceKeysCapacity := n \<rparr>)"
    unfolding grow_keys_def when_step_def [of "kr_deviceKeysCapacity _ < n"]
    by (intro trip_bind [OF trip_self]) (use True in \<open>auto intro: trip_seq trip_check\<close>)
  then show ?thesis by (intro exI [of _ ?d] exI [of _ n]) (simp add: fresh_bytes_def)
next
  case False
  then obtain d where d: "kr_deviceKeys r = Some d" "length d = unat (kr_deviceKeysCapacity r)"
    using assms by (auto simp: buffer_ok_def split: option.splits)
  have "trip q c r (grow_keys env n) () r"
    unfolding grow_keys_def when_step_def [of "kr_deviceKeysCapacity _ < n"]
    by (intro trip_bind [OF trip_self]) (use False in \<open>simp add: trip_ret\<close>)
  moreover have "r \<lparr> kr_deviceKeys := Some d, kr_deviceKeysCapacity := kr_deviceKeysCapacity r \<rparr> = r"
    unfolding d(1) [symmetric] by simp
  moreover have "unat n \<le> length d" using False d by (simp add: word_less_nat_alt)
  ultimately show ?thesis using d(2) by metis
qed

lemma trip_grow_salt:
  assumes "buffer_ok (kr_deviceSalt r) (kr_deviceSaltCapacity r)" and "0 < n"
  shows "\<exists>d k. trip q c r (grow_salt env n) () (r \<lparr> kr_deviceSalt := Some d, kr_deviceSaltCapacity := k \<rparr>) \<and>
    length d = unat k \<and> unat n \<le> length d"
proof (cases "kr_deviceSaltCapacity r < n")
  case True
  define r1 where "r1 = (if kr_deviceSalt r \<noteq> None then r \<lparr> kr_deviceSalt := None \<rparr> else r)"
  let ?d = "fresh_bytes env (unat n)"
  have "trip q c r (when_step (kr_deviceSalt r \<noteq> None) (seq_step (cuda_check True)
      (self_modify (\<lambda>r. r \<lparr> kr_deviceSalt := None \<rparr>)))) () r1"
    unfolding r1_def by (rule trip_when, rule trip_seq [OF trip_check [OF TrueI]]) (simp add: trip_modify)
  moreover have "trip q c r1 (self_modify (\<lambda>r. r \<lparr> kr_deviceSalt := Some ?d, kr_deviceSaltCapacity := n \<rparr>)) ()
      (r \<lparr> kr_deviceSalt := Some ?d, kr_deviceSaltCapacity := n \<rparr>)" by (rule trip_modify) (simp add: r1_def)
  ultimately have "trip q c r (grow_salt env n) () (r \<lparr> kr_deviceSalt := Some ?d, kr_deviceSaltCapacity := n \<rparr>)"
    unfolding grow_salt_def when_step_def [of "kr_deviceSaltCapacity _ < n"]
    by (intro trip_bind [OF trip_self]) (use True in \<open>auto intro: trip_seq trip_check\<close>)
  then show ?thesis by (intro exI [of _ ?d] exI [of _ n]) (simp add: fresh_bytes_def)
next
  case False
  then obtain d where d: "kr_deviceSalt r = Some d" "length d = unat (kr_deviceSaltCapacity r)"
    using assms by (auto simp: buffer_ok_def split: option.splits)
  have "trip q c r (grow_salt env n) () r"
    unfolding grow_salt_def when_step_def [of "kr_deviceSaltCapacity _ < n"]
    by (intro trip_bind [OF trip_self]) (use False in \<open>simp add: trip_ret\<close>)
  moreover have "r \<lparr> kr_deviceSalt := Some d, kr_deviceSaltCapacity := kr_deviceSaltCapacity r \<rparr> = r"
    unfolding d(1) [symmetric] by simp
  moreover have "unat n \<le> length d" using False d by (simp add: word_less_nat_alt)
  ultimately show ?thesis using d(2) by metis
qed

lemma trip_copies:
  "kr_deviceKeys r = Some d \<Longrightarrow> length bs \<le> length d \<Longrightarrow>
     trip q c r (copy_keys bs) () (r \<lparr> kr_deviceKeys := Some (memcpy_at d 0 bs) \<rparr>)"
  "kr_deviceSalt r = Some d \<Longrightarrow> length bs \<le> length d \<Longrightarrow>
     trip q c r (copy_salt bs) () (r \<lparr> kr_deviceSalt := Some (memcpy_at d 0 bs) \<rparr>)"
  unfolding copy_keys_def copy_salt_def
  by (rule trip_bind [OF trip_self], rule trip_seq [OF trip_check], simp, simp add: trip_modify)+

lemma flat_length: "\<forall>p\<in>set ps. length p = kl \<Longrightarrow> length (concat (map password_bytes ps)) = length ps * kl"
  by (induction ps) (simp_all add: password_bytes_def)

lemma trip_prepare:
  assumes ok: "runner_ok r" and n: "length ps = unat (kr_batchSize r)" and kl: "\<forall>p\<in>set ps. length p = kl" "0 < kl" "kl < 2 ^ 32"
    and salt: "salt \<noteq> []" "length salt < 2 ^ 32"
    and args: "args = \<lparr> fb_key_length = word_of_nat kl, fb_salt_length = word_of_nat (length salt), fb_output_length = 64,
      fb_memory_cost = m_cost, fb_time_cost = 1, fb_version = version, fb_type = typ, fb_lanes = 1 \<rparr>"
  shows "\<exists>r'. trip q c r (kr_prepareInputBlocksOnDevice env ps salt 64 m_cost 1 version typ 1) True r' \<and> runner_ok r' \<and>
    same_shape r r' \<and> kr_deviceFirstBlocksReady r' \<and> kr_first_block_args r' = args \<and>
    keys_ready r' (concat (map password_bytes ps)) salt"
proof -
  let ?flat = "concat (map password_bytes ps)"
  define r0 where "r0 = r \<lparr> kr_deviceFirstBlocksReady := False \<rparr>"
  have b: "0 < length ps" "length ps < 2 ^ 32" using ok n by (simp_all add: runner_ok_def sizes_ok_def)
  then have ne: "ps \<noteq> []" "length (hd ps) = kl" using kl(1) by auto
  have flat: "length ?flat = length ps * kl" by (rule flat_length [OF kl(1)])
  have "kl * length ps < 2 ^ 32 * 2 ^ 32" by (rule mult_strict_mono) (use b kl in simp_all)
  then have ukb: "unat (word_of_nat kl * word_of_nat (length ps) :: u64) = length ps * kl"
    unfolding of_nat_mult [symmetric] unat_of_nat by (simp add: mult.commute)
  have usl: "unat (word_of_nat (length salt) :: u64) = length salt" unfolding unat_of_nat using salt by simp
  have pos: "0 < (word_of_nat kl * word_of_nat (length ps) :: u64)" "0 < (word_of_nat (length salt) :: u64)"
    unfolding word_less_nat_alt ukb usl using b kl salt by simp_all
  have "buffer_ok (kr_deviceKeys r0) (kr_deviceKeysCapacity r0)" using ok by (simp add: runner_ok_def r0_def)
  from trip_grow_keys [OF this pos(1)] ukb obtain dk k where
    dk: "trip q c r0 (grow_keys env (word_of_nat kl * word_of_nat (length ps))) () (r0 \<lparr> kr_deviceKeys := Some dk, kr_deviceKeysCapacity := k \<rparr>)"
    "length dk = unat k" "length ?flat \<le> length dk" unfolding flat by metis
  define r1 where "r1 = r0 \<lparr> kr_deviceKeys := Some dk, kr_deviceKeysCapacity := k \<rparr>"
  have "buffer_ok (kr_deviceSalt r1) (kr_deviceSaltCapacity r1)" using ok by (simp add: runner_ok_def r0_def r1_def)
  from trip_grow_salt [OF this pos(2)] usl obtain ds l where
    ds: "trip q c r1 (grow_salt env (word_of_nat (length salt))) () (r1 \<lparr> kr_deviceSalt := Some ds, kr_deviceSaltCapacity := l \<rparr>)"
    "length ds = unat l" "length salt \<le> length ds" by metis
  define r2 where "r2 = r1 \<lparr> kr_deviceSalt := Some ds, kr_deviceSaltCapacity := l \<rparr>"
  define r3 where "r3 = r2 \<lparr> kr_deviceKeys := Some (memcpy_at dk 0 ?flat) \<rparr>"
  define r4 where "r4 = r3 \<lparr> kr_deviceSalt := Some (memcpy_at ds 0 salt) \<rparr>"
  define r5 where "r5 = r4 \<lparr> kr_deviceFirstBlocksReady := True, kr_first_block_args := args \<rparr>"
  note rs = r5_def r4_def r3_def r2_def r1_def r0_def
  have copies: "trip q c r2 (copy_keys ?flat) () r3" "trip q c r3 (copy_salt salt) () r4"
    unfolding r3_def r4_def using dk(3) ds(3) by (intro trip_copies; simp add: rs)+
  have mods: "trip q c r (self_modify (\<lambda>r. r \<lparr> kr_deviceFirstBlocksReady := False \<rparr>)) () r0"
    "trip q c r4 (self_modify (\<lambda>r. r \<lparr> kr_deviceFirstBlocksReady := True, kr_first_block_args := args \<rparr>)) () r5"
    by (rule trip_modify, simp add: r0_def, rule trip_modify, simp add: r5_def)
  have g: "\<not> (ps = [] \<or> word_of_nat (length ps) \<noteq> kr_batchSize r0 \<or> (64 :: u32) \<noteq> BLAKE2B_OUT_BYTES \<or> (1 :: u32) \<noteq> 1 \<or>
      (1 :: u32) \<noteq> 1 \<or> salt = [] \<or> 2 ^ 32 - 1 < length salt)" "\<not> (kl = 0 \<or> 2 ^ 32 - 1 < kl)" "\<not> (\<exists>p\<in>set ps. length p \<noteq> kl)"
    using ne n salt kl by (simp_all add: r0_def BLAKE2B_OUT_BYTES_def)
  have "trip q c r (kr_prepareInputBlocksOnDevice env ps salt 64 m_cost 1 version typ 1) True r5"
    unfolding kr_prepareInputBlocksOnDevice_def
    apply (rule trip_seq [OF mods(1)], rule trip_bind [OF trip_self])
    apply (unfold Let_def ne(2) if_not_P [OF g(1)] if_not_P [OF g(2)] if_not_P [OF g(3)] args [symmetric])
    by (rule trip_seq [OF dk(1), folded r1_def], rule trip_seq [OF ds(1), folded r2_def], rule trip_seq [OF copies(1)],
        rule trip_seq [OF copies(2)], rule trip_seq [OF mods(2)], rule trip_ret)
  moreover have "runner_ok r5" "same_shape r r5"
    using ok dk(2,3) ds(2,3) by (auto simp: runner_ok_def sizes_ok_def memory_ok_def refs_ok_def buffer_ok_def same_shape_def rs)
  moreover have "keys_ready r5 ?flat salt"
    using dk(3) ds(3) flat n salt kl by (simp add: keys_ready_def rs args memcpy_at_def unat_of_nat)
  ultimately show ?thesis by (auto simp: r5_def)
qed

text \<open>\<open>CudaBackend::run\<close> hands its settings to the runner first.\<close>

lemma wp_run:
  assumes "on q c r s" and "1 \<le> unat (cu_warpsPerBlock c)" and "unat (cu_warpsPerBlock c) \<le> 16"
    and "trip q c (r \<lparr> kr_warpsPerBlock := cu_warpsPerBlock c, kr_precomputedRefs := cu_precomputedRefs c \<rparr>) (kr_run env) () r'"
  shows "wp (cuda_run env) (\<lambda>_. on q c r') (failed q) s"
proof -
  have "cu_warpsPerBlock c \<noteq> 0" using assms(2) by auto
  moreover have "ucast (cu_warpsPerBlock c) \<le> kMaxWarpsPerBlock"
    using assms(3) by (simp add: word_le_nat_alt unat_ucast64 kMaxWarpsPerBlock_def)
  ultimately have "trip q c r (seq_step (kr_setWarpsPerBlock (cu_warpsPerBlock c))
      (seq_step (kr_setPrecomputedRefs (cu_precomputedRefs c)) (kr_run env))) () r'"
    unfolding kr_setWarpsPerBlock_def kr_setPrecomputedRefs_def
    by (intro trip_seq [OF trip_modify [OF refl]]) (use assms(4) in \<open>simp add: leD\<close>)
  then have "wp (seq_step (kr_setWarpsPerBlock (cu_warpsPerBlock c))
      (seq_step (kr_setPrecomputedRefs (cu_precomputedRefs c)) (kr_run env))) (\<lambda>_. on q c r') (failed q) s"
    unfolding trip_def using assms(1) by (auto intro: wp_conseq)
  moreover have "cu_runner s \<noteq> None" "cu_warpsPerBlock s = cu_warpsPerBlock c" "cu_precomputedRefs s = cu_precomputedRefs c"
    using assms(1) by (simp_all add: on_def)
  ultimately show ?thesis unfolding cuda_run_def by (simp add: wp_bind wp_gets wp_when)
qed

end
