(* ===== verification/First_Block_Workers.thy ===== *)
theory First_Block_Workers
  imports Kernel_Runner
begin

text \<open>
  The first blocks of a batch computed on the host by several threads: \<open>fillPasswordBlocks\<close> of
  \<open>hashapi/CudaHashBackend.cpp\<close>. A worker has a fixed range of the keys, or takes one chunk after the
  other from a shared counter. The workers interleave at single keys; each writes the slots of its
  own keys, so every interleaving leaves the same buffer. The time stamps are left out.
\<close>

section \<open>How the work is divided\<close>

definition kMinParallelFirstBlockAttempts :: u64 where "kMinParallelFirstBlockAttempts = 8"

definition firstBlockWorkerCount :: "u32 \<Rightarrow> u64 \<Rightarrow> u64 \<Rightarrow> u64" where
  "firstBlockWorkerCount hardware_threads attempts worker_cap =
     (if attempts < kMinParallelFirstBlockAttempts then 1
      else if hardware_threads < 2 then 1
      else let worker_count = min attempts (ucast hardware_threads);
               worker_count = (if 0 < worker_cap then min worker_count worker_cap else worker_count)
           in max 1 worker_count)"

definition firstBlockChunkSize :: "u64 \<Rightarrow> u64 \<Rightarrow> u64" where
  "firstBlockChunkSize attempts worker_count =
     (if attempts = 0 \<or> worker_count = 0 then 0 else (attempts + worker_count - 1) div worker_count)"

definition firstBlockSelectedChunkSize :: "u64 \<Rightarrow> u64 \<Rightarrow> u64 \<Rightarrow> u64" where
  "firstBlockSelectedChunkSize attempts worker_count dynamic_chunk_size =
     (if attempts = 0 \<or> worker_count = 0 then 0
      else if 0 < dynamic_chunk_size \<and> 1 < worker_count then min attempts dynamic_chunk_size
      else firstBlockChunkSize attempts worker_count)"

section \<open>The workers\<close>

definition fillPasswordBlock :: "Argon2Params \<Rightarrow> u64 \<Rightarrow> string \<Rightarrow> (cuda, unit) step" where
  "fillPasswordBlock params index password =
     bind_step self (\<lambda>r.
     case fillFirstBlocks params (password_bytes password) of
       Inl e \<Rightarrow> throw e
     | Inr bytes \<Rightarrow>
         let offset = unat (getInputMemory index) in
         if offset + length bytes \<le> length (kr_blocksIn r)
         then self_modify (\<lambda>r. r \<lparr> kr_blocksIn := memcpy_at (kr_blocksIn r) offset bytes \<rparr>)
         else crash)"

text \<open>What a worker does next: take a chunk, fill the slots from the first index up to the second, or
  nothing any more.\<close>

datatype first_block_worker = Fetching | Filling u64 u64 | Finished

record fill_state =
  fl_cuda :: cuda
  fl_next :: u64
  fl_workers :: "nat \<Rightarrow> first_block_worker"

definition fill_turn ::
  "Argon2Params \<Rightarrow> string list \<Rightarrow> bool \<Rightarrow> u64 \<Rightarrow> nat \<Rightarrow> fill_state \<Rightarrow> fill_state" where
  "fill_turn params passwords dynamic_chunks chunk_size w f =
     (let attempts = word_of_nat (length passwords); become = (\<lambda>s f. f \<lparr> fl_workers := (fl_workers f)(w := s) \<rparr>) in
      case fl_workers f w of
        Finished \<Rightarrow> f
      | Fetching \<Rightarrow>
          let begin_index = fl_next f; f1 = f \<lparr> fl_next := begin_index + chunk_size \<rparr> in
          become (if attempts \<le> begin_index then Finished else Filling begin_index (min attempts (begin_index + chunk_size))) f1
      | Filling i end_index \<Rightarrow>
          if i < end_index
          then case fillPasswordBlock params i (passwords ! unat i) (fl_cuda f) of
                 (Inr _, c) \<Rightarrow> become (Filling (i + 1) end_index) (f \<lparr> fl_cuda := c \<rparr>)
               | (Inl _, c) \<Rightarrow> become Finished (f \<lparr> fl_cuda := c \<lparr> cu_crashed := True \<rparr> \<rparr>)
          else become (if dynamic_chunks then Fetching else Finished) f)"

text \<open>The workers that are launched: the loop stops at the first empty fixed range.\<close>

definition static_range :: "u64 \<Rightarrow> u64 \<Rightarrow> nat \<Rightarrow> u64 \<times> u64" where
  "static_range attempts chunk_size w =
     (let static_begin = word_of_nat w * chunk_size in (static_begin, min attempts (static_begin + chunk_size)))"

definition launched_workers :: "bool \<Rightarrow> u64 \<Rightarrow> u64 \<Rightarrow> u64 \<Rightarrow> nat list" where
  "launched_workers dynamic_chunks attempts worker_count chunk_size =
     takeWhile (\<lambda>w. dynamic_chunks \<or> (case static_range attempts chunk_size w of (b, e) \<Rightarrow> b < e)) [0..<unat worker_count]"

definition fill_start :: "bool \<Rightarrow> u64 \<Rightarrow> u64 \<Rightarrow> u64 \<Rightarrow> cuda \<Rightarrow> fill_state" where
  "fill_start dynamic_chunks attempts worker_count chunk_size c =
     \<lparr> fl_cuda = c, fl_next = 0,
       fl_workers = (\<lambda>w. if w \<notin> set (launched_workers dynamic_chunks attempts worker_count chunk_size) then Finished
         else if dynamic_chunks then Fetching
         else case static_range attempts chunk_size w of (b, e) \<Rightarrow> Filling b e) \<rparr>"

text \<open>The interleaving is \<open>schedule\<close>; when it is used up the workers that are left are scheduled in turn
  until \<open>join\<close> has seen all of them return.\<close>

definition fillPasswordBlocks ::
  "u32 \<Rightarrow> nat list \<Rightarrow> Argon2Params \<Rightarrow> string list \<Rightarrow> u64 \<Rightarrow> u64 \<Rightarrow> (cuda, unit) step" where
  "fillPasswordBlocks hardware_threads schedule params passwords worker_cap dynamic_chunk_size =
     (let attempts = word_of_nat (length passwords);
          worker_count = firstBlockWorkerCount hardware_threads attempts worker_cap in
      if worker_count \<le> 1
      then for_each (\<lambda>i. fillPasswordBlock params (word_of_nat i) (passwords ! i)) [0..<length passwords]
      else
        let chunk_size = firstBlockSelectedChunkSize attempts worker_count dynamic_chunk_size;
            dynamic_chunks = (0 < dynamic_chunk_size);
            rest = concat (replicate (4 * length passwords + 3) [0..<unat worker_count])
        in (\<lambda>c. (Inr (), fl_cuda (fold (fill_turn params passwords dynamic_chunks chunk_size) (schedule @ rest)
                   (fill_start dynamic_chunks attempts worker_count chunk_size c)))))"

section \<open>One slot\<close>

text \<open>The slot of a key in the host buffer.\<close>

definition slot_of :: "byte list \<Rightarrow> nat \<Rightarrow> byte list" where
  "slot_of bs i = take 2048 (drop (i * 2048) bs)"

lemma slot_memcpy:
  assumes "length x = 2048" and "length bs = n * 2048" and "i < n" and "j < n"
  shows "slot_of (memcpy_at bs (i * 2048) x) j = (if j = i then x else slot_of bs j)"
proof (rule nth_equalityI)
  have l: "length (memcpy_at bs (i * 2048) x) = n * 2048"
    using assms by (subst memcpy_length) simp_all
  have sl: "length (slot_of ys j) = 2048" if "length ys = n * 2048" for ys
    using that assms(4) by (simp add: slot_of_def)
  show "length (slot_of (memcpy_at bs (i * 2048) x) j) = length (if j = i then x else slot_of bs j)"
    using sl l assms(1,2) by simp
  fix k
  assume "k < length (slot_of (memcpy_at bs (i * 2048) x) j)"
  then have k: "k < 2048" using sl l by simp
  have "j * 2048 + k < n * 2048" using assms(4) k by simp
  then show "slot_of (memcpy_at bs (i * 2048) x) j ! k = (if j = i then x else slot_of bs j) ! k"
    using k assms l by (cases j i rule: linorder_cases) (auto simp: slot_of_def memcpy_at_def nth_append)
qed

lemma slot_words:
  assumes "i < n" and "length bs = n * 2048"
  shows "block_words (drop (i * 2048) bs) = block_words (slot_of bs i)"
    and "block_words (drop (i * 2048 + 1024) bs) = block_words (drop 1024 (slot_of bs i))"
proof -
  have "load64 (drop (k * 8) (drop (i * 2048) bs)) = load64 (drop (k * 8) (slot_of bs i))" if "k < 128" for k
    using that assms by (simp add: load64_def slot_of_def ac_simps)
  then show "block_words (drop (i * 2048) bs) = block_words (slot_of bs i)"
    by (simp add: block_words_def ARGON2_BLOCK_SIZE_def)
  have "load64 (drop (k * 8) (drop (i * 2048 + 1024) bs)) = load64 (drop (k * 8) (drop 1024 (slot_of bs i)))" if "k < 128" for k
    using that assms by (simp add: load64_def slot_of_def ac_simps)
  then show "block_words (drop (i * 2048 + 1024) bs) = block_words (drop 1024 (slot_of bs i))"
    by (simp add: block_words_def ARGON2_BLOCK_SIZE_def)
qed

text \<open>Parameters and keys for which \<open>fillFirstBlocks\<close> does not throw.\<close>

definition fillable :: "Argon2Params \<Rightarrow> string list \<Rightarrow> (nat \<Rightarrow> byte list) \<Rightarrow> bool" where
  "fillable params passwords blocks = (\<forall>i<length passwords.
     fillFirstBlocks params (password_bytes (passwords ! i)) = Inr (blocks i) \<and> length (blocks i) = 2048)"

definition with_input :: "cuda \<Rightarrow> KernelRunner \<Rightarrow> byte list \<Rightarrow> cuda" where
  "with_input c r bs = c \<lparr> cu_runner := Some (r \<lparr> kr_blocksIn := bs \<rparr>) \<rparr>"

lemma fill_one:
  assumes "fillable params passwords blocks" and "i < length passwords" and "length bs = length passwords * 2048"
    and "length passwords < 2 ^ 32"
  shows "fillPasswordBlock params (word_of_nat i) (passwords ! i) (with_input c r bs) =
    (Inr (), with_input c r (memcpy_at bs (i * 2048) (blocks i)))"
proof -
  have "unat (getInputMemory (word_of_nat i)) = i * 2048"
  proof -
    have "(word_of_nat i * 2048 :: u64) = word_of_nat (i * 2048)" by simp
    then show ?thesis using assms(2,4)
      by (simp add: getInputMemory_def ARGON2_BLOCK_SIZE_def unat_of_nat del: of_nat_mult)
  qed
  then show ?thesis using assms
    by (auto simp: fillPasswordBlock_def fillable_def with_input_def bind_step_def self_def self_modify_def Let_def)
qed

section \<open>Every interleaving fills every slot\<close>

text \<open>
  The invariant: only the buffer changes; a slot is filled, or lies in the range of a worker, or was not
  taken from the counter yet; the counter cannot wrap, because a worker that finds it past the end
  does not come back.
\<close>

definition pending :: "nat \<Rightarrow> fill_state \<Rightarrow> nat \<Rightarrow> bool" where
  "pending W f i = (\<exists>w<W. \<exists>a e. fl_workers f w = Filling a e \<and> unat a \<le> i \<and> i < unat e)"

definition finished :: "nat \<Rightarrow> fill_state \<Rightarrow> nat set" where
  "finished W f = {w. w < W \<and> fl_workers f w = Finished}"

definition fill_inv ::
  "Argon2Params \<Rightarrow> string list \<Rightarrow> (nat \<Rightarrow> byte list) \<Rightarrow> bool \<Rightarrow> u64 \<Rightarrow> nat \<Rightarrow> cuda \<Rightarrow> KernelRunner \<Rightarrow> fill_state \<Rightarrow> bool" where
  "fill_inv params passwords blocks dyn ch W c r f =
     (let n = length passwords in
      fillable params passwords blocks \<and> n < 2 ^ 32 \<and> 0 < unat ch \<and> n + unat ch * (W + 1) < 2 ^ 64 \<and>
      (\<exists>bs. fl_cuda f = with_input c r bs \<and> length bs = n * 2048 \<and>
        (\<forall>i<n. slot_of bs i = blocks i \<or> pending W f i \<or> (dyn \<and> unat (fl_next f) \<le> i))) \<and>
      (\<forall>w a e. fl_workers f w = Filling a e \<longrightarrow> unat e \<le> n) \<and>
      (\<forall>w. W \<le> w \<longrightarrow> fl_workers f w = Finished) \<and>
      (\<not> dyn \<longrightarrow> (\<forall>w. fl_workers f w \<noteq> Fetching)) \<and>
      (dyn \<longrightarrow> (\<forall>w\<in>finished W f. n \<le> unat (fl_next f))) \<and>
      unat (fl_next f) \<le> n + unat ch * (1 + card (finished W f)))"

lemma fill_invD:
  assumes "fill_inv params passwords blocks dyn ch W c r f"
  shows "fillable params passwords blocks" and "length passwords < 2 ^ 32" and "0 < unat ch"
    and "fl_workers f w = Filling a e \<Longrightarrow> unat e \<le> length passwords"
    and "fl_workers f w \<noteq> Finished \<Longrightarrow> w < W"
    and "fl_workers f w = Fetching \<Longrightarrow> dyn"
    and "dyn \<Longrightarrow> unat (fl_next f) < length passwords \<Longrightarrow> finished W f = {}"
proof -
  note i = assms [unfolded fill_inv_def Let_def]
  show "fillable params passwords blocks" "length passwords < 2 ^ 32" "0 < unat ch" using i by blast+
  show "fl_workers f w = Filling a e \<Longrightarrow> unat e \<le> length passwords" using i by blast
  show "fl_workers f w \<noteq> Finished \<Longrightarrow> w < W" using i not_le by blast
  show "fl_workers f w = Fetching \<Longrightarrow> dyn" using i by blast
  show "dyn \<Longrightarrow> unat (fl_next f) < length passwords \<Longrightarrow> finished W f = {}" using i not_le by blast
qed

lemma pending_update:
  assumes "\<And>a e. fl_workers f w = Filling a e \<Longrightarrow> unat a \<le> i \<Longrightarrow> i < unat e \<Longrightarrow>
      (\<exists>a e. s = Filling a e \<and> unat a \<le> i \<and> i < unat e)"
    and "pending W f i" and "fl_workers g = (fl_workers f)(w := s)"
  shows "pending W g i"
proof -
  obtain v a e where v: "v < W" "fl_workers f v = Filling a e" "unat a \<le> i" "i < unat e"
    using assms(2) by (auto simp: pending_def)
  have "\<exists>a e. fl_workers g v = Filling a e \<and> unat a \<le> i \<and> i < unat e"
    using v assms(1,3) by (cases "v = w") auto
  with v(1) show ?thesis unfolding pending_def by blast
qed

lemma finished_finite [simp]: "finite (finished W f)"
  by (simp add: finished_def)

lemma unat_length: "n < 2 ^ 32 \<Longrightarrow> unat (word_of_nat n :: u64) = n"
  unfolding unat_of_nat by simp

lemma unat_succ: "a < e \<Longrightarrow> unat (a + 1) = unat a + 1" for a e :: u64
proof -
  assume "a < e"
  then have "unat a < unat e" "unat e < 2 ^ 64" using unsigned_less [of e] by (simp_all add: word_less_nat_alt)
  then have "unat a + 1 < 2 ^ 64" by linarith
  then show ?thesis unfolding unat_word_ariths by simp
qed

lemma next_no_wrap:
  assumes "fill_inv params passwords blocks dyn ch W c r f" and "w < W" and "fl_workers f w \<noteq> Finished"
  shows "unat (fl_next f + ch) = unat (fl_next f) + unat ch"
proof -
  have "finished W f \<subset> {..<W}" using assms(2,3) by (auto simp: finished_def)
  then have "card (finished W f) < W" using psubset_card_mono [of "{..<W}"] by simp
  then have "unat ch * (1 + card (finished W f)) \<le> unat ch * W" by (intro mult_le_mono2) simp
  then have "unat (fl_next f) + unat ch < 2 ^ 64" using assms(1) by (simp add: fill_inv_def Let_def)
  then show ?thesis unfolding unat_word_ariths by simp
qed

lemma fill_inv_step:
  assumes inv: "fill_inv params passwords blocks dyn ch W c r f" and "fl_workers g = (fl_workers f)(w := s)" and "w < W"
    and "fl_cuda g = with_input c r bs" and "length bs = length passwords * 2048"
    and "\<And>i. i < length passwords \<Longrightarrow> slot_of bs i = blocks i \<or> pending W g i \<or> (dyn \<and> unat (fl_next g) \<le> i)"
    and "\<And>a e. s = Filling a e \<Longrightarrow> unat e \<le> length passwords" and "s = Fetching \<Longrightarrow> dyn"
    and "dyn \<Longrightarrow> finished W g \<noteq> {} \<Longrightarrow> length passwords \<le> unat (fl_next g)"
    and "unat (fl_next g) \<le> length passwords + unat ch * (1 + card (finished W g))"
  shows "fill_inv params passwords blocks dyn ch W c r g"
proof -
  note i = inv [unfolded fill_inv_def Let_def]
  have "\<forall>v a e. fl_workers g v = Filling a e \<longrightarrow> unat e \<le> length passwords"
    "\<forall>v. W \<le> v \<longrightarrow> fl_workers g v = Finished" "\<not> dyn \<longrightarrow> (\<forall>v. fl_workers g v \<noteq> Fetching)"
    using i assms(2,3,7,8) by (auto simp: fun_upd_def)
  then show ?thesis unfolding fill_inv_def Let_def using i assms(4-6,9,10) by blast
qed

lemma fetch_inv:
  assumes inv: "fill_inv params passwords blocks dyn ch W c r f" and F: "fl_workers f w = Fetching"
  shows "fill_inv params passwords blocks dyn ch W c r (fill_turn params passwords dyn ch w f)"
proof -
  let ?n = "length passwords"
  define g where "g = fill_turn params passwords dyn ch w f"
  have w: "w < W" and dyn: "dyn" and n: "?n < 2 ^ 32" using fill_invD [OF inv] F by simp_all
  have nx: "unat (fl_next f + ch) = unat (fl_next f) + unat ch" by (rule next_no_wrap [OF inv w]) (simp add: F)
  have un: "unat (word_of_nat ?n :: u64) = ?n" using n by (rule unat_length)
  obtain bs where bs: "fl_cuda f = with_input c r bs" "length bs = ?n * 2048"
    "\<And>i. i < ?n \<Longrightarrow> slot_of bs i = blocks i \<or> pending W f i \<or> unat (fl_next f) \<le> i"
    and bound: "unat (fl_next f) \<le> ?n + unat ch * (1 + card (finished W f))"
    using inv unfolding fill_inv_def Let_def by blast
  have "fill_inv params passwords blocks dyn ch W c r g"
  proof (cases "?n \<le> unat (fl_next f)")
    case True
    then have g: "g = f \<lparr> fl_next := fl_next f + ch, fl_workers := (fl_workers f)(w := Finished) \<rparr>"
      using F un by (simp add: g_def fill_turn_def Let_def word_le_nat_alt)
    have fin: "finished W g = insert w (finished W f)" "w \<notin> finished W f" using w F by (auto simp: g finished_def)
    have "pending W g i" if "pending W f i" for i by (rule pending_update [OF _ that]) (simp_all add: F g)
    then show ?thesis using bs bound True nx
      by (intro fill_inv_step [OF inv _ w, of g Finished bs]) (auto simp: g [symmetric] fin, auto simp: g)
  next
    case False
    define e where "e = min (word_of_nat ?n) (fl_next f + ch)"
    have e: "unat e = min ?n (unat (fl_next f) + unat ch)" using un nx by (auto simp: e_def min_def word_le_nat_alt)
    have g: "g = f \<lparr> fl_next := fl_next f + ch, fl_workers := (fl_workers f)(w := Filling (fl_next f) e) \<rparr>"
      using F False un by (simp add: g_def fill_turn_def Let_def word_le_nat_alt e_def)
    have fin: "finished W g = {}" using fill_invD(7) [OF inv dyn] False by (auto simp: g finished_def split: if_splits)
    have old: "pending W g i" if "pending W f i" for i by (rule pending_update [OF _ that]) (simp_all add: F g)
    have new: "pending W g i" if "unat (fl_next f) \<le> i" "i < unat (fl_next f) + unat ch" "i < ?n" for i
      unfolding pending_def using w that e by (auto simp: g intro!: exI [of _ w])
    have "slot_of bs i = blocks i \<or> pending W g i \<or> (dyn \<and> unat (fl_next g) \<le> i)" if "i < ?n" for i
      using bs(3) [OF that] old new [OF _ _ that] nx dyn by (auto simp: g not_less [symmetric])
    then show ?thesis using bs(1,2) False nx e dyn
      by (intro fill_inv_step [OF inv _ w, of g "Filling (fl_next f) e" bs]) (simp_all add: fin, simp_all add: g)
  qed
  then show ?thesis by (simp add: g_def)
qed

lemma fill_range_inv:
  assumes inv: "fill_inv params passwords blocks dyn ch W c r f" and F: "fl_workers f w = Filling a e"
  shows "fill_inv params passwords blocks dyn ch W c r (fill_turn params passwords dyn ch w f)"
proof -
  let ?n = "length passwords"
  define g where "g = fill_turn params passwords dyn ch w f"
  have w: "w < W" and e: "unat e \<le> ?n" and n: "?n < 2 ^ 32" and fill: "fillable params passwords blocks"
    using fill_invD [OF inv] F by simp_all
  obtain bs where bs: "fl_cuda f = with_input c r bs" "length bs = ?n * 2048"
    "\<And>i. i < ?n \<Longrightarrow> slot_of bs i = blocks i \<or> pending W f i \<or> (dyn \<and> unat (fl_next f) \<le> i)"
    and bound: "unat (fl_next f) \<le> ?n + unat ch * (1 + card (finished W f))"
    and past: "dyn \<Longrightarrow> finished W f \<noteq> {} \<Longrightarrow> ?n \<le> unat (fl_next f)"
    using inv unfolding fill_inv_def Let_def by blast
  have "fill_inv params passwords blocks dyn ch W c r g"
  proof (cases "a < e")
    case True
    then have a: "unat a < ?n" using e by (simp add: word_less_nat_alt)
    define bs' where "bs' = memcpy_at bs (unat a * 2048) (blocks (unat a))"
    have "fillPasswordBlock params a (passwords ! unat a) (with_input c r bs) = (Inr (), with_input c r bs')"
      using fill_one [OF fill a bs(2) n] by (simp add: bs'_def)
    then have g: "g = f \<lparr> fl_cuda := with_input c r bs', fl_workers := (fl_workers f)(w := Filling (a + 1) e) \<rparr>"
      using F True bs(1) by (simp add: g_def fill_turn_def Let_def)
    have a1: "unat (a + 1) = unat a + 1" using True by (rule unat_succ)
    have fin: "finished W g = finished W f" using F by (auto simp: g finished_def)
    have blk: "length (blocks (unat a)) = 2048" using fill a by (simp add: fillable_def)
    have old: "pending W g i" if "pending W f i" "i \<noteq> unat a" for i
      by (rule pending_update [OF _ that(1)]) (use that(2) a1 in \<open>simp_all add: F g\<close>)
    have "slot_of bs' i = blocks i \<or> pending W g i \<or> (dyn \<and> unat (fl_next g) \<le> i)" if "i < ?n" for i
      using bs(3) [OF that] old slot_memcpy [OF blk bs(2) a that] by (cases "i = unat a") (auto simp: bs'_def g)
    moreover have "length bs' = ?n * 2048" using a blk bs(2) unfolding bs'_def by (subst memcpy_length) simp_all
    ultimately show ?thesis using bound past e
      by (intro fill_inv_step [OF inv _ w, of g "Filling (a + 1) e" bs']) (simp_all add: fin, simp_all add: g)
  next
    case False
    then have g: "g = f \<lparr> fl_workers := (fl_workers f)(w := if dyn then Fetching else Finished) \<rparr>"
      using F by (simp add: g_def fill_turn_def Let_def)
    have sub: "finished W f \<subseteq> finished W g" using F by (auto simp: g finished_def)
    then have "card (finished W f) \<le> card (finished W g)" by (intro card_mono) simp_all
    then have "unat ch * (1 + card (finished W f)) \<le> unat ch * (1 + card (finished W g))" by (intro mult_le_mono2) simp
    with bound have "unat (fl_next f) \<le> ?n + unat ch * (1 + card (finished W g))" by linarith
    moreover have same: "fl_next g = fl_next f" "fl_cuda g = fl_cuda f" by (simp_all add: g)
    ultimately have "unat (fl_next g) \<le> ?n + unat ch * (1 + card (finished W g))" by simp
    moreover have "dyn \<Longrightarrow> finished W g = finished W f" using F by (auto simp: g finished_def)
    moreover have "pending W g i" if "pending W f i" for i
      by (rule pending_update [OF _ that]) (use False in \<open>simp_all add: F g word_less_nat_alt\<close>)
    ultimately show ?thesis using bs past same
      by (intro fill_inv_step [OF inv _ w, of g "if dyn then Fetching else Finished" bs]) (auto simp: g split: if_splits)
  qed
  then show ?thesis by (simp add: g_def)
qed

lemma turn_inv:
  assumes "fill_inv params passwords blocks dyn ch W c r f"
  shows "fill_inv params passwords blocks dyn ch W c r (fill_turn params passwords dyn ch w f)"
proof (cases "fl_workers f w")
  case Finished
  then show ?thesis using assms by (simp add: fill_turn_def)
next
  case Fetching
  then show ?thesis by (rule fetch_inv [OF assms])
next
  case (Filling a e)
  then show ?thesis by (rule fill_range_inv [OF assms])
qed

interpretation fill: machine "fill_turn params passwords dyn ch" "fill_inv params passwords blocks dyn ch W c r" "\<lambda>_. True"
  for params passwords dyn ch blocks W c r
  by unfold_locales (rule turn_inv)

text \<open>How many turns a worker still needs at most.\<close>

definition fill_left :: "nat \<Rightarrow> bool \<Rightarrow> fill_state \<Rightarrow> nat \<Rightarrow> nat" where
  "fill_left n dyn f w =
     (let rest = (if dyn then 3 * (n - unat (fl_next f)) else 0) in
      case fl_workers f w of Finished \<Rightarrow> 0 | Fetching \<Rightarrow> 1 + rest | Filling a e \<Rightarrow> 2 + rest + (unat e - unat a))"

lemma fill_left_turn:
  assumes inv: "fill_inv params passwords blocks dyn ch W c r f"
  shows "fill_left (length passwords) dyn (fill_turn params passwords dyn ch v f) w \<le>
    fill_left (length passwords) dyn f w - (if v = w then 1 else 0)"
proof -
  let ?n = "length passwords"
  define g where "g = fill_turn params passwords dyn ch v f"
  have un: "unat (word_of_nat ?n :: u64) = ?n" using fill_invD(2) [OF inv] by (rule unat_length)
  have "fill_left ?n dyn g w \<le> fill_left ?n dyn f w - (if v = w then 1 else 0)"
  proof (cases "fl_workers f v")
    case Finished
    then show ?thesis by (cases "v = w") (simp_all add: g_def fill_turn_def fill_left_def Let_def)
  next
    case Fetching
    then have v: "v < W" and dyn: "dyn" using fill_invD [OF inv] by simp_all
    have nx: "unat (fl_next f + ch) = unat (fl_next f) + unat ch" by (rule next_no_wrap [OF inv v]) (simp add: Fetching)
    have ch: "0 < unat ch" using fill_invD(3) [OF inv] .
    have less: "word_of_nat ?n \<le> fl_next f \<longleftrightarrow> ?n \<le> unat (fl_next f)" using un by (simp add: word_le_nat_alt)
    have mn: "unat (min (word_of_nat ?n) (fl_next f + ch)) = min ?n (unat (fl_next f) + unat ch)"
      using un nx by (auto simp: min_def word_le_nat_alt)
    show ?thesis
    proof (cases "v = w")
      case True
      show ?thesis using Fetching True dyn ch
        by (auto simp: g_def fill_turn_def Let_def fill_left_def less nx mn)
    next
      case False
      have "?n - (unat (fl_next f) + unat ch) \<le> ?n - unat (fl_next f)" by simp
      then show ?thesis using Fetching False dyn
        by (cases "fl_workers f w") (auto simp: g_def fill_turn_def Let_def fill_left_def nx)
    qed
  next
    case (Filling a e)
    have nx: "fl_next g = fl_next f" using Filling by (auto simp: g_def fill_turn_def Let_def split: prod.splits sum.splits)
    have ws: "fl_workers g u = fl_workers f u" if "u \<noteq> v" for u
      using Filling that by (auto simp: g_def fill_turn_def Let_def split: prod.splits sum.splits)
    show ?thesis
    proof (cases "v = w")
      case True
      have "fl_workers g w = Filling (a + 1) e \<or> fl_workers g w = Finished" if "a < e"
        using Filling that True by (auto simp: g_def fill_turn_def Let_def split: prod.splits sum.splits)
      moreover have "fl_workers g w = (if dyn then Fetching else Finished)" if "\<not> a < e"
        using Filling that True by (simp add: g_def fill_turn_def Let_def)
      ultimately show ?thesis using Filling True
        by (cases "a < e") (auto simp: fill_left_def nx unat_succ word_less_nat_alt)
    qed (simp add: fill_left_def nx ws)
  qed
  then show ?thesis by (simp add: g_def)
qed

lemma fill_left_run:
  "fill_inv params passwords blocks dyn ch W c r f \<Longrightarrow>
   fill_left (length passwords) dyn (fold (fill_turn params passwords dyn ch) js f) w \<le>
     fill_left (length passwords) dyn f w - count_list js w"
proof (induction js arbitrary: f)
  case (Cons v js)
  show ?case using Cons.IH [OF turn_inv [OF Cons.prems, of v]] fill_left_turn [OF Cons.prems, of v w]
    by (cases "v = w") simp_all
qed simp

text \<open>When no worker has work left every slot is filled.\<close>

lemma all_filled:
  assumes "fill_inv params passwords blocks dyn ch W c r f" and "0 < W" and "\<And>w. fill_left (length passwords) dyn f w = 0"
  shows "\<exists>bs. fl_cuda f = with_input c r bs \<and> length bs = length passwords * 2048 \<and>
    (\<forall>i<length passwords. slot_of bs i = blocks i)"
proof -
  have fin: "fl_workers f w = Finished" for w
    using assms(3) [of w] by (cases "fl_workers f w") (auto simp: fill_left_def Let_def)
  then have "finished W f \<noteq> {}" "\<And>i. \<not> pending W f i" using assms(2) by (auto simp: finished_def pending_def)
  then show ?thesis using assms(1) unfolding fill_inv_def Let_def by (metis all_not_in_conv leD order_less_le_trans)
qed

lemma count_rounds: "w < W \<Longrightarrow> k \<le> count_list (concat (replicate k [0..<W])) w"
proof (induction k)
  case (Suc k)
  have "count_list [0..<W] w \<noteq> 0" using Suc.prems by (simp add: count_list_0_iff)
  with Suc show ?case by simp
qed simp

lemma takeWhile_upt: "w < W \<Longrightarrow> (\<And>v. v \<le> w \<Longrightarrow> P v) \<Longrightarrow> w \<in> set (takeWhile P [0..<W])"
proof -
  assume w: "w < W" "\<And>v. v \<le> w \<Longrightarrow> P v"
  have "[0..<W] = [0..<Suc w] @ [Suc w..<W]" using w(1) upt_add_eq_append [of 0 "Suc w" "W - Suc w"] by simp
  then have "takeWhile P [0..<W] = [0..<Suc w] @ takeWhile P [Suc w..<W]"
    by (simp only:) (rule takeWhile_append2, use w(2) in \<open>auto simp: less_Suc_eq_le\<close>)
  then show ?thesis by simp
qed

text \<open>The division of the work leaves no key out.\<close>

definition chunks_ok :: "nat \<Rightarrow> nat \<Rightarrow> bool \<Rightarrow> u64 \<Rightarrow> bool" where
  "chunks_ok n W dyn ch = (1 < W \<and> W \<le> n \<and> 0 < unat ch \<and> unat ch \<le> n \<and> (dyn \<or> n \<le> unat ch * W))"

lemma worker_count_bounds:
  assumes "n < 2 ^ 32"
  shows "1 \<le> unat (firstBlockWorkerCount hw (word_of_nat n) cap)"
    and "firstBlockWorkerCount hw (word_of_nat n) cap \<le> 1 \<or> unat (firstBlockWorkerCount hw (word_of_nat n) cap) \<le> n"
proof -
  have un: "unat (word_of_nat n :: u64) = n" using assms by (rule unat_length)
  have max: "unat (max 1 x :: u64) = max 1 (unat x)" and min: "unat (min x y :: u64) = min (unat x) (unat y)" for x y
    by (simp_all add: max_def min_def word_le_nat_alt)
  show "1 \<le> unat (firstBlockWorkerCount hw (word_of_nat n) cap)"
    by (simp add: firstBlockWorkerCount_def Let_def max)
  show "firstBlockWorkerCount hw (word_of_nat n) cap \<le> 1 \<or> unat (firstBlockWorkerCount hw (word_of_nat n) cap) \<le> n"
    using un by (simp add: firstBlockWorkerCount_def Let_def max min kMinParallelFirstBlockAttempts_def word_less_nat_alt)
       (meson min.cobounded1 order_trans)
qed

lemma chunk_size_ok:
  assumes "n + 16 < 2 ^ 32" and "wc = firstBlockWorkerCount hw (word_of_nat n) cap" and "\<not> wc \<le> 1"
  shows "chunks_ok n (unat wc) (0 < d) (firstBlockSelectedChunkSize (word_of_nat n) wc d)"
proof -
  have n: "n < 2 ^ 32" using assms(1) by simp
  have un: "unat (word_of_nat n :: u64) = n" using n by (rule unat_length)
  have W: "1 < unat wc" "unat wc \<le> n" using worker_count_bounds [OF n, of hw cap] assms(2,3) by (auto simp: word_le_nat_alt)
  then have nz: "(word_of_nat n :: u64) \<noteq> 0" "wc \<noteq> 0" using un by auto
  show ?thesis
  proof (cases "0 < d")
    case True
    moreover have "1 < wc" using assms(3) by (simp only: not_le)
    ultimately have "unat (firstBlockSelectedChunkSize (word_of_nat n) wc d) = min n (unat d)"
      using nz un by (simp add: firstBlockSelectedChunkSize_def min_def word_le_nat_alt)
    then show ?thesis using W True by (auto simp: chunks_ok_def word_less_nat_alt)
  next
    case False
    have "unat (word_of_nat n + wc :: u64) = n + unat wc" unfolding unat_word_ariths un using W n by simp
    moreover have "1 \<le> (word_of_nat n + wc :: u64)" using calculation W by (simp add: word_le_nat_alt)
    ultimately have "unat (word_of_nat n + wc - 1 :: u64) = n + unat wc - 1" by (simp add: unat_sub word_le_nat_alt)
    then have ch: "unat (firstBlockSelectedChunkSize (word_of_nat n) wc d) = (n + unat wc - 1) div unat wc"
      using nz False by (simp add: firstBlockSelectedChunkSize_def firstBlockChunkSize_def unat_div)
    have c: "n \<le> (n + unat wc - 1) div unat wc * unat wc" by (rule ceil_div(1)) (use W in simp)
    have "(n + unat wc - 1) div unat wc \<le> n"
    proof -
      have "n * 1 \<le> n * unat wc" using W by (intro mult_le_mono2) simp
      then have "n + unat wc - 1 < Suc n * unat wc" using W unfolding mult_Suc by linarith
      then show ?thesis by (simp add: less_mult_imp_div_less less_Suc_eq_le [symmetric])
    qed
    moreover have "0 < (n + unat wc - 1) div unat wc" using c W by (cases "(n + unat wc - 1) div unat wc") simp_all
    ultimately show ?thesis using W c by (simp add: chunks_ok_def ch)
  qed
qed

lemma start_inv:
  assumes fill: "fillable params passwords blocks" and n: "length passwords + 16 < 2 ^ 32"
    and ok: "chunks_ok (length passwords) (unat wc) dyn ch" and bs: "length bs = length passwords * 2048"
  shows "fill_inv params passwords blocks dyn ch (unat wc) c r
    (fill_start dyn (word_of_nat (length passwords)) wc ch (with_input c r bs))"
proof -
  let ?n = "length passwords" and ?W = "unat wc" and ?c = "unat ch"
  define f where "f = fill_start dyn (word_of_nat ?n) wc ch (with_input c r bs)"
  have un: "unat (word_of_nat ?n :: u64) = ?n" using n by (intro unat_length) simp
  have W: "1 < ?W" "?W \<le> ?n" "0 < ?c" "?c \<le> ?n" using ok by (simp_all add: chunks_ok_def)
  have "?c * (?W + 1) \<le> ?n * (?n + 1)" using W by (intro mult_le_mono) simp_all
  also have "?n + ?n * (?n + 1) = ?n * (?n + 2)" by (simp add: algebra_simps)
  moreover have "?n * (?n + 2) < 2 ^ 32 * 2 ^ 32" using n by (intro mult_strict_mono) simp_all
  ultimately have wrap: "?n + ?c * (?W + 1) < 2 ^ 64" by simp
  have range: "static_range (word_of_nat ?n) ch w = (b, e) \<Longrightarrow> unat e \<le> ?n" for w b e
    using un by (auto simp: static_range_def Let_def min_def word_le_nat_alt)
  have all: "launched_workers dyn (word_of_nat ?n) wc ch = [0..<?W]" if dyn
    using that by (simp add: launched_workers_def)
  have covered: "pending ?W f i" if "\<not> dyn" "i < ?n" for i
  proof -
    define w where "w = i div ?c"
    have "i < ?c * ?W" using ok that by (simp add: chunks_ok_def)
    then have w: "w < ?W" unfolding w_def by (simp add: less_mult_imp_div_less mult.commute)
    have "w * ?c + i mod ?c = i" "i mod ?c < ?c" using W(3) by (simp_all add: w_def)
    then have i: "w * ?c \<le> i" "i < w * ?c + ?c" by linarith+
    have rng: "static_range (word_of_nat ?n) ch v = (word_of_nat (v * ?c), word_of_nat (min ?n (v * ?c + ?c)))"
      "unat (word_of_nat (v * ?c) :: u64) = v * ?c" "unat (word_of_nat (min ?n (v * ?c + ?c)) :: u64) = min ?n (v * ?c + ?c)"
      if "v \<le> w" for v
    proof -
      have "v * ?c \<le> w * ?c" using that by (rule mult_right_mono) simp
      then have v: "v * ?c < ?n" using i(1) \<open>i < ?n\<close> by linarith
      then have le: "v * ?c < ?n" "v * ?c + ?c < 2 ^ 64" using W(4) n by simp_all
      show u: "unat (word_of_nat (v * ?c) :: u64) = v * ?c" "unat (word_of_nat (min ?n (v * ?c + ?c)) :: u64) = min ?n (v * ?c + ?c)"
        unfolding unat_of_nat using le n by simp_all
      have "(word_of_nat v * ch :: u64) = word_of_nat (v * ?c)" by simp
      moreover have "unat (word_of_nat (v * ?c) + ch :: u64) = v * ?c + ?c" unfolding unat_word_ariths u using le(2) by simp
      moreover from this have "min (word_of_nat ?n) (word_of_nat (v * ?c) + ch) = (word_of_nat (min ?n (v * ?c + ?c)) :: u64)"
        unfolding word_unat_eq_iff u(2) using un by (simp add: min_def word_le_nat_alt)
      ultimately show "static_range (word_of_nat ?n) ch v = (word_of_nat (v * ?c), word_of_nat (min ?n (v * ?c + ?c)))"
        by (simp add: static_range_def Let_def)
    qed
    have "v * ?c < ?n" if "v \<le> w" for v
      using mult_right_mono [OF that, of ?c] i(1) \<open>i < ?n\<close> by linarith
    then have "w \<in> set (launched_workers dyn (word_of_nat ?n) wc ch)"
      unfolding launched_workers_def using rng W(3) by (intro takeWhile_upt [OF w]) (simp add: word_less_nat_alt)
    then have "fl_workers f w = Filling (word_of_nat (w * ?c)) (word_of_nat (min ?n (w * ?c + ?c)))"
      using rng(1) [of w] \<open>\<not> dyn\<close> by (simp add: f_def fill_start_def)
    then show ?thesis using w i rng(2,3) [of w] \<open>i < ?n\<close> unfolding pending_def by auto
  qed
  have outside: "fl_workers f w = Finished" if "?W \<le> w" for w
    using that by (auto simp: f_def fill_start_def launched_workers_def dest: set_takeWhileD)
  have proj: "fl_cuda f = with_input c r bs" "fl_next f = 0" by (simp_all add: f_def fill_start_def)
  have "finished ?W f = {}" if dyn using that all by (auto simp: finished_def f_def fill_start_def)
  moreover have "fl_workers f w = Filling a e \<Longrightarrow> unat e \<le> ?n" for w a e
    using range by (auto simp: f_def fill_start_def split: if_splits prod.splits)
  moreover have "\<not> dyn \<Longrightarrow> fl_workers f w \<noteq> Fetching" for w by (auto simp: f_def fill_start_def split: prod.splits)
  ultimately have "fill_inv params passwords blocks dyn ch ?W c r f"
    unfolding fill_inv_def Let_def using fill n W(3) wrap bs covered outside proj
    by (intro conjI exI [of _ bs]) auto
  then show ?thesis by (simp add: f_def)
qed

lemma fill_in_order:
  assumes "fillable params passwords blocks" and "length passwords < 2 ^ 32" and "length bs = length passwords * 2048"
    and "k \<le> length passwords"
  shows "\<exists>bs'. for_each (\<lambda>i. fillPasswordBlock params (word_of_nat i) (passwords ! i)) [k..<length passwords] (with_input c r bs) =
      (Inr (), with_input c r bs') \<and> length bs' = length passwords * 2048 \<and>
      (\<forall>i<length passwords. slot_of bs' i = (if k \<le> i then blocks i else slot_of bs i))"
  using assms(3,4)
proof (induction "length passwords - k" arbitrary: k bs)
  case 0
  then show ?case by (intro exI [of _ bs]) (simp add: ret_def)
next
  case (Suc m)
  let ?bs = "memcpy_at bs (k * 2048) (blocks k)"
  have k: "k < length passwords" using Suc by simp
  then have blk: "length (blocks k) = 2048" using assms(1) by (simp add: fillable_def)
  have "length ?bs = length passwords * 2048" using blk k Suc.prems by (subst memcpy_length) simp_all
  moreover have "m = length passwords - Suc k" using Suc.hyps(2) by simp
  ultimately obtain bs' where
    "for_each (\<lambda>i. fillPasswordBlock params (word_of_nat i) (passwords ! i)) [Suc k..<length passwords] (with_input c r ?bs) =
      (Inr (), with_input c r bs')" "length bs' = length passwords * 2048"
    "\<forall>i<length passwords. slot_of bs' i = (if Suc k \<le> i then blocks i else slot_of ?bs i)" using Suc.hyps(1) [of "Suc k" ?bs] k by auto
  moreover have "[k..<length passwords] = k # [Suc k..<length passwords]" using k by (rule upt_conv_Cons)
  ultimately show ?case
    using fill_one [OF assms(1) k Suc.prems(1) assms(2), of c r] slot_memcpy [OF blk Suc.prems(1) k]
    by (intro exI [of _ bs']) (auto simp: seq_step_def bind_step_def not_less_eq_eq dest: le_antisym)
qed

lemma fill_all:
  assumes fill: "fillable params passwords blocks" and n: "length passwords + 16 < 2 ^ 32"
    and bs: "length bs = length passwords * 2048"
  shows "\<exists>bs'. fillPasswordBlocks hw schedule params passwords cap d (with_input c r bs) = (Inr (), with_input c r bs') \<and>
    length bs' = length passwords * 2048 \<and> (\<forall>i<length passwords. slot_of bs' i = blocks i)"
proof -
  let ?n = "length passwords"
  define wc where "wc = firstBlockWorkerCount hw (word_of_nat ?n) cap"
  show ?thesis
  proof (cases "wc \<le> 1")
    case True
    then show ?thesis using fill_in_order [OF fill _ bs, of 0 c r] n
      by (simp add: fillPasswordBlocks_def Let_def wc_def [symmetric])
  next
    case False
    define ch where "ch = firstBlockSelectedChunkSize (word_of_nat ?n) wc d"
    have ok: "chunks_ok ?n (unat wc) (0 < d) ch" unfolding ch_def by (rule chunk_size_ok [OF n wc_def False])
    define f where "f = fill_start (0 < d) (word_of_nat ?n) wc ch (with_input c r bs)"
    define js where "js = schedule @ concat (replicate (4 * ?n + 3) [0..<unat wc])"
    define g where "g = fold (fill_turn params passwords (0 < d) ch) js f"
    have inv: "fill_inv params passwords blocks (0 < d) ch (unat wc) c r f" unfolding f_def by (rule start_inv [OF fill n ok bs])
    have g: "fill_inv params passwords blocks (0 < d) ch (unat wc) c r g" unfolding g_def by (rule fill.run_inv [OF inv]) simp
    have "fill_left ?n (0 < d) g w = 0" for w
    proof (cases "w < unat wc")
      case True
      have "fill_left ?n (0 < d) f w \<le> 4 * ?n + 2"
        using fill_invD(4) [OF inv, of w] by (auto simp: fill_left_def Let_def split: first_block_worker.splits)
      moreover have "4 * ?n + 3 \<le> count_list js w" using count_rounds [OF True, of "4 * ?n + 3"] by (simp add: js_def)
      ultimately show ?thesis using fill_left_run [OF inv, of js w] by (simp add: g_def)
    next
      case False
      then have "fl_workers g w = Finished" using fill_invD(5) [OF g, of w] by blast
      then show ?thesis by (simp add: fill_left_def Let_def)
    qed
    then obtain bs' where "fl_cuda g = with_input c r bs'" "length bs' = ?n * 2048" "\<forall>i<?n. slot_of bs' i = blocks i"
      using all_filled [OF g] ok by (auto simp: chunks_ok_def)
    moreover have "fillPasswordBlocks hw schedule params passwords cap d (with_input c r bs) = (Inr (), fl_cuda g)"
      using False by (simp add: fillPasswordBlocks_def Let_def wc_def [symmetric] ch_def [symmetric] f_def [symmetric]
          js_def [symmetric] g_def [symmetric] del: fold_append replicate.simps upt_Suc)
    ultimately show ?thesis by auto
  qed
qed

end
