(* ===== verification/Cuda_Batch.thy ===== *)
theory Cuda_Batch
  imports First_Block_Workers
begin

text \<open>
  The GPU hash backend: \<open>CudaHashBackend::runBatch\<close> of \<open>hashapi/CudaHashBackend.cpp\<close>, from the request to
  the matches, over the runner and the kernels. Timings are left out; the hash rate is an argument,
  as are the outputs of the random generator, the number of hardware threads and the interleaving of
  the first-block workers.
\<close>

section \<open>The backend\<close>

definition kFinalizeTimingChunkSize :: nat where "kFinalizeTimingChunkSize = 64"

definition recommendedFirstBlockDynamicChunkSize :: "HashApiRequest \<Rightarrow> u64 \<Rightarrow> u64 \<Rightarrow> u64" where
  "recommendedFirstBlockDynamicChunkSize request attempts worker_count =
     (if \<not> rq_first_block_dynamic_chunk_auto request \<or> rq_backend request \<noteq> ''cuda'' \<or> rq_key request \<noteq> [] \<or>
         attempts < 1024 \<or> worker_count \<le> 1 then 0
      else if rq_difficulty request = 1 then 16
      else if rq_difficulty request = 8 then (if 2048 \<le> attempts then 16 else 32)
      else if rq_difficulty request = 64 then (if attempts \<le> 2048 then 16 else 0)
      else 0)"

definition decodeHexNibble :: "char \<Rightarrow> string + byte" where
  "decodeHexNibble c = (case hex_nibble c of None \<Rightarrow> Inl ''salt contains non-hex character'' | Some n \<Rightarrow> Inr (word_of_nat n))"

text \<open>The second nibble of an odd last character is the terminating NUL, which is no digit.\<close>

fun decodeHexBytes :: "string \<Rightarrow> string + byte list" where
  "decodeHexBytes [] = Inr []"
| "decodeHexBytes [c] =
     (case decodeHexNibble c of Inl e \<Rightarrow> Inl e | Inr _ \<Rightarrow>
      (case decodeHexNibble (CHR 0x00) of Inl e \<Rightarrow> Inl e | Inr _ \<Rightarrow> Inr []))"
| "decodeHexBytes (c # d # rest) =
     (case decodeHexNibble c of Inl e \<Rightarrow> Inl e | Inr high \<Rightarrow>
      (case decodeHexNibble d of Inl e \<Rightarrow> Inl e | Inr low \<Rightarrow>
       (case decodeHexBytes rest of Inl e \<Rightarrow> Inl e | Inr bytes \<Rightarrow> Inr ((push_bit 4 high OR low) # bytes))))"

record CudaHashBackend =
  ch_cuda :: cuda
  ch_password_storage :: "string list"
  ch_initialized :: bool
  ch_initialized_batch_size :: u64
  ch_initialized_segment_blocks :: u32

definition new_backend :: "cuda \<Rightarrow> CudaHashBackend" where
  "new_backend c = \<lparr> ch_cuda = c, ch_password_storage = [], ch_initialized = False, ch_initialized_batch_size = 0,
     ch_initialized_segment_blocks = 0 \<rparr>"

record batch_env =
  be_gpu :: gpu_env
  be_hardware_threads :: u32
  be_schedule :: "nat list"
  be_outputs :: "nat \<Rightarrow> u64"
  be_rate :: "u64 \<Rightarrow> double"

definition on_cuda :: "(cuda, 'a) step \<Rightarrow> (CudaHashBackend, 'a) step" where
  "on_cuda m = (\<lambda>h. case m (ch_cuda h) of (x, c) \<Rightarrow> (x, h \<lparr> ch_cuda := c \<rparr>))"

definition ensureInitialized :: "batch_env \<Rightarrow> Argon2Params \<Rightarrow> u64 \<Rightarrow> (CudaHashBackend, unit) step" where
  "ensureInitialized env params batch_size =
     bind_step (gets (\<lambda>h. h)) (\<lambda>h.
     let segment_blocks = ap_segmentBlocks params in
     if ch_initialized h \<and> ch_initialized_batch_size h = batch_size \<and> ch_initialized_segment_blocks h = segment_blocks
     then ret ()
     else
       seq_step (on_cuda (cuda_init (be_gpu env) batch_size ARGON2_ID ARGON2_VERSION_13 1 1 segment_blocks))
       (modify (\<lambda>h. h \<lparr> ch_initialized := True, ch_initialized_batch_size := batch_size,
          ch_initialized_segment_blocks := segment_blocks \<rparr>)))"

primrec next_keys :: "nat \<Rightarrow> RandomHexKeyGenerator \<Rightarrow> string list" where
  "next_keys 0 g = []"
| "next_keys (Suc n) g = (let (key, g') = nextRandomKey g in key # next_keys n g')"

definition push_password :: "string \<Rightarrow> CudaHashBackend \<Rightarrow> CudaHashBackend" where
  "push_password key h = h \<lparr> ch_password_storage := ch_password_storage h @ [key] \<rparr>"

text \<open>The loop that generates a key and fills its slot at once; it has \<open>n\<close> rounds left.\<close>

primrec keys_and_blocks :: "Argon2Params \<Rightarrow> nat \<Rightarrow> nat \<Rightarrow> RandomHexKeyGenerator \<Rightarrow> (CudaHashBackend, unit) step" where
  "keys_and_blocks params i 0 g = ret ()"
| "keys_and_blocks params i (Suc n) g =
     (let (key, g') = nextRandomKey g in
      seq_step (on_cuda (fillPasswordBlock params (word_of_nat i) key))
      (seq_step (modify (push_password key))
      (keys_and_blocks params (i + 1) n g')))"

definition input_on_device ::
  "batch_env \<Rightarrow> Argon2Params \<Rightarrow> string \<Rightarrow> string list \<Rightarrow> (CudaHashBackend, unit) step" where
  "input_on_device env params salt keys =
     seq_step (modify (\<lambda>h. h \<lparr> ch_password_storage := ch_password_storage h @ keys \<rparr>))
     (case decodeHexBytes salt of
        Inl e \<Rightarrow> throw e
      | Inr salt_bytes \<Rightarrow>
          bind_step (gets ch_password_storage) (\<lambda>passwords.
          bind_step (on_cuda (prepareInputBlocksOnDevice (be_gpu env) passwords salt_bytes (ap_outLen params) (ap_m_cost params)
            (ap_t_cost params) (ap_version params) (ap_type params) (ap_lanes params))) (\<lambda>supported.
          if supported then ret () else throw ''cuda backend does not support gpu_first_blocks'')))"

definition batch_input ::
  "batch_env \<Rightarrow> HashApiRequest \<Rightarrow> HashApiResult \<Rightarrow> Argon2Params \<Rightarrow> string \<Rightarrow> string \<Rightarrow> string \<Rightarrow> u64 \<Rightarrow> (CudaHashBackend, unit) step" where
  "batch_input env request result params salt pre fixed_key attempts =
     (let single_key = (fixed_key \<noteq> []);
          key_generator = new_generator pre kHashApiKeyLength (be_outputs env) in
      seq_step (modify (\<lambda>h. h \<lparr> ch_password_storage := [] \<rparr>))
      (if rq_gpu_first_blocks request
       then input_on_device env params salt (if single_key then [fixed_key] else next_keys (unat attempts) key_generator)
       else if rs_first_block_worker_count result \<le> 1
       then (if single_key
             then seq_step (modify (push_password fixed_key)) (on_cuda (fillPasswordBlock params 0 fixed_key))
             else keys_and_blocks params 0 (unat attempts) key_generator)
       else
         seq_step (modify (\<lambda>h. h \<lparr> ch_password_storage := ch_password_storage h @ next_keys (unat attempts) key_generator \<rparr>))
         (bind_step (gets ch_password_storage) (\<lambda>passwords.
          on_cuda (fillPasswordBlocks (be_hardware_threads env) (be_schedule env) params passwords
            (rq_first_block_workers request) (rs_first_block_dynamic_chunk_size result))))))"

definition batch_compute :: "batch_env \<Rightarrow> HashApiRequest \<Rightarrow> HashApiResult \<Rightarrow> (cuda, unit) step" where
  "batch_compute env request result =
     seq_step (setWarpsPerBlock (ucast (rs_warps_per_block result)))
     (seq_step (setPrecomputedRefs (rq_precomputed_refs request))
     (seq_step (cuda_run (be_gpu env))
     (seq_step kr_finish
     (seq_step getLastHostToDeviceMs
     (seq_step getLastGpuFirstBlockMs
     getLastDeviceToHostMs)))))"

text \<open>The finalize loop, chunk by chunk.\<close>

definition finalize_hash :: "Argon2Params \<Rightarrow> nat \<Rightarrow> (cuda, string) step" where
  "finalize_hash params i =
     bind_step self (\<lambda>r.
     let offset = unat (getOutputMemory (word_of_nat i)) in
     if offset + ARGON2_BLOCK_SIZE \<le> length (kr_blocksOut r)
     then ret (base64EncodeInto (argon2_finalize params (drop offset (kr_blocksOut r))))
     else crash)"

primrec finalize_hashes :: "Argon2Params \<Rightarrow> nat list \<Rightarrow> (cuda, string list) step" where
  "finalize_hashes params [] = ret []"
| "finalize_hashes params (i # is) =
     bind_step (finalize_hash params i) (\<lambda>hash.
     bind_step (finalize_hashes params is) (\<lambda>hashes.
     ret (hash # hashes)))"

definition match_one :: "HashApiRequest \<Rightarrow> bool \<Rightarrow> string list \<Rightarrow> nat \<times> string \<Rightarrow> HashApiResult \<Rightarrow> HashApiResult" where
  "match_one request single_key passwords = (\<lambda>(i, hash) result.
     let result = (if single_key then result \<lparr> rs_hash := hash \<rparr> else result)
     in appendMatches request result (passwords ! i) hash (word_of_nat i))"

function batch_finalize ::
  "HashApiRequest \<Rightarrow> Argon2Params \<Rightarrow> bool \<Rightarrow> string list \<Rightarrow> nat \<Rightarrow> nat \<Rightarrow> HashApiResult \<Rightarrow> (cuda, HashApiResult) step" where
  "batch_finalize request params single_key passwords attempts first result =
     (if first < attempts
      then let last = min attempts (first + kFinalizeTimingChunkSize) in
           bind_step (finalize_hashes params [first..<last]) (\<lambda>hashes.
           batch_finalize request params single_key passwords attempts (first + kFinalizeTimingChunkSize)
             (fold (match_one request single_key passwords) (zip [first..<last] hashes) result))
      else ret result)"
  by pat_completeness auto
termination by (relation "measure (\<lambda>(_, _, _, _, attempts, first, _). attempts - first)") (auto simp: kFinalizeTimingChunkSize_def)

declare batch_finalize.simps [simp del]

definition batch_params :: "string \<Rightarrow> u32 \<Rightarrow> Argon2Params" where
  "batch_params salt difficulty =
     make_params ARGON2_ID ARGON2_VERSION_13 (word_of_nat kDefaultHashLength) salt [] [] 1 (ucast difficulty) 1"

definition batch_body :: "batch_env \<Rightarrow> HashApiRequest \<Rightarrow> HashApiResult \<Rightarrow> string \<Rightarrow> string \<Rightarrow> string \<Rightarrow> u64 \<Rightarrow>
   (CudaHashBackend, HashApiResult) step" where
  "batch_body env request result salt pre fixed_key attempts =
     (let params = batch_params salt (rq_difficulty request) in
      seq_step (ensureInitialized env params attempts)
      (seq_step (batch_input env request result params salt pre fixed_key attempts)
      (seq_step (on_cuda (batch_compute env request result))
      (bind_step (gets ch_password_storage) (\<lambda>passwords.
      bind_step (on_cuda (batch_finalize request params (fixed_key \<noteq> []) passwords (unat attempts) 0 result)) (\<lambda>result.
      ret (result \<lparr> rs_ok := True, rs_attempts := attempts, rs_batch_size := attempts, rs_batch_size_min := attempts,
                    rs_batch_size_max := attempts \<rparr>)))))))"

text \<open>The part of the result that is written before the device is touched.\<close>

definition batch_plan :: "batch_env \<Rightarrow> HashApiRequest \<Rightarrow> u64 \<Rightarrow> HashApiResult \<Rightarrow> HashApiResult" where
  "batch_plan env request attempts result =
     (let worker_count = firstBlockWorkerCount (be_hardware_threads env) attempts (rq_first_block_workers request);
          requested = (if 0 < rq_first_block_dynamic_chunk_size request then rq_first_block_dynamic_chunk_size request
                       else recommendedFirstBlockDynamicChunkSize request attempts worker_count);
          dynamic = (if 1 < worker_count \<and> 0 < requested then min attempts requested else 0);
          chunk = firstBlockSelectedChunkSize attempts worker_count dynamic
      in result \<lparr> rs_first_block_worker_count := worker_count, rs_first_block_dynamic_chunk_size := dynamic,
           rs_first_block_dynamic_chunk_auto :=
             (rq_first_block_dynamic_chunk_auto request \<and> rq_first_block_dynamic_chunk_size request = 0),
           rs_first_block_chunk_size := chunk, rs_first_block_dynamic_chunk_size_min := dynamic,
           rs_first_block_dynamic_chunk_size_max := dynamic, rs_first_block_chunk_size_min := chunk,
           rs_first_block_chunk_size_max := chunk \<rparr>)"

definition start_result :: "HashApiRequest \<Rightarrow> HashApiResult" where
  "start_result request = default_result
     \<lparr> rs_request_id := rq_request_id request, rs_algorithm := rq_algorithm request, rs_backend := ''cuda'',
       rs_device_id := rq_device_id request, rs_batch_size := rq_batch_size request,
       rs_gpu_first_blocks := rq_gpu_first_blocks request,
       rs_warps_per_block := ucast (resolveWarpsPerBlock (rq_warps_per_block request)),
       rs_precomputed_refs := rq_precomputed_refs request \<rparr>"

definition CudaHashBackend_runBatch ::
  "batch_env \<Rightarrow> HashApiRequest \<Rightarrow> CudaHashBackend \<Rightarrow> HashApiResult \<times> CudaHashBackend" where
  "CudaHashBackend_runBatch env request h =
     (let result = start_result request; errors = validateRequest request in
      if errors \<noteq> [] then (result \<lparr> rs_error := joinErrors errors \<rparr>, h)
      else if rq_backend request \<noteq> ''cuda'' then (result \<lparr> rs_error := ''CudaHashBackend requires backend=cuda'' \<rparr>, h)
      else
        let salt = normalizeHex (rq_salt_hex request);
            pre = normalizeHex (rq_key_prefix request);
            fixed_key = normalizeHex (rq_key request);
            attempts = (if fixed_key \<noteq> [] then 1 else rq_batch_size request);
            result = batch_plan env request attempts result
        in case on_cuda activate h of
             (Inl e, h1) \<Rightarrow> (result \<lparr> rs_error := e \<rparr>, h1)
           | (Inr _, h1) \<Rightarrow>
               let result = result \<lparr> rs_device_id := cu_deviceIndex (ch_cuda h1) \<rparr> in
               (case batch_body env request result salt pre fixed_key attempts h1 of
                  (Inl e, h2) \<Rightarrow> (result \<lparr> rs_error := e \<rparr>, h2)
                | (Inr result, h2) \<Rightarrow>
                    (if 0 < rs_attempts result then result \<lparr> rs_hashrate := be_rate env (rs_attempts result) \<rparr> else result, h2)))"

section \<open>The reference\<close>

text \<open>Argon2id of RFC 9106, version 0x13, with one lane, one pass, a tag of 64 bytes and neither secret nor
  associated data: the first two blocks from \<open>H0\<close>, the matrix, and the long hash of its last block.\<close>

definition first_words :: "u32 \<Rightarrow> byte list \<Rightarrow> byte list \<Rightarrow> u32 \<Rightarrow> u64 list" where
  "first_words m_cost salt pwd column =
     block_words (first_block column (argon2_H0 1 64 m_cost 1 ARGON2_VERSION_13 ARGON2_ID pwd salt [] []))"

definition argon2id_tag :: "u32 \<Rightarrow> byte list \<Rightarrow> byte list \<Rightarrow> byte list" where
  "argon2id_tag m_cost salt pwd =
     (let segment = max (unat m_cost) 8 div 4;
          x = (\<lambda>column n. first_words m_cost salt pwd column ! n)
      in variable_hash 64 (block_bytes (map (ref_block segment (x 0) (x 1) (4 * segment - 1)) [0..<128])))"

definition argon2id_hash :: "u32 \<Rightarrow> byte list \<Rightarrow> string \<Rightarrow> string" where
  "argon2id_hash m_cost salt key = base64Encode (argon2id_tag m_cost salt (password_bytes key))"

definition hash_matches :: "(string \<Rightarrow> string) \<Rightarrow> HashApiRequest \<Rightarrow> nat \<Rightarrow> string list \<Rightarrow> HashApiMatch list" where
  "hash_matches hash request i keys =
     concat (map (\<lambda>(j, k). matches_of request k (hash k) j) (zip [i..<i + length keys] keys))"

section \<open>Lemmas\<close>

lemma u32_bound: "unat (d :: u32) < 2 ^ 32"
  by (rule order_less_le_trans [OF unsigned_less]) simp

lemma ucast_u64: "ucast (ucast d :: u64) = (d :: u32)"
  by (rule ucast_down_ucast_id) (simp add: is_down)

lemma batch_params_simps [simp]:
  "ap_lanes (batch_params salt d) = 1" "ap_outLen (batch_params salt d) = 64" "ap_m_cost (batch_params salt d) = d"
  "ap_t_cost (batch_params salt d) = 1" "ap_version (batch_params salt d) = ARGON2_VERSION_13"
  "ap_type (batch_params salt d) = ARGON2_ID"
  by (simp_all add: batch_params_def make_params_def Let_def kDefaultHashLength_def ucast_u64)

lemma segment_bound: "max (unat (d :: u32)) 8 div 4 < 2 ^ 30"
proof -
  have "unat d \<le> 2 ^ 32 - 1" using u32_bound [of d] by linarith
  then have "max (unat d) 8 \<le> 2 ^ 32 - 1" by (rule max.boundedI) simp
  from div_le_mono [OF this, of 4] show ?thesis by simp
qed

lemma batch_segment: "unat (ap_segmentBlocks (batch_params salt d)) = max (unat d) 8 div 4"
proof -
  have "unat (max (ucast d) 8 :: u64) = max (unat d) 8" by (simp add: max_def word_le_nat_alt unat_ucast64)
  then have "unat (max (ucast d) 8 div 4 :: u64) = max (unat d) 8 div 4" by (simp add: unat_div)
  moreover have "max (unat d) 8 div 4 < 2 ^ 32" by (rule order_less_trans [OF segment_bound]) simp
  ultimately show ?thesis
    by (simp add: batch_params_def make_params_def Let_def ARGON2_SYNC_POINTS_def unsigned_ucast_eq take_bit_nat_eq_self_iff)
qed

lemma batch_segment_bounds: "2 \<le> unat (ap_segmentBlocks (batch_params salt d))" "unat (ap_segmentBlocks (batch_params salt d)) < 2 ^ 30"
  using segment_bound [of d] unfolding batch_segment by (simp_all only: max_def) (auto split: if_splits)

lemma block_words_append: "length b = 1024 \<Longrightarrow> block_words (b @ rest) = block_words b"
proof -
  assume "length b = 1024"
  then have "load64 (drop (i * 8) (b @ rest)) = load64 (drop (i * 8) b)" if "i < 128" for i
    using that by (simp add: load64_def nth_append)
  then show ?thesis by (simp add: block_words_def ARGON2_BLOCK_SIZE_def)
qed

lemma first_block_length: "length (first_block c h) = 1024"
  by (simp add: first_block_def variable_hash_length)

lemma first_words_length [simp]: "length (first_words m_cost salt pwd c) = 128"
  by (simp add: first_words_def block_words_def ARGON2_BLOCK_SIZE_def)

text \<open>What the host writes for a key.\<close>

definition key_blocks :: "u32 \<Rightarrow> byte list \<Rightarrow> string \<Rightarrow> byte list" where
  "key_blocks d salt key = (let h0 = argon2_H0 1 64 d 1 ARGON2_VERSION_13 ARGON2_ID (password_bytes key) salt [] []
     in first_block 0 h0 @ first_block 1 h0)"

lemma key_blocks_words:
  "length (key_blocks d salt key) = 2048"
  "block_words (key_blocks d salt key) = first_words d salt (password_bytes key) 0"
  "block_words (drop 1024 (key_blocks d salt key)) = first_words d salt (password_bytes key) 1"
  by (simp_all add: key_blocks_def Let_def first_block_length block_words_append first_words_def)

lemma host_key_blocks:
  assumes "hexToBytes salt_hex = Inr salt"
  shows "fillFirstBlocks (batch_params salt_hex d) (password_bytes key) = Inr (key_blocks d salt key)"
  using host_first_blocks [OF assms batch_params_def refl, where pwd = "password_bytes key"] by (simp add: key_blocks_def Let_def)

lemma keys_fillable:
  assumes "hexToBytes salt_hex = Inr salt"
  shows "fillable (batch_params salt_hex d) keys (\<lambda>i. key_blocks d salt (keys ! i))"
  by (simp add: fillable_def host_key_blocks [OF assms] key_blocks_words)

text \<open>The input of a batch is in place: in the host buffer, or as keys and salt on the device.\<close>

definition input_ready :: "u32 \<Rightarrow> byte list \<Rightarrow> string list \<Rightarrow> KernelRunner \<Rightarrow> bool" where
  "input_ready d salt keys r =
     (if kr_deviceFirstBlocksReady r
      then keys_ready r (concat (map password_bytes keys)) salt \<and> (\<exists>kl. (\<forall>k\<in>set keys. length k = kl) \<and> kl + 128 < 2 ^ 32 \<and>
        length salt + 128 < 2 ^ 32 \<and>
        kr_first_block_args r = \<lparr> fb_key_length = word_of_nat kl, fb_salt_length = word_of_nat (length salt), fb_output_length = 64,
          fb_memory_cost = d, fb_time_cost = 1, fb_version = ARGON2_VERSION_13, fb_type = ARGON2_ID, fb_lanes = 1 \<rparr>)
      else \<forall>j<length keys. slot_of (kr_blocksIn r) j = key_blocks d salt (keys ! j))"

definition input_memory :: "gpu_env \<Rightarrow> byte list \<Rightarrow> string list \<Rightarrow> KernelRunner \<Rightarrow> device_memory \<Rightarrow> device_memory" where
  "input_memory env salt keys r m =
     (if kr_deviceFirstBlocksReady r
      then run_first_blocks (ge_stack env) (concat (map password_bytes keys)) salt (kr_first_block_args r) (kr_segmentBlocks r)
        (unat (kr_batchSize r)) m
      else host_input r m)"

lemma input_memory_blocks:
  assumes sz: "sizes_ok r" and m: "memory_ok r m" and n: "unat (kr_batchSize r) = length keys"
    and ready: "input_ready d salt keys r" and stack: "length (dv_buf (ge_stack env)) = 128"
  shows "length (input_memory env salt keys r m) = length m"
    and "j < length keys \<Longrightarrow> input_memory env salt keys r m ! job_base (kr_segmentBlocks r) j = first_words d salt (password_bytes (keys ! j)) 0"
    and "j < length keys \<Longrightarrow> input_memory env salt keys r m ! (job_base (kr_segmentBlocks r) j + 1) = first_words d salt (password_bytes (keys ! j)) 1"
proof -
  let ?seg = "kr_segmentBlocks r"
  have seg: "2 \<le> unat ?seg" "unat ?seg < 2 ^ 30" using sz by (simp_all add: sizes_ok_def)
  have fits: "length keys * (4 * unat ?seg) \<le> length m" using memory_fits [OF sz m] n by simp
  have "length (input_memory env salt keys r m) = length m \<and> (\<forall>j<length keys. \<forall>c<2.
      input_memory env salt keys r m ! (job_base ?seg j + c) = first_words d salt (password_bytes (keys ! j)) (word_of_nat c))"
  proof (cases "kr_deviceFirstBlocksReady r")
    case True
    then obtain kl where kl: "\<forall>k\<in>set keys. length k = kl" "kl + 128 < 2 ^ 32" "length salt + 128 < 2 ^ 32"
      "kr_first_block_args r = \<lparr> fb_key_length = word_of_nat kl, fb_salt_length = word_of_nat (length salt), fb_output_length = 64,
          fb_memory_cost = d, fb_time_cost = 1, fb_version = ARGON2_VERSION_13, fb_type = ARGON2_ID, fb_lanes = 1 \<rparr>"
      using ready by (auto simp: input_ready_def)
    have "\<forall>k\<in>set (map password_bytes keys). length k = kl" using kl(1) by (simp add: password_bytes_def)
    note res = run_first_blocks_result [OF stack _ seg(2) this kl(2,3) _ kl(4) refl, of m]
    show ?thesis using res(1-3) seg(1) fits True n
      by (auto simp: input_memory_def first_words_def less_2_cases_iff)
  next
    case False
    have "2 \<le> 4 * unat ?seg" using seg by simp
    note fs = fold_slots [OF this fits refl, of "\<lambda>j. block_words (drop (j * 2048) (kr_blocksIn r))"
        "\<lambda>j. block_words (drop (j * 2048 + 1024) (kr_blocksIn r))"]
    have im: "input_memory env salt keys r m = host_input r m" using False by (simp add: input_memory_def)
    have len: "length (kr_blocksIn r) = length keys * 2048" using sz n by (simp add: sizes_ok_def)
    have "host_input r m ! (job_base ?seg j + c) = first_words d salt (password_bytes (keys ! j)) (word_of_nat c)"
      if j: "j < length keys" and c: "c < 2" for j c
    proof -
      have "Suc j * (4 * unat ?seg) \<le> length keys * (4 * unat ?seg)" using j by (intro mult_right_mono) simp_all
      then have i: "j * (4 * unat ?seg) + c < length keys * (4 * unat ?seg)" using c seg(1) by simp
      have pos: "(j * (4 * unat ?seg) + c) mod (4 * unat ?seg) = c" "(j * (4 * unat ?seg) + c) div (4 * unat ?seg) = j"
        using c seg(1) by simp_all
      have "slot_of (kr_blocksIn r) j = key_blocks d salt (keys ! j)" using ready False j by (simp add: input_ready_def)
      then show ?thesis using fs i pos c fits slot_words [OF j len] key_blocks_words [of d salt "keys ! j"]
        unfolding host_input_def job_base_eq [OF seg(2)] n by (auto simp: less_2_cases_iff)
    qed
    then show ?thesis unfolding im using fs by (simp add: host_input_def n)
  qed
  then have len: "length (input_memory env salt keys r m) = length m"
    and all: "\<And>j c. j < length keys \<Longrightarrow> c < 2 \<Longrightarrow> input_memory env salt keys r m ! (job_base ?seg j + c) =
      first_words d salt (password_bytes (keys ! j)) (word_of_nat c)" by blast+
  show "length (input_memory env salt keys r m) = length m" by (rule len)
  show "j < length keys \<Longrightarrow> input_memory env salt keys r m ! job_base ?seg j = first_words d salt (password_bytes (keys ! j)) 0"
    using all [of j 0] by simp
  show "j < length keys \<Longrightarrow> input_memory env salt keys r m ! (job_base ?seg j + 1) = first_words d salt (password_bytes (keys ! j)) 1"
    using all [of j 1] by simp
qed

section \<open>The stages of a batch\<close>

text \<open>The backend between two batches: no crash so far, the runner is complete and holds no first blocks
  of an earlier batch, and the shape it was initialised for is that of its runner.\<close>

definition backend_inv :: "CudaHashBackend \<Rightarrow> bool" where
  "backend_inv h =
     (\<not> cu_crashed (ch_cuda h) \<and>
      (\<forall>r. cu_runner (ch_cuda h) = Some r \<longrightarrow> runner_ok r \<and> \<not> kr_deviceFirstBlocksReady r) \<and>
      (ch_initialized h \<longrightarrow> (\<exists>r. cu_runner (ch_cuda h) = Some r \<and> kr_batchSize r = ch_initialized_batch_size h \<and>
         kr_segmentBlocks r = ch_initialized_segment_blocks h)))"

text \<open>The backend inside a batch of shape \<open>b\<close>, \<open>seg\<close> with the runner \<open>r\<close>.\<close>

definition in_batch :: "bool \<Rightarrow> u64 \<Rightarrow> u32 \<Rightarrow> KernelRunner \<Rightarrow> CudaHashBackend \<Rightarrow> bool" where
  "in_batch q b seg r h =
     (on q (ch_cuda h) r (ch_cuda h) \<and> runner_ok r \<and> kr_batchSize r = b \<and> kr_segmentBlocks r = seg \<and>
      ch_initialized h \<and> ch_initialized_batch_size h = b \<and> ch_initialized_segment_blocks h = seg)"

definition lost :: "bool \<Rightarrow> string \<Rightarrow> CudaHashBackend \<Rightarrow> bool" where
  "lost q e h = failed q e (ch_cuda h)"

lemma wp_on_cuda: "wp (on_cuda m) Q E h = wp m (\<lambda>a c. Q a (h \<lparr> ch_cuda := c \<rparr>)) (\<lambda>e c. E e (h \<lparr> ch_cuda := c \<rparr>)) (ch_cuda h)"
  by (simp add: wp_def on_cuda_def split: prod.splits sum.splits)

lemma on_self: "on q c r s \<Longrightarrow> on q s r s"
  by (simp add: on_def)

lemma trip_wp:
  assumes "trip q (ch_cuda h) r m a r'" and "in_batch q b seg r h"
  shows "wp (on_cuda m) (\<lambda>x h'. x = a \<and> on q (ch_cuda h) r' (ch_cuda h') \<and> h' = h \<lparr> ch_cuda := ch_cuda h' \<rparr>) (lost q) h"
  using assms unfolding trip_def in_batch_def wp_on_cuda lost_def by (auto elim!: wp_conseq)

lemma in_batch_step:
  assumes "in_batch q b seg r h" and "on q c r' (ch_cuda h')" and "h' = h \<lparr> ch_cuda := ch_cuda h' \<rparr>"
    and "runner_ok r'" and "same_shape r r'"
  shows "in_batch q b seg r' h'"
proof -
  have "ch_initialized h' = ch_initialized h" "ch_initialized_batch_size h' = ch_initialized_batch_size h"
    "ch_initialized_segment_blocks h' = ch_initialized_segment_blocks h" by (subst assms(3), simp)+
  then show ?thesis using assms(1,2,4,5) by (auto simp: in_batch_def same_shape_def on_def)
qed

lemma ensure_initialized:
  assumes "backend_inv h" and "q \<longrightarrow> quiet (cu_calls (ch_cuda h))" and "batch_fits (unat b) (unat (ap_segmentBlocks params))"
  shows "wp (ensureInitialized env params b)
    (\<lambda>_ h'. \<exists>r. in_batch q b (ap_segmentBlocks params) r h' \<and> \<not> kr_deviceFirstBlocksReady r) (lost q) h"
proof (cases "ch_initialized h \<and> ch_initialized_batch_size h = b \<and> ch_initialized_segment_blocks h = ap_segmentBlocks params")
  case True
  then obtain r where "cu_runner (ch_cuda h) = Some r" "runner_ok r" "\<not> kr_deviceFirstBlocksReady r"
    "kr_batchSize r = b" "kr_segmentBlocks r = ap_segmentBlocks params" using assms(1) by (auto simp: backend_inv_def)
  then show ?thesis using True assms(1,2) by (auto simp: ensureInitialized_def wp_simps in_batch_def on_def backend_inv_def)
next
  case False
  have "wp (cuda_init (be_gpu env) b ARGON2_ID ARGON2_VERSION_13 1 1 (ap_segmentBlocks params))
    (\<lambda>_ t. \<exists>r. on q (ch_cuda h) r t \<and> runner_ok r \<and> kr_segmentBlocks r = ap_segmentBlocks params \<and> kr_batchSize r = b \<and>
      \<not> kr_deviceFirstBlocksReady r) (failed q) (ch_cuda h)"
    by (rule wp_init [OF assms(3) _ assms(2)]) (use assms(1) in \<open>auto simp: backend_inv_def\<close>)
  then show ?thesis
    unfolding ensureInitialized_def wp_bind wp_gets Let_def if_not_P [OF False] wp_seq wp_on_cuda wp_modify
    by (rule wp_conseq) (auto simp: in_batch_def lost_def dest: on_self)
qed

lemma next_keys_batch: "next_keys n g = batch_keys [] n g"
  by (induction n arbitrary: g) (simp_all add: Let_def split: prod.splits)

lemma decode_valid: "hexstr_to_bytes s = Inr bytes \<Longrightarrow> decodeHexBytes s = Inr bytes"
  by (induction s arbitrary: bytes rule: decodeHexBytes.induct)
     (auto simp: hexchar_to_byte_def decodeHexNibble_def split: option.splits sum.splits)

text \<open>The first blocks computed on the host.\<close>

lemma with_input_self: "cu_runner c = Some r \<Longrightarrow> with_input c r (kr_blocksIn r) = c"
  by (simp add: with_input_def)

definition host_filled :: "CudaHashBackend \<Rightarrow> KernelRunner \<Rightarrow> u32 \<Rightarrow> byte list \<Rightarrow> string list \<Rightarrow> CudaHashBackend \<Rightarrow> bool" where
  "host_filled h r d salt keys h' = (\<exists>bs. h' = h \<lparr> ch_cuda := with_input (ch_cuda h) r bs, ch_password_storage := keys \<rparr> \<and>
     length bs = length keys * 2048 \<and> (\<forall>j<length keys. slot_of bs j = key_blocks d salt (keys ! j)))"

lemma host_filled_ready:
  assumes "in_batch q b seg r h" and "\<not> kr_deviceFirstBlocksReady r" and "unat b = length keys"
    and "host_filled h r d salt keys h'"
  shows "\<exists>r'. in_batch q b seg r' h' \<and> input_ready d salt keys r' \<and> ch_password_storage h' = keys"
proof -
  obtain bs where bs: "h' = h \<lparr> ch_cuda := with_input (ch_cuda h) r bs, ch_password_storage := keys \<rparr>"
    "length bs = length keys * 2048" "\<forall>j<length keys. slot_of bs j = key_blocks d salt (keys ! j)"
    using assms(4) unfolding host_filled_def by blast
  have "kr_batchSize r = b" using assms(1) by (simp add: in_batch_def)
  then have "runner_ok (r \<lparr> kr_blocksIn := bs \<rparr>)"
    using assms(1,3) bs(2) by (auto simp: in_batch_def runner_ok_def sizes_ok_def memory_ok_def refs_ok_def)
  then show ?thesis using assms(1,2) bs
    by (intro exI [of _ "r \<lparr> kr_blocksIn := bs \<rparr>"]) (simp add: in_batch_def on_def with_input_def input_ready_def)
qed

lemma keys_and_blocks_filled:
  assumes "fillable params keys blocks" and "length keys < 2 ^ 32"
  shows "i + n = length keys \<Longrightarrow> next_keys n g = drop i keys \<Longrightarrow> length bs = length keys * 2048 \<Longrightarrow> ch_cuda h = with_input c r bs \<Longrightarrow>
    \<exists>bs'. keys_and_blocks params i n g h =
        (Inr (), h \<lparr> ch_cuda := with_input c r bs', ch_password_storage := ch_password_storage h @ drop i keys \<rparr>) \<and>
      length bs' = length keys * 2048 \<and> (\<forall>j<length keys. slot_of bs' j = (if i \<le> j then blocks j else slot_of bs j))"
proof (induction n arbitrary: i g bs h)
  case 0
  then have "h = h \<lparr> ch_cuda := with_input c r bs, ch_password_storage := ch_password_storage h @ drop i keys \<rparr>" by simp
  with 0 show ?case by (intro exI [of _ bs]) (auto simp: ret_def)
next
  case (Suc n)
  obtain key g' where kg: "nextRandomKey g = (key, g')" by (cases "nextRandomKey g")
  have i: "i < length keys" using Suc.prems(1) by simp
  have "drop i keys = keys ! i # drop (Suc i) keys" using i by (simp add: Cons_nth_drop_Suc)
  then have key: "key = keys ! i" "next_keys n g' = drop (Suc i) keys" using Suc.prems(2) kg by simp_all
  have blk: "length (blocks i) = 2048" using assms(1) i by (simp add: fillable_def)
  let ?bs = "memcpy_at bs (i * 2048) (blocks i)"
  let ?h = "h \<lparr> ch_cuda := with_input c r ?bs, ch_password_storage := ch_password_storage h @ [keys ! i] \<rparr>"
  have len: "length ?bs = length keys * 2048" using blk i Suc.prems(3) by (subst memcpy_length) simp_all
  have fill: "on_cuda (fillPasswordBlock params (word_of_nat i) key) h = (Inr (), h \<lparr> ch_cuda := with_input c r ?bs \<rparr>)"
    using fill_one [OF assms(1) i Suc.prems(3) assms(2)] Suc.prems(4) by (simp add: on_cuda_def key)
  have run: "keys_and_blocks params i (Suc n) g h = keys_and_blocks params (Suc i) n g' ?h"
    by (simp add: kg seq_step_def bind_step_def fill [unfolded key(1)] modify_def push_password_def key(1))
  obtain bs' where bs': "keys_and_blocks params (Suc i) n g' ?h =
        (Inr (), ?h \<lparr> ch_cuda := with_input c r bs', ch_password_storage := ch_password_storage ?h @ drop (Suc i) keys \<rparr>)"
      "length bs' = length keys * 2048" "\<forall>j<length keys. slot_of bs' j = (if Suc i \<le> j then blocks j else slot_of ?bs j)"
    using Suc.IH [of "Suc i" g' ?bs ?h] Suc.prems(1) key(2) len by auto
  then show ?case unfolding run using slot_memcpy [OF blk Suc.prems(3) i] \<open>drop i keys = _\<close>
    by (intro exI [of _ bs']) (auto simp: not_less_eq_eq dest: le_antisym)
qed

lemma single_worker: "firstBlockWorkerCount hw 1 cap = 1"
  by (simp add: firstBlockWorkerCount_def kMinParallelFirstBlockAttempts_def)

lemma host_input_filled:
  assumes h: "in_batch q b seg r h" and d: "rq_difficulty request = d" and salt: "hexToBytes salt_hex = Inr salt"
    and keys: "keys = batch_keys fixed_key (unat b) (new_generator pre kHashApiKeyLength (be_outputs env))"
    and single: "fixed_key \<noteq> [] \<longrightarrow> b = 1" and host: "\<not> rq_gpu_first_blocks request"
    and workers: "rs_first_block_worker_count result = firstBlockWorkerCount (be_hardware_threads env) b (rq_first_block_workers request)"
  shows "\<exists>h'. batch_input env request result (batch_params salt_hex d) salt_hex pre fixed_key b h = (Inr (), h') \<and>
    host_filled h r d salt keys h'"
proof -
  let ?p = "batch_params salt_hex d" and ?g = "new_generator pre kHashApiKeyLength (be_outputs env)"
  let ?c = "ch_cuda h" and ?h0 = "h \<lparr> ch_password_storage := [] \<rparr>"
  have n: "unat b = length keys" by (simp add: keys)
  have r: "cu_runner ?c = Some r" "kr_batchSize r = b" "runner_ok r" using h by (simp_all add: in_batch_def on_def)
  have b: "0 < length keys" "length keys + 16 < 2 ^ 32" and bs: "length (kr_blocksIn r) = length keys * 2048"
    using r n by (simp_all add: runner_ok_def sizes_ok_def)
  have fill: "fillable ?p keys (\<lambda>i. key_blocks d salt (keys ! i))" by (rule keys_fillable [OF salt])
  have c: "?c = with_input ?c r (kr_blocksIn r)" by (rule with_input_self [OF r(1), symmetric])
  have start: "batch_input env request result ?p salt_hex pre fixed_key b h =
      (if rs_first_block_worker_count result \<le> 1
       then (if fixed_key \<noteq> [] then seq_step (modify (push_password fixed_key)) (on_cuda (fillPasswordBlock ?p 0 fixed_key))
             else keys_and_blocks ?p 0 (unat b) ?g)
       else seq_step (modify (\<lambda>h. h \<lparr> ch_password_storage := ch_password_storage h @ next_keys (unat b) ?g \<rparr>))
         (bind_step (gets ch_password_storage) (\<lambda>passwords. on_cuda (fillPasswordBlocks (be_hardware_threads env) (be_schedule env) ?p
            passwords (rq_first_block_workers request) (rs_first_block_dynamic_chunk_size result))))) ?h0"
    using host by (simp add: batch_input_def Let_def seq_step_def bind_step_def modify_def)
  consider (single) "fixed_key \<noteq> []" | (seq) "fixed_key = []" "rs_first_block_worker_count result \<le> 1"
    | (par) "fixed_key = []" "\<not> rs_first_block_worker_count result \<le> 1" by blast
  then show ?thesis
  proof cases
    case single
    then have ks: "keys = [fixed_key]" "b = 1" using assms(5) by (simp_all add: keys)
    let ?bs = "memcpy_at (kr_blocksIn r) 0 (key_blocks d salt fixed_key)"
    have "fillPasswordBlock ?p 0 fixed_key ?c = (Inr (), with_input ?c r ?bs)"
      using fill_one [OF fill, of 0 "kr_blocksIn r" ?c r] bs c by (simp add: ks)
    then have "batch_input env request result ?p salt_hex pre fixed_key b h =
        (Inr (), h \<lparr> ch_cuda := with_input ?c r ?bs, ch_password_storage := keys \<rparr>)"
      unfolding start using single workers by (simp add: ks single_worker seq_step_def bind_step_def modify_def push_password_def on_cuda_def)
    moreover have "length ?bs = 2048" using bs by (subst memcpy_length) (simp_all add: key_blocks_words ks)
    moreover have "slot_of ?bs 0 = key_blocks d salt fixed_key"
      using slot_memcpy [of "key_blocks d salt fixed_key" "kr_blocksIn r" 1 0 0] bs by (simp add: key_blocks_words ks)
    ultimately show ?thesis using ks(1) unfolding host_filled_def
      by (intro exI [of _ "h \<lparr> ch_cuda := with_input ?c r ?bs, ch_password_storage := keys \<rparr>"] conjI exI [of _ ?bs]) simp_all
  next
    case seq
    have ks: "next_keys (unat b) ?g = drop 0 keys" by (simp add: next_keys_batch keys seq(1))
    obtain bs' where "keys_and_blocks ?p 0 (unat b) ?g ?h0 =
        (Inr (), ?h0 \<lparr> ch_cuda := with_input ?c r bs', ch_password_storage := ch_password_storage ?h0 @ drop 0 keys \<rparr>)"
      "length bs' = length keys * 2048" "\<forall>j<length keys. slot_of bs' j = key_blocks d salt (keys ! j)"
      using keys_and_blocks_filled [OF fill _ _ ks bs, of ?h0 ?c r] b n c by auto
    then show ?thesis unfolding start using seq unfolding host_filled_def
      by (intro exI [of _ "h \<lparr> ch_cuda := with_input ?c r bs', ch_password_storage := keys \<rparr>"] conjI exI [of _ bs']) simp_all
  next
    case par
    have ks: "next_keys (unat b) ?g = keys" by (simp add: next_keys_batch keys par(1))
    obtain bs' where "fillPasswordBlocks (be_hardware_threads env) (be_schedule env) ?p keys (rq_first_block_workers request)
          (rs_first_block_dynamic_chunk_size result) ?c = (Inr (), with_input ?c r bs')"
      "length bs' = length keys * 2048" "\<forall>j<length keys. slot_of bs' j = key_blocks d salt (keys ! j)"
      using fill_all [OF fill b(2) bs, of _ _ _ _ ?c r] c by metis
    then show ?thesis unfolding start using par unfolding host_filled_def
      by (intro exI [of _ "h \<lparr> ch_cuda := with_input ?c r bs', ch_password_storage := keys \<rparr>"] conjI exI [of _ bs'])
         (simp_all add: ks seq_step_def bind_step_def modify_def gets_def on_cuda_def)
  qed
qed

text \<open>The first blocks left to the device.\<close>

lemma trip_gets: "trip q c r (f (Some r)) a r' \<Longrightarrow> trip q c r (bind_step (gets cu_runner) f) a r'"
  by (simp add: trip_def wp_bind wp_gets on_def)

lemma in_batch_storage: "in_batch q b seg r h \<Longrightarrow> in_batch q b seg r (h \<lparr> ch_password_storage := ks \<rparr>)"
  by (simp add: in_batch_def)

lemma in_batch_trip: "in_batch q b seg r h \<Longrightarrow> runner_ok r \<and> kr_batchSize r = b \<and> kr_segmentBlocks r = seg"
  by (simp add: in_batch_def)

lemma device_input:
  assumes h: "in_batch q b seg r h" and salt: "decodeHexBytes salt_hex = Inr salt" "salt \<noteq> []" "length salt + 128 < 2 ^ 32"
    and keys: "keys = batch_keys fixed_key (unat b) (new_generator pre kHashApiKeyLength (be_outputs env))"
    and single: "fixed_key \<noteq> [] \<longrightarrow> b = 1" and device: "rq_gpu_first_blocks request"
    and kl: "\<forall>k\<in>set keys. length k = 64"
  shows "wp (batch_input env request result (batch_params salt_hex d) salt_hex pre fixed_key b)
    (\<lambda>_ h'. \<exists>r'. in_batch q b seg r' h' \<and> input_ready d salt keys r' \<and> ch_password_storage h' = keys) (lost q) h"
proof -
  let ?g = "new_generator pre kHashApiKeyLength (be_outputs env)" and ?h = "h \<lparr> ch_password_storage := keys \<rparr>"
  let ?args = "\<lparr> fb_key_length = word_of_nat 64, fb_salt_length = word_of_nat (length salt), fb_output_length = 64,
      fb_memory_cost = d, fb_time_cost = 1, fb_version = ARGON2_VERSION_13, fb_type = ARGON2_ID, fb_lanes = 1 \<rparr>"
  note r = in_batch_trip [OF h]
  have ks: "(if fixed_key \<noteq> [] then [fixed_key] else next_keys (unat b) ?g) = keys"
    using single by (simp add: keys next_keys_batch)
  have n: "length keys = unat (kr_batchSize r)" using r by (simp add: keys)
  obtain r' where r': "trip q (ch_cuda ?h) r (kr_prepareInputBlocksOnDevice (be_gpu env) keys salt 64 d 1 ARGON2_VERSION_13 ARGON2_ID 1) True r'"
    "runner_ok r'" "same_shape r r'" "kr_deviceFirstBlocksReady r'" "kr_first_block_args r' = ?args"
    "keys_ready r' (concat (map password_bytes keys)) salt"
    using trip_prepare [OF _ n kl _ _ salt(2) _ refl] r salt(3) by fastforce
  have "trip q (ch_cuda ?h) r (prepareInputBlocksOnDevice (be_gpu env) keys salt 64 d 1 ARGON2_VERSION_13 ARGON2_ID 1) True r'"
    unfolding prepareInputBlocksOnDevice_def by (rule trip_gets) (use r'(1) in simp)
  from trip_wp [OF this in_batch_storage [OF h]]
  have "wp (on_cuda (prepareInputBlocksOnDevice (be_gpu env) keys salt 64 d 1 ARGON2_VERSION_13 ARGON2_ID 1))
      (\<lambda>x h'. x \<and> (\<exists>r'. in_batch q b seg r' h' \<and> input_ready d salt keys r' \<and> ch_password_storage h' = keys)) (lost q) ?h"
  proof (rule wp_conseq)
    fix x h'
    assume a: "x = True \<and> on q (ch_cuda ?h) r' (ch_cuda h') \<and> h' = ?h \<lparr> ch_cuda := ch_cuda h' \<rparr>"
    then have "in_batch q b seg r' h'" using in_batch_step [OF in_batch_storage [OF h] _ _ r'(2,3)] by blast
    moreover have "ch_password_storage h' = keys" by (subst conjunct2 [OF conjunct2 [OF a]]) simp
    moreover have "input_ready d salt keys r'" using r'(4-6) kl salt(3) by (auto simp: input_ready_def intro!: exI [of _ 64])
    ultimately show "x \<and> (\<exists>r'. in_batch q b seg r' h' \<and> input_ready d salt keys r' \<and> ch_password_storage h' = keys)" using a by blast
  qed
  then show ?thesis using device
    by (simp add: batch_input_def Let_def input_on_device_def wp_simps ks salt(1)) (auto simp: wp_simps elim!: wp_conseq)
qed

section \<open>The kernels of a batch\<close>

definition tag_block :: "u32 \<Rightarrow> byte list \<Rightarrow> string \<Rightarrow> u64 list" where
  "tag_block d salt key =
     (let segment = max (unat d) 8 div 4; x = (\<lambda>column n. first_words d salt (password_bytes key) column ! n)
      in map (ref_block segment (x 0) (x 1) (4 * segment - 1)) [0..<128])"

lemma trip_runner: "trip q c r m () r \<Longrightarrow> trip q c r (bind_step (gets cu_runner) (\<lambda>runner. when_step (runner \<noteq> None) m)) () r"
  by (rule trip_gets) (simp add: when_step_def)

lemma trip_times:
  assumes "runner_ok r"
  shows "trip q c r (seq_step kr_finish (seq_step getLastHostToDeviceMs (seq_step getLastGpuFirstBlockMs getLastDeviceToHostMs))) () r"
proof -
  have ev: "ev \<in> set (kr_events r)" for ev using assms event_ok by (simp add: runner_ok_def)
  have "trip q c r kr_getLastGpuFirstBlockMs () r"
    unfolding kr_getLastGpuFirstBlockMs_def by (rule trip_bind [OF trip_self]) (simp add: trip_ret trip_elapsed ev)
  then show ?thesis
    unfolding kr_finish_def getLastHostToDeviceMs_def getLastGpuFirstBlockMs_def getLastDeviceToHostMs_def
      kr_getLastHostToDeviceMs_def kr_getLastDeviceToHostMs_def
    by (intro trip_seq [OF trip_seq [OF trip_check [OF TrueI] trip_elapsed]] trip_seq [OF trip_runner] trip_runner
        trip_elapsed ev)
qed

text \<open>A run on a batch whose input is in place leaves the last blocks of the reference in the output buffer.\<close>

lemma trip_tags:
  assumes ok: "runner_ok r" and warps: "1 \<le> unat (kr_warpsPerBlock r)" "unat (kr_warpsPerBlock r) \<le> 16"
    and n: "unat (kr_batchSize r) = length keys" and seg: "unat (kr_segmentBlocks r) = max (unat d) 8 div 4"
    and ready: "input_ready d salt keys r" and stack: "length (dv_buf (ge_stack env)) = 128"
  shows "\<exists>r'. trip q c r (kr_run env) () r' \<and> runner_ok r' \<and> same_shape r r' \<and> \<not> kr_deviceFirstBlocksReady r' \<and>
    kr_blocksOut r' = concat (map (\<lambda>k. block_bytes (tag_block d salt k)) keys)"
proof -
  let ?seg = "kr_segmentBlocks r"
  have sz: "sizes_ok r" using ok by (simp add: runner_ok_def)
  obtain m where m: "memory_ok r m" using ok by (auto simp: runner_ok_def)
  define m1 where "m1 = input_memory env salt keys r m"
  note blocks = input_memory_blocks [OF sz m n ready stack, folded m1_def]
  have kr: "keys_ready r (concat (map password_bytes keys)) salt" if "kr_deviceFirstBlocksReady r"
    using ready that by (simp add: input_ready_def)
  have "words (job_ref ?seg m1 j (4 * unat ?seg - 1)) = tag_block d salt (keys ! j)" if "j < length keys" for j
    using blocks(2,3) [OF that] by (simp add: job_ref_def words_def tag_block_def Let_def seg)
  then have "map (\<lambda>j. block_bytes (words (job_ref ?seg m1 j (4 * unat ?seg - 1)))) [0..<length keys] =
      map (\<lambda>k. block_bytes (tag_block d salt k)) keys"
    by (intro nth_equalityI) simp_all
  with trip_run [OF ok warps kr m m1_def [unfolded input_memory_def] blocks(1), of q c] blocks(2,3) n
  show ?thesis by auto
qed

lemma warps_in_range:
  assumes "1 \<le> unat (w :: u32)" and "unat w \<le> 16"
  shows "w \<noteq> 0" and "\<not> kMaxWarpsPerBlock < ucast w"
proof -
  show "w \<noteq> 0" using assms(1) by auto
  show "\<not> kMaxWarpsPerBlock < ucast w"
    unfolding word_less_nat_alt unat_ucast64 using assms(2) by (simp add: kMaxWarpsPerBlock_def)
qed

lemma kernels_run:
  assumes h: "in_batch q b seg r h" and seg: "unat seg = max (unat d) 8 div 4" and n: "unat b = length keys"
    and ready: "input_ready d salt keys r" and stack: "length (dv_buf (ge_stack (be_gpu env))) = 128"
    and warps: "1 \<le> unat (ucast (rs_warps_per_block result) :: u32)" "unat (ucast (rs_warps_per_block result) :: u32) \<le> 16"
  shows "wp (on_cuda (batch_compute env request result)) (\<lambda>_ h'. \<exists>r'. in_batch q b seg r' h' \<and> \<not> kr_deviceFirstBlocksReady r' \<and>
      kr_blocksOut r' = concat (map (\<lambda>k. block_bytes (tag_block d salt k)) keys) \<and>
      ch_password_storage h' = ch_password_storage h) (lost q) h"
proof -
  let ?w = "ucast (rs_warps_per_block result) :: u32"
  define r1 where "r1 = r \<lparr> kr_warpsPerBlock := ?w, kr_precomputedRefs := rq_precomputed_refs request \<rparr>"
  define c where "c = ch_cuda h \<lparr> cu_warpsPerBlock := ?w, cu_precomputedRefs := rq_precomputed_refs request \<rparr>"
  note r = in_batch_trip [OF h]
  have ok: "runner_ok r1" using r by (auto simp: r1_def runner_ok_def sizes_ok_def memory_ok_def refs_ok_def)
  have "keys_ready r1 = keys_ready r" "kr_deviceFirstBlocksReady r1 = kr_deviceFirstBlocksReady r"
    "kr_first_block_args r1 = kr_first_block_args r" "kr_blocksIn r1 = kr_blocksIn r"
    by (simp_all add: fun_eq_iff keys_ready_def r1_def)
  then have ready1: "input_ready d salt keys r1" using ready by (simp only: input_ready_def)
  have "1 \<le> unat (kr_warpsPerBlock r1)" "unat (kr_warpsPerBlock r1) \<le> 16" "unat (kr_batchSize r1) = length keys"
    "unat (kr_segmentBlocks r1) = max (unat d) 8 div 4" using r n warps seg by (simp_all add: r1_def)
  from trip_tags [OF ok this ready1 stack]
  obtain r' where r': "trip q c r1 (kr_run (be_gpu env)) () r'" "runner_ok r'" "same_shape r1 r'" "\<not> kr_deviceFirstBlocksReady r'"
    "kr_blocksOut r' = concat (map (\<lambda>k. block_bytes (tag_block d salt k)) keys)" by blast
  note pn = warps_in_range [OF warps]
  have "on q c r c" using h by (simp add: in_batch_def on_def c_def)
  then have "wp (cuda_run (be_gpu env)) (\<lambda>_. on q c r') (failed q) c"
    by (rule wp_run) (use warps r'(1) in \<open>simp_all add: c_def r1_def\<close>)
  then have "wp (seq_step (cuda_run (be_gpu env)) (seq_step kr_finish (seq_step getLastHostToDeviceMs
      (seq_step getLastGpuFirstBlockMs getLastDeviceToHostMs)))) (\<lambda>_. on q c r') (failed q) c"
    unfolding wp_seq [of "cuda_run (be_gpu env)"]
    by (rule wp_conseq) (use trip_times [OF r'(2), of q c] in \<open>auto simp: trip_def elim!: wp_conseq\<close>)
  then have "wp (batch_compute env request result) (\<lambda>_. on q c r') (failed q) (ch_cuda h)"
    unfolding batch_compute_def setWarpsPerBlock_def setPrecomputedRefs_def wp_seq [of "modify _"] wp_modify if_not_P [OF pn(1)] if_not_P [OF pn(2)]
    by (simp add: c_def)
  then show ?thesis unfolding wp_on_cuda lost_def
  proof (rule wp_conseq)
    fix x t
    assume "on q c r' t"
    moreover have "same_shape r r'" using r'(3) by (simp add: same_shape_def r1_def)
    ultimately have "in_batch q b seg r' (h \<lparr> ch_cuda := t \<rparr>)"
      using h r'(2) by (auto simp: in_batch_def same_shape_def on_def)
    then show "\<exists>r'. in_batch q b seg r' (h \<lparr> ch_cuda := t \<rparr>) \<and> \<not> kr_deviceFirstBlocksReady r' \<and>
        kr_blocksOut r' = concat (map (\<lambda>k. block_bytes (tag_block d salt k)) keys) \<and>
        ch_password_storage (h \<lparr> ch_cuda := t \<rparr>) = ch_password_storage h" using r'(4,5) by auto
  qed simp
qed

section \<open>Finalisation and matching\<close>

lemma finalize_hashes_run:
  assumes "cu_runner c = Some r" and "length (kr_blocksOut r) = n * 1024" and "n < 2 ^ 32" and "ap_lanes params = 1"
  shows "set is \<subseteq> {..<n} \<Longrightarrow> finalize_hashes params is c =
    (Inr (map (\<lambda>i. base64Encode (digestLong (unat (ap_outLen params)) (take 1024 (drop (i * 1024) (kr_blocksOut r))))) is), c)"
proof (induction "is")
  case (Cons i js)
  have i: "i < n" using Cons.prems by simp
  have off: "unat (getOutputMemory (word_of_nat i)) = i * 1024"
  proof -
    have "(word_of_nat i * 1024 :: u64) = word_of_nat (i * 1024)" by simp
    then show ?thesis using i assms(3)
      by (simp add: getOutputMemory_def ARGON2_BLOCK_SIZE_def unat_of_nat del: of_nat_mult)
  qed
  have "finalize_hash params i c = (Inr (base64Encode (digestLong (unat (ap_outLen params)) (take 1024 (drop (i * 1024) (kr_blocksOut r))))), c)"
    using assms i by (simp add: finalize_hash_def bind_step_def self_def Let_def off ARGON2_BLOCK_SIZE_def ret_def
        base64Encode_def argon2_finalize_def)
  with Cons show ?case by (simp add: bind_step_def ret_def)
qed (simp add: ret_def)

lemma batch_finalize_run:
  assumes "cu_runner c = Some r" and "length (kr_blocksOut r) = n * 1024" and "n < 2 ^ 32" and "ap_lanes params = 1"
    and "hashes = (\<lambda>i. base64Encode (digestLong (unat (ap_outLen params)) (take 1024 (drop (i * 1024) (kr_blocksOut r)))))"
  shows "batch_finalize request params single passwords n first result c =
    (Inr (fold (match_one request single passwords) (map (\<lambda>i. (i, hashes i)) [first..<n]) result), c)"
proof (induction "n - first" arbitrary: first result rule: less_induct)
  case less
  show ?case
  proof (cases "first < n")
    case True
    define next_first where "next_first = min n (first + kFinalizeTimingChunkSize)"
    have le: "first \<le> next_first" "next_first \<le> n" using True by (simp_all add: next_first_def)
    have split: "[first..<n] = [first..<next_first] @ [next_first..<n]"
      using upt_add_eq_append [of first next_first "n - next_first"] le by simp
    have tail: "[next_first..<n] = [first + kFinalizeTimingChunkSize..<n]" by (auto simp: next_first_def min_def)
    have sub: "{first..<next_first} \<subseteq> {..<n}" using le by auto
    have "finalize_hashes params [first..<next_first] c = (Inr (map hashes [first..<next_first]), c)"
      using finalize_hashes_run [OF assms(1-4), of "[first..<next_first]"] sub by (simp add: assms(5))
    moreover have "zip [first..<next_first] (map hashes [first..<next_first]) = map (\<lambda>i. (i, hashes i)) [first..<next_first]"
      by (simp add: zip_map2 zip_same_conv_map)
    moreover have "n - (first + kFinalizeTimingChunkSize) < n - first" using True by (simp add: kFinalizeTimingChunkSize_def)
    ultimately show ?thesis
      using less [of "first + kFinalizeTimingChunkSize"] True
      by (subst batch_finalize.simps) (simp add: Let_def next_first_def [symmetric] bind_step_def split tail)
  next
    case False
    then show ?thesis by (subst batch_finalize.simps) (simp add: ret_def)
  qed
qed

lemma hash_matches_Cons:
  "hash_matches hash request i (k # ks) = matches_of request k (hash k) i @ hash_matches hash request (i + 1) ks"
proof -
  have "[i..<i + length (k # ks)] = i # [i + 1..<i + 1 + length ks]" by (subst upt_conv_Cons) simp_all
  then show ?thesis by (simp add: hash_matches_def)
qed

lemma match_all:
  assumes "\<And>i. i < length keys \<Longrightarrow> hashes i = hash (keys ! i)"
  shows "i + n = length keys \<Longrightarrow> fold (match_one request single keys) (map (\<lambda>i. (i, hashes i)) [i..<length keys]) result =
    result \<lparr> rs_hash := (if single \<and> 0 < n then hash (last keys) else rs_hash result),
      rs_matches := rs_matches result @ hash_matches hash request i (drop i keys) \<rparr>"
proof (induction n arbitrary: i result)
  case 0
  then show ?case by (simp add: hash_matches_def)
next
  case (Suc n)
  define r where "r = (if single then result \<lparr> rs_hash := hash (keys ! i) \<rparr> else result)"
  have i: "i < length keys" using Suc.prems by simp
  have "drop i keys = keys ! i # drop (i + 1) keys" using i by (simp add: Cons_nth_drop_Suc)
  then have ms: "hash_matches hash request i (drop i keys) =
      matches_of request (keys ! i) (hash (keys ! i)) i @ hash_matches hash request (i + 1) (drop (i + 1) keys)"
    by (simp only: hash_matches_Cons)
  have upt: "[i..<length keys] = i # [i + 1..<length keys]" using i by (simp add: upt_conv_Cons)
  let ?r = "r \<lparr> rs_matches := rs_matches r @ matches_of request (keys ! i) (hash (keys ! i)) i \<rparr>"
  have step: "match_one request single keys (i, hashes i) result = ?r"
    by (simp add: match_one_def Let_def r_def assms [OF i] appendMatches_matches)
  have "last keys = keys ! i" if "n = 0" 
  proof -
    have "i = length keys - 1" "keys \<noteq> []" using that Suc.prems by auto
    then show ?thesis by (simp add: last_conv_nth)
  qed
  then have hash: "(if single \<and> 0 < n then hash (last keys) else rs_hash ?r) =
      (if single \<and> 0 < Suc n then hash (last keys) else rs_hash result)" by (cases n) (simp_all add: r_def)
  have IH: "fold (match_one request single keys) (map (\<lambda>i. (i, hashes i)) [i + 1..<length keys]) ?r =
      ?r \<lparr> rs_hash := (if single \<and> 0 < n then hash (last keys) else rs_hash ?r),
        rs_matches := rs_matches ?r @ hash_matches hash request (i + 1) (drop (i + 1) keys) \<rparr>"
    by (rule Suc.IH) (use Suc.prems in simp)
  have upd: "?r \<lparr> rs_hash := x, rs_matches := y \<rparr> = result \<lparr> rs_hash := x, rs_matches := y \<rparr>" for x y
    by (simp add: r_def)
  have "rs_matches ?r = rs_matches result @ matches_of request (keys ! i) (hash (keys ! i)) i" by (simp add: r_def)
  then show ?case unfolding upt ms by (simp only: list.map fold_simps step IH hash upd append_assoc)
qed

lemma tag_digest: "digestLong 64 (block_bytes (tag_block d salt key)) = argon2id_tag d salt (password_bytes key)"
  by (simp add: digestLong_reference argon2id_tag_def tag_block_def Let_def)

lemma take_blocks:
  assumes "i < length keys"
  shows "take 1024 (drop (i * 1024) (concat (map (\<lambda>k. block_bytes (tag_block d salt k)) keys))) = block_bytes (tag_block d salt (keys ! i))"
proof -
  have "\<forall>b\<in>set (map (\<lambda>k. block_bytes (tag_block d salt k)) keys). length b = 1024"
    by (simp add: block_bytes_length tag_block_def Let_def)
  from flat_keys [OF this, of i] show ?thesis using assms by simp
qed

section \<open>A whole batch\<close>

lemma hex_nibble_NUL: "hex_nibble (CHR 0x00) = None"
  by code_simp

lemma hexstr_length: "hexstr_to_bytes s = Inr bytes \<Longrightarrow> length s = 2 * length bytes"
  by (induction s arbitrary: bytes rule: hexstr_to_bytes.induct)
     (auto simp: hexchar_to_byte_def hex_nibble_NUL split: option.splits sum.splits)

lemma request_salt:
  assumes "isValidRequest request" and "length (rq_salt_hex request) < 2 ^ 32"
  obtains salt where "hexToBytes (normalizeHex (rq_salt_hex request)) = Inr salt"
    "decodeHexBytes (normalizeHex (rq_salt_hex request)) = Inr salt" "salt \<noteq> []" "length salt + 128 < 2 ^ 32"
proof -
  let ?s = "normalizeHex (rq_salt_hex request)"
  obtain salt where salt: "hexstr_to_bytes ?s = Inr salt" "hexToBytes ?s = Inr salt" using valid_salt [OF assms(1)] by blast
  have len: "length ?s = 2 * length salt" by (rule hexstr_length [OF salt(1)])
  have "16 \<le> length ?s" using assms(1)
    by (auto simp: isValidRequest_def validateRequest_def salt_errors_def split: if_splits)
  moreover have "length ?s \<le> length (rq_salt_hex request)" by (simp add: normalizeHex_def)
  ultimately have "salt \<noteq> []" "length salt + 128 < 2 ^ 32" using len assms(2) by auto
  then show ?thesis using that [OF salt(2) decode_valid [OF salt(1)]] by blast
qed

lemma resolved_warps:
  assumes "isValidRequest request"
  shows "1 \<le> unat (resolveWarpsPerBlock (rq_warps_per_block request))"
    and "unat (resolveWarpsPerBlock (rq_warps_per_block request)) \<le> 16"
proof -
  let ?w = "rq_warps_per_block request"
  have w: "unat ?w \<le> 16" using assms
    by (auto simp: isValidRequest_def validateRequest_def kMaxWarpsPerBlock_def word_less_nat_alt)
  then have "unat (ucast ?w :: u32) = unat ?w" by (simp add: unsigned_ucast_eq take_bit_nat_eq_self_iff)
  moreover have "\<not> kMaxWarpsPerBlock < ?w" using w by (simp add: kMaxWarpsPerBlock_def word_less_nat_alt)
  moreover have "?w \<noteq> 0 \<Longrightarrow> unat ?w \<noteq> 0" by (simp add: unat_eq_0)
  ultimately show "1 \<le> unat (resolveWarpsPerBlock ?w)" "unat (resolveWarpsPerBlock ?w) \<le> 16"
    using w by (auto simp: resolveWarpsPerBlock_def kDefaultWarpsPerBlock_def)
qed

lemma batch_body_result:
  fixes env :: batch_env and request :: HashApiRequest and h :: CudaHashBackend and b :: u64
  defines "d \<equiv> rq_difficulty request" and "salt_hex \<equiv> normalizeHex (rq_salt_hex request)"
    and "pre \<equiv> normalizeHex (rq_key_prefix request)" and "fixed_key \<equiv> normalizeHex (rq_key request)"
  defines "keys \<equiv> batch_keys fixed_key (unat b) (new_generator pre kHashApiKeyLength (be_outputs env))"
  assumes inv: "backend_inv h" and q: "q \<longrightarrow> quiet (cu_calls (ch_cuda h))" and valid: "isValidRequest request"
    and fits: "batch_fits (unat b) (max (unat d) 8 div 4)" and salt_length: "length (rq_salt_hex request) < 2 ^ 32"
    and stack: "length (dv_buf (ge_stack (be_gpu env))) = 128" and single: "fixed_key \<noteq> [] \<longrightarrow> b = 1"
    and salt: "hexToBytes salt_hex = Inr salt"
    and workers: "rs_first_block_worker_count result = firstBlockWorkerCount (be_hardware_threads env) b (rq_first_block_workers request)"
    and warps: "rs_warps_per_block result = ucast (resolveWarpsPerBlock (rq_warps_per_block request))"
    and fresh: "rs_matches result = []"
  shows "wp (batch_body env request result salt_hex pre fixed_key b)
    (\<lambda>res h'. backend_inv h' \<and> (q \<longrightarrow> quiet (cu_calls (ch_cuda h'))) \<and> rs_ok res \<and> rs_attempts res = b \<and>
       rs_matches res = hash_matches (argon2id_hash d salt) request 0 keys \<and>
       (fixed_key \<noteq> [] \<longrightarrow> rs_hash res = argon2id_hash d salt fixed_key)) (lost q) h"
proof -
  let ?p = "batch_params salt_hex d"
  obtain s where "hexToBytes salt_hex = Inr s" "decodeHexBytes salt_hex = Inr s" "s \<noteq> []" "length s + 128 < 2 ^ 32"
    using request_salt [OF valid salt_length] unfolding salt_hex_def by metis
  then have decode: "decodeHexBytes salt_hex = Inr salt" "salt \<noteq> []" "length salt + 128 < 2 ^ 32" using salt by simp_all
  have n: "unat b = length keys" by (simp add: keys_def)
  have kl: "\<forall>k\<in>set keys. length k = 64" using valid_keys [OF valid]
    by (auto simp: keys_def fixed_key_def pre_def good_key_def kHashApiKeyLength_def)
  have fits': "batch_fits (unat b) (unat (ap_segmentBlocks ?p))" using fits by (simp add: batch_segment)
  have w: "1 \<le> unat (ucast (rs_warps_per_block result) :: u32)" "unat (ucast (rs_warps_per_block result) :: u32) \<le> 16"
    unfolding warps ucast_u64 by (rule resolved_warps [OF valid])+
  have input: "wp (batch_input env request result ?p salt_hex pre fixed_key b)
      (\<lambda>_ h'. \<exists>r'. in_batch q b (ap_segmentBlocks ?p) r' h' \<and> input_ready d salt keys r' \<and> ch_password_storage h' = keys) (lost q) h1"
    if h1: "in_batch q b (ap_segmentBlocks ?p) r h1" "\<not> kr_deviceFirstBlocksReady r" for r h1
  proof (cases "rq_gpu_first_blocks request")
    case True
    show ?thesis by (rule device_input [OF h1(1) decode keys_def [THEN meta_eq_to_obj_eq] single True kl])
  next
    case False
    obtain h2 where h2: "batch_input env request result ?p salt_hex pre fixed_key b h1 = (Inr (), h2)" "host_filled h1 r d salt keys h2"
      using host_input_filled [OF h1(1) _ salt keys_def [THEN meta_eq_to_obj_eq] single False workers] unfolding d_def by blast
    then show ?thesis using host_filled_ready [OF h1 n h2(2)] by (simp add: wp_def)
  qed
  have rest: "wp (bind_step (gets ch_password_storage) (\<lambda>passwords.
      bind_step (on_cuda (batch_finalize request ?p (fixed_key \<noteq> []) passwords (unat b) 0 result)) (\<lambda>result.
      ret (result \<lparr> rs_ok := True, rs_attempts := b, rs_batch_size := b, rs_batch_size_min := b, rs_batch_size_max := b \<rparr>))))
    (\<lambda>res h'. backend_inv h' \<and> (q \<longrightarrow> quiet (cu_calls (ch_cuda h'))) \<and> rs_ok res \<and> rs_attempts res = b \<and>
       rs_matches res = hash_matches (argon2id_hash d salt) request 0 keys \<and>
       (fixed_key \<noteq> [] \<longrightarrow> rs_hash res = argon2id_hash d salt fixed_key)) (lost q) h1"
    if h1: "in_batch q b (ap_segmentBlocks ?p) r h1" "\<not> kr_deviceFirstBlocksReady r" "ch_password_storage h1 = keys"
      "kr_blocksOut r = concat (map (\<lambda>k. block_bytes (tag_block d salt k)) keys)" for r h1
  proof -
    have r: "cu_runner (ch_cuda h1) = Some r" using h1(1) by (simp add: in_batch_def on_def)
    have len: "length (kr_blocksOut r) = length keys * 1024" unfolding h1(4)
      by (subst concat_length [where k = 1024]) (simp_all add: block_bytes_length tag_block_def Let_def)
    have small: "length keys < 2 ^ 32" using fits n by (simp add: batch_fits_def)
    note run = batch_finalize_run [OF r len small _ refl, of ?p request "fixed_key \<noteq> []" keys 0 result]
    let ?hash = "if fixed_key \<noteq> [] \<and> 0 < length keys then argon2id_hash d salt (last keys) else rs_hash result"
    have "fold (match_one request (fixed_key \<noteq> []) keys) (map (\<lambda>i. (i, base64Encode (digestLong (unat (ap_outLen ?p))
        (take 1024 (drop (i * 1024) (kr_blocksOut r)))))) [0..<length keys]) result =
      result \<lparr> rs_hash := ?hash, rs_matches := rs_matches result @ hash_matches (argon2id_hash d salt) request 0 (drop 0 keys) \<rparr>"
      by (rule match_all) (simp_all add: h1(4) take_blocks tag_digest argon2id_hash_def)
    then have "batch_finalize request ?p (fixed_key \<noteq> []) keys (length keys) 0 result (ch_cuda h1) =
        (Inr (result \<lparr> rs_hash := ?hash, rs_matches := hash_matches (argon2id_hash d salt) request 0 keys \<rparr>), ch_cuda h1)"
      using run fresh by simp
    moreover have "keys = [fixed_key]" if "fixed_key \<noteq> []" using single that by (simp add: keys_def)
    ultimately have "wp (batch_finalize request ?p (fixed_key \<noteq> []) keys (unat b) 0 result)
        (\<lambda>res c. c = ch_cuda h1 \<and> rs_matches res = hash_matches (argon2id_hash d salt) request 0 keys \<and>
          (fixed_key \<noteq> [] \<longrightarrow> rs_hash res = argon2id_hash d salt fixed_key)) (failed q) (ch_cuda h1)"
      by (simp add: wp_def n)
    moreover have "backend_inv h1" "q \<longrightarrow> quiet (cu_calls (ch_cuda h1))"
      using h1(1,2) by (auto simp: backend_inv_def in_batch_def on_def)
    ultimately show ?thesis
      unfolding wp_bind wp_gets h1(3) wp_on_cuda wp_ret lost_def by (auto elim!: wp_conseq)
  qed
  show ?thesis
    unfolding batch_body_def Let_def wp_seq d_def [symmetric]
    by (rule wp_conseq [OF ensure_initialized [OF inv q fits']], elim exE conjE, rule wp_conseq [OF input], assumption, assumption,
        elim exE conjE, rule wp_conseq [OF kernels_run [OF _ batch_segment n _ stack w]], assumption, assumption,
        elim exE conjE, rule rest) simp_all
qed

definition batch_attempts :: "HashApiRequest \<Rightarrow> u64" where
  "batch_attempts request = (if normalizeHex (rq_key request) \<noteq> [] then 1 else rq_batch_size request)"

definition request_keys :: "batch_env \<Rightarrow> HashApiRequest \<Rightarrow> string list" where
  "request_keys env request = batch_keys (normalizeHex (rq_key request)) (unat (batch_attempts request))
     (new_generator (normalizeHex (rq_key_prefix request)) kHashApiKeyLength (be_outputs env))"

definition request_salt_bytes :: "HashApiRequest \<Rightarrow> byte list" where
  "request_salt_bytes request = projr (hexToBytes (normalizeHex (rq_salt_hex request)))"

lemma cuda_batch_spec:
  assumes inv: "backend_inv h" and q: "q \<longrightarrow> quiet (cu_calls (ch_cuda h))"
    and valid: "isValidRequest request" and cuda: "rq_backend request = ''cuda''"
    and size: "unat (batch_attempts request) + 16 < 2 ^ 32"
      "unat (batch_attempts request) * (max (unat (rq_difficulty request)) 8 div 4) * 4096 < 2 ^ 64"
    and salt_length: "length (rq_salt_hex request) < 2 ^ 32" and stack: "length (dv_buf (ge_stack (be_gpu env))) = 128"
    and run: "CudaHashBackend_runBatch env request h = (result, h')"
  shows "\<not> cu_crashed (ch_cuda h') \<and> (q \<longrightarrow> rs_ok result) \<and>
    (if rs_ok result then backend_inv h' \<and> (q \<longrightarrow> quiet (cu_calls (ch_cuda h'))) \<and> rs_attempts result = batch_attempts request \<and>
       rs_matches result = hash_matches (argon2id_hash (rq_difficulty request) (request_salt_bytes request)) request 0 (request_keys env request) \<and>
       (normalizeHex (rq_key request) \<noteq> [] \<longrightarrow>
          rs_hash result = argon2id_hash (rq_difficulty request) (request_salt_bytes request) (normalizeHex (rq_key request)))
     else rs_attempts result = 0 \<and> rs_matches result = [])"
proof -
  let ?salt_hex = "normalizeHex (rq_salt_hex request)" and ?pre = "normalizeHex (rq_key_prefix request)"
    and ?fixed = "normalizeHex (rq_key request)" and ?b = "batch_attempts request"
  let ?plan = "batch_plan env request ?b (start_result request)"
  have salt: "hexToBytes ?salt_hex = Inr (request_salt_bytes request)"
    using request_salt [OF valid salt_length] unfolding request_salt_bytes_def by (metis sum.sel(2))
  have "rq_batch_size request \<noteq> 0" using valid by (auto simp: isValidRequest_def validateRequest_def)
  then have "0 < unat ?b" by (simp add: batch_attempts_def unat_gt_0)
  moreover have "2 \<le> max (unat (rq_difficulty request)) 8 div 4"
    using div_le_mono [OF max.cobounded2 [of 8 "unat (rq_difficulty request)"], of 4] by simp
  ultimately have fits: "batch_fits (unat ?b) (max (unat (rq_difficulty request)) 8 div 4)"
    unfolding batch_fits_def using size segment_bound by blast
  have plan: "rs_matches ?plan = []" "rs_attempts ?plan = 0" "\<not> rs_ok ?plan"
    "rs_first_block_worker_count ?plan = firstBlockWorkerCount (be_hardware_threads env) ?b (rq_first_block_workers request)"
    "rs_warps_per_block ?plan = ucast (resolveWarpsPerBlock (rq_warps_per_block request))"
    by (simp_all add: batch_plan_def start_result_def default_result_def Let_def)
  have runs: "CudaHashBackend_runBatch env request h =
      (case on_cuda activate h of
         (Inl e, h1) \<Rightarrow> (?plan \<lparr> rs_error := e \<rparr>, h1)
       | (Inr _, h1) \<Rightarrow>
           (case batch_body env request (?plan \<lparr> rs_device_id := cu_deviceIndex (ch_cuda h1) \<rparr>) ?salt_hex ?pre ?fixed ?b h1 of
              (Inl e, h2) \<Rightarrow> (?plan \<lparr> rs_device_id := cu_deviceIndex (ch_cuda h1), rs_error := e \<rparr>, h2)
            | (Inr result, h2) \<Rightarrow>
                (if 0 < rs_attempts result then result \<lparr> rs_hashrate := be_rate env (rs_attempts result) \<rparr> else result, h2)))"
    using valid cuda unfolding CudaHashBackend_runBatch_def Let_def isValidRequest_def batch_attempts_def [of request, symmetric]
    by simp
  have act: "wp activate (\<lambda>_ c. cu_runner c = cu_runner (ch_cuda h) \<and> \<not> cu_crashed c \<and> (q \<longrightarrow> quiet (cu_calls c))) (failed q) (ch_cuda h)"
    using inv q by (auto simp: activate_def cuda_check_def wp_def failed_def backend_inv_def quiet_def split: list.splits option.splits)
  obtain x h1 where h1: "on_cuda activate h = (x, h1)" by (cases "on_cuda activate h")
  show ?thesis
  proof (cases x)
    case (Inl e)
    have "\<not> q \<and> \<not> cu_crashed (ch_cuda h1)"
      using act h1 Inl by (auto simp: on_cuda_def wp_def failed_def split: prod.splits)
    moreover have "result = ?plan \<lparr> rs_error := e \<rparr>" "h' = h1" using run unfolding runs h1 Inl by simp_all
    ultimately show ?thesis using plan by simp
  next
    case (Inr u)
    then obtain c where c: "activate (ch_cuda h) = (Inr u, c)" "h1 = h \<lparr> ch_cuda := c \<rparr>"
      using h1 by (auto simp: on_cuda_def split: prod.splits)
    then have post: "cu_runner c = cu_runner (ch_cuda h)" "\<not> cu_crashed c" "q \<longrightarrow> quiet (cu_calls c)"
      using act by (simp_all add: wp_def)
    let ?r = "?plan \<lparr> rs_device_id := cu_deviceIndex (ch_cuda h1) \<rparr>"
    have "backend_inv h1" "q \<longrightarrow> quiet (cu_calls (ch_cuda h1))" using inv c(2) post by (simp_all add: backend_inv_def)
    note body = batch_body_result [OF this valid fits salt_length _ _ salt, where result = ?r and env = env]
    obtain y h2 where y: "batch_body env request ?r ?salt_hex ?pre ?fixed ?b h1 = (y, h2)"
      by (cases "batch_body env request ?r ?salt_hex ?pre ?fixed ?b h1")
    have w: "wp (batch_body env request ?r ?salt_hex ?pre ?fixed ?b)
        (\<lambda>res h'. backend_inv h' \<and> (q \<longrightarrow> quiet (cu_calls (ch_cuda h'))) \<and> rs_ok res \<and> rs_attempts res = ?b \<and>
          rs_matches res = hash_matches (argon2id_hash (rq_difficulty request) (request_salt_bytes request)) request 0 (request_keys env request) \<and>
          (?fixed \<noteq> [] \<longrightarrow> rs_hash res = argon2id_hash (rq_difficulty request) (request_salt_bytes request) ?fixed))
        (lost q) h1"
      unfolding request_keys_def by (rule body) (use stack plan in \<open>simp_all add: batch_attempts_def\<close>)
    show ?thesis
    proof (cases y)
      case (Inl e)
      have "result = ?r \<lparr> rs_error := e \<rparr>" "h' = h2" using run unfolding runs h1 Inr by (simp_all add: y Inl)
      then show ?thesis using w plan y Inl by (simp add: wp_def lost_def failed_def)
    next
      case (Inr res)
      have "result = (if 0 < rs_attempts res then res \<lparr> rs_hashrate := be_rate env (rs_attempts res) \<rparr> else res)" "h' = h2"
        using run unfolding runs h1 \<open>x = Inr u\<close> by (simp_all add: y Inr)
      then show ?thesis using w y Inr by (simp add: wp_def backend_inv_def)
    qed
  qed
qed

section \<open>Property\<close>

text \<open>
  C5 (a GPU batch computes Argon2id): from every state the backend is in between batches, a valid request
  for this backend never makes it touch memory outside its buffers, and, unless a call of the CUDA runtime
  fails, succeeds. A batch that succeeds tried keys of 64 hexadecimal digits with the requested prefix, one
  per attempt, its matches are exactly those of the RFC 9106 Argon2id hashes of these keys, in order, and
  it leaves the backend in such a state again; a batch that fails reports no attempt and no match. This
  holds for every number of first-block workers, every chunk size and interleaving, for first blocks on
  the host and on the device, for every number of warps per block, with and without the reference table,
  and whatever uninitialised memory contains.
\<close>

theorem cuda_batch_correct:
  assumes "backend_inv h" and "isValidRequest request" and "rq_backend request = ''cuda''"
    and "unat (batch_attempts request) + 16 < 2 ^ 32"
    and "unat (batch_attempts request) * (max (unat (rq_difficulty request)) 8 div 4) * 4096 < 2 ^ 64"
    and "length (rq_salt_hex request) < 2 ^ 32" and "length (dv_buf (ge_stack (be_gpu env))) = 128"
    and "CudaHashBackend_runBatch env request h = (result, h')"
  shows "\<not> cu_crashed (ch_cuda h') \<and> (quiet (cu_calls (ch_cuda h)) \<longrightarrow> rs_ok result) \<and>
    (if rs_ok result then backend_inv h' \<and> rs_attempts result = batch_attempts request \<and>
       (\<forall>k\<in>set (request_keys env request). good_key (normalizeHex (rq_key_prefix request)) k) \<and>
       rs_matches result = hash_matches (argon2id_hash (rq_difficulty request) (request_salt_bytes request)) request 0 (request_keys env request)
     else rs_attempts result = 0 \<and> rs_matches result = [])"
  using cuda_batch_spec [OF assms(1) _ assms(2-), of "quiet (cu_calls (ch_cuda h))"] valid_keys [OF assms(2)]
  by (auto simp: request_keys_def split: if_splits)

theorem cuda_batch_correct_witness:
  "let request = default_request \<lparr> rq_backend := ''cuda'', rq_salt_hex := ''00112233445566778899'', rq_batch_size := 12,
         rq_first_block_workers := 3, rq_difficulty := 8, rq_warps_per_block := 4, rq_precomputed_refs := True \<rparr>;
       stack = \<lparr> dv_h = replicate 8 7, dv_t0 = 9, dv_t1 = 9, dv_buf = replicate 128 5, dv_buf_len = 3 \<rparr>;
       env = \<lparr> be_gpu = \<lparr> ge_fresh = (\<lambda>i k. 77), ge_stack = stack \<rparr>, be_hardware_threads = 4, be_schedule = [2, 0, 0, 1],
         be_outputs = (\<lambda>n. word_of_nat (n * 12345)), be_rate = (\<lambda>n. 0) \<rparr>;
       h = new_backend \<lparr> cu_deviceIndex = 0, cu_runner = None, cu_warpsPerBlock = 1, cu_precomputedRefs = False, cu_calls = [],
         cu_crashed = False \<rparr>;
       result = fst (CudaHashBackend_runBatch env request h)
   in rs_ok result \<and> rs_attempts result = 12 \<and>
      rs_matches result = hash_matches (argon2id_hash 8 (request_salt_bytes request)) request 0 (request_keys env request)"
proof -
  let ?request = "default_request \<lparr> rq_backend := ''cuda'', rq_salt_hex := ''00112233445566778899'', rq_batch_size := 12,
         rq_first_block_workers := 3, rq_difficulty := 8, rq_warps_per_block := 4, rq_precomputed_refs := True \<rparr>"
  let ?stack = "\<lparr> dv_h = replicate 8 7, dv_t0 = 9, dv_t1 = 9, dv_buf = replicate 128 5, dv_buf_len = 3 \<rparr>"
  let ?env = "\<lparr> be_gpu = \<lparr> ge_fresh = (\<lambda>i k. 77), ge_stack = ?stack \<rparr>, be_hardware_threads = 4, be_schedule = [2, 0, 0, 1],
         be_outputs = (\<lambda>n. word_of_nat (n * 12345)), be_rate = (\<lambda>n. 0) \<rparr>"
  let ?h = "new_backend \<lparr> cu_deviceIndex = 0, cu_runner = None, cu_warpsPerBlock = 1, cu_precomputedRefs = False, cu_calls = [],
         cu_crashed = False \<rparr>"
  have valid: "isValidRequest ?request" by code_simp
  have att: "batch_attempts ?request = 12" by code_simp
  obtain result h' where run: "CudaHashBackend_runBatch ?env ?request ?h = (result, h')"
    by (cases "CudaHashBackend_runBatch ?env ?request ?h")
  have h: "backend_inv ?h" "quiet (cu_calls (ch_cuda ?h))" by (simp_all add: backend_inv_def new_backend_def quiet_def)
  have d: "rq_difficulty ?request = 8" by simp
  note c = cuda_batch_correct [OF h(1) valid _ _ _ _ _ run, unfolded att d]
  have "rs_ok result \<and> rs_attempts result = 12 \<and> rs_matches result =
      hash_matches (argon2id_hash 8 (request_salt_bytes ?request)) ?request 0 (request_keys ?env ?request)"
    using c h(2) by simp
  then show ?thesis unfolding Let_def run by simp
qed

end
