(* ===== verification/Gpu_Stream.thy ===== *)
theory Gpu_Stream
  imports Find_Capture Cuda_Batch
begin

text \<open>
  A GPU mining thread as a whole: \<open>MineUnit::runMineLoop\<close> (\<open>src/MineUnit.cpp\<close>) on the backend of
  \<open>hashapi/CudaHashBackend.cpp\<close> and its device, and \<open>runMiningOnDevice\<close> (\<open>src/main.cpp\<close>), which rebuilds
  the unit. With the submit callback of the program this is the path from the kernels to the journal.
\<close>

section \<open>The loop of a unit\<close>

text \<open>A pass reads the globals of its tick; its batch runs on the device in the state it has then.\<close>

record gpu_tick =
  gt_tick :: mine_tick
  gt_env :: batch_env

definition device_tick :: "gpu_tick \<Rightarrow> CudaHashBackend \<Rightarrow> mine_tick" where
  "device_tick t h = (gt_tick t)
     \<lparr> mk_device := cu_deviceIndex (ch_cuda h),
       mk_backend := (\<lambda>request. fst (CudaHashBackend_runBatch (gt_env t) request h)) \<rparr>"

text \<open>The request of a pass that reaches \<open>batchCompute\<close>.\<close>

definition pass_request :: "mine_tick \<Rightarrow> 'w mine_unit \<Rightarrow> HashApiRequest option" where
  "pass_request tick u =
     (if \<not> mk_running tick \<or> laneMiningDifficulty (mk_globals tick) (mu_stream_index u) \<noteq> to_signed 32 (uint (mu_difficulty u))
      then None
      else case mine_work (mk_globals tick) (mk_context tick) (mk_identity tick) (mu_batch_count u) of
             Inl _ \<Rightarrow> None
           | Inr (salt, pre) \<Rightarrow> Some (gpu_request u tick salt pre (block_pattern (mk_identity tick))))"

definition device_pass ::
  "(submission \<Rightarrow> ('w, unit) step) \<Rightarrow> gpu_tick \<Rightarrow> ('w mine_unit \<times> CudaHashBackend, int option) step" where
  "device_pass submit t = (\<lambda>(u, h).
     case mine_pass submit (device_tick t h) u of
       (rc, u') \<Rightarrow>
         (rc, u', case pass_request (device_tick t h) u of
                    None \<Rightarrow> h
                  | Some request \<Rightarrow> snd (CudaHashBackend_runBatch (gt_env t) request h)))"

fun mine_passes ::
  "(submission \<Rightarrow> ('w, unit) step) \<Rightarrow> gpu_tick list \<Rightarrow> ('w mine_unit \<times> CudaHashBackend, int option) step" where
  "mine_passes submit [] = ret None"
| "mine_passes submit (t # ts) =
     bind_step (device_pass submit t) (\<lambda>rc. case rc of Some c \<Rightarrow> ret (Some c) | None \<Rightarrow> mine_passes submit ts)"

text \<open>
  \<open>runMineLoop\<close>: the buffers of the last unit are released, the batch is sized for the memory then free,
  and the loop runs on a hash backend of its own. A list of passes that ends inside the loop leaves
  the thread there.
\<close>

record device_round =
  rd_running :: bool
  rd_globals :: mining_globals
  rd_total_memory :: u64
  rd_free_memory :: u64
  rd_ticks :: "gpu_tick list"

definition runMineLoop ::
  "(u64 \<Rightarrow> u32 \<Rightarrow> u64) \<Rightarrow> u64 \<Rightarrow> u64 \<Rightarrow> (submission \<Rightarrow> ('w, unit) step) \<Rightarrow> device_round \<Rightarrow>
   'w mine_unit \<times> cuda \<Rightarrow> (string + int option) \<times> 'w mine_unit \<times> cuda" where
  "runMineLoop fdiv streams maxBatchSize submit r = (\<lambda>(u, c).
     case activate c of
       (Inl e, c1) \<Rightarrow> (Inl e, u, c1)
     | (Inr _, c1) \<Rightarrow>
         let c2 = releaseBuffers c1;
             decision = selectCudaBatchSize fdiv (shared_memory (rd_total_memory r) (rd_free_memory r) streams)
                          (ucast (mu_difficulty u)) maxBatchSize
         in if bd_selected_batch_size decision = 0 then (Inr (Some 1), u, c2)
            else case mine_passes submit (rd_ticks r)
                        (u \<lparr> mu_batch_size := bd_selected_batch_size decision, mu_batch_count := 0 \<rparr>, new_backend c2) of
                   (rc, u', h) \<Rightarrow> (rc, u', ch_cuda h))"

section \<open>The thread of a device\<close>

text \<open>A round ends by the code its unit returned; the pause after a positive code is not modelled.\<close>

fun device_rounds ::
  "(u64 \<Rightarrow> u32 \<Rightarrow> u64) \<Rightarrow> u64 \<Rightarrow> u64 \<Rightarrow> (submission \<Rightarrow> ('w, unit) step) \<Rightarrow> int \<Rightarrow> device_round list \<Rightarrow>
   ('w \<times> cuda, unit) step" where
  "device_rounds fdiv streams maxBatchSize submit streamIndex [] (w, c) = (Inr (), w, c)"
| "device_rounds fdiv streams maxBatchSize submit streamIndex (r # rs) (w, c) =
     (if \<not> rd_running r then (Inr (), w, c)
      else case runMineLoop fdiv streams maxBatchSize submit r (new_unit (rd_globals r) streamIndex w, c) of
             (Inl e, u, c') \<Rightarrow> (Inl e, mu_outside u, c')
           | (Inr None, u, c') \<Rightarrow> (Inr (), mu_outside u, c')
           | (Inr (Some rc), u, c') \<Rightarrow>
               if rc < 0 then (Inr (), mu_outside u, c')
               else device_rounds fdiv streams maxBatchSize submit streamIndex rs (mu_outside u, c'))"

definition runMiningOnDevice ::
  "(u64 \<Rightarrow> u32 \<Rightarrow> u64) \<Rightarrow> u64 \<Rightarrow> u64 \<Rightarrow> (submission \<Rightarrow> ('w, unit) step) \<Rightarrow> int \<Rightarrow> device_round list \<Rightarrow>
   ('w \<times> cuda, unit) step" where
  "runMiningOnDevice fdiv streams maxBatchSize submit streamIndex rounds = (\<lambda>(w, c).
     case activate c of
       (Inl e, c1) \<Rightarrow> (Inl e, w, c1)
     | (Inr _, c1) \<Rightarrow> device_rounds fdiv streams maxBatchSize submit streamIndex rounds (w, c1))"

section \<open>What a pass submits\<close>

text \<open>What the unit keeps during a batch: its size and lane, and what the callback keeps of the outside.\<close>

definition unit_keeps :: "('w \<Rightarrow> bool) \<Rightarrow> 'w mine_unit \<Rightarrow> 'w mine_unit \<Rightarrow> bool" where
  "unit_keeps I u u' =
     (mu_difficulty u' = mu_difficulty u \<and> mu_stream_index u' = mu_stream_index u \<and> mu_batch_size u' = mu_batch_size u \<and>
      (I (mu_outside u) \<longrightarrow> I (mu_outside u')))"

lemma unit_po [keep_intros]: "reflp (unit_keeps I)" "transp (unit_keeps I)"
  by (auto simp: reflp_def transp_def unit_keeps_def)

lemma submit_each_keeps:
  assumes "\<And>m since rate. m \<in> set ms \<Longrightarrow> keeps (\<lambda>x y. I x \<longrightarrow> I y) (submit
      \<lparr> sb_hexsalt = salt, sb_key = mt_key m, sb_hashed_pure = mt_hash m, sb_memory_cost = ucast (mu_difficulty u),
        sb_attempts = since, sb_hashrate = rate, sb_source = ''GPU'' \<rparr>)"
  shows "unit_keeps I u (snd (submit_each submit salt ms next_index u))"
  using assms
proof (induction ms arbitrary: next_index u)
  case (Cons m ms)
  obtain since n' where c: "count_attempts (mt_attempt_index m) next_index (mu_attempts u) = (since, n')"
    by (cases "count_attempts (mt_attempt_index m) next_index (mu_attempts u)")
  let ?sb = "\<lparr> sb_hexsalt = salt, sb_key = mt_key m, sb_hashed_pure = mt_hash m,
         sb_memory_cost = ucast (mu_difficulty u), sb_attempts = since, sb_hashrate = mu_hashrate u,
         sb_source = ''GPU'' \<rparr>"
  obtain x w where s: "submit ?sb (mu_outside u) = (x, w)" by (cases "submit ?sb (mu_outside u)")
  have w: "I (mu_outside u) \<longrightarrow> I w"
    using keepsD [OF Cons.prems [of m since "mu_hashrate u"], of "mu_outside u"] s by simp
  have rest: "unit_keeps I v (snd (submit_each submit salt ms n' v))" if "mu_difficulty v = mu_difficulty u" for v
    by (rule Cons.IH) (use Cons.prems that in simp)
  let ?v = "u \<lparr> mu_attempts := 0, mu_outside := w \<rparr>"
  have "unit_keeps I ?v (snd (submit_each submit salt ms n' ?v))" by (rule rest) simp
  then show ?case using w
    by (cases x) (simp_all add: c s seq_step_def bind_step_def gets_def modify_def call_unit_def unit_keeps_def)
qed (simp add: unit_keeps_def ret_def)

lemma mine_pass_cases:
  obtains (out) rc where "pass_request tick u = None" "mine_pass submit tick u = (rc, u)" "rc \<noteq> Inr None"
  | (failed_batch) request where "pass_request tick u = Some request" "\<not> rs_ok (mk_backend tick request)"
      "mine_pass submit tick u = (Inr (Some 1), u)"
  | (batch) salt pre where
      "mine_work (mk_globals tick) (mk_context tick) (mk_identity tick) (mu_batch_count u) = Inr (salt, pre)"
      "laneMiningDifficulty (mk_globals tick) (mu_stream_index u) = to_signed 32 (uint (mu_difficulty u))"
      "pass_request tick u = Some (gpu_request u tick salt pre (block_pattern (mk_identity tick)))"
      "rs_ok (mk_backend tick (gpu_request u tick salt pre (block_pattern (mk_identity tick))))"
proof (cases "pass_request tick u")
  case None
  then have "\<exists>rc. mine_pass submit tick u = (rc, u) \<and> rc \<noteq> Inr None"
    by (auto simp: pass_request_def mine_pass_def bind_step_def gets_def ret_def throw_def split: if_splits sum.splits)
  with None out show thesis by blast
next
  case (Some request)
  then have run: "mk_running tick" "laneMiningDifficulty (mk_globals tick) (mu_stream_index u) = to_signed 32 (uint (mu_difficulty u))"
    by (auto simp: pass_request_def split: if_splits)
  from Some run obtain salt pre where w: "mine_work (mk_globals tick) (mk_context tick) (mk_identity tick) (mu_batch_count u) = Inr (salt, pre)"
    and rq: "request = gpu_request u tick salt pre (block_pattern (mk_identity tick))"
    by (auto simp: pass_request_def split: sum.splits)
  show thesis
  proof (cases "rs_ok (mk_backend tick request)")
    case True
    show thesis by (rule batch [OF w run(2)]) (use Some True in \<open>simp_all add: rq\<close>)
  next
    case False
    with w run rq have "mine_pass submit tick u = (Inr (Some 1), u)"
      by (simp add: mine_pass_def bind_step_def gets_def ret_def batchCompute_def)
    with Some False show thesis by (rule failed_batch)
  qed
qed

lemma mine_pass_keeps:
  assumes "\<And>salt pre m since rate. mine_work (mk_globals tick) (mk_context tick) (mk_identity tick) (mu_batch_count u) = Inr (salt, pre) \<Longrightarrow>
      laneMiningDifficulty (mk_globals tick) (mu_stream_index u) = to_signed 32 (uint (mu_difficulty u)) \<Longrightarrow>
      rs_ok (mk_backend tick (gpu_request u tick salt pre (block_pattern (mk_identity tick)))) \<Longrightarrow>
      m \<in> set (rs_matches (mk_backend tick (gpu_request u tick salt pre (block_pattern (mk_identity tick))))) \<Longrightarrow>
      keeps (\<lambda>x y. I x \<longrightarrow> I y) (submit
      \<lparr> sb_hexsalt = salt, sb_key = mt_key m, sb_hashed_pure = mt_hash m, sb_memory_cost = ucast (mu_difficulty u),
        sb_attempts = since, sb_hashrate = rate, sb_source = ''GPU'' \<rparr>)"
  shows "unit_keeps I u (snd (mine_pass submit tick u))"
proof (cases rule: mine_pass_cases [of tick u submit])
  case (batch salt pre)
  let ?result = "mk_backend tick (gpu_request u tick salt pre (block_pattern (mk_identity tick)))"
  have e: "unit_keeps I u (snd (submit_each submit salt (rs_matches ?result) 0 u))"
    by (rule submit_each_keeps) (rule assms [OF batch(1,2,4)])
  obtain x v where s: "submit_each submit salt (rs_matches ?result) 0 u = (x, v)"
    by (cases "submit_each submit salt (rs_matches ?result) 0 u")
  have "mk_running tick" using batch(3) by (auto simp: pass_request_def split: if_splits)
  then show ?thesis using batch e s
    by (cases x) (auto simp: mine_pass_def batchCompute_def submitMatches_def seq_step_def bind_step_def gets_def modify_def
        ret_def Let_def unit_keeps_def stat_unit_def)
qed (simp_all add: unit_keeps_def)

section \<open>What the batch finds\<close>

lemma hash_matches_member:
  assumes "m \<in> set (hash_matches hash request i keys)"
  shows "mt_key m \<in> set keys \<and> mt_hash m = hash (mt_key m) \<and>
    (contains (mt_hash m) (rq_target_pattern request) \<or> rq_allow_xuni request \<and> hasXuniMatch (mt_hash m))"
proof -
  obtain j k where "(j, k) \<in> set (zip [i..<i + length keys] keys)" "m \<in> set (matches_of request k (hash k) j)"
    using assms by (auto simp: hash_matches_def)
  moreover from this have "k \<in> set keys" by (auto dest: set_zip_rightD)
  ultimately show ?thesis by (auto simp: matches_of_def appendMatches_def default_result_def Let_def split: if_splits)
qed

text \<open>The size of a batch: below \<open>2 ^ 32\<close> attempts, and in an address space of 64 bits.\<close>

definition sized :: "u64 \<Rightarrow> u32 \<Rightarrow> bool" where
  "sized n d = (unat n + 16 < 2 ^ 32 \<and> unat n * (max (unat d) 8 div 4) * 4096 < 2 ^ 64)"

definition sound_stack :: "gpu_tick \<Rightarrow> bool" where
  "sound_stack t = (length (dv_buf (ge_stack (be_gpu (gt_env t)))) = 128)"

text \<open>A submission of a pass with this work.\<close>

definition gpu_found :: "string \<Rightarrow> string \<Rightarrow> string \<Rightarrow> bool \<Rightarrow> u32 \<Rightarrow> submission \<Rightarrow> bool" where
  "gpu_found salt_hex pre pattern xuni d sb =
     (sb_hexsalt sb = salt_hex \<and> sb_memory_cost sb = d \<and> good_key (normalizeHex pre) (sb_key sb) \<and>
      sb_hashed_pure sb = argon2id_hash d (projr (hexToBytes (normalizeHex salt_hex))) (sb_key sb) \<and>
      (contains (sb_hashed_pure sb) pattern \<or> xuni \<and> hasXuniMatch (sb_hashed_pure sb)))"

lemma gpu_request_fields [simp]:
  "rq_backend (gpu_request u tick salt pre pattern) = ''cuda''" "rq_salt_hex (gpu_request u tick salt pre pattern) = salt"
  "rq_key_prefix (gpu_request u tick salt pre pattern) = pre" "rq_target_pattern (gpu_request u tick salt pre pattern) = pattern"
  "rq_difficulty (gpu_request u tick salt pre pattern) = ucast (mu_difficulty u)"
  "batch_attempts (gpu_request u tick salt pre pattern) = mu_batch_size u"
  "rq_allow_xuni (gpu_request u tick salt pre pattern) = isWithinXuniWindow (mk_minute tick)"
  by (simp_all add: gpu_request_def batch_attempts_def default_request_def normalizeHex_def Let_def)

lemma invalid_batch:
  "\<not> isValidRequest request \<Longrightarrow> snd (CudaHashBackend_runBatch env request h) = h \<and>
     \<not> rs_ok (fst (CudaHashBackend_runBatch env request h))"
  by (simp add: CudaHashBackend_runBatch_def isValidRequest_def start_result_def default_result_def)

lemma gpu_batch:
  fixes u :: "'w mine_unit"
  assumes inv: "backend_inv h" and stack: "sound_stack t" and size: "sized (mu_batch_size u) (ucast (mu_difficulty u))"
    and salt: "length salt < 2 ^ 32"
    and rq: "request = gpu_request u tick salt pre pattern"
    and run: "CudaHashBackend_runBatch (gt_env t) request h = (result, h')"
  shows "\<not> cu_crashed (ch_cuda h')" and "rs_ok result \<Longrightarrow> backend_inv h'"
    and "rs_ok result \<Longrightarrow> m \<in> set (rs_matches result) \<Longrightarrow>
      gpu_found salt pre pattern (isWithinXuniWindow (mk_minute tick)) (ucast (mu_difficulty u))
       \<lparr> sb_hexsalt = salt, sb_key = mt_key m, sb_hashed_pure = mt_hash m, sb_memory_cost = ucast (mu_difficulty u),
         sb_attempts = since, sb_hashrate = rate, sb_source = ''GPU'' \<rparr>"
proof -
  have "\<not> cu_crashed (ch_cuda h') \<and> (rs_ok result \<longrightarrow> backend_inv h' \<and> isValidRequest request \<and>
    rs_matches result = hash_matches (argon2id_hash (rq_difficulty request) (request_salt_bytes request)) request 0
      (request_keys (gt_env t) request))"
  proof (cases "isValidRequest request")
    case True
    have spec: "\<not> cu_crashed (ch_cuda h') \<and> (False \<longrightarrow> rs_ok result) \<and>
      (if rs_ok result then backend_inv h' \<and> (False \<longrightarrow> quiet (cu_calls (ch_cuda h'))) \<and> rs_attempts result = batch_attempts request \<and>
         rs_matches result = hash_matches (argon2id_hash (rq_difficulty request) (request_salt_bytes request)) request 0
           (request_keys (gt_env t) request) \<and>
         (normalizeHex (rq_key request) \<noteq> [] \<longrightarrow>
            rs_hash result = argon2id_hash (rq_difficulty request) (request_salt_bytes request) (normalizeHex (rq_key request)))
       else rs_attempts result = 0 \<and> rs_matches result = [])"
      by (rule cuda_batch_spec [OF inv _ True _ _ _ _ _ run])
        (use stack size salt in \<open>simp_all add: rq sized_def sound_stack_def\<close>)
    with True show ?thesis by (auto split: if_splits)
  next
    case False
    then show ?thesis using invalid_batch [OF False, of "gt_env t" h] run inv by (simp add: backend_inv_def)
  qed
  note spec = this
  show "\<not> cu_crashed (ch_cuda h')" and "rs_ok result \<Longrightarrow> backend_inv h'" using spec by simp_all
  show "gpu_found salt pre pattern (isWithinXuniWindow (mk_minute tick)) (ucast (mu_difficulty u))
       \<lparr> sb_hexsalt = salt, sb_key = mt_key m, sb_hashed_pure = mt_hash m, sb_memory_cost = ucast (mu_difficulty u),
         sb_attempts = since, sb_hashrate = rate, sb_source = ''GPU'' \<rparr>"
    if ok: "rs_ok result" and m: "m \<in> set (rs_matches result)"
  proof -
    have f: "mt_key m \<in> set (request_keys (gt_env t) request) \<and>
      mt_hash m = argon2id_hash (rq_difficulty request) (request_salt_bytes request) (mt_key m) \<and>
      (contains (mt_hash m) (rq_target_pattern request) \<or> rq_allow_xuni request \<and> hasXuniMatch (mt_hash m))"
      by (rule hash_matches_member) (use spec ok m in simp)
    then have "good_key (normalizeHex (rq_key_prefix request)) (mt_key m)"
      unfolding request_keys_def using valid_keys spec ok by blast
    with f show ?thesis by (auto simp: gpu_found_def rq request_salt_bytes_def)
  qed
qed

section \<open>The passes of a unit\<close>

text \<open>What a submission in a pass of this tick on this lane can be.\<close>

definition tick_found :: "int \<Rightarrow> gpu_tick \<Rightarrow> submission \<Rightarrow> bool" where
  "tick_found lane t sb = (let tick = gt_tick t; d = word_of_int (laneMiningDifficulty (mk_globals tick) lane) in
     \<exists>n salt pre. mine_work (mk_globals tick) (mk_context tick) (mk_identity tick) n = Inr (salt, pre) \<and>
       gpu_found salt pre (block_pattern (mk_identity tick)) (isWithinXuniWindow (mk_minute tick)) d sb)"

text \<open>Every string is shorter than \<open>2 ^ 32\<close>, as its length is an unsigned integer in the code.\<close>

definition sound_tick :: "gpu_tick \<Rightarrow> bool" where
  "sound_tick t = (let tick = gt_tick t in sound_stack t \<and> length (ctx_address (mk_context tick)) < 2 ^ 32 \<and>
     length (userAddress (mk_identity tick)) < 2 ^ 32 \<and> length (g_devfee_address (mk_globals tick)) < 2 ^ 32 \<and>
     length (g_eco_devfee_address (mk_globals tick)) < 2 ^ 32)"

lemma substr2_length: "substr2 s = Inr x \<Longrightarrow> length x \<le> length s"
  by (auto simp: substr2_def split: if_splits)

lemma fee_salt_length: "fee_work fee pre user = Inr (salt, p) \<Longrightarrow> length salt \<le> length fee"
  by (auto simp: fee_work_def dest: substr2_length split: sum.splits)

lemma work_salt_length:
  assumes "mine_work g ctx ident n = Inr (salt, pre)"
  shows "length salt \<le> max (max (length (ctx_address ctx)) (length (userAddress ident)))
    (max (length (g_devfee_address g)) (length (g_eco_devfee_address g)))"
  using assms
  by (auto simp: mine_work_def platform_salt_def le_max_iff_disj dest: substr2_length fee_salt_length split: if_splits sum.splits)

lemma sound_salt:
  "sound_tick t \<Longrightarrow> mine_work (mk_globals (gt_tick t)) (mk_context (gt_tick t)) (mk_identity (gt_tick t)) n = Inr (salt, pre)
     \<Longrightarrow> length salt < 2 ^ 32"
  by (drule work_salt_length) (auto simp: sound_tick_def Let_def)

lemma device_tick_fields [simp]:
  "mk_globals (device_tick t h) = mk_globals (gt_tick t)" "mk_context (device_tick t h) = mk_context (gt_tick t)"
  "mk_identity (device_tick t h) = mk_identity (gt_tick t)" "mk_minute (device_tick t h) = mk_minute (gt_tick t)"
  "mk_backend (device_tick t h) request = fst (CudaHashBackend_runBatch (gt_env t) request h)"
  by (simp_all add: device_tick_def)

lemma lane_cost: "word_of_int (to_signed 32 (uint (d :: u64))) = (ucast d :: u32)"
proof -
  have "(word_of_int (to_signed 32 i) :: u32) = word_of_int i" for i
  proof -
    have "to_signed 32 i mod 2 ^ 32 = i mod 2 ^ 32" by (simp add: to_signed_def mod_simps)
    then show ?thesis by (simp add: word_of_int_eq_iff take_bit_eq_mod)
  qed
  from this [of "uint d"] show ?thesis by (rule trans) (rule ucast_eq [symmetric])
qed

lemma device_pass_spec:
  fixes u :: "'w mine_unit"
  assumes inv: "backend_inv h" and t: "sound_tick t" and size: "sized (mu_batch_size u) (ucast (mu_difficulty u))"
    and submit: "\<And>sb. tick_found (mu_stream_index u) t sb \<Longrightarrow> keeps (\<lambda>x y. I x \<longrightarrow> I y) (submit sb)"
    and run: "device_pass submit t (u, h) = (rc, u', h')"
  shows "\<not> cu_crashed (ch_cuda h') \<and> unit_keeps I u u' \<and> (rc = Inr None \<longrightarrow> backend_inv h')"
proof -
  let ?tick = "device_tick t h" and ?g = "mk_globals (gt_tick t)"
  have stack: "sound_stack t" using t by (simp add: sound_tick_def Let_def)
  obtain rc' u'' where p: "mine_pass submit ?tick u = (rc', u'')" by (cases "mine_pass submit ?tick u")
  have "unit_keeps I u (snd (mine_pass submit ?tick u))"
  proof (rule mine_pass_keeps, goal_cases)
    case (1 salt pre m since rate)
    let ?rq = "gpu_request u ?tick salt pre (block_pattern (mk_identity ?tick))"
    obtain result k where r: "CudaHashBackend_runBatch (gt_env t) ?rq h = (result, k)"
      by (cases "CudaHashBackend_runBatch (gt_env t) ?rq h")
    have w: "mine_work ?g (mk_context (gt_tick t)) (mk_identity (gt_tick t)) (mu_batch_count u) = Inr (salt, pre)" using 1(1) by simp
    note b = gpu_batch(3) [OF inv stack size sound_salt [OF t w] refl r]
    have "word_of_int (laneMiningDifficulty ?g (mu_stream_index u)) = (ucast (mu_difficulty u) :: u32)"
      using 1(2) by (simp add: lane_cost)
    then show ?case using b [of m since rate] 1 w r by (intro submit) (auto simp: tick_found_def Let_def)
  qed
  moreover have "\<not> cu_crashed (ch_cuda h') \<and> (rc = Inr None \<longrightarrow> backend_inv h')"
  proof (cases rule: mine_pass_cases [of ?tick u submit])
    case (batch salt pre)
    let ?rq = "gpu_request u ?tick salt pre (block_pattern (mk_identity ?tick))"
    obtain result k where r: "CudaHashBackend_runBatch (gt_env t) ?rq h = (result, k)"
      by (cases "CudaHashBackend_runBatch (gt_env t) ?rq h")
    have "length salt < 2 ^ 32" using sound_salt [OF t] batch(1) by simp
    from gpu_batch(1,2) [OF inv stack size this refl r] show ?thesis
      using batch(3,4) run p r by (simp add: device_pass_def)
  next
    case (failed_batch request)
    then obtain salt pre where w: "mine_work ?g (mk_context (gt_tick t)) (mk_identity (gt_tick t)) (mu_batch_count u) = Inr (salt, pre)"
      and rq: "request = gpu_request u ?tick salt pre (block_pattern (mk_identity ?tick))"
      by (auto simp: pass_request_def split: if_splits sum.splits)
    obtain result k where r: "CudaHashBackend_runBatch (gt_env t) request h = (result, k)"
      by (cases "CudaHashBackend_runBatch (gt_env t) request h")
    from gpu_batch(1) [OF inv stack size sound_salt [OF t w] rq r] show ?thesis
      using failed_batch run p r by (auto simp: device_pass_def)
  qed (use inv run p in \<open>auto simp: device_pass_def backend_inv_def\<close>)
  ultimately show ?thesis using run p by (simp add: device_pass_def)
qed

lemma mine_passes_spec:
  fixes u :: "'w mine_unit"
  assumes "backend_inv h" and "\<forall>t\<in>set ts. sound_tick t" and "sized (mu_batch_size u) (ucast (mu_difficulty u))"
    and "\<And>t sb. t \<in> set ts \<Longrightarrow> tick_found (mu_stream_index u) t sb \<Longrightarrow> keeps (\<lambda>x y. I x \<longrightarrow> I y) (submit sb)"
    and "mine_passes submit ts (u, h) = (rc, u', h')"
  shows "\<not> cu_crashed (ch_cuda h') \<and> unit_keeps I u u'"
  using assms
proof (induction ts arbitrary: u h)
  case Nil
  then show ?case by (simp add: ret_def unit_keeps_def backend_inv_def)
next
  case (Cons t ts)
  obtain rc1 u1 h1 where p: "device_pass submit t (u, h) = (rc1, u1, h1)" by (cases "device_pass submit t (u, h)") auto
  have spec: "\<not> cu_crashed (ch_cuda h1) \<and> unit_keeps I u u1 \<and> (rc1 = Inr None \<longrightarrow> backend_inv h1)"
    by (rule device_pass_spec [OF Cons.prems(1) _ Cons.prems(3) _ p]) (use Cons.prems(2,4) in auto)
  show ?case
  proof (cases "rc1 = Inr None")
    case True
    have u1: "mu_batch_size u1 = mu_batch_size u" "mu_difficulty u1 = mu_difficulty u" "mu_stream_index u1 = mu_stream_index u"
      using spec by (simp_all add: unit_keeps_def)
    have "mine_passes submit ts (u1, h1) = (rc, u', h')" using Cons.prems(5) p True by (simp add: bind_step_def)
    then have "\<not> cu_crashed (ch_cuda h') \<and> unit_keeps I u1 u'"
      by (rule Cons.IH [rotated 4]) (use spec True Cons.prems in \<open>auto simp: u1\<close>)
    then show ?thesis using spec by (auto simp: unit_keeps_def)
  next
    case False
    then show ?thesis using Cons.prems(5) p spec by (auto simp: bind_step_def ret_def split: sum.splits option.splits)
  qed
qed

section \<open>The size of a batch\<close>

text \<open>The floating-point quotient: a batch of the chosen size fits the memory it was chosen for.\<close>

definition sound_division :: "(u64 \<Rightarrow> u32 \<Rightarrow> u64) \<Rightarrow> bool" where
  "sound_division fdiv = (\<forall>a d. unat (fdiv a d) * unat d * 1024 \<le> unat a)"

lemma shared_memory_le: "shared_memory totalMemory freeMemory streams \<le> freeMemory"
  by (simp add: shared_memory_def Let_def)

lemma selected_le:
  assumes "bd_selected_batch_size (selectCudaBatchSize fdiv free d maxBatchSize) \<noteq> 0"
  shows "d \<noteq> 0 \<and> default_reserve_bytes < free \<and>
    bd_selected_batch_size (selectCudaBatchSize fdiv free d maxBatchSize) \<le> fdiv (free - default_reserve_bytes) d"
  using assms
  by (auto simp: selectCudaBatchSize_def choose_batch_size_def estimateCudaMemoryBatchLimit_def no_decision_def Let_def not_le
      split: if_splits)

lemma selected_sized:
  assumes "sound_division fdiv" and "unat free < 2 ^ 41" and "memory \<le> free"
    and "bd_selected_batch_size (selectCudaBatchSize fdiv memory d maxBatchSize) \<noteq> 0"
  shows "sized (bd_selected_batch_size (selectCudaBatchSize fdiv memory d maxBatchSize)) d"
proof -
  let ?n = "bd_selected_batch_size (selectCudaBatchSize fdiv memory d maxBatchSize)"
  note s = selected_le [OF assms(4)]
  have "memory - default_reserve_bytes \<le> memory" by (rule word_sub_le [OF less_imp_le]) (use s in simp)
  then have "unat (memory - default_reserve_bytes) \<le> unat free"
    using assms(3) by (meson order_trans word_le_nat_alt)
  then have "unat ?n * unat d * 1024 < 2 ^ 41"
    using s assms(1,2) unfolding sound_division_def
    by (meson le_less_trans mult_le_mono1 order_trans word_le_nat_alt)
  then have nd: "unat ?n * unat d < 2 ^ 31" by (simp add: mult.commute)
  moreover have "1 \<le> unat d" using s by (simp add: Suc_le_eq unat_gt_0)
  ultimately have n: "unat ?n < 2 ^ 31" using le_less_trans [OF mult_le_mono2 [of 1 "unat d" "unat ?n"]] by simp
  have "unat ?n * max (unat d) 8 \<le> 2 ^ 34" using nd n by (simp add: max_def)
  from order_trans [OF mult_le_mono2 [OF div_le_dividend] this]
  have "unat ?n * (max (unat d) 8 div 4) \<le> 2 ^ 34" .
  then have "unat ?n * (max (unat d) 8 div 4) * 4096 < 2 ^ 64" by simp
  with n show ?thesis by (simp add: sized_def)
qed

section \<open>The rounds of a device\<close>

definition sound_round :: "device_round \<Rightarrow> bool" where
  "sound_round r = (unat (rd_free_memory r) < 2 ^ 41 \<and> (\<forall>t\<in>set (rd_ticks r). sound_tick t))"

lemma activate_cases:
  obtains x c' where "activate c = (x, c')" "cu_crashed c' = cu_crashed c"
  by (cases "activate c") (auto simp: activate_def cuda_check_def split: list.splits)

lemma runMineLoop_spec:
  fixes u :: "'w mine_unit"
  assumes division: "sound_division fdiv" and r: "sound_round r" and c: "\<not> cu_crashed c"
    and submit: "\<And>t sb. t \<in> set (rd_ticks r) \<Longrightarrow> tick_found (mu_stream_index u) t sb \<Longrightarrow> keeps (\<lambda>x y. I x \<longrightarrow> I y) (submit sb)"
    and run: "runMineLoop fdiv streams maxBatchSize submit r (u, c) = (rc, u', c')"
  shows "\<not> cu_crashed c' \<and> (I (mu_outside u) \<longrightarrow> I (mu_outside u'))"
proof -
  obtain x c1 where a: "activate c = (x, c1)" "cu_crashed c1 = cu_crashed c" by (rule activate_cases)
  let ?decision = "selectCudaBatchSize fdiv (shared_memory (rd_total_memory r) (rd_free_memory r) streams)
      (ucast (mu_difficulty u)) maxBatchSize"
  let ?u = "u \<lparr> mu_batch_size := bd_selected_batch_size ?decision, mu_batch_count := 0 \<rparr>"
  show ?thesis
  proof (cases "isl x \<or> bd_selected_batch_size ?decision = 0")
    case True
    then show ?thesis using run a c by (cases x) (auto simp: runMineLoop_def Let_def releaseBuffers_def)
  next
    case False
    obtain rc1 v h where p: "mine_passes submit (rd_ticks r) (?u, new_backend (releaseBuffers c1)) = (rc1, v, h)"
      by (cases "mine_passes submit (rd_ticks r) (?u, new_backend (releaseBuffers c1))") auto
    have "\<not> cu_crashed (ch_cuda h) \<and> unit_keeps I ?u v"
    proof (rule mine_passes_spec [OF _ _ _ _ p])
      show "backend_inv (new_backend (releaseBuffers c1))"
        using a c by (simp add: backend_inv_def new_backend_def releaseBuffers_def)
      show "sized (mu_batch_size ?u) (ucast (mu_difficulty ?u))"
        using selected_sized [OF division _ shared_memory_le] r False by (simp add: sound_round_def)
    qed (use r submit in \<open>simp_all add: sound_round_def\<close>)
    then show ?thesis using run a p False by (cases x) (auto simp: runMineLoop_def Let_def unit_keeps_def)
  qed
qed

lemma device_rounds_spec:
  assumes "sound_division fdiv" and "\<forall>r\<in>set rounds. sound_round r" and "\<not> cu_crashed c"
    and "\<And>r t sb. r \<in> set rounds \<Longrightarrow> t \<in> set (rd_ticks r) \<Longrightarrow> tick_found lane t sb \<Longrightarrow> keeps (\<lambda>x y. I x \<longrightarrow> I y) (submit sb)"
    and "device_rounds fdiv streams maxBatchSize submit lane rounds (w, c) = (rc, w', c')"
  shows "\<not> cu_crashed c' \<and> (I w \<longrightarrow> I w')"
  using assms(2-)
proof (induction rounds arbitrary: w c)
  case (Cons r rounds)
  show ?case
  proof (cases "rd_running r")
    case True
    obtain rc1 u c1 where p: "runMineLoop fdiv streams maxBatchSize submit r (new_unit (rd_globals r) lane w, c) = (rc1, u, c1)"
      by (cases "runMineLoop fdiv streams maxBatchSize submit r (new_unit (rd_globals r) lane w, c)") auto
    have "\<not> cu_crashed c1 \<and> (I (mu_outside (new_unit (rd_globals r) lane w)) \<longrightarrow> I (mu_outside u))"
      by (rule runMineLoop_spec [OF assms(1) _ Cons.prems(2) _ p]) (use Cons.prems(1,3) in \<open>auto simp: new_unit_def\<close>)
    then have u: "\<not> cu_crashed c1" "I w \<longrightarrow> I (mu_outside u)" by (simp_all add: new_unit_def)
    have rest: "\<not> cu_crashed c' \<and> (I (mu_outside u) \<longrightarrow> I w')"
      if "device_rounds fdiv streams maxBatchSize submit lane rounds (mu_outside u, c1) = (rc, w', c')"
      by (rule Cons.IH [OF _ u(1) _ that]) (use Cons.prems(1,3) in auto)
    show ?thesis using Cons.prems(4) True p u rest by (auto split: sum.splits option.splits if_splits)
  next
    case False
    then show ?thesis using Cons.prems by simp
  qed
qed simp

lemma runMiningOnDevice_spec:
  assumes "sound_division fdiv" and "\<forall>r\<in>set rounds. sound_round r" and "\<not> cu_crashed c"
    and "\<And>r t sb. r \<in> set rounds \<Longrightarrow> t \<in> set (rd_ticks r) \<Longrightarrow> tick_found lane t sb \<Longrightarrow> keeps (\<lambda>x y. I x \<longrightarrow> I y) (submit sb)"
    and "runMiningOnDevice fdiv streams maxBatchSize submit lane rounds (w, c) = (rc, w', c')"
  shows "\<not> cu_crashed c' \<and> (I w \<longrightarrow> I w')"
proof -
  obtain x c1 where a: "activate c = (x, c1)" "cu_crashed c1 = cu_crashed c" by (rule activate_cases)
  show ?thesis
  proof (cases x)
    case (Inr y)
    have d: "device_rounds fdiv streams maxBatchSize submit lane rounds (w, c1) = (rc, w', c')"
      using assms(5) a Inr by (simp add: runMiningOnDevice_def)
    show ?thesis by (rule device_rounds_spec [OF assms(1,2) _ assms(4) d]) (use a assms(3) in simp_all)
  qed (use assms(3,5) a in \<open>simp add: runMiningOnDevice_def\<close>)
qed

section \<open>Genuine rows\<close>

text \<open>A row whose PHC string is that of the Argon2id hash of its key, for work of this tick.\<close>

definition gpu_row :: "int \<Rightarrow> gpu_tick \<Rightarrow> find_row \<Rightarrow> bool" where
  "gpu_row lane t row =
     (let tick = gt_tick t; d = word_of_int (laneMiningDifficulty (mk_globals tick) lane) in
      \<exists>n salt_hex pre salt.
        mine_work (mk_globals tick) (mk_context tick) (mk_identity tick) n = Inr (salt_hex, pre) \<and>
        hexToBytes salt_hex = Inr salt \<and> good_key (normalizeHex pre) (col_key row) \<and>
        col_m row = uint d \<and> col_account row = ''0x'' @ salt_hex \<and>
        (let digest = argon2id_hash d salt (col_key row) in
         col_hash_to_verify row = phc_parameters d @ base64Encode salt @ ''$'' @ digest \<and>
         (contains digest (block_pattern (mk_identity tick)) \<or> isWithinXuniWindow (mk_minute tick) \<and> hasXuniMatch digest)))"

lemma tick_found_row:
  assumes "tick_found lane t sb" and "assemblePhc (sb_memory_cost sb) (sb_hexsalt sb) (sb_hashed_pure sb) = Inr phc"
  shows "gpu_row lane t (insert_row i (find_payload mid now sb phc))"
proof -
  let ?tick = "gt_tick t"
  let ?d = "word_of_int (laneMiningDifficulty (mk_globals ?tick) lane) :: u32"
  obtain n salt_hex pre where w: "mine_work (mk_globals ?tick) (mk_context ?tick) (mk_identity ?tick) n = Inr (salt_hex, pre)"
    and f: "gpu_found salt_hex pre (block_pattern (mk_identity ?tick)) (isWithinXuniWindow (mk_minute ?tick)) ?d sb"
    using assms(1) by (auto simp: tick_found_def Let_def)
  note f = f [unfolded gpu_found_def]
  obtain salt where s: "hexToBytes salt_hex = Inr salt"
    using assms(2) f by (auto simp: assemblePhc_def split: sum.splits)
  then have "projr (hexToBytes (normalizeHex salt_hex)) = salt" by (simp add: hexToBytes_normalize)
  moreover have "phc = phc_parameters ?d @ base64Encode salt @ ''$'' @ sb_hashed_pure sb"
    using assms(2) s f by (simp add: assemblePhc_def)
  ultimately show ?thesis unfolding gpu_row_def Let_def
    by - (rule exI [of _ n], rule exI [of _ salt_hex], rule exI [of _ pre], rule exI [of _ salt],
      use w s f in \<open>auto simp: insert_row_def find_payload_def\<close>)
qed

section \<open>Properties\<close>

text \<open>
  C4 (the journal of a GPU miner holds genuine finds): let a mining thread run any rounds and passes on
  its device, with any difficulties, contexts and identities, CUDA failures anywhere, and the callback of
  the program. It never touches memory outside its buffers, and every row of the journal that was not
  there at the start belongs to a pass of the run: the memory cost is that of the lane, the account is the
  salt of the chosen work, the key has 64 hexadecimal digits with its prefix, and the stored PHC string is
  that of the RFC 9106 Argon2id hash of this key, which has the pattern, or a XUNI inside its window. The
  floating-point quotient must not exceed the memory it divides.
\<close>

theorem gpu_journal_genuine:
  assumes "sound_division fdiv" and "\<forall>r\<in>set rounds. sound_round r" and "\<not> cu_crashed c"
    and "runMiningOnDevice fdiv streams maxBatchSize (submitCallback fmt17g envs) lane rounds (s, c) = (rc, s', c')"
  shows "\<not> cu_crashed c' \<and>
    (\<forall>row\<in>set (finds (ca_db s')). row \<in> set (finds (ca_db s)) \<or>
       (\<exists>r\<in>set rounds. \<exists>t\<in>set (rd_ticks r). gpu_row lane t row))"
proof -
  let ?I = "\<lambda>x. \<forall>row\<in>set (finds (ca_db x)). row \<in> set (finds (ca_db s)) \<or>
       (\<exists>r\<in>set rounds. \<exists>t\<in>set (rd_ticks r). gpu_row lane t row)"
  have k: "keeps (\<lambda>x y. ?I x \<longrightarrow> ?I y) (submitCallback fmt17g envs sb)"
    if "r \<in> set rounds" "t \<in> set (rd_ticks r)" "tick_found lane t sb" for r t sb
    by (rule callback_rows) (use tick_found_row [OF that(3)] that(1,2) in blast)
  have "\<not> cu_crashed c' \<and> (?I s \<longrightarrow> ?I s')"
    by (rule runMiningOnDevice_spec [OF assms(1-3) _ assms(4)]) (rule k)
  then show ?thesis by blast
qed

text \<open>A run that finds something: the pattern looked for is the hash of the only key with the prefix.\<close>

definition lease_salt :: string where "lease_salt = ''00112233445566778899''"

definition lease_hash :: string where
  "lease_hash = argon2id_hash 8 (projr (hexToBytes lease_salt)) sample_key"

definition lease_tick :: gpu_tick where
  "lease_tick = \<lparr>
     gt_tick = \<lparr> mk_running = True, mk_globals = initial_globals \<lparr> g_difficulty := 8 \<rparr>,
       mk_context = default_context \<lparr> ctx_mode := PLATFORM_MINING, ctx_address := lease_salt, ctx_prefix := sample_key \<rparr>,
       mk_identity = \<lparr> userAddress = ''0xab'', selfMiningPrefix = [], testBlockPattern = lease_hash \<rparr>,
       mk_minute = 30, mk_device = 0, mk_warps = 1, mk_precomputed_refs = False,
       mk_backend = (\<lambda>_. default_result), mk_rate = (\<lambda>_. 0) \<rparr>,
     gt_env = \<lparr> be_gpu = \<lparr> ge_fresh = (\<lambda>i k. 77),
         ge_stack = \<lparr> dv_h = replicate 8 7, dv_t0 = 9, dv_t1 = 9, dv_buf = replicate 128 5, dv_buf_len = 3 \<rparr> \<rparr>,
       be_hardware_threads = 4, be_schedule = [], be_outputs = (\<lambda>_. 0), be_rate = (\<lambda>_. 0) \<rparr> \<rparr>"

definition lease_round :: device_round where
  "lease_round = \<lparr> rd_running = True, rd_globals = initial_globals \<lparr> g_difficulty := 8 \<rparr>, rd_total_memory = 2 ^ 30,
     rd_free_memory = 2 ^ 30, rd_ticks = [lease_tick] \<rparr>"

definition floor_division :: "u64 \<Rightarrow> u32 \<Rightarrow> u64" where
  "floor_division a d = word_of_nat (unat a div (unat d * 1025))"

definition sample_device :: cuda where
  "sample_device = \<lparr> cu_deviceIndex = 0, cu_runner = None, cu_warpsPerBlock = 1, cu_precomputedRefs = False, cu_calls = [],
     cu_crashed = False \<rparr>"

lemma floor_division_sound: "sound_division floor_division"
  unfolding sound_division_def
proof (intro allI)
  fix a :: u64 and d :: u32
  have "unat (floor_division a d) \<le> unat a div (unat d * 1025)" by (simp add: floor_division_def unat_of_nat)
  then have "unat (floor_division a d) * unat d * 1024 \<le> unat a div (unat d * 1025) * (unat d * 1025)"
    by (simp add: mult.assoc mult_le_mono)
  also have "\<dots> \<le> unat a" by (rule div_times_less_eq_dividend)
  finally show "unat (floor_division a d) * unat d * 1024 \<le> unat a" .
qed

lemma lease_salt_plain: "normalizeHex lease_salt = lease_salt" "platform_salt (mk_context (gt_tick lease_tick)) = lease_salt"
  by (simp_all add: lease_salt_def lease_tick_def platform_salt_def normalizeHex_def tolower_def isupper_def code_def default_context_def Let_def)

lemma sample_key_plain: "normalizeHex sample_key = sample_key" "length sample_key = 64" "isHexText sample_key" "sample_key \<noteq> []"
  by (simp_all add: sample_key_def normalizeHex_def isHexText_def hex_nibble_def tolower_def isupper_def code_def Let_def list_all_iff)

lemma lease_hash_text: "lease_hash \<noteq> []" "length lease_hash \<le> 128"
proof -
  have l: "length (argon2id_tag 8 salt pwd) = 64" for salt pwd
    by (simp add: argon2id_tag_def Let_def variable_hash_length)
  then have "argon2id_tag 8 salt pwd \<noteq> []" for salt pwd
    by (metis list.size(3) zero_neq_numeral)
  then show "lease_hash \<noteq> []" unfolding lease_hash_def argon2id_hash_def by (intro base64_nonempty)
  show "length lease_hash \<le> 128" by (simp add: lease_hash_def argon2id_hash_def base64_length l base64EncodedLength_def)
qed

lemma lease_work:
  "mine_work (mk_globals (gt_tick lease_tick)) (mk_context (gt_tick lease_tick)) (mk_identity (gt_tick lease_tick)) n
     = Inr (lease_salt, sample_key)"
  "block_pattern (mk_identity (gt_tick lease_tick)) = lease_hash"
  "laneMiningDifficulty (mk_globals (gt_tick lease_tick)) 0 = 8"
  "isWithinXuniWindow (mk_minute (gt_tick lease_tick)) = False"
  using lease_salt_plain(2) lease_hash_text(1)
  by (simp_all add: mine_work_def lease_tick_def block_pattern_def laneMiningDifficulty_def liveMiningDifficulty_def
      initial_globals_def isWithinXuniWindow_def Let_def)

lemma lease_sound: "sound_round lease_round"
  by (simp add: sound_round_def lease_round_def sound_tick_def sound_stack_def lease_tick_def default_context_def
      initial_globals_def lease_salt_def Let_def)

lemma lease_batch:
  fixes u :: "'w mine_unit"
  assumes u: "mu_difficulty u = 8" "mu_batch_size u = 1"
    and h: "h = new_backend (releaseBuffers sample_device)"
    and rq: "rq = gpu_request u (device_tick lease_tick h) lease_salt sample_key lease_hash"
    and run: "CudaHashBackend_runBatch (gt_env lease_tick) rq h = (result, h')"
  obtains m where "rs_ok result" "rs_attempts result = 1" "rs_matches result = [m]" "mt_key m = sample_key"
    "mt_hash m = lease_hash" "mt_attempt_index m = 0"
proof -
  have inv: "backend_inv h" "quiet (cu_calls (ch_cuda h))"
    by (simp_all add: h backend_inv_def new_backend_def releaseBuffers_def sample_device_def quiet_def)
  have hex: "isHexText lease_salt" "length lease_salt = 20"
    by (simp_all add: lease_salt_def isHexText_def hex_nibble_def code_def list_all_iff)
  have valid: "isValidRequest rq"
    using lease_hash_text lease_salt_plain(1) sample_key_plain hex
    by (auto simp: rq isValidRequest_def validateRequest_def gpu_request_def default_request_def u h device_tick_def lease_tick_def
        isSupportedAlgorithm_def isSupportedBackend_def salt_errors_def key_errors_def kHashApiKeyLength_def
        kMaxTargetPatternLength_def kMaxWarpsPerBlock_def new_backend_def releaseBuffers_def sample_device_def normalizeHex_def Let_def)
  have "rs_ok result \<and> rs_attempts result = 1 \<and>
      rs_matches result = hash_matches (argon2id_hash 8 (projr (hexToBytes lease_salt))) rq 0 (request_keys (gt_env lease_tick) rq)"
    using cuda_batch_spec [OF inv(1) _ valid _ _ _ _ _ run, of True] inv(2) lease_sound hex(2)
    by (simp add: rq u sound_round_def lease_round_def sound_tick_def sound_stack_def request_salt_bytes_def lease_salt_plain Let_def)
  moreover have "request_keys (gt_env lease_tick) rq = [sample_key]"
  proof -
    have "length (request_keys (gt_env lease_tick) rq) = 1" by (simp add: request_keys_def rq u)
    then obtain k where k: "request_keys (gt_env lease_tick) rq = [k]" by (auto simp: length_Suc_conv)
    have "good_key (normalizeHex (rq_key_prefix rq)) k"
      by (rule valid_keys [OF valid, where n = "unat (batch_attempts rq)" and outputs = "be_outputs (gt_env lease_tick)"])
        (use k in \<open>simp add: request_keys_def\<close>)
    then have "length k = 64" "prefix sample_key k" by (simp_all add: rq good_key_def sample_key_plain kHashApiKeyLength_def)
    then have "k = sample_key" using sample_key_plain(2) by (auto simp: prefix_def)
    with k show ?thesis by simp
  qed
  ultimately have r: "rs_ok result" "rs_attempts result = 1" "rs_matches result = matches_of rq sample_key lease_hash 0"
    by (simp_all add: hash_matches_def lease_hash_def)
  have "contains lease_hash lease_hash" using contains_middle [of "[]" lease_hash "[]"] by simp
  then have "\<exists>m. matches_of rq sample_key lease_hash 0 = [m] \<and> mt_key m = sample_key \<and> mt_hash m = lease_hash \<and> mt_attempt_index m = 0"
    by (simp add: matches_of_def appendMatches_def rq lease_work default_result_def Let_def)
  with r that show thesis by fastforce
qed

lemma lease_pass:
  fixes u :: "'w mine_unit" and submit :: "submission \<Rightarrow> ('w, unit) step"
  assumes u: "mu_difficulty u = 8" "mu_batch_size u = 1" "mu_stream_index u = 0" "mu_attempts u = 0" "mu_hashrate u = 0"
    and h: "h = new_backend (releaseBuffers sample_device)"
    and sb: "sb = \<lparr> sb_hexsalt = lease_salt, sb_key = sample_key, sb_hashed_pure = lease_hash, sb_memory_cost = 8,
       sb_attempts = 1, sb_hashrate = 0, sb_source = ''GPU'' \<rparr>"
    and submit: "fst (submit sb (mu_outside u)) = Inr ()"
  shows "\<exists>v. mine_pass submit (device_tick lease_tick h) u = (Inr None, v) \<and> mu_outside v = snd (submit sb (mu_outside u))"
proof -
  let ?tick = "device_tick lease_tick h"
  let ?rq = "gpu_request u ?tick lease_salt sample_key lease_hash"
  obtain result h' where run: "CudaHashBackend_runBatch (gt_env lease_tick) ?rq h = (result, h')"
    by (cases "CudaHashBackend_runBatch (gt_env lease_tick) ?rq h")
  obtain m where m: "rs_ok result" "rs_attempts result = 1" "rs_matches result = [m]" "mt_key m = sample_key"
    "mt_hash m = lease_hash" "mt_attempt_index m = 0"
    by (rule lease_batch [OF u(1,2) h refl run])
  obtain w where w: "submit sb (mu_outside u) = (Inr (), w)" using submit by (cases "submit sb (mu_outside u)") auto
  have run': "mk_running ?tick" "to_signed 32 (uint (mu_difficulty u)) = 8"
    by (simp_all add: device_tick_def lease_tick_def u to_signed_def)
  show ?thesis
    using m w run' u lease_work run
    by (simp add: mine_pass_def bind_step_def gets_def batchCompute_def submitMatches_def seq_step_def modify_def call_unit_def
        ret_def count_attempts_def stat_unit_def sb Let_def)
qed

text \<open>The run hands the one find to the callback and waits inside its loop.\<close>

lemma lease_run:
  fixes s :: 'w
  assumes sb: "sb = \<lparr> sb_hexsalt = lease_salt, sb_key = sample_key, sb_hashed_pure = lease_hash, sb_memory_cost = 8,
       sb_attempts = 1, sb_hashrate = 0, sb_source = ''GPU'' \<rparr>"
    and submit: "fst (submit sb s) = Inr ()"
  shows "\<exists>c'. runMiningOnDevice floor_division 1 1 submit 0 [lease_round] (s, sample_device) = (Inr (), snd (submit sb s), c')"
proof -
  let ?h = "new_backend (releaseBuffers sample_device)" and ?u = "new_unit (rd_globals lease_round) 0 s"
  let ?v = "?u \<lparr> mu_batch_size := 1, mu_batch_count := 0 \<rparr>"
  have unit: "mu_difficulty ?v = 8" "mu_batch_size ?v = 1" "mu_stream_index ?v = 0" "mu_attempts ?v = 0" "mu_hashrate ?v = 0"
    "mu_outside ?v = s" "mu_difficulty ?u = 8"
    by (simp_all add: new_unit_def lease_round_def laneMiningDifficulty_def liveMiningDifficulty_def initial_globals_def Let_def)
  obtain v where v: "mine_pass submit (device_tick lease_tick ?h) ?v = (Inr None, v)" "mu_outside v = snd (submit sb s)"
    using lease_pass [OF unit(1-5) refl sb, of submit] submit unit(6) by auto
  have size: "bd_selected_batch_size (selectCudaBatchSize floor_division (2 ^ 30) 8 1) = 1"
    by (simp add: selectCudaBatchSize_def choose_batch_size_def estimateCudaMemoryBatchLimit_def no_decision_def
        default_reserve_bytes_def floor_division_def)
  have act: "activate sample_device = (Inr (), sample_device)" by (simp add: activate_def cuda_check_def sample_device_def)
  have r: "rd_running lease_round" "rd_free_memory lease_round = 2 ^ 30" "rd_ticks lease_round = [lease_tick]"
    by (simp_all add: lease_round_def)
  obtain h' where "mine_passes submit [lease_tick] (?v, ?h) = (Inr None, v, h')"
    using v(1) by (auto simp: bind_step_def device_pass_def ret_def)
  then have "runMineLoop floor_division 1 1 submit lease_round (?u, sample_device) = (Inr None, v, ch_cuda h')"
    using size by (simp add: runMineLoop_def shared_memory_def act r unit(7) Let_def del: mine_passes.simps)
  then show ?thesis using v(2) r(1) by (simp add: runMiningOnDevice_def act)
qed

theorem gpu_journal_genuine_witness:
  "let run = runMiningOnDevice floor_division 1 1 (submitCallback bits_fmt (\<lambda>_. sample_env None)) 0 [lease_round]
       (sample_capture empty_db, sample_device)
   in \<not> cu_crashed (snd (snd run)) \<and> (\<exists>row\<in>set (finds (ca_db (fst (snd run)))). gpu_row 0 lease_tick row)"
proof -
  let ?submit = "submitCallback bits_fmt (\<lambda>_. sample_env None)" and ?s = "sample_capture empty_db"
  define sb where "sb = \<lparr> sb_hexsalt = lease_salt, sb_key = sample_key, sb_hashed_pure = lease_hash, sb_memory_cost = 8,
       sb_attempts = 1, sb_hashrate = 0, sb_source = ''GPU'' \<rparr>"
  obtain phc where phc: "assemblePhc (sb_memory_cost sb) (sb_hexsalt sb) (sb_hashed_pure sb) = Inr phc"
    by (simp add: sb_def lease_salt_def assemblePhc_def hexToBytes_def hex_nibble_def code_def Let_def)
  have fresh: "finds (ca_db ?s) = []" by (simp add: sample_capture_def empty_db_def)
  have found: "finds (ca_db (snd (?submit sb ?s))) \<noteq> []" "fst (?submit sb ?s) = Inr ()"
    using phc by (simp_all add: submitCallback_def persist_find_def sample_env_def append_find_def fresh Let_def)
  obtain c' where run: "runMiningOnDevice floor_division 1 1 ?submit 0 [lease_round] (?s, sample_device)
      = (Inr (), snd (?submit sb ?s), c')"
    using lease_run [where submit = ?submit, OF sb_def found(2)] by blast
  have "\<not> cu_crashed c' \<and> (\<forall>row\<in>set (finds (ca_db (snd (?submit sb ?s)))). row \<in> set (finds (ca_db ?s)) \<or>
       (\<exists>r\<in>set [lease_round]. \<exists>t\<in>set (rd_ticks r). gpu_row 0 t row))"
    by (rule gpu_journal_genuine [OF floor_division_sound _ _ run]) (simp_all add: lease_sound sample_device_def)
  then have "\<not> cu_crashed c'" "\<forall>row\<in>set (finds (ca_db (snd (?submit sb ?s)))). gpu_row 0 lease_tick row"
    by (simp_all add: fresh lease_round_def)
  with found(1) show ?thesis unfolding run Let_def by (auto simp: neq_Nil_conv)
qed

end
