(* ===== verification/Gpu_Selftest.thy ===== *)
theory Gpu_Selftest
  imports Cuda_Batch Mining_Globals Cpu_Worker
begin

text \<open>
  The check of the devices before mining starts: the comparison of a device with the CPU reference
  (\<open>hashapi/HashApiSelfTest.cpp\<close>), the comparison of the launch geometries
  (\<open>hashapi/WarpsPerBlockGolden.cpp\<close>) and the loop of \<open>src/main.cpp\<close> that keeps the devices that pass.
  The device under test is an argument, since the check is there for devices whose kernels are wrong.
\<close>

section \<open>The comparison with the CPU\<close>

definition kSelfTestDifficulty :: u32 where "kSelfTestDifficulty = 8"

definition kSelfTestSalt :: string where "kSelfTestSalt = ''e4bb184781bbc9c7004e8dafd4a9b49d203bc9bc''"

definition kSelfTestKey :: string where
  "kSelfTestKey = ''52a13632690c0d5a7e528c91c8462f9d68d24975d4f80cc64d20504063f3590f''"

definition phcDigest :: "string \<Rightarrow> string" where
  "phcDigest phc = (case after_last_dollar phc of None \<Rightarrow> [] | Some digest \<Rightarrow> digest)"

definition requestFor :: "string \<Rightarrow> int \<Rightarrow> bool \<Rightarrow> HashApiRequest" where
  "requestFor backend device_id gpu_first_blocks = default_request
     \<lparr> rq_backend := backend, rq_salt_hex := kSelfTestSalt, rq_key := kSelfTestKey,
       rq_target_pattern := ''SELFTEST-NO-MATCH'', rq_difficulty := kSelfTestDifficulty, rq_batch_size := 1,
       rq_device_id := device_id, rq_allow_xuni := False, rq_gpu_first_blocks := gpu_first_blocks \<rparr>"

record HashApiSelfTestResult =
  st_ok :: bool
  st_error :: string

definition self_test_failed :: "string \<Rightarrow> HashApiSelfTestResult" where
  "self_test_failed e = \<lparr> st_ok = False, st_error = e \<rparr>"

definition runCpuCudaSelfTest ::
  "(HashApiRequest \<Rightarrow> HashApiResult) \<Rightarrow> (HashApiRequest \<Rightarrow> 'h \<Rightarrow> HashApiResult \<times> 'h) \<Rightarrow> int \<Rightarrow> bool \<Rightarrow> 'h \<Rightarrow>
   HashApiSelfTestResult \<times> 'h" where
  "runCpuCudaSelfTest cpu cuda device_id gpu_first_blocks h =
     (let cpu_result = cpu (requestFor ''cpu'' device_id False) in
      if \<not> rs_ok cpu_result then (self_test_failed (''CPU reference failed: '' @ rs_error cpu_result), h)
      else
        let expected_digest = phcDigest (rs_hash cpu_result) in
        if expected_digest = [] then (self_test_failed ''CPU reference returned an invalid PHC string'', h)
        else
          case cuda (requestFor ''cuda'' device_id gpu_first_blocks) h of
            (cuda_result, h') \<Rightarrow>
              if \<not> rs_ok cuda_result then (self_test_failed (''CUDA computation failed: '' @ rs_error cuda_result), h')
              else if rs_hash cuda_result = [] then (self_test_failed ''CUDA computation returned an empty digest'', h')
              else if rs_hash cuda_result \<noteq> expected_digest
              then (self_test_failed (''CPU/CUDA Argon2 digest mismatch (gpu_first_blocks='' @
                      (if gpu_first_blocks then ''true'' else ''false'') @ '')''), h')
              else (\<lparr> st_ok = True, st_error = [] \<rparr>, h'))"

section \<open>The comparison of the launch geometries\<close>

definition kGoldenJobs :: nat where "kGoldenJobs = 8"

definition kGoldenDifficulty :: u64 where "kGoldenDifficulty = 8"

definition kGoldenSalt :: string where "kGoldenSalt = ''e4bb184781bbc9c7004e8dafd4a9b49d203bc9bc''"

definition keyForJob :: "nat \<Rightarrow> string" where
  "keyForJob job = (replicate 64 (CHR ''a''))[62 := ''0123456789abcdef'' ! (job div 16), 63 := ''0123456789abcdef'' ! (job mod 16)]"

definition fillInputs :: "Argon2Params \<Rightarrow> (cuda, unit) step" where
  "fillInputs params = for_each (\<lambda>job. fillPasswordBlock params (word_of_nat job) (keyForJob job)) [0..<kGoldenJobs]"

definition captureOutputs :: "(cuda, byte list) step" where
  "captureOutputs =
     bind_step self (\<lambda>r.
     let offset = (\<lambda>job. unat (getOutputMemory (word_of_nat job))) in
     if \<forall>job\<in>set [0..<kGoldenJobs]. offset job + ARGON2_BLOCK_SIZE \<le> length (kr_blocksOut r)
     then ret (concat (map (\<lambda>job. take ARGON2_BLOCK_SIZE (drop (offset job) (kr_blocksOut r))) [0..<kGoldenJobs]))
     else crash)"

text \<open>One run of the runner, after its input was written.\<close>

definition golden_run :: "gpu_env \<Rightarrow> Argon2Params \<Rightarrow> u32 \<Rightarrow> (cuda, byte list) step" where
  "golden_run env params warps =
     seq_step (fillInputs params)
     (seq_step (kr_setWarpsPerBlock warps)
     (seq_step (kr_run env)
     (seq_step kr_finish
     captureOutputs)))"

definition golden_params :: Argon2Params where
  "golden_params = make_params ARGON2_ID ARGON2_VERSION_13 64 kGoldenSalt [] [] 1 kGoldenDifficulty 1"

definition golden_runs :: "gpu_env \<Rightarrow> u32 \<Rightarrow> (cuda, byte list \<times> byte list) step" where
  "golden_runs env warps =
     seq_step (cuda_check True)
     (seq_step (modify (\<lambda>s. s \<lparr> cu_runner := Some (new_runner ARGON2_ID ARGON2_VERSION_13 1 1
        (ap_segmentBlocks golden_params) (word_of_nat kGoldenJobs)) \<rparr>))
     (seq_step (kr_init env (word_of_nat kGoldenJobs))
     (bind_step (golden_run env golden_params kDefaultWarpsPerBlock) (\<lambda>baseline.
      bind_step (golden_run env golden_params warps) (\<lambda>packed.
      ret (baseline, packed))))))"

record WarpsGoldenResult =
  wg_ok :: bool
  wg_error :: string
  wg_jobs :: nat
  wg_warps_per_block :: u32

text \<open>The two outputs come from the device under test; the runner is a local variable.\<close>

definition runWarpsPerBlockGolden ::
  "(u32 \<Rightarrow> (cuda, byte list \<times> byte list) step) \<Rightarrow> u32 \<Rightarrow> cuda \<Rightarrow> WarpsGoldenResult \<times> cuda" where
  "runWarpsPerBlockGolden runs warps_per_block c =
     (let result = \<lparr> wg_ok = False, wg_error = [], wg_jobs = kGoldenJobs,
            wg_warps_per_block = resolveWarpsPerBlock (ucast warps_per_block) \<rparr> in
      if wg_warps_per_block result \<le> 1 then (result \<lparr> wg_ok := True \<rparr>, c)
      else if wg_warps_per_block result = 0 then (result \<lparr> wg_error := ''warps_per_block exceeds maximum of 16'' \<rparr>, c)
      else
        case runs (wg_warps_per_block result) (c \<lparr> cu_runner := None \<rparr>) of
          (x, c') \<Rightarrow>
            (case x of
               Inl e \<Rightarrow> result \<lparr> wg_error := e \<rparr>
             | Inr (baseline, packed) \<Rightarrow>
                 if baseline \<noteq> packed
                 then result \<lparr> wg_error := ''oneshot output mismatch between warps_per_block=1 and warps_per_block='' @
                        to_dec (unat (wg_warps_per_block result)) \<rparr>
                 else result \<lparr> wg_ok := True \<rparr>,
             c' \<lparr> cu_runner := cu_runner c \<rparr>))"

section \<open>The devices that may mine\<close>

text \<open>A device as the check meets it: \<open>dp_unusable\<close> is what the constructor of \<open>CudaBackend\<close> throws.\<close>

record device_probe =
  dp_index :: int
  dp_unusable :: "string option"
  dp_cuda :: cuda
  dp_batch :: "HashApiRequest \<Rightarrow> CudaHashBackend \<Rightarrow> HashApiResult \<times> CudaHashBackend"
  dp_golden :: "u32 \<Rightarrow> (cuda, byte list \<times> byte list) step"

definition qualify_device ::
  "(HashApiRequest \<Rightarrow> HashApiResult) \<Rightarrow> u64 \<Rightarrow> device_probe \<Rightarrow> mining_globals \<Rightarrow> bool \<times> mining_globals" where
  "qualify_device cpu warps p g =
     (if dp_unusable p \<noteq> None then (False, g)
      else
        case runCpuCudaSelfTest cpu (dp_batch p) (dp_index p) kGpuFirstBlocksEnabled (new_backend (dp_cuda p)) of
          (selfTest, h1) \<Rightarrow>
            if \<not> st_ok selfTest then (False, g)
            else
              let (golden, c2) = (if 1 < warps then map_prod wg_ok id (runWarpsPerBlockGolden (dp_golden p) (ucast warps) (ch_cuda h1))
                                  else (True, ch_cuda h1))
              in if \<not> golden then (False, g)
                 else if kGpuFirstBlocksEnabled then (True, setGpuFirstBlocksVerified (dp_index p) True g)
                 else let (firstBlocks, _) = runCpuCudaSelfTest cpu (dp_batch p) (dp_index p) True (h1 \<lparr> ch_cuda := c2 \<rparr>)
                      in (True, setGpuFirstBlocksVerified (dp_index p) (st_ok firstBlocks) g))"

fun qualify_devices ::
  "(HashApiRequest \<Rightarrow> HashApiResult) \<Rightarrow> u64 \<Rightarrow> device_probe list \<Rightarrow> mining_globals \<Rightarrow> int list \<times> mining_globals" where
  "qualify_devices cpu warps [] g = ([], g)"
| "qualify_devices cpu warps (p # ps) g =
     (let (ok, g1) = qualify_device cpu warps p g;
          (miningDevices, g2) = qualify_devices cpu warps ps g1
      in (if ok then dp_index p # miningDevices else miningDevices, g2))"

definition select_devices ::
  "(HashApiRequest \<Rightarrow> HashApiResult) \<Rightarrow> u64 \<Rightarrow> device_probe list \<Rightarrow> mining_globals \<Rightarrow> (string + int list) \<times> mining_globals" where
  "select_devices cpu warps probes g =
     (case qualify_devices cpu warps probes g of
        (miningDevices, g') \<Rightarrow>
          (if miningDevices = [] then Inl ''FATAL: no GPU passed the startup Argon2 CPU/CUDA self-test. Mining was not started.'' else Inr miningDevices, g'))"

section \<open>A healthy device\<close>

lemma golden_params_batch: "golden_params = batch_params kGoldenSalt 8"
  by (simp add: golden_params_def batch_params_def kGoldenDifficulty_def kDefaultHashLength_def)

lemma trip_fill_one:
  assumes "fillFirstBlocks params (password_bytes key) = Inr bytes" and "length bytes = 2048" and "j < n" and "n < 2 ^ 32"
    and "length (kr_blocksIn r) = n * 2048"
  shows "trip q c r (fillPasswordBlock params (word_of_nat j) key) () (r \<lparr> kr_blocksIn := memcpy_at (kr_blocksIn r) (j * 2048) bytes \<rparr>)"
proof -
  have "unat (getInputMemory (word_of_nat j)) = j * 2048"
  proof -
    have "(word_of_nat j * 2048 :: u64) = word_of_nat (j * 2048)" by simp
    then show ?thesis using assms(3,4)
      by (simp add: getInputMemory_def ARGON2_BLOCK_SIZE_def unat_of_nat del: of_nat_mult)
  qed
  then show ?thesis unfolding fillPasswordBlock_def
    by (intro trip_bind [OF trip_self]) (use assms in \<open>auto simp: Let_def intro!: trip_modify\<close>)
qed

lemma trip_fill:
  assumes "\<And>j. fillFirstBlocks params (password_bytes (key j)) = Inr (blocks j)" and "\<And>j. length (blocks j) = 2048" and "n < 2 ^ 32"
  shows "length (kr_blocksIn r) = n * 2048 \<Longrightarrow> set js \<subseteq> {..<n} \<Longrightarrow> distinct js \<Longrightarrow>
    \<exists>bs. trip q c r (for_each (\<lambda>j. fillPasswordBlock params (word_of_nat j) (key j)) js) () (r \<lparr> kr_blocksIn := bs \<rparr>) \<and>
      length bs = n * 2048 \<and> (\<forall>j<n. slot_of bs j = (if j \<in> set js then blocks j else slot_of (kr_blocksIn r) j))"
proof (induction js arbitrary: r)
  case Nil
  have "r \<lparr> kr_blocksIn := kr_blocksIn r \<rparr> = r" by simp
  then show ?case using Nil trip_ret [of q c r "()"] by (intro exI [of _ "kr_blocksIn r"]) simp
next
  case (Cons j js)
  let ?bs = "memcpy_at (kr_blocksIn r) (j * 2048) (blocks j)" and ?fill = "\<lambda>j. fillPasswordBlock params (word_of_nat j) (key j)"
  have j: "j < n" using Cons.prems(2) by simp
  then have "Suc j * 2048 \<le> n * 2048" by (intro mult_le_mono1) simp
  then have len: "length ?bs = n * 2048" using Cons.prems(1) assms(2) by (subst memcpy_length) simp_all
  obtain bs where bs: "trip q c (r \<lparr> kr_blocksIn := ?bs \<rparr>) (for_each ?fill js) () (r \<lparr> kr_blocksIn := bs \<rparr>)"
    "length bs = n * 2048" "\<forall>i<n. slot_of bs i = (if i \<in> set js then blocks i else slot_of ?bs i)"
    using Cons.IH [of "r \<lparr> kr_blocksIn := ?bs \<rparr>"] Cons.prems(2,3) len by auto
  have "trip q c r (for_each ?fill (j # js)) () (r \<lparr> kr_blocksIn := bs \<rparr>)"
    using trip_seq [OF trip_fill_one [OF assms(1,2) j assms(3) Cons.prems(1)] bs(1)] by simp
  moreover have "slot_of ?bs i = (if i = j then blocks j else slot_of (kr_blocksIn r) i)" if "i < n" for i
    by (rule slot_memcpy [OF assms(2) Cons.prems(1) j that])
  ultimately show ?case using bs(2,3) Cons.prems(3) by (intro exI [of _ bs]) auto
qed

definition golden_keys :: "string list" where "golden_keys = map keyForJob [0..<kGoldenJobs]"

definition golden_salt :: "byte list" where "golden_salt = projr (hexToBytes kGoldenSalt)"

definition golden_output :: "byte list" where
  "golden_output = concat (map (\<lambda>k. block_bytes (tag_block 8 golden_salt k)) golden_keys)"

lemma golden_salt_text: "hexToBytes kGoldenSalt = Inr golden_salt"
proof -
  have "isHexText kGoldenSalt" "length kGoldenSalt mod 2 = 0"
    by (simp_all add: kGoldenSalt_def isHexText_def hex_nibble_def code_def list_all_iff)
  from hexstr_pairs [OF this(2,1)] show ?thesis by (auto simp: golden_salt_def)
qed

text \<open>The shape of the runner: eight jobs at memory cost 8.\<close>

definition golden_ready :: "KernelRunner \<Rightarrow> bool" where
  "golden_ready r = (runner_ok r \<and> kr_batchSize r = word_of_nat kGoldenJobs \<and>
     kr_segmentBlocks r = ap_segmentBlocks golden_params \<and> \<not> kr_deviceFirstBlocksReady r)"

lemma trip_capture:
  assumes "length (kr_blocksOut r) = kGoldenJobs * 1024"
  shows "trip q c r captureOutputs (kr_blocksOut r) r"
proof -
  have off: "unat (getOutputMemory (word_of_nat job)) = job * 1024" if "job < kGoldenJobs" for job
  proof -
    have "(word_of_nat job * 1024 :: u64) = word_of_nat (job * 1024)" by simp
    then show ?thesis using that
      by (simp add: getOutputMemory_def ARGON2_BLOCK_SIZE_def unat_of_nat kGoldenJobs_def del: of_nat_mult)
  qed
  have take: "concat (map (\<lambda>job. take 1024 (drop (job * 1024) out)) [0..<n]) = out" if "length out = n * 1024" for out :: "byte list" and n
    using that
  proof (induction n arbitrary: out)
    case (Suc n)
    have "map (\<lambda>job. take 1024 (drop (job * 1024) out)) [0..<Suc n] =
        take 1024 out # map (\<lambda>job. take 1024 (drop (job * 1024) (drop 1024 out))) [0..<n]"
      by (simp only: upt_conv_Cons [OF zero_less_Suc] list.map map_Suc_upt [symmetric] map_map) (simp add: comp_def add.commute)
    then show ?case using Suc.IH [of "drop 1024 out"] Suc.prems by simp
  qed simp
  have same: "map (\<lambda>job. take 1024 (drop (unat (getOutputMemory (word_of_nat job))) (kr_blocksOut r))) [0..<kGoldenJobs] =
      map (\<lambda>job. take 1024 (drop (job * 1024) (kr_blocksOut r))) [0..<kGoldenJobs]"
    by (rule map_cong) (simp_all add: off)
  have "concat (map (\<lambda>job. take 1024 (drop (unat (getOutputMemory (word_of_nat job))) (kr_blocksOut r))) [0..<kGoldenJobs]) = kr_blocksOut r"
    unfolding same by (rule take [OF assms])
  moreover have "\<forall>job\<in>set [0..<kGoldenJobs]. unat (getOutputMemory (word_of_nat job)) + 1024 \<le> length (kr_blocksOut r)"
    using assms off by auto
  ultimately show ?thesis unfolding captureOutputs_def
    by (intro trip_bind [OF trip_self]) (simp add: Let_def ARGON2_BLOCK_SIZE_def trip_ret)
qed

lemma trip_golden:
  assumes r: "golden_ready r" and w: "1 \<le> unat warps" "unat warps \<le> 16" and stack: "length (dv_buf (ge_stack env)) = 128"
  shows "\<exists>r'. trip q c r (golden_run env golden_params warps) golden_output r' \<and> golden_ready r'"
proof -
  have jobs: "unat (word_of_nat kGoldenJobs :: u64) = kGoldenJobs" by (simp add: kGoldenJobs_def)
  have len: "length (kr_blocksIn r) = kGoldenJobs * 2048"
    using r jobs by (simp add: golden_ready_def runner_ok_def sizes_ok_def)
  obtain bs where fill: "trip q c r (fillInputs golden_params) () (r \<lparr> kr_blocksIn := bs \<rparr>)" "length bs = kGoldenJobs * 2048"
    "\<forall>j<kGoldenJobs. slot_of bs j = key_blocks 8 golden_salt (keyForJob j)"
  proof -
    have "\<exists>bs. trip q c r (fillInputs golden_params) () (r \<lparr> kr_blocksIn := bs \<rparr>) \<and> length bs = kGoldenJobs * 2048 \<and>
        (\<forall>j<kGoldenJobs. slot_of bs j = (if j \<in> set [0..<kGoldenJobs] then key_blocks 8 golden_salt (keyForJob j) else slot_of (kr_blocksIn r) j))"
      unfolding fillInputs_def
      by (rule trip_fill [OF _ key_blocks_words(1) _ len])
        (auto simp: golden_params_batch host_key_blocks [OF golden_salt_text] kGoldenJobs_def)
    then show thesis using that by auto
  qed
  define r2 where "r2 = r \<lparr> kr_blocksIn := bs, kr_warpsPerBlock := warps \<rparr>"
  have ok: "runner_ok r2" and size: "unat (kr_batchSize r2) = length golden_keys"
    using r fill(2) jobs by (auto simp: r2_def golden_ready_def runner_ok_def sizes_ok_def memory_ok_def refs_ok_def golden_keys_def)
  have seg: "unat (kr_segmentBlocks r2) = max (unat (8 :: u32)) 8 div 4"
    using r by (simp add: r2_def golden_ready_def golden_params_batch batch_segment)
  have ready: "input_ready 8 golden_salt golden_keys r2"
    using r fill(3) by (simp add: input_ready_def r2_def golden_ready_def golden_keys_def)
  obtain r3 where r3: "trip q c r2 (kr_run env) () r3" "runner_ok r3" "same_shape r2 r3" "\<not> kr_deviceFirstBlocksReady r3"
    "kr_blocksOut r3 = golden_output"
    using trip_tags [OF ok _ _ size seg ready stack] w by (auto simp: r2_def golden_output_def)
  have g3: "golden_ready r3" using r r3 by (simp add: golden_ready_def same_shape_def r2_def)
  then have "length (kr_blocksOut r3) = kGoldenJobs * 1024" using jobs by (simp add: golden_ready_def runner_ok_def sizes_ok_def)
  from trip_capture [OF this, of q c] have capture: "trip q c r3 captureOutputs golden_output r3" by (simp add: r3(5))
  have ev: "ev \<in> set (kr_events r3)" for ev using r3(2) event_ok by (simp add: runner_ok_def)
  have finish: "trip q c r3 kr_finish () r3"
    unfolding kr_finish_def by (intro trip_seq [OF trip_check [OF TrueI]] trip_elapsed ev)
  have set_warps: "trip q c (r \<lparr> kr_blocksIn := bs \<rparr>) (kr_setWarpsPerBlock warps) () r2"
    unfolding kr_setWarpsPerBlock_def by (rule trip_modify) (simp add: r2_def warps_in_range [OF w])
  have "trip q c r (golden_run env golden_params warps) golden_output r3"
    unfolding golden_run_def by (rule trip_seq [OF fill(1) trip_seq [OF set_warps trip_seq [OF r3(1) trip_seq [OF finish capture]]]])
  with g3 show ?thesis by blast
qed

lemma golden_runs_agree:
  assumes c: "\<not> cu_crashed c" "quiet (cu_calls c)" and w: "1 \<le> unat warps" "unat warps \<le> 16"
    and stack: "length (dv_buf (ge_stack env)) = 128"
  shows "\<exists>c'. golden_runs env warps c = (Inr (golden_output, golden_output), c') \<and> \<not> cu_crashed c' \<and> quiet (cu_calls c')"
proof -
  let ?r = "new_runner ARGON2_ID ARGON2_VERSION_13 1 1 (ap_segmentBlocks golden_params) (word_of_nat kGoldenJobs)"
  obtain c1 where c1: "cuda_check True c = (Inr (), c1)" "\<not> cu_crashed c1" "quiet (cu_calls c1)"
    using c by (cases "cu_calls c") (simp_all add: cuda_check_def quiet_def)
  have jobs: "unat (word_of_nat kGoldenJobs :: u64) = 8" by (simp add: kGoldenJobs_def)
  have seg: "unat (ap_segmentBlocks golden_params) = 2" by (simp add: golden_params_batch batch_segment)
  have "batch_fits 8 2" by (simp add: batch_fits_def)
  then obtain r where r: "trip True c1 ?r (kr_init env (word_of_nat kGoldenJobs)) () r" "golden_ready r"
    using trip_init [of "word_of_nat kGoldenJobs" "ap_segmentBlocks golden_params" True c1 ARGON2_ID ARGON2_VERSION_13 1 env] jobs seg
    by (auto simp: golden_ready_def)
  have one: "1 \<le> unat kDefaultWarpsPerBlock" "unat kDefaultWarpsPerBlock \<le> 16" by (simp_all add: kDefaultWarpsPerBlock_def)
  obtain r2 where r2: "trip True c1 r (golden_run env golden_params kDefaultWarpsPerBlock) golden_output r2" "golden_ready r2"
    using trip_golden [OF r(2) one stack] by blast
  obtain r3 where r3: "trip True c1 r2 (golden_run env golden_params warps) golden_output r3" "golden_ready r3"
    using trip_golden [OF r2(2) w stack] by blast
  let ?rest = "seq_step (kr_init env (word_of_nat kGoldenJobs))
     (bind_step (golden_run env golden_params kDefaultWarpsPerBlock) (\<lambda>baseline.
      bind_step (golden_run env golden_params warps) (\<lambda>packed. ret (baseline, packed))))"
  have "trip True c1 ?r ?rest (golden_output, golden_output) r3"
    by (rule trip_seq [OF r(1) trip_bind [OF r2(1) trip_bind [OF r3(1) trip_ret]]])
  moreover have "on True c1 ?r (c1 \<lparr> cu_runner := Some ?r \<rparr>)" using c1 by (simp add: on_def)
  ultimately have w: "wp ?rest (\<lambda>x t. x = (golden_output, golden_output) \<and> on True c1 r3 t) (failed True) (c1 \<lparr> cu_runner := Some ?r \<rparr>)"
    unfolding trip_def by blast
  have go: "seq_step m n s = n t" if "m s = (Inr u, t)" for m :: "(cuda, unit) step" and n :: "(cuda, byte list \<times> byte list) step" and s t u
    by (simp add: seq_step_def bind_step_def that)
  have "modify (\<lambda>s. s \<lparr> cu_runner := Some ?r \<rparr>) c1 = (Inr (), c1 \<lparr> cu_runner := Some ?r \<rparr>)" by (simp add: modify_def)
  then have "golden_runs env warps c = ?rest (c1 \<lparr> cu_runner := Some ?r \<rparr>)"
    unfolding golden_runs_def go [where m = "cuda_check True" and s = c, OF c1(1)]
    by (intro go [where m = "modify _"])
  moreover obtain x t where "?rest (c1 \<lparr> cu_runner := Some ?r \<rparr>) = (x, t)" by (cases "?rest (c1 \<lparr> cu_runner := Some ?r \<rparr>)")
  ultimately show ?thesis using w by (cases x) (simp_all add: wp_def on_def failed_def)
qed

text \<open>The library of the reference: it computes Argon2id as RFC 9106 has it and writes PHC strings.\<close>

definition rfc_library :: "argon2_library \<Rightarrow> bool" where
  "rfc_library argon2 = (\<forall>m salt k. 8 \<le> m \<longrightarrow>
     argon2 m salt k = Some (phc_parameters m @ base64Encode salt @ ''$'' @ argon2id_hash m salt k))"

definition self_test_hash :: string where
  "self_test_hash = argon2id_hash 8 (projr (hexToBytes kSelfTestSalt)) kSelfTestKey"

lemma self_test_text:
  "normalizeHex kSelfTestSalt = kSelfTestSalt" "isHexText kSelfTestSalt" "length kSelfTestSalt = 40"
  "normalizeHex kSelfTestKey = kSelfTestKey" "isHexText kSelfTestKey" "length kSelfTestKey = 64"
  by (simp_all add: kSelfTestSalt_def kSelfTestKey_def normalizeHex_def isHexText_def hex_nibble_def tolower_def isupper_def
      code_def Let_def list_all_iff)

lemma self_test_valid:
  assumes "0 \<le> i" and "backend = ''cuda'' \<or> backend = ''cpu'' \<and> \<not> gfb"
  shows "isValidRequest (requestFor backend i gfb)"
  using assms self_test_text
  by (auto simp: isValidRequest_def validateRequest_def requestFor_def default_request_def isSupportedAlgorithm_def
      isSupportedBackend_def salt_errors_def key_errors_def kHashApiKeyLength_def kMaxTargetPatternLength_def
      kMaxCpuBatchSize_def kMaxWarpsPerBlock_def kSelfTestDifficulty_def normalizeHex_def Let_def)

lemma self_test_fields [simp]:
  "rq_key (requestFor backend i gfb) = kSelfTestKey" "rq_salt_hex (requestFor backend i gfb) = kSelfTestSalt"
  "rq_difficulty (requestFor backend i gfb) = 8" "rq_backend (requestFor backend i gfb) = backend"
  "batch_attempts (requestFor backend i gfb) = 1"
  by (simp_all add: requestFor_def batch_attempts_def kSelfTestDifficulty_def)

lemma argon2id_hash_text: "argon2id_hash m salt k \<noteq> []" "CHR ''$'' \<notin> set (argon2id_hash m salt k)"
proof -
  have "length (argon2id_tag m salt (password_bytes k)) = 64" by (simp add: argon2id_tag_def Let_def variable_hash_length)
  then have "argon2id_tag m salt (password_bytes k) \<noteq> []" by (metis list.size(3) zero_neq_numeral)
  then show "argon2id_hash m salt k \<noteq> []" unfolding argon2id_hash_def by (rule base64_nonempty)
  show "CHR ''$'' \<notin> set (argon2id_hash m salt k)" unfolding argon2id_hash_def by (rule base64_no_dollar)
qed

lemma cpu_reference:
  assumes "rfc_library argon2" and "0 \<le> i"
  shows "rs_ok (CpuHashBackend_runBatch argon2 outputs rate (requestFor ''cpu'' i False))"
    and "phcDigest (rs_hash (CpuHashBackend_runBatch argon2 outputs rate (requestFor ''cpu'' i False))) = self_test_hash"
proof -
  let ?rq = "requestFor ''cpu'' i False"
  have valid: "validateRequest ?rq = []" using self_test_valid [OF assms(2), of "''cpu''" False] by (simp add: isValidRequest_def)
  obtain salt where salt: "hexstr_to_bytes kSelfTestSalt = Inr salt" "hexToBytes kSelfTestSalt = Inr salt"
    using hexstr_pairs [OF _ self_test_text(2)] self_test_text(3) by auto
  let ?hash = "phc_parameters 8 @ base64Encode salt @ ''$'' @ argon2id_hash 8 salt kSelfTestKey"
  have lib: "argon2 8 salt kSelfTestKey = Some ?hash" using assms(1) by (simp add: rfc_library_def)
  then have enc: "encoded argon2 8 salt kSelfTestKey = ?hash"
    unfolding encoded_def argon2id_hash_def by (simp only: lib option.sel argon2id_hash_def phc_text_clean)
  have key: "kSelfTestKey \<noteq> []" using self_test_text(6) by auto
  have gen: "generateHash argon2 8 salt kSelfTestKey = Inr ?hash" by (simp add: generateHash_encoded lib enc)
  have r: "rs_ok (CpuHashBackend_runBatch argon2 outputs rate ?rq) \<and>
      rs_hash (CpuHashBackend_runBatch argon2 outputs rate ?rq) = ?hash"
    by (simp add: CpuHashBackend_runBatch_def cpu_compute_def Let_def valid kMinArgon2CpuDifficulty_def self_test_text
        salt(1) key gen appendMatches_def default_result_def)
  then show "rs_ok (CpuHashBackend_runBatch argon2 outputs rate ?rq)" by blast
  have "phcDigest ?hash = argon2id_hash 8 salt kSelfTestKey"
    unfolding phcDigest_def
    using after_last_dollar_append [OF argon2id_hash_text(2), of "phc_parameters 8 @ base64Encode salt"] by simp
  then show "phcDigest (rs_hash (CpuHashBackend_runBatch argon2 outputs rate ?rq)) = self_test_hash"
    using r salt(2) by (simp add: self_test_hash_def)
qed

lemma cuda_candidate:
  assumes h: "backend_inv h" "quiet (cu_calls (ch_cuda h))" and "0 \<le> i" and "length (dv_buf (ge_stack (be_gpu env))) = 128"
    and run: "CudaHashBackend_runBatch env (requestFor ''cuda'' i gfb) h = (result, h')"
  shows "rs_ok result \<and> rs_hash result = self_test_hash \<and> \<not> cu_crashed (ch_cuda h') \<and> quiet (cu_calls (ch_cuda h'))"
  using cuda_batch_spec [OF h(1) _ self_test_valid [OF assms(3)] _ _ _ _ _ run, of True] h(2) assms(4) self_test_text
  by (auto simp: self_test_hash_def request_salt_bytes_def split: if_splits)

text \<open>A device whose kernels are those of the repository and whose calls succeed.\<close>

definition healthy :: "device_probe \<Rightarrow> bool" where
  "healthy p = (dp_unusable p = None \<and> 0 \<le> dp_index p \<and> cu_runner (dp_cuda p) = None \<and> \<not> cu_crashed (dp_cuda p) \<and>
     quiet (cu_calls (dp_cuda p)) \<and>
     (\<exists>env. length (dv_buf (ge_stack (be_gpu env))) = 128 \<and> dp_batch p = CudaHashBackend_runBatch env) \<and>
     (\<exists>env. length (dv_buf (ge_stack env)) = 128 \<and> dp_golden p = golden_runs env))"

lemma resolved_warps_16:
  fixes w :: u64
  assumes "1 < w" and "w \<le> 16"
  shows "resolveWarpsPerBlock (ucast (ucast w :: u32)) = ucast w" and "1 < (ucast w :: u32)" and "unat (ucast w :: u32) \<le> 16"
proof -
  have w: "1 < unat w" "unat w \<le> 16" using assms by (simp_all add: word_less_nat_alt word_le_nat_alt)
  then have u: "unat (ucast w :: u32) = unat w" by (simp add: unsigned_ucast_eq take_bit_nat_eq_self_iff)
  then show "1 < (ucast w :: u32)" "unat (ucast w :: u32) \<le> 16" using w by (simp_all add: word_less_nat_alt)
  have "(ucast (ucast w :: u32) :: u64) = w" by (rule word_unat_eq_iff [THEN iffD2]) (simp add: unat_ucast64 u)
  then show "resolveWarpsPerBlock (ucast (ucast w :: u32)) = ucast w"
    using assms by (auto simp: resolveWarpsPerBlock_def kMaxWarpsPerBlock_def)
qed

lemma golden_passes:
  fixes w :: u64
  assumes "\<not> cu_crashed c" "quiet (cu_calls c)" and "1 < w" "w \<le> 16" and "length (dv_buf (ge_stack env)) = 128"
  shows "wg_ok (fst (runWarpsPerBlockGolden (golden_runs env) (ucast w) c))"
proof -
  note w = resolved_warps_16 [OF assms(3,4)]
  have "1 \<le> unat (ucast w :: u32)" using w(2) by (simp add: word_less_nat_alt)
  from golden_runs_agree [of "c \<lparr> cu_runner := None \<rparr>", OF _ _ this w(3) assms(5)] assms(1,2)
  obtain c' where "golden_runs env (ucast w) (c \<lparr> cu_runner := None \<rparr>) = (Inr (golden_output, golden_output), c')" by auto
  then show ?thesis using w by (auto simp: runWarpsPerBlockGolden_def Let_def not_le)
qed

lemma healthy_qualifies:
  assumes "rfc_library argon2" and "healthy p" and "warps \<le> 16"
  shows "qualify_device (CpuHashBackend_runBatch argon2 outputs rate) warps p g = (True, setGpuFirstBlocksVerified (dp_index p) True g)"
proof -
  obtain env genv where p: "length (dv_buf (ge_stack (be_gpu env))) = 128" "dp_batch p = CudaHashBackend_runBatch env"
    "length (dv_buf (ge_stack genv)) = 128" "dp_golden p = golden_runs genv"
    using assms(2) by (auto simp: healthy_def)
  have ok: "dp_unusable p = None" "0 \<le> dp_index p" using assms(2) by (simp_all add: healthy_def)
  let ?cpu = "CpuHashBackend_runBatch argon2 outputs rate" and ?h = "new_backend (dp_cuda p)"
  have h: "backend_inv ?h" "quiet (cu_calls (ch_cuda ?h))"
    using assms(2) by (simp_all add: healthy_def backend_inv_def new_backend_def)
  obtain result h1 where run: "CudaHashBackend_runBatch env (requestFor ''cuda'' (dp_index p) kGpuFirstBlocksEnabled) ?h = (result, h1)"
    by (cases "CudaHashBackend_runBatch env (requestFor ''cuda'' (dp_index p) kGpuFirstBlocksEnabled) ?h")
  note r = cuda_candidate [OF h ok(2) p(1) run]
  have "self_test_hash \<noteq> []" by (simp add: self_test_hash_def argon2id_hash_text)
  then have test: "runCpuCudaSelfTest ?cpu (dp_batch p) (dp_index p) kGpuFirstBlocksEnabled ?h = (\<lparr> st_ok = True, st_error = [] \<rparr>, h1)"
    using cpu_reference [OF assms(1) ok(2), of outputs rate] r run by (simp add: runCpuCudaSelfTest_def Let_def p(2))
  have "wg_ok (fst (runWarpsPerBlockGolden (dp_golden p) (ucast warps) (ch_cuda h1)))" if "1 < warps"
    unfolding p(4) by (rule golden_passes) (use r that assms(3) p(3) in simp_all)
  then obtain c2 where gold: "(if 1 < warps then map_prod wg_ok id (runWarpsPerBlockGolden (dp_golden p) (ucast warps) (ch_cuda h1))
      else (True, ch_cuda h1)) = (True, c2)"
    by (cases "1 < warps"; cases "runWarpsPerBlockGolden (dp_golden p) (ucast warps) (ch_cuda h1)") auto
  show ?thesis
    unfolding qualify_device_def test prod.case Let_def gold by (simp add: ok(1)) (simp add: kGpuFirstBlocksEnabled_def)
qed

lemma qualify_verdict:
  assumes "qualify_device cpu warps p g = (ok, g')"
  shows "g' = (if ok then setGpuFirstBlocksVerified (dp_index p) True g else g)"
  using assms by (auto simp: qualify_device_def kGpuFirstBlocksEnabled_def Let_def split: prod.splits if_splits)

text \<open>What a device that is kept has shown.\<close>

definition agrees_with :: "(HashApiRequest \<Rightarrow> HashApiResult) \<Rightarrow> u64 \<Rightarrow> device_probe \<Rightarrow> bool" where
  "agrees_with cpu warps p =
     (dp_unusable p = None \<and>
      (let reference = cpu (requestFor ''cpu'' (dp_index p) False);
           result = fst (dp_batch p (requestFor ''cuda'' (dp_index p) True) (new_backend (dp_cuda p)))
       in rs_ok reference \<and> rs_ok result \<and> rs_hash result \<noteq> [] \<and> rs_hash result = phcDigest (rs_hash reference)) \<and>
      (1 < warps \<and> warps \<le> 16 \<longrightarrow>
        (\<exists>out c c'. dp_golden p (ucast warps) c = (Inr (out, out), c'))))"

lemma self_test_agrees:
  assumes "runCpuCudaSelfTest cpu cuda i gfb h = (t, h')" and "st_ok t"
  shows "rs_ok (cpu (requestFor ''cpu'' i False)) \<and> rs_ok (fst (cuda (requestFor ''cuda'' i gfb) h)) \<and>
    rs_hash (fst (cuda (requestFor ''cuda'' i gfb) h)) \<noteq> [] \<and>
    rs_hash (fst (cuda (requestFor ''cuda'' i gfb) h)) = phcDigest (rs_hash (cpu (requestFor ''cpu'' i False)))"
  using assms by (auto simp: runCpuCudaSelfTest_def self_test_failed_def Let_def split: if_splits prod.splits)

lemma golden_agrees:
  fixes w :: u64
  assumes "wg_ok (fst (runWarpsPerBlockGolden runs (ucast w) c))" and "1 < w" "w \<le> 16"
  shows "\<exists>out c c'. runs (ucast w) c = (Inr (out, out), c')"
proof -
  note w = resolved_warps_16 [OF assms(2,3)]
  obtain x c' where x: "runs (ucast w) (c \<lparr> cu_runner := None \<rparr>) = (x, c')" by (cases "runs (ucast w) (c \<lparr> cu_runner := None \<rparr>)")
  have "\<not> (ucast w :: u32) \<le> 1" "(ucast w :: u32) \<noteq> 0" using w(2) by (auto simp: not_le)
  then obtain out where "x = Inr (out, out)"
    using assms(1) w(1) x by (auto simp: runWarpsPerBlockGolden_def Let_def split: sum.splits if_splits)
  with x show ?thesis by blast
qed

lemma qualified_agrees:
  assumes "qualify_device cpu warps p g = (True, g')"
  shows "agrees_with cpu warps p"
proof -
  obtain t h1 where t: "runCpuCudaSelfTest cpu (dp_batch p) (dp_index p) kGpuFirstBlocksEnabled (new_backend (dp_cuda p)) = (t, h1)"
    by (cases "runCpuCudaSelfTest cpu (dp_batch p) (dp_index p) kGpuFirstBlocksEnabled (new_backend (dp_cuda p))")
  obtain golden c2 where "runWarpsPerBlockGolden (dp_golden p) (ucast warps) (ch_cuda h1) = (golden, c2)"
    by (cases "runWarpsPerBlockGolden (dp_golden p) (ucast warps) (ch_cuda h1)")
  then have ok: "dp_unusable p = None" "st_ok t" "1 < warps \<Longrightarrow> wg_ok (fst (runWarpsPerBlockGolden (dp_golden p) (ucast warps) (ch_cuda h1)))"
    using assms by (auto simp: qualify_device_def t Let_def split: if_splits prod.splits)
  show ?thesis
    using self_test_agrees [OF t ok(2)] ok(1,3) golden_agrees
    by (auto simp: agrees_with_def kGpuFirstBlocksEnabled_def Let_def)
qed

lemma qualify_devices_spec:
  assumes "qualify_devices cpu warps probes g = (devices, g')"
  shows "(\<forall>i\<in>set devices. \<exists>p\<in>set probes. dp_index p = i \<and> agrees_with cpu warps p) \<and>
    (\<forall>i. g_first_blocks g' i = (if i \<in> set devices then Some True else g_first_blocks g i))"
  using assms
proof (induction probes arbitrary: g devices g')
  case (Cons p ps)
  obtain ok g1 ds where q: "qualify_device cpu warps p g = (ok, g1)" "qualify_devices cpu warps ps g1 = (ds, g')"
    "devices = (if ok then dp_index p # ds else ds)"
    using Cons.prems by (auto simp: Let_def split: prod.splits)
  note IH = Cons.IH [OF q(2)]
  have "g_first_blocks g1 = (if ok then (g_first_blocks g)(dp_index p \<mapsto> True) else g_first_blocks g)"
    using qualify_verdict [OF q(1)] by (simp add: setGpuFirstBlocksVerified_def)
  moreover have "agrees_with cpu warps p" if ok using qualified_agrees q(1) that by auto
  ultimately show ?case using IH q(3) by auto
qed simp

lemma healthy_devices:
  assumes "rfc_library argon2" and "warps \<le> 16" and "\<forall>p\<in>set probes. healthy p"
  shows "fst (qualify_devices (CpuHashBackend_runBatch argon2 outputs rate) warps probes g) = map dp_index probes"
  using assms(3)
proof (induction probes arbitrary: g)
  case (Cons p ps)
  obtain ds g' where "qualify_devices (CpuHashBackend_runBatch argon2 outputs rate) warps ps (setGpuFirstBlocksVerified (dp_index p) True g) = (ds, g')"
    by (cases "qualify_devices (CpuHashBackend_runBatch argon2 outputs rate) warps ps (setGpuFirstBlocksVerified (dp_index p) True g)")
  moreover have "qualify_device (CpuHashBackend_runBatch argon2 outputs rate) warps p g = (True, setGpuFirstBlocksVerified (dp_index p) True g)"
    by (rule healthy_qualifies [OF assms(1) _ assms(2)]) (use Cons.prems in simp)
  ultimately show ?case using Cons.IH [of "setGpuFirstBlocksVerified (dp_index p) True g"] Cons.prems by simp
qed simp

section \<open>Properties\<close>

text \<open>
  C8 (no device mines unchecked): whatever the devices compute, when the start-up goes on it has at least one
  device; every device it keeps could be opened, its batch for the test key succeeded and gave exactly
  the digest of the CPU reference, and with 2 to 16 warps per block its two launch geometries gave the
  same blocks; exactly the kept devices are recorded as verified for first blocks on the device. It
  stops with an error only if no device passed.
\<close>

theorem startup_check_fails_closed:
  assumes "select_devices cpu warps probes g = (selected, g')"
  shows "case selected of
      Inr devices \<Rightarrow> devices \<noteq> [] \<and> (\<forall>i\<in>set devices. \<exists>p\<in>set probes. dp_index p = i \<and> agrees_with cpu warps p) \<and>
        (\<forall>i. g_first_blocks g' i = (if i \<in> set devices then Some True else g_first_blocks g i))
    | Inl _ \<Rightarrow> fst (qualify_devices cpu warps probes g) = [] \<and> g_first_blocks g' = g_first_blocks g"
proof -
  obtain devices g1 where q: "qualify_devices cpu warps probes g = (devices, g1)" by (cases "qualify_devices cpu warps probes g")
  from qualify_devices_spec [OF q] show ?thesis
    using assms by (auto simp: select_devices_def q fun_eq_iff split: if_splits)
qed


text \<open>Two devices behind one reference: the second gives another digest and is dropped.\<close>

definition fixed_probe :: "int \<Rightarrow> string \<Rightarrow> device_probe" where
  "fixed_probe i hash = \<lparr> dp_index = i, dp_unusable = None,
     dp_cuda = \<lparr> cu_deviceIndex = i, cu_runner = None, cu_warpsPerBlock = 1, cu_precomputedRefs = False, cu_calls = [], cu_crashed = False \<rparr>,
     dp_batch = (\<lambda>request h. (default_result \<lparr> rs_ok := True, rs_hash := hash \<rparr>, h)),
     dp_golden = (\<lambda>w c. (Inr ([], []), c)) \<rparr>"

theorem startup_check_fails_closed_witness:
  "let cpu = (\<lambda>request. default_result \<lparr> rs_ok := True, rs_hash := ''$argon2id$abc'' \<rparr>);
       (selected, g') = select_devices cpu 4 [fixed_probe 0 ''abc'', fixed_probe 1 ''abd''] initial_globals
   in selected = Inr [0] \<and> g_first_blocks g' 0 = Some True \<and> g_first_blocks g' 1 = None"
proof -
  let ?cpu = "\<lambda>request :: HashApiRequest. default_result \<lparr> rs_ok := True, rs_hash := ''$argon2id$abc'' \<rparr>"
  obtain selected g' where s: "select_devices ?cpu 4 [fixed_probe 0 ''abc'', fixed_probe 1 ''abd''] initial_globals = (selected, g')"
    by (cases "select_devices ?cpu 4 [fixed_probe 0 ''abc'', fixed_probe 1 ''abd''] initial_globals")
  have four: "\<not> (4 :: u32) \<le> 1" "(1 :: u64) < 4" "resolveWarpsPerBlock 4 = 4"
    by (simp_all add: resolveWarpsPerBlock_def kMaxWarpsPerBlock_def word_le_nat_alt word_less_nat_alt)
  from s have "selected = Inr [0]"
    by (simp add: four select_devices_def qualify_device_def fixed_probe_def runCpuCudaSelfTest_def self_test_failed_def phcDigest_def
        after_last_dollar_def runWarpsPerBlockGolden_def kGpuFirstBlocksEnabled_def
        default_result_def Let_def)
  with startup_check_fails_closed [OF s] s show ?thesis by (simp add: initial_globals_def)
qed

definition reference_argon2 :: argon2_library where
  "reference_argon2 m salt k = Some (phc_parameters m @ base64Encode salt @ ''$'' @ argon2id_hash m salt k)"


section \<open>A check that is never reached\<close>

text \<open>\<open>resolveWarpsPerBlock\<close> gives 0 for more than 16 warps, which the first test of \<open>runWarpsPerBlockGolden\<close> takes
  for a launch that needs no comparison; the error message after it is unreachable.\<close>

lemma golden_accepts_too_many_warps:
  assumes "16 < w"
  shows "runWarpsPerBlockGolden runs w c =
    (\<lparr> wg_ok = True, wg_error = [], wg_jobs = kGoldenJobs, wg_warps_per_block = 0 \<rparr>, c)"
proof -
  have "16 < (ucast w :: u64)" using assms by (simp add: word_less_nat_alt unat_ucast64)
  then have "resolveWarpsPerBlock (ucast w) = 0" by (auto simp: resolveWarpsPerBlock_def kMaxWarpsPerBlock_def)
  then show ?thesis by (simp add: runWarpsPerBlockGolden_def Let_def)
qed

end
