(* ===== verification/Spec2Isabelle.thy ===== *)
theory Spec2Isabelle
  imports Drain_Loop Platform_Safety Gpu_Stream Gpu_Selftest
begin

text \<open>
  A verification library for the C++ miner under \<open>src/treeminer/src\<close>.

  \<^bold>\<open>The program.\<close> A miner searches keys whose Argon2id hash contains a pattern. A find is worth money
  only when the server has recorded it, so the program is built around a durable queue: a find is
  written to a SQLite journal (\<open>journal/FindJournal\<close>) or, when SQLite fails, to a plain file
  (\<open>journal/FallbackSink\<close>), and one drain thread (\<open>submit/SubmissionManager\<close>) sends the journaled
  finds to the server, classifies the answers (\<open>submit/ResponseClassifier\<close>), paces itself
  (\<open>submit/DrainScheduler\<close>), stops sending while the server is down (\<open>submit/CircuitBreaker\<close>),
  raises the memory cost ahead of the server's (\<open>submit/MarginPolicy\<close>) and confirms every accepted
  find by looking it up. Finds come from CPU workers (\<open>CpuMiningWorker\<close>) and from GPU loops
  (\<open>MineUnit\<close>, \<open>runMiningOnDevice\<close>), which hash batches of keys through \<open>hashapi/\<close> at the difficulty a
  poller keeps (\<open>DifficultyManager\<close>) and hand every match to one callback in \<open>main.cpp\<close>, where it is
  captured. In marketplace mode a second client (\<open>PlatformManager\<close>) rents the rig out:
  it takes commands over MQTT, authenticates them (\<open>platform/CommandEnvelope\<close>), keeps the lease
  (\<open>LeaseManager\<close>) and switches the address the rig mines for (\<open>MiningCoordinator\<close>).

  \<^bold>\<open>How the code is modelled.\<close> Records and datatypes have the fields and constructors of the
  structs and enums; \<open>u32\<close> and \<open>u64\<close> are words; strings are byte strings. A function that cannot
  fail is a HOL function. Code that threads state through many calls, and may throw, is written in
  the step monad of \<open>Prelude\<close>: a step takes the state and returns a result or the text of the
  exception, with the state reached. Everything the program reads from outside (clocks, answers of
  the server, SQLite failures, random numbers) is a stream or an argument, so every theorem
  quantifies over it. What the program does outside is recorded in the state: the journal calls, the
  requests and the callbacks of the drain thread, the published messages of the platform client.

  \<^bold>\<open>Theories.\<close>
  \<^item> \<open>Prelude\<close>: characters, decimal and hexadecimal text, truncating division, the step monad with
    its weakest preconditions and the \<open>keeps\<close> rules (a step keeps a relation between the states
    before and after it), and the locales \<open>machine\<close> and \<open>monotone_machine\<close>: a set of events, an
    invariant and an order that every run keeps. The journal, the breaker, the scheduler, the nonce
    cache and the platform client interpret them.
  \<^item> \<open>Find_Types\<close>, \<open>Console_Log\<close>: the types of \<open>treeminer/Types.h\<close>; the console levels.
  \<^item> \<open>Response_Classifier\<close>: the JSON field scanner and \<open>classify\<close>. Which answers count as accepted,
    as retry, and that every answer gets a class.
  \<^item> \<open>Circuit_Breaker\<close>: the three-state breaker; its reachable states, its transitions, the single
    admission of HalfOpen and the exponential probe interval.
  \<^item> \<open>Drain_Scheduler\<close>: the choice of the next find, as a refinement of a declarative order, and the
    adaptive rate with its bounds.
  \<^item> \<open>Margin_Policy\<close>: the difficulty headroom in 32-bit arithmetic.
  \<^item> \<open>Civil_Time\<close>: the calendar arithmetic of \<open>SubmissionManager.cpp\<close>, ISO time stamps (string order
    is time order), HTTP dates and the XUNI window.
  \<^item> \<open>Find_Journal\<close>: each SQL statement of \<open>FindJournal.cpp\<close> as an operation on the rows of the
    finds table; an operation takes the SQLite fault (or none) that strikes it. No sequence of
    operations loses or rewrites a find.
  \<^item> \<open>Fallback_Sink\<close>: the JSONL writer and reader, append and import.
  \<^item> \<open>Submission_Manager\<close>: every function of the drain thread. \<open>Drain_Safety\<close> proves what one round
    does to the journal, \<open>Drain_Loop\<close> the properties of whole runs.
  \<^item> \<open>Hash_Encoding\<close>: base64, hexadecimal text, PHC strings; \<open>Hash_Api\<close>: validation of a request, key
    generation, matching and the CPU backend over the Argon2 library; \<open>Mining_Globals\<close>: the shared
    variables of \<open>MiningCommon.cpp\<close> and the difficulty poller.
  \<^item> \<open>Blake2b\<close>: the streaming hash object of \<open>blake2b.cpp\<close>; \<open>Argon2_Host\<close>: the parameters, the initial
    hash, the long hash and the first blocks of \<open>argon2params.cpp\<close>, against RFC 7693 and RFC 9106.
    \<open>Ref_Table\<close>: the table of references \<open>IndexedRefTable.cpp\<close> computes for the kernels.
  \<^item> \<open>Argon2_Kernel\<close>: the device functions of \<open>kernelrunner.cu\<close>, the 32 lanes of a warp in lock step, and
    both Argon2 kernels block by block, against the matrix of RFC 9106; \<open>Kernel_Launch\<close>: the launch
    grid and the interleaving of its warps on the device memory; \<open>Device_First_Blocks\<close>: the kernel that
    hashes the keys on the device, simulated by the host code.
  \<^item> \<open>Kernel_Runner\<close>: \<open>KernelRunner\<close> and \<open>CudaBackend\<close>, which own the device buffers, with every checked call
    of the CUDA runtime allowed to fail; the triples \<open>trip\<close> give each member its effect on the runner.
    \<open>First_Block_Workers\<close>: the host threads that share the first blocks of a batch, in any interleaving.
    \<open>Cuda_Batch\<close>: \<open>CudaHashBackend::runBatch\<close> from the request to the matches; its property composes the
    kernels, the workers and the runner: a GPU batch reports exactly the matches of the RFC 9106 hashes.
  \<^item> \<open>Cpu_Worker\<close>: the group of CPU workers as a machine whose events are the passes of the threads;
    every attempt is accounted for and every submission is a genuine hash. \<open>Mine_Unit\<close>: batch sizing,
    the developer fee and one pass of the GPU loop, for any hash backend.
  \<^item> \<open>Find_Capture\<close>: the submit callback and the journal part of the start-up, the composition of the
    workers, the journal and the sink: no captured find is lost across restarts, and the journal of a
    CPU miner holds genuine finds only.
  \<^item> \<open>Gpu_Stream\<close>: \<open>MineUnit::runMineLoop\<close> and \<open>runMiningOnDevice\<close> on the hash backend of \<open>Cuda_Batch\<close>, whose state
    is threaded through the passes, with the submit callback: from the kernels to the journal. What a
    GPU miner journals is genuine, and the thread never leaves its buffers.
  \<^item> \<open>Gpu_Selftest\<close>: the check of the devices at start-up, against the CPU reference and between launch
    geometries. The device under test is an argument: a device that fails is not kept, and a device with
    the kernels of the repository is never turned away.
  \<^item> \<open>Command_Envelope\<close>: signed commands and the replay cache.
  \<^item> \<open>Platform\<close>: lease, mining context, reports and every handler of \<open>PlatformManager.cpp\<close>;
    \<open>Platform_Safety\<close>: the lease invariant of every reachable state and the authentication of
    commands.

  \<^bold>\<open>Loops and bounds.\<close> Scanning loops are recursive functions with a measure on the text left. The
  drain thread and the threads of the platform client run until they are stopped; they are modelled
  by their body, and the theorems speak of any number of rounds (\<open>threadLoop n\<close>) or of any list of
  events. No definition uses fuel; after the given interleaving the first-block workers are scheduled in turn,
  four times the number of keys, which is proved to be enough for all of them to return. Threads interleave at whole handlers and whole rounds, which is
  what the mutexes of the code give; memory-model effects of the atomics are not modelled. The warps of
  a launch interleave at the blocks they write; the lanes of a warp run in lock step.

  \<^bold>\<open>Parameters.\<close> Code outside the repository is an argument: the Argon2 library (\<open>argon2_library\<close>, with
  \<open>phc_library\<close> saying that it writes PHC strings and \<open>rfc_library\<close> that it computes RFC 9106), the outcomes of the CUDA calls and the contents of
  uninitialised memory, the HMAC and Keccak digests, the JSON parser, \<open>printf\<close> and \<open>strtod\<close>
  (\<open>exact_rate\<close>: exact on a rate) and the quotient of two doubles. Doubles are bit patterns.

  \<^bold>\<open>Not modelled.\<close> Device enumeration and GPU telemetry, the HTTP and MQTT wrappers, the dashboard,
  terminal and logger, machine identity and process supervision, the command line of the hash tool,
  and the option parsing, thread creation and shutdown of \<open>main.cpp\<close>.
\<close>

end
